(* ===== verification/Prelude.thy ===== *)
theory Prelude
  imports Main "HOL-Library.Word" "HOL-Library.AList_Mapping"
begin

text \<open>
  Shared vocabulary of the development: names for the fixed-width C++ integer types, the
  result type in which exceptions, failed \<open>at()\<close> calls and undefined behaviour are
  values, and the generic facts about words, lists and results that the components use.

  A C++ \<open>std::string\<close> holds bytes, so it is a list of 8-bit words. \<open>size_t\<close> and
  \<open>uint64_t\<close> values that take part in wrapping arithmetic are 64-bit words; the length
  of a string that is held in memory is a natural number where it only bounds a loop.
\<close>

type_synonym u8 = "8 word"
type_synonym u16 = "16 word"
type_synonym u32 = "32 word"
type_synonym u64 = "64 word"
type_synonym bytes = "u8 list"

text \<open>What a C++ operation can do instead of returning; a \<open>tagged_error\<close> of
  \<open>util/exception.hh\<close> is a \<open>System_error\<close> with the attempt and the error code.\<close>

datatype cpp_error =
    Runtime_error string
  | Out_of_range string
  | Invalid_argument string
  | System_error string int
  | Undefined_behaviour string

type_synonym 'a result = "cpp_error + 'a"

definition res_bind :: "'a result \<Rightarrow> ('a \<Rightarrow> 'b result) \<Rightarrow> 'b result" where
  "res_bind r f = (case r of Inl e \<Rightarrow> Inl e | Inr x \<Rightarrow> f x)"

lemma res_bind_simps [simp]:
  "res_bind (Inl e) f = Inl e"
  "res_bind (Inr x) f = f x"
  by (simp_all add: res_bind_def)

lemma res_bind_cong [fundef_cong]:
  assumes "r = r'" and "\<And>x. r' = Inr x \<Longrightarrow> f x = f' x"
  shows "res_bind r f = res_bind r' f'"
  using assms by (cases r') (simp_all add: res_bind_def)

lemma res_bind_eq_Inr [simp]:
  "res_bind r f = Inr y \<longleftrightarrow> (\<exists>x. r = Inr x \<and> f x = Inr y)"
  by (cases r) simp_all

lemma res_bind_assoc: "res_bind (res_bind r f) g = res_bind r (\<lambda>x. res_bind (f x) g)"
  by (cases r) simp_all

lemma map_sum_eq_Inr: "map_sum id f r = Inr y \<longleftrightarrow> (\<exists>x. r = Inr x \<and> y = f x)"
  by (cases r) auto

text \<open>The facts a component proof asks for by name: invariants of states and frame
  conditions (what an operation leaves alone).\<close>

named_theorems frames \<open>what an operation leaves unchanged\<close>

subsection \<open>Lengths as 64-bit values\<close>

abbreviation len64 :: "'a list \<Rightarrow> u64" where
  "len64 xs \<equiv> of_nat (length xs)"

lemma unat_len64: "length xs < 2 ^ 64 \<Longrightarrow> unat (len64 xs) = length xs"
  by (simp add: unat_of_nat)

lemma unat_less_64 [intro]: "unat (n :: u64) < 2 ^ 64"
  using unsigned_less [of n, where 'a = nat] by simp

lemma unat_less_32 [intro]: "unat (n :: u32) < 2 ^ 32"
  using unsigned_less [of n, where 'a = nat] by simp

lemma unat_less_16 [intro]: "unat (n :: u16) < 2 ^ 16"
  using unsigned_less [of n, where 'a = nat] by simp

lemma unat_less_8 [intro]: "unat (n :: u8) < 2 ^ 8"
  using unsigned_less [of n, where 'a = nat] by simp

lemma unat_of_nat_64: "n < 2 ^ 64 \<Longrightarrow> unat (of_nat n :: u64) = n"
  by (simp add: unat_of_nat)

lemma of_nat_unat_id: "of_nat (unat (w :: 'a::len word)) = w"
  by simp

lemma unat_min: "unat (min a b) = min (unat a) (unat b)"
  by (simp add: min_def word_le_nat_alt)

lemma unat_minus_of_bool: "(w :: 'a::len word) \<noteq> 0 \<Longrightarrow> unat (w - of_bool b) = unat w - of_bool b"
  by (cases b) (simp_all add: unat_minus_one)

lemma unat_minus_1_64: "unat (- 1 :: u64) = 2 ^ 64 - 1"
  by (simp add: unsigned_minus_1_eq_mask mask_eq_exp_minus_1)

lemma unat_ucast_mod: "unat (ucast (w :: 'a::len word) :: 'b::len word) = unat w mod 2 ^ LENGTH('b)"
  by (simp add: unsigned_ucast_eq take_bit_eq_mod)

lemma unat_len64_le: "length xs \<le> unat (n :: u64) \<Longrightarrow> unat (len64 xs) = length xs"
  using unat_less_64 [of n] by (intro unat_len64) simp

lemma len64_eq_iff: "length xs \<le> unat (n :: u64) \<Longrightarrow> (len64 xs = 0) = (xs = [])"
  by (metis length_0_conv unat_0 unat_eq_zero unat_len64_le of_nat_0)

lemma unat_minus_le: "(b :: 'a::len word) \<le> a \<Longrightarrow> unat (a - b) = unat a - unat b"
  by (simp add: unat_sub)

lemma unat_plus_no_overflow:
  "unat (a :: 'a::len word) + unat b < 2 ^ LENGTH('a) \<Longrightarrow> unat (a + b) = unat a + unat b"
  by (simp add: unat_word_ariths)

subsection \<open>Lists\<close>

lemma drop_take_append_take:
  "i \<le> j \<Longrightarrow> take (j - i) (drop i xs) @ take n (drop j xs) = take (j + n - i) (drop i xs)"
proof -
  assume "i \<le> j"
  then have "take (j + n - i) (drop i xs) = take ((j - i) + n) (drop i xs)"
    by simp
  also have "\<dots> = take (j - i) (drop i xs) @ take n (drop (j - i) (drop i xs))"
    by (rule take_add)
  also have "drop (j - i) (drop i xs) = drop j xs"
    using \<open>i \<le> j\<close> by simp
  finally show ?thesis by simp
qed

lemma sum_list_eq_0_nat: "sum_list (map f xs) = (0::nat) \<longleftrightarrow> (\<forall>x\<in>set xs. f x = 0)"
  by (induction xs) auto

subsection \<open>Runs of a state machine\<close>

text \<open>A step may emit outputs; a run collects them in order.\<close>

inductive runs :: "('s \<Rightarrow> 'o list \<Rightarrow> 's \<Rightarrow> bool) \<Rightarrow> 's \<Rightarrow> 'o list \<Rightarrow> 's \<Rightarrow> bool" for step where
  start: "runs step s [] s"
| step: "runs step s log s' \<Longrightarrow> step s' out s'' \<Longrightarrow> runs step s (log @ out) s''"

text \<open>The contract of a component whose steps keep an invariant and whose outputs, once
  emitted, stay good for the later states.\<close>

locale step_invariant =
  fixes step :: "'s \<Rightarrow> 'o list \<Rightarrow> 's \<Rightarrow> bool" and inv :: "'s \<Rightarrow> bool" and good :: "'s \<Rightarrow> 'o \<Rightarrow> bool"
  assumes keep: "step s out s' \<Longrightarrow> inv s \<Longrightarrow> inv s'"
    and emit: "step s out s' \<Longrightarrow> inv s \<Longrightarrow> x \<in> set out \<Longrightarrow> good s' x"
    and stay: "step s out s' \<Longrightarrow> inv s \<Longrightarrow> good s x \<Longrightarrow> good s' x"
begin

lemma run_inv: "runs step s log s' \<Longrightarrow> inv s \<Longrightarrow> inv s'"
  by (induction rule: runs.induct) (auto intro: keep)

lemma run_outputs: "runs step s log s' \<Longrightarrow> inv s \<Longrightarrow> x \<in> set log \<Longrightarrow> good s' x"
proof (induction rule: runs.induct)
  case (step s log s' out s'')
  then show ?case using emit stay run_inv [OF step(1)] by (metis Un_iff set_append)
qed simp

end

end
