(* ===== verification/Text.thy ===== *)
theory Text
  imports Prelude
begin

text \<open>
  Numbers as text: what the code prints and reads through the standard library. \<open>dec_nat\<close>
  is \<open>std::to_string\<close> of an unsigned number, \<open>stoi\<close> reads a decimal number at the start of a string
  and \<open>inet_ntoa\<close> is the dotted form of an IPv4 address, given in host byte order.
\<close>

definition dec_digit :: "nat \<Rightarrow> char" where
  "dec_digit n = ''0123456789'' ! n"

fun dec_nat :: "nat \<Rightarrow> string" where
  "dec_nat n = (if n < 10 then [dec_digit n] else dec_nat (n div 10) @ [dec_digit (n mod 10)])"

declare dec_nat.simps [simp del]

definition is_digit :: "char \<Rightarrow> bool" where
  "is_digit c \<longleftrightarrow> of_char c \<ge> (48 :: nat) \<and> of_char c \<le> (57 :: nat)"

definition decimal :: "string \<Rightarrow> nat" where
  "decimal s = foldl (\<lambda>n c. 10 * n + (of_char c - 48)) 0 s"

text \<open>\<open>isspace\<close> in the C locale, and the sign that may precede the digits.\<close>

definition is_space :: "char \<Rightarrow> bool" where
  "is_space c \<longleftrightarrow> of_char c = (32 :: nat) \<or> of_char c \<ge> (9 :: nat) \<and> of_char c \<le> (13 :: nat)"

fun signed :: "string \<Rightarrow> bool \<times> string" where
  "signed [] = (False, [])"
| "signed (c # s) = (if c = CHR ''-'' then (True, s) else if c = CHR ''+'' then (False, s) else (False, c # s))"

definition stoi :: "string \<Rightarrow> int result" where
  "stoi s = (let (negative, s) = signed (dropWhile is_space s); digits = takeWhile is_digit s
     in if digits = [] then Inl (Invalid_argument ''stoi'')
        else let n = (if negative then - int (decimal digits) else int (decimal digits))
        in if n < - (2 ^ 31) \<or> n \<ge> 2 ^ 31 then Inl (Out_of_range ''stoi'') else Inr n)"

text \<open>Whether \<open>strncmp\<close> finds two terminated strings equal in their first \<open>n\<close> characters: a shorter string
  has to be matched with its end, a longer one only in its beginning.\<close>

definition strncmp_equal :: "nat \<Rightarrow> string \<Rightarrow> string \<Rightarrow> bool" where
  "strncmp_equal n s t \<longleftrightarrow> take n (s @ [CHR 0x00]) = take n (t @ [CHR 0x00])"

lemma strncmp_short:
  assumes "length s < n" and "CHR 0x00 \<notin> set s" and "CHR 0x00 \<notin> set t"
  shows "strncmp_equal n s t \<longleftrightarrow> t = s"
proof
  assume eq: "strncmp_equal n s t"
  have "take n (s @ [CHR 0x00]) = s @ [CHR 0x00]" using assms(1) by simp
  with eq have cut: "s @ [CHR 0x00] = take n (t @ [CHR 0x00])" by (simp add: strncmp_equal_def)
  have "CHR 0x00 \<in> set (take n (t @ [CHR 0x00]))" unfolding cut [symmetric] by simp
  then have "length t < n" using assms(3) by (cases "length t < n") (auto dest: in_set_takeD)
  with cut show "t = s" by simp
qed (simp add: strncmp_equal_def)

lemma strncmp_long: "length s = n \<Longrightarrow> n \<le> length t \<Longrightarrow> strncmp_equal n s t \<longleftrightarrow> take n t = s"
  by (auto simp: strncmp_equal_def)

definition inet_ntoa :: "u32 \<Rightarrow> string" where
  "inet_ntoa ip =
     dec_nat (unat ip div 2 ^ 24) @ ''.'' @ dec_nat (unat ip div 2 ^ 16 mod 2 ^ 8) @ ''.''
     @ dec_nat (unat ip div 2 ^ 8 mod 2 ^ 8) @ ''.'' @ dec_nat (unat ip mod 2 ^ 8)"

lemma dec_digit_value: "n < 10 \<Longrightarrow> of_char (dec_digit n) = (48 + n :: nat)"
proof -
  have "\<forall>n\<in>{0..<10}. of_char (dec_digit n) = (48 + n :: nat)" by code_simp
  then show "n < 10 \<Longrightarrow> of_char (dec_digit n) = (48 + n :: nat)" by simp
qed

lemma is_digit_dec: "n < 10 \<Longrightarrow> is_digit (dec_digit n)"
  by (simp add: is_digit_def dec_digit_value)

lemma dec_nat_digits: "c \<in> set (dec_nat n) \<Longrightarrow> is_digit c"
  by (induction n rule: dec_nat.induct) (subst (asm) (2) dec_nat.simps, auto simp: is_digit_dec split: if_splits)

lemma dec_nat_ne: "dec_nat n \<noteq> []"
  by (subst dec_nat.simps) simp

lemma decimal_dec_nat: "decimal (dec_nat n) = n"
  by (induction n rule: dec_nat.induct) (subst dec_nat.simps, auto simp: decimal_def dec_digit_value)

lemma signed_digits:
  assumes "s \<noteq> []" and "\<forall>c\<in>set s. is_digit c"
  shows "signed (dropWhile is_space s) = (False, s)"
proof -
  obtain c cs where s: "s = c # cs" using assms(1) by (cases s) auto
  then have "is_digit c" using assms(2) by simp
  then have "\<not> is_space c \<and> c \<noteq> CHR ''-'' \<and> c \<noteq> CHR ''+''" by (auto simp: is_digit_def is_space_def)
  then show ?thesis by (simp add: s)
qed

lemma stoi_dec_nat: "n < 2 ^ 31 \<Longrightarrow> stoi (dec_nat n) = Inr (int n)"
proof -
  have digits: "takeWhile is_digit (dec_nat n) = dec_nat n" using dec_nat_digits by (simp add: takeWhile_eq_all_conv)
  have "signed (dropWhile is_space (dec_nat n)) = (False, dec_nat n)"
    using dec_nat_ne dec_nat_digits by (intro signed_digits) auto
  then show "n < 2 ^ 31 \<Longrightarrow> stoi (dec_nat n) = Inr (int n)"
    by (simp add: stoi_def digits dec_nat_ne decimal_dec_nat)
qed

lemma dec_nat_inj: "dec_nat m = dec_nat n \<longleftrightarrow> m = n"
  by (metis decimal_dec_nat)

end
