(* ===== verification/Io.thy ===== *)
theory Io
  imports Text
begin

text \<open>
  Operations that change the world they run in and may throw: a function from the state
  to the result and the state after it. An exception keeps the changes made before it.
\<close>

type_synonym ('w, 'a) io = "'w \<Rightarrow> 'a result \<times> 'w"

definition io_return :: "'a \<Rightarrow> ('w, 'a) io" where
  "io_return x w = (Inr x, w)"

definition io_throw :: "cpp_error \<Rightarrow> ('w, 'a) io" where
  "io_throw e w = (Inl e, w)"

definition io_bind :: "('w, 'a) io \<Rightarrow> ('a \<Rightarrow> ('w, 'b) io) \<Rightarrow> ('w, 'b) io" where
  "io_bind m f w = (case m w of (Inl e, w') \<Rightarrow> (Inl e, w') | (Inr x, w') \<Rightarrow> f x w')"

definition io_lift :: "'a result \<Rightarrow> ('w, 'a) io" where
  "io_lift r w = (r, w)"

definition io_ask :: "('w \<Rightarrow> 'a) \<Rightarrow> ('w, 'a) io" where
  "io_ask f w = (Inr (f w), w)"

definition io_update :: "('w \<Rightarrow> 'w) \<Rightarrow> ('w, unit) io" where
  "io_update f w = (Inr (), f w)"

text \<open>The destructors that run when an exception leaves a scope.\<close>

definition io_cleanup :: "('w, 'a) io \<Rightarrow> ('w \<Rightarrow> 'w) \<Rightarrow> ('w, 'a) io" where
  "io_cleanup m destroy w = (case m w of (Inl e, w') \<Rightarrow> (Inl e, destroy w') | (Inr x, w') \<Rightarrow> (Inr x, w'))"

lemma io_simps [simp]:
  "io_return x w = (Inr x, w)" "io_throw e w = (Inl e, w)" "io_lift r w = (r, w)"
  "io_ask g w = (Inr (g w), w)" "io_update h w = (Inr (), h w)"
  by (simp_all add: io_return_def io_throw_def io_lift_def io_ask_def io_update_def)

lemma io_bind_eq:
  "m w = (Inl e, w') \<Longrightarrow> io_bind m f w = (Inl e, w')"
  "m w = (Inr x, w') \<Longrightarrow> io_bind m f w = f x w'"
  by (simp_all add: io_bind_def)

lemma io_bind_simps [simp]:
  "io_bind (io_return x) f w = f x w" "io_bind (io_throw e) f w = (Inl e, w)"
  "io_bind (io_ask g) f w = f (g w) w" "io_bind (io_update h) f' w = f' () (h w)"
  "io_bind (io_lift (Inl e)) f w = (Inl e, w)" "io_bind (io_lift (Inr x)) f w = f x w"
  by (simp_all add: io_bind_def)

lemma io_bind_Inr:
  "io_bind m f w = (Inr y, w'') \<longleftrightarrow> (\<exists>x w'. m w = (Inr x, w') \<and> f x w' = (Inr y, w''))"
  by (auto simp: io_bind_def split: prod.splits sum.splits)

lemma io_bind_assoc: "io_bind (io_bind m f) g = io_bind m (\<lambda>x. io_bind (f x) g)"
  by (rule ext) (simp add: io_bind_def split: prod.splits sum.splits)

lemma io_bind_cong [fundef_cong]:
  assumes "m = m'" and "w = w'" and "\<And>x v. m' w' = (Inr x, v) \<Longrightarrow> f x v = f' x v"
  shows "io_bind m f w = io_bind m' f' w'"
  using assms by (auto simp: io_bind_def split: prod.splits sum.splits)

text \<open>\<open>std::to_string\<close> of a signed number.\<close>

definition dec_int :: "int \<Rightarrow> string" where
  "dec_int n = (if n < 0 then ''-'' @ dec_nat (nat (- n)) else dec_nat (nat n))"

end
