(* ===== verification/File_Descriptor.thy ===== *)
theory File_Descriptor
  imports Io
begin

unbundle bit_operations_syntax

text \<open>
  \<open>FileDescriptor\<close> of \<open>util/file_descriptor.hh\<close> and \<open>.cc\<close>. The shared pointer of a handle
  is an address in a heap of \<open>FDWrapper\<close>s (none when the handle was moved from), so that
  duplicates share their flags and counters. The kernel is a state of any type with the
  system calls as functions on it: they return what the C library's wrappers return, and
  \<open>errno\<close> is read from the state after the call.

  The lemmas show that \<open>write_all\<close> returns and writes exactly its buffer, and that a
  scattered read hands out exactly the bytes that the kernel gave.
\<close>

record fd_wrapper =
  fw_fd :: int
  fw_eof :: bool
  fw_closed :: bool
  fw_non_blocking :: bool
  fw_read_count :: u32
  fw_write_count :: u32

record 'k world =
  w_fds :: "nat \<Rightarrow> fd_wrapper"
  w_allocated :: nat
  w_kernel :: 'k

type_synonym ('k, 'a) sys = "('k world, 'a) io"
type_synonym file_descriptor = "nat option"

text \<open>The system calls: \<open>read\<close> and \<open>readv\<close> get the sizes of the buffers and answer with the
  bytes they put there, \<open>write\<close> and \<open>writev\<close> get the bytes.\<close>

record 'k syscalls =
  sys_errno :: "'k \<Rightarrow> int"
  sys_read :: "int \<Rightarrow> nat \<Rightarrow> 'k \<Rightarrow> (int \<times> bytes) \<times> 'k"
  sys_readv :: "int \<Rightarrow> nat list \<Rightarrow> 'k \<Rightarrow> (int \<times> bytes) \<times> 'k"
  sys_write :: "int \<Rightarrow> bytes \<Rightarrow> 'k \<Rightarrow> int \<times> 'k"
  sys_writev :: "int \<Rightarrow> bytes list \<Rightarrow> 'k \<Rightarrow> int \<times> 'k"
  sys_getfl :: "int \<Rightarrow> 'k \<Rightarrow> int \<times> 'k"
  sys_setfl :: "int \<Rightarrow> int \<Rightarrow> 'k \<Rightarrow> int \<times> 'k"
  sys_close :: "int \<Rightarrow> 'k \<Rightarrow> int \<times> 'k"

definition EAGAIN :: int where "EAGAIN = 11"
definition EINPROGRESS :: int where "EINPROGRESS = 115"
definition O_NONBLOCK :: int where "O_NONBLOCK = 2048"
definition kReadBufferSize :: nat where "kReadBufferSize = 16384"

definition call :: "('k \<Rightarrow> 'a \<times> 'k) \<Rightarrow> ('k, 'a) sys" where
  "call f w = (let (r, k) = f (w_kernel w) in (Inr r, w\<lparr>w_kernel := k\<rparr>))"

definition check_system_call :: "'k syscalls \<Rightarrow> string \<Rightarrow> int \<Rightarrow> ('k, int) sys" where
  "check_system_call sys s_attempt return_value w =
     (if return_value \<ge> 0 then (Inr return_value, w)
      else (Inl (System_error s_attempt (sys_errno sys (w_kernel w))), w))"

subsection \<open>The wrapper\<close>

definition set_fd :: "nat \<Rightarrow> (fd_wrapper \<Rightarrow> fd_wrapper) \<Rightarrow> 'k world \<Rightarrow> 'k world" where
  "set_fd a f w = w\<lparr>w_fds := (w_fds w)(a := f (w_fds w a))\<rparr>"

text \<open>On Linux \<open>EWOULDBLOCK\<close> is \<open>EAGAIN\<close>.\<close>

definition fdw_check_system_call :: "'k syscalls \<Rightarrow> nat \<Rightarrow> string \<Rightarrow> int \<Rightarrow> ('k, nat) sys" where
  "fdw_check_system_call sys a what return_value w =
     (let errno = sys_errno sys (w_kernel w)
      in if return_value \<ge> 0 then (Inr (nat return_value), w)
         else if fw_non_blocking (w_fds w a) \<and> (errno = EAGAIN \<or> errno = EINPROGRESS) then (Inr 0, w)
         else (Inl (System_error what errno), w))"

definition fdw_check_read :: "'k syscalls \<Rightarrow> nat \<Rightarrow> string \<Rightarrow> int \<Rightarrow> ('k, nat) sys" where
  "fdw_check_read sys a what return_value w =
     fdw_check_system_call sys a what return_value
       (if return_value = 0 then set_fd a (\<lambda>f. f\<lparr>fw_eof := True\<rparr>) w else w)"

definition fdw_new :: "'k syscalls \<Rightarrow> int \<Rightarrow> ('k, fd_wrapper) sys" where
  "fdw_new sys fd =
     (if fd < 0 then io_throw (Runtime_error (''invalid fd number:'' @ dec_int fd))
      else io_bind (call (sys_getfl sys fd)) (\<lambda>r.
           io_bind (check_system_call sys ''fcntl'' r) (\<lambda>flags.
           io_return \<lparr>fw_fd = fd, fw_eof = False, fw_closed = False, fw_non_blocking = (flags AND O_NONBLOCK \<noteq> 0),
                      fw_read_count = 0, fw_write_count = 0\<rparr>)))"

definition fdw_close :: "'k syscalls \<Rightarrow> nat \<Rightarrow> ('k, unit) sys" where
  "fdw_close sys a w =
     io_bind (call (sys_close sys (fw_fd (w_fds w a)))) (\<lambda>r.
     io_bind (check_system_call sys ''close'' r) (\<lambda>_.
     io_update (set_fd a (\<lambda>f. f\<lparr>fw_eof := True, fw_closed := True\<rparr>)))) w"

text \<open>The destructor closes the descriptor unless that was done, and prints an exception
  instead of letting it out.\<close>

definition fdw_destroy :: "'k syscalls \<Rightarrow> nat \<Rightarrow> 'k world \<Rightarrow> 'k world" where
  "fdw_destroy sys a w = (if fw_closed (w_fds w a) then w else snd (fdw_close sys a w))"

subsection \<open>The handle\<close>

definition fd_new :: "'k syscalls \<Rightarrow> int \<Rightarrow> ('k, file_descriptor) sys" where
  "fd_new sys fd =
     io_bind (fdw_new sys fd) (\<lambda>wrapper w.
       (Inr (Some (w_allocated w)),
        set_fd (w_allocated w) (\<lambda>_. wrapper) w\<lparr>w_allocated := Suc (w_allocated w)\<rparr>))"

definition duplicate :: "file_descriptor \<Rightarrow> file_descriptor" where
  "duplicate fd = fd"

text \<open>\<open>internal_fd_->\<close>: undefined on a handle that was moved from.\<close>

definition deref :: "file_descriptor \<Rightarrow> ('k, nat) sys" where
  "deref fd = (case fd of Some a \<Rightarrow> io_return a | None \<Rightarrow> io_throw (Undefined_behaviour ''null FDWrapper''))"

definition fd_num :: "file_descriptor \<Rightarrow> ('k, int) sys" where
  "fd_num fd = io_bind (deref fd) (\<lambda>a. io_ask (\<lambda>w. fw_fd (w_fds w a)))"

definition fd_eof :: "file_descriptor \<Rightarrow> ('k, bool) sys" where
  "fd_eof fd = io_bind (deref fd) (\<lambda>a. io_ask (\<lambda>w. fw_eof (w_fds w a)))"

definition fd_closed :: "file_descriptor \<Rightarrow> ('k, bool) sys" where
  "fd_closed fd = io_bind (deref fd) (\<lambda>a. io_ask (\<lambda>w. fw_closed (w_fds w a)))"

definition fd_blocking :: "file_descriptor \<Rightarrow> ('k, bool) sys" where
  "fd_blocking fd = io_bind (deref fd) (\<lambda>a. io_ask (\<lambda>w. \<not> fw_non_blocking (w_fds w a)))"

definition read_count :: "file_descriptor \<Rightarrow> ('k, u32) sys" where
  "read_count fd = io_bind (deref fd) (\<lambda>a. io_ask (\<lambda>w. fw_read_count (w_fds w a)))"

definition write_count :: "file_descriptor \<Rightarrow> ('k, u32) sys" where
  "write_count fd = io_bind (deref fd) (\<lambda>a. io_ask (\<lambda>w. fw_write_count (w_fds w a)))"

definition set_eof :: "file_descriptor \<Rightarrow> ('k, unit) sys" where
  "set_eof fd = io_bind (deref fd) (\<lambda>a. io_update (set_fd a (\<lambda>f. f\<lparr>fw_eof := True\<rparr>)))"

definition register_read :: "file_descriptor \<Rightarrow> ('k, unit) sys" where
  "register_read fd = io_bind (deref fd) (\<lambda>a.
     io_update (set_fd a (\<lambda>f. f\<lparr>fw_read_count := fw_read_count f + 1\<rparr>)))"

definition register_write :: "file_descriptor \<Rightarrow> ('k, unit) sys" where
  "register_write fd = io_bind (deref fd) (\<lambda>a.
     io_update (set_fd a (\<lambda>f. f\<lparr>fw_write_count := fw_write_count f + 1\<rparr>)))"

definition check_fd_system_call :: "'k syscalls \<Rightarrow> file_descriptor \<Rightarrow> string \<Rightarrow> int \<Rightarrow> ('k, nat) sys" where
  "check_fd_system_call sys fd what return_value =
     (case fd of None \<Rightarrow> io_throw (Runtime_error ''internal error: missing internal_fd_'')
      | Some a \<Rightarrow> fdw_check_system_call sys a what return_value)"

definition check_read :: "'k syscalls \<Rightarrow> file_descriptor \<Rightarrow> string \<Rightarrow> int \<Rightarrow> ('k, nat) sys" where
  "check_read sys fd what return_value =
     (case fd of None \<Rightarrow> io_throw (Runtime_error ''internal error: missing internal_fd_'')
      | Some a \<Rightarrow> fdw_check_read sys a what return_value)"

definition fd_close :: "'k syscalls \<Rightarrow> file_descriptor \<Rightarrow> ('k, unit) sys" where
  "fd_close sys fd = io_bind (deref fd) (fdw_close sys)"

definition set_blocking :: "'k syscalls \<Rightarrow> file_descriptor \<Rightarrow> bool \<Rightarrow> ('k, unit) sys" where
  "set_blocking sys fd blocking =
     io_bind (fd_num fd) (\<lambda>n.
     io_bind (call (sys_getfl sys n)) (\<lambda>r.
     io_bind (check_system_call sys ''fcntl'' r) (\<lambda>flags.
       let flags = (if blocking then flags XOR (flags AND O_NONBLOCK) else flags OR O_NONBLOCK)
       in io_bind (call (sys_setfl sys n flags)) (\<lambda>r.
          io_bind (check_system_call sys ''fcntl'' r) (\<lambda>_.
          io_bind (deref fd) (\<lambda>a. io_update (set_fd a (\<lambda>f. f\<lparr>fw_non_blocking := \<not> blocking\<rparr>))))))))"

subsection \<open>Reading\<close>

definition resize :: "nat \<Rightarrow> bytes \<Rightarrow> bytes" where
  "resize n buf = take n buf @ replicate (n - length buf) 0"

text \<open>A buffer after the kernel has put bytes into it.\<close>

definition filled :: "bytes \<Rightarrow> bytes \<Rightarrow> bytes" where
  "filled buf data = take (length buf) data @ drop (length data) buf"

definition read :: "'k syscalls \<Rightarrow> file_descriptor \<Rightarrow> bytes \<Rightarrow> ('k, bytes) sys" where
  "read sys fd buffer =
     (let buffer = (if buffer = [] then resize kReadBufferSize buffer else buffer)
      in io_bind (fd_num fd) (\<lambda>n.
         io_bind (call (sys_read sys n (length buffer))) (\<lambda>(r, data).
         io_bind (check_read sys fd ''read'' r) (\<lambda>bytes_read.
         io_bind (register_read fd) (\<lambda>_.
           let buffer = filled buffer data
           in if bytes_read > length buffer then io_throw (Runtime_error ''read() read more than requested'')
              else io_return (resize bytes_read buffer))))))"

fun iovec_loop :: "bytes list \<Rightarrow> nat \<Rightarrow> nat result" where
  "iovec_loop [] total_size = Inr total_size"
| "iovec_loop (x # buffers) total_size =
     (if x = [] then Inl (Runtime_error ''to_iovecs called with empty buffer in buffer list'')
      else iovec_loop buffers (total_size + length x))"

definition to_iovecs :: "bytes list \<Rightarrow> nat result" where
  "to_iovecs buffers =
     (if buffers = [] then Inl (Runtime_error ''to_iovecs called with empty buffer list'')
      else res_bind (iovec_loop buffers 0) (\<lambda>total_size.
           if total_size = 0 then Inl (Runtime_error ''to_iovecs called with zero-size buffer list'')
           else Inr total_size))"

text \<open>\<open>readv\<close> fills the buffers one after the other.\<close>

fun scatter :: "bytes list \<Rightarrow> bytes \<Rightarrow> bytes list" where
  "scatter [] data = []"
| "scatter (buf # buffers) data = filled buf data # scatter buffers (drop (length buf) data)"

fun shrink_loop :: "nat \<Rightarrow> bytes list \<Rightarrow> bytes list" where
  "shrink_loop remaining_size [] = []"
| "shrink_loop remaining_size (buf # buffers) =
     (if remaining_size \<ge> length buf then buf # shrink_loop (remaining_size - length buf) buffers
      else resize remaining_size buf # shrink_loop 0 buffers)"

definition read_scattered :: "'k syscalls \<Rightarrow> file_descriptor \<Rightarrow> bytes list \<Rightarrow> ('k, bytes list) sys" where
  "read_scattered sys fd buffers =
     (if buffers = [] then io_throw (Runtime_error ''FileDescriptor::read called with no buffers'')
      else let buffers = (if last buffers = [] then butlast buffers @ [resize kReadBufferSize []] else buffers)
      in io_bind (io_lift (to_iovecs buffers)) (\<lambda>total_size.
         io_bind (fd_num fd) (\<lambda>n.
         io_bind (call (sys_readv sys n (map length buffers))) (\<lambda>(r, data).
         io_bind (check_read sys fd ''readv'' r) (\<lambda>bytes_read.
         io_bind (register_read fd) (\<lambda>_.
           if bytes_read > total_size then io_throw (Runtime_error ''read() read more than requested'')
           else io_return (shrink_loop bytes_read (scatter buffers data))))))))"

subsection \<open>Writing\<close>

definition write_once :: "'k syscalls \<Rightarrow> file_descriptor \<Rightarrow> bytes \<Rightarrow> ('k, nat) sys" where
  "write_once sys fd buffer =
     io_bind (fd_num fd) (\<lambda>n.
     io_bind (call (sys_write sys n buffer)) (\<lambda>r.
     io_bind (check_fd_system_call sys fd ''write'' r) (\<lambda>bytes_written.
     io_bind (register_write fd) (\<lambda>_.
       if bytes_written = 0 \<and> buffer \<noteq> []
       then io_throw (Runtime_error ''write returned 0 given non-empty input buffer'')
       else if bytes_written > length buffer
       then io_throw (Runtime_error ''write wrote more than length of input buffer'')
       else io_return bytes_written))))"

definition write_iovecs :: "'k syscalls \<Rightarrow> file_descriptor \<Rightarrow> bytes list \<Rightarrow> nat \<Rightarrow> ('k, nat) sys" where
  "write_iovecs sys fd iovecs total_size =
     io_bind (fd_num fd) (\<lambda>n.
     io_bind (call (sys_writev sys n iovecs)) (\<lambda>r.
     io_bind (check_fd_system_call sys fd ''writev'' r) (\<lambda>bytes_written.
     io_bind (register_write fd) (\<lambda>_.
       if bytes_written = 0 \<and> total_size \<noteq> 0
       then io_throw (Runtime_error ''writev returned 0 given non-empty input buffer'')
       else if bytes_written > total_size
       then io_throw (Runtime_error ''writev wrote more than length of input buffer'')
       else io_return bytes_written))))"

definition write_gathered :: "'k syscalls \<Rightarrow> file_descriptor \<Rightarrow> bytes list \<Rightarrow> ('k, nat) sys" where
  "write_gathered sys fd buffers =
     io_bind (io_lift (to_iovecs buffers)) (write_iovecs sys fd buffers)"

lemma write_once_progress:
  "write_once sys fd buffer w = (Inr n, w') \<Longrightarrow> buffer \<noteq> [] \<Longrightarrow> 0 < n \<and> n \<le> length buffer"
  by (auto simp: write_once_def io_bind_Inr split: if_splits)

function write_loop :: "'k syscalls \<Rightarrow> file_descriptor \<Rightarrow> bytes \<Rightarrow> ('k, unit) sys" where
  "write_loop sys fd buffer w =
     (if buffer = [] then (Inr (), w)
      else io_bind (write_once sys fd buffer) (\<lambda>n. write_loop sys fd (drop n buffer)) w)"
  by pat_completeness auto
termination
  by (relation "measure (\<lambda>(sys, fd, buffer, w). length buffer)") (auto dest: write_once_progress)

declare write_loop.simps [simp del]

definition write_all :: "'k syscalls \<Rightarrow> file_descriptor \<Rightarrow> bytes \<Rightarrow> ('k, unit) sys" where
  "write_all sys fd buffer =
     io_bind (fd_blocking fd) (\<lambda>blocking.
       if \<not> blocking then io_throw (Runtime_error ''write_all requires a blocking file descriptor'')
       else write_loop sys fd buffer)"

subsection \<open>What is read and written\<close>

text \<open>A file descriptor write, as documented: an error writes nothing, and a result of \<open>n\<close>
  means that the first \<open>n\<close> bytes were appended to what the descriptor stands for.\<close>

definition appends :: "'k syscalls \<Rightarrow> ('k \<Rightarrow> int \<Rightarrow> bytes) \<Rightarrow> bool" where
  "appends sys written \<longleftrightarrow> (\<forall>fd bs k. let (r, k') = sys_write sys fd bs k
     in if r < 0 then written k' = written k
        else r \<le> int (length bs) \<and> written k' = (written k)(fd := written k fd @ take (nat r) bs))"

lemma appends_cases:
  assumes "appends sys written" and "sys_write sys fd bs k = (r, k')"
  shows "r < 0 \<Longrightarrow> written k' = written k"
    and "r \<ge> 0 \<Longrightarrow> nat r \<le> length bs \<and> written k' = (written k)(fd := written k fd @ take (nat r) bs)"
  using assms unfolding appends_def by (smt (verit) case_prod_conv nat_le_iff)+

lemma set_fd_simps [simp]:
  "w_kernel (set_fd a f w) = w_kernel w" "w_fds (set_fd a f w) b = (if b = a then f (w_fds w a) else w_fds w b)"
  "w_allocated (set_fd a f w) = w_allocated w"
  by (simp_all add: set_fd_def)

lemma handle_simps [simp]:
  "deref (Some a) w = (Inr a, w)" "fd_num (Some a) w = (Inr (fw_fd (w_fds w a)), w)"
  "fd_blocking (Some a) w = (Inr (\<not> fw_non_blocking (w_fds w a)), w)"
  "fd_eof (Some a) w = (Inr (fw_eof (w_fds w a)), w)" "fd_closed (Some a) w = (Inr (fw_closed (w_fds w a)), w)"
  "read_count (Some a) w = (Inr (fw_read_count (w_fds w a)), w)"
  "write_count (Some a) w = (Inr (fw_write_count (w_fds w a)), w)"
  "register_read (Some a) w = (Inr (), set_fd a (\<lambda>f. f\<lparr>fw_read_count := fw_read_count f + 1\<rparr>) w)"
  "register_write (Some a) w = (Inr (), set_fd a (\<lambda>f. f\<lparr>fw_write_count := fw_write_count f + 1\<rparr>) w)"
  by (simp_all add: deref_def fd_num_def fd_blocking_def fd_eof_def fd_closed_def read_count_def write_count_def
      register_read_def register_write_def io_bind_def)

lemma write_once_appends:
  assumes "appends sys written" and "write_once sys (Some a) buffer w = (x, w')"
  shows "(case x of Inr n \<Rightarrow> written (w_kernel w') = (written (w_kernel w))(fw_fd (w_fds w a) :=
            written (w_kernel w) (fw_fd (w_fds w a)) @ take n buffer)
          | Inl e \<Rightarrow> written (w_kernel w') = written (w_kernel w))
     \<and> fw_fd (w_fds w' a) = fw_fd (w_fds w a)"
proof -
  obtain r k' where r: "sys_write sys (fw_fd (w_fds w a)) buffer (w_kernel w) = (r, k')" by fastforce
  note law = appends_cases [OF assms(1) r]
  show ?thesis
    using assms(2) law
    by (cases "r < 0")
      (auto simp: write_once_def io_bind_def call_def r check_fd_system_call_def fdw_check_system_call_def Let_def
        split: if_splits)
qed

lemma write_loop_appends:
  assumes "appends sys written" and "write_loop sys (Some a) buffer w = (x, w')"
  shows "case x of Inr _ \<Rightarrow> written (w_kernel w') = (written (w_kernel w))(fw_fd (w_fds w a) :=
            written (w_kernel w) (fw_fd (w_fds w a)) @ buffer)
          | Inl e \<Rightarrow> (\<exists>n < length buffer. written (w_kernel w') = (written (w_kernel w))(fw_fd (w_fds w a) :=
            written (w_kernel w) (fw_fd (w_fds w a)) @ take n buffer))"
  using assms(2)
proof (induction buffer arbitrary: w rule: length_induct)
  case (1 buffer)
  show ?case
  proof (cases "buffer = []")
    case True
    with 1(2) show ?thesis by (auto simp: write_loop.simps)
  next
    case False
    obtain y w1 where once: "write_once sys (Some a) buffer w = (y, w1)" by fastforce
    note wrote = write_once_appends [OF assms(1) once]
    show ?thesis
    proof (cases y)
      case (Inl e)
      with 1(2) False once have "x = Inl e" "w' = w1" by (simp_all add: write_loop.simps [of _ _ buffer] io_bind_def)
      with wrote Inl False show ?thesis by (auto intro!: exI [of _ 0])
    next
      case (Inr n)
      have n: "0 < n" "n \<le> length buffer" using write_once_progress [OF once [unfolded Inr] False] by simp_all
      have rest: "write_loop sys (Some a) (drop n buffer) w1 = (x, w')"
        using 1(2) False once Inr by (simp add: write_loop.simps [of _ _ buffer] io_bind_def)
      have more: "take n buffer @ take m (drop n buffer) = take (n + m) buffer" for m
        by (simp add: take_add)
      have ih: "case x of Inr _ \<Rightarrow> written (w_kernel w') = (written (w_kernel w1))(fw_fd (w_fds w1 a) :=
            written (w_kernel w1) (fw_fd (w_fds w1 a)) @ drop n buffer)
          | Inl e \<Rightarrow> (\<exists>m < length (drop n buffer). written (w_kernel w') = (written (w_kernel w1))(fw_fd (w_fds w1 a) :=
            written (w_kernel w1) (fw_fd (w_fds w1 a)) @ take m (drop n buffer)))"
        using 1(1) [rule_format, OF _ rest] n by simp
      show ?thesis
      proof (cases x)
        case (Inl e)
        with ih obtain m where m: "m < length buffer - n" "written (w_kernel w') = (written (w_kernel w1))(fw_fd (w_fds w1 a) :=
            written (w_kernel w1) (fw_fd (w_fds w1 a)) @ take m (drop n buffer))" by auto
        have "n + m < length buffer" using m(1) n(2) by simp
        with m(2) wrote \<open>y = Inr n\<close> Inl show ?thesis
          by (simp add: more) (metis (no_types))
      next
        case (Inr u)
        with ih wrote \<open>y = Inr n\<close> show ?thesis by simp
      qed
    qed
  qed
qed

text \<open>The bytes cut into pieces of the given sizes, the last of which may come out short.\<close>

fun cut_into :: "nat list \<Rightarrow> bytes \<Rightarrow> bytes list" where
  "cut_into [] data = []"
| "cut_into (n # ns) data = take n data # cut_into ns (drop n data)"

lemma length_filled [simp]: "length (filled buf data) = length buf"
  by (simp add: filled_def)

lemma shrink_nothing: "shrink_loop 0 buffers = replicate (length buffers) []"
  by (induction buffers) (simp_all add: resize_def)

lemma cut_nothing: "cut_into ns [] = replicate (length ns) []"
  by (induction ns) simp_all

lemma length_scatter [simp]: "length (scatter buffers data) = length buffers"
  by (induction buffers data rule: scatter.induct) simp_all

lemma shrink_scatter:
  "length data \<le> sum_list (map length buffers) \<Longrightarrow>
     shrink_loop (length data) (scatter buffers data) = cut_into (map length buffers) data"
proof (induction buffers data rule: scatter.induct)
  case (2 buf buffers data)
  show ?case
  proof (cases "length data \<ge> length buf")
    case True
    then have "shrink_loop (length data - length buf) (scatter buffers (drop (length buf) data))
        = cut_into (map length buffers) (drop (length buf) data)"
      using 2 by simp
    with True show ?thesis by (simp add: filled_def)
  next
    case False
    then show ?thesis by (simp add: shrink_nothing cut_nothing filled_def resize_def)
  qed
qed simp

lemma concat_cut_into: "length data \<le> sum_list ns \<Longrightarrow> concat (cut_into ns data) = data"
  by (induction ns data rule: cut_into.induct) simp_all

lemma iovec_loop_eq: "\<forall>b\<in>set buffers. b \<noteq> [] \<Longrightarrow> iovec_loop buffers t = Inr (t + sum_list (map length buffers))"
  by (induction buffers arbitrary: t) simp_all

lemma to_iovecs_eq:
  assumes "buffers \<noteq> []" and "\<forall>b\<in>set buffers. b \<noteq> []"
  shows "to_iovecs buffers = Inr (sum_list (map length buffers))"
  using assms by (cases buffers) (simp_all add: to_iovecs_def iovec_loop_eq)

subsection \<open>Properties\<close>

text \<open>A kernel that takes at most two bytes at a time.\<close>

definition demo_sys :: "(int \<Rightarrow> bytes) syscalls" where
  "demo_sys = \<lparr>sys_errno = (\<lambda>_. 5),
     sys_read = (\<lambda>fd n k. ((int (min n (length (k fd))), take n (k fd)), k(fd := drop n (k fd)))),
     sys_readv = (\<lambda>fd ns k. ((int (min (sum_list ns) (length (k fd))), take (sum_list ns) (k fd)), k(fd := drop (sum_list ns) (k fd)))),
     sys_write = (\<lambda>fd bs k. (int (min 2 (length bs)), k(fd := k fd @ take 2 bs))),
     sys_writev = (\<lambda>fd bs k. (int (length (concat bs)), k(fd := k fd @ concat bs))),
     sys_getfl = (\<lambda>fd k. (0, k)), sys_setfl = (\<lambda>fd flags k. (0, k)), sys_close = (\<lambda>fd k. (0, k))\<rparr>"

definition demo_world :: "bytes \<Rightarrow> (int \<Rightarrow> bytes) world" where
  "demo_world bs = \<lparr>w_fds = (\<lambda>_. \<lparr>fw_fd = 3, fw_eof = False, fw_closed = False, fw_non_blocking = False,
     fw_read_count = 0, fw_write_count = 0\<rparr>), w_allocated = 1, w_kernel = (\<lambda>_. [])(3 := bs)\<rparr>"

lemma demo_appends: "appends demo_sys (\<lambda>k. k)"
  by (auto simp: appends_def demo_sys_def min_def)

text \<open>C25: on a blocking descriptor whose writes behave as documented \<open>write_all\<close> always comes
  to an end: it returns after all of the buffer has been written, in order, however little
  each write takes, or throws with a proper prefix of the buffer written.\<close>

theorem write_all_correct:
  assumes "appends sys written" and "\<not> fw_non_blocking (w_fds w a)"
  shows "case write_all sys (Some a) buffer w of
      (Inr _, w') \<Rightarrow> written (w_kernel w') = (written (w_kernel w))(fw_fd (w_fds w a) :=
        written (w_kernel w) (fw_fd (w_fds w a)) @ buffer)
    | (Inl e, w') \<Rightarrow> \<exists>n < length buffer. written (w_kernel w') = (written (w_kernel w))(fw_fd (w_fds w a) :=
        written (w_kernel w) (fw_fd (w_fds w a)) @ take n buffer)"
proof -
  have "write_all sys (Some a) buffer w = write_loop sys (Some a) buffer w"
    using assms(2) by (simp add: write_all_def io_bind_def)
  then show ?thesis
    using write_loop_appends [OF assms(1), of a buffer w] by (cases "write_loop sys (Some a) buffer w") (auto split: sum.splits)
qed

theorem write_all_correct_witness:
  "w_kernel (snd (write_all demo_sys (Some 0) [1, 2, 3, 4, 5] (demo_world [9]))) 3 = [9, 1, 2, 3, 4, 5]"
proof -
  have "\<not> fw_non_blocking (w_fds (demo_world [9]) 0)" by (simp add: demo_world_def)
  from write_all_correct [OF demo_appends this, of "[1, 2, 3, 4, 5]"]
  have "case write_all demo_sys (Some 0) [1, 2, 3, 4, 5] (demo_world [9]) of
      (Inr _, w') \<Rightarrow> w_kernel w' = (w_kernel (demo_world [9]))(3 := [9, 1, 2, 3, 4, 5])
    | (Inl e, w') \<Rightarrow> True"
    by (simp add: demo_world_def split: prod.splits sum.splits)
  moreover have "fst (write_all demo_sys (Some 0) [1, 2, 3, 4, 5] (demo_world [9])) = Inr ()"
    by (simp add: write_all_def io_bind_def demo_world_def write_loop.simps write_once_def call_def
      check_fd_system_call_def fdw_check_system_call_def demo_sys_def set_fd_def)
  ultimately show ?thesis by (auto split: prod.splits sum.splits)
qed

lemma sized_buffers:
  assumes "bufs \<noteq> []" and "\<forall>b\<in>set (butlast bufs). b \<noteq> []"
    and "bufs' = (if last bufs = [] then butlast bufs @ [replicate kReadBufferSize 0] else bufs)"
  shows "\<forall>b\<in>set bufs'. b \<noteq> []" and "bufs' \<noteq> []"
proof -
  have "bufs = butlast bufs @ [last bufs]" using assms(1) by simp
  then have "set bufs = set (butlast bufs) \<union> {last bufs}" by (metis list.set(1) list.simps(15) set_append)
  then show "\<forall>b\<in>set bufs'. b \<noteq> []" and "bufs' \<noteq> []"
    using assms by (auto simp: kReadBufferSize_def)
qed

lemma read_scattered_eq:
  assumes "bufs \<noteq> []" and "\<forall>b\<in>set (butlast bufs). b \<noteq> []"
    and "bufs' = (if last bufs = [] then butlast bufs @ [replicate kReadBufferSize 0] else bufs)"
    and "sys_readv sys (fw_fd (w_fds w a)) (map length bufs') (w_kernel w) = ((int (length data), data), k)"
    and "length data \<le> sum_list (map length bufs')"
  shows "\<exists>w'. read_scattered sys (Some a) bufs w = (Inr (cut_into (map length bufs') data), w')
    \<and> concat (cut_into (map length bufs') data) = data \<and> w_kernel w' = k
    \<and> w_fds w' = (w_fds w)(a := (w_fds w a)\<lparr>fw_eof := (fw_eof (w_fds w a) \<or> data = []),
        fw_read_count := fw_read_count (w_fds w a) + 1\<rparr>)"
proof -
  note sized = sized_buffers [OF assms(1-3)]
  let ?w = "(if data = [] then set_fd a (\<lambda>f. f\<lparr>fw_eof := True\<rparr>) (w\<lparr>w_kernel := k\<rparr>) else w\<lparr>w_kernel := k\<rparr>)"
  let ?w' = "set_fd a (\<lambda>f. f\<lparr>fw_read_count := fw_read_count f + 1\<rparr>) ?w"
  have "resize kReadBufferSize [] = replicate kReadBufferSize 0" by (simp add: resize_def)
  then have "read_scattered sys (Some a) bufs w = (Inr (cut_into (map length bufs') data), ?w')"
    using assms(1,3-5) to_iovecs_eq [OF sized(2,1)] shrink_scatter [OF assms(5)]
    by (cases "data = []") (simp_all add: read_scattered_def io_bind_def Let_def call_def check_read_def
        fdw_check_read_def fdw_check_system_call_def split: if_splits)
  moreover have "w_kernel ?w' = k" by simp
  moreover have "w_fds ?w' = (w_fds w)(a := (w_fds w a)\<lparr>fw_eof := (fw_eof (w_fds w a) \<or> data = []),
        fw_read_count := fw_read_count (w_fds w a) + 1\<rparr>)"
    by (rule ext) simp
  ultimately show ?thesis using concat_cut_into [OF assms(5)] by blast
qed

text \<open>A read into several buffers, all but the last of which have a size, hands out exactly
  the bytes that the kernel gave, cut at the sizes of the buffers, sets the end-of-file flag
  exactly when there were none, counts one read, and touches no other descriptor.\<close>

theorem read_scattered_correct:
  assumes "bufs \<noteq> []" and "\<forall>b\<in>set (butlast bufs). b \<noteq> []"
    and "bufs' = (if last bufs = [] then butlast bufs @ [replicate kReadBufferSize 0] else bufs)"
    and "sys_readv sys (fw_fd (w_fds w a)) (map length bufs') (w_kernel w) = ((int (length data), data), k)"
    and "length data \<le> sum_list (map length bufs')"
  shows "\<exists>w'. read_scattered sys (Some a) bufs w = (Inr (cut_into (map length bufs') data), w')
    \<and> concat (cut_into (map length bufs') data) = data \<and> w_kernel w' = k
    \<and> w_fds w' = (w_fds w)(a := (w_fds w a)\<lparr>fw_eof := (fw_eof (w_fds w a) \<or> data = []),
        fw_read_count := fw_read_count (w_fds w a) + 1\<rparr>)"
  by (rule read_scattered_eq) (rule assms)+

theorem read_scattered_correct_witness:
  "fst (read_scattered demo_sys (Some 0) [[0, 0], [0], []] (demo_world [1, 2, 3, 4, 5])) = Inr [[1, 2], [3], [4, 5]]"
proof -
  let ?bufs = "[[0, 0], [0], []] :: bytes list"
  let ?bufs' = "butlast ?bufs @ [replicate kReadBufferSize 0] :: bytes list"
  have total: "sum_list (map length ?bufs') = 16387" by (simp add: kReadBufferSize_def)
  have answer: "sys_readv demo_sys (fw_fd (w_fds (demo_world [1, 2, 3, 4, 5]) 0)) (map length ?bufs') (w_kernel (demo_world [1, 2, 3, 4, 5]))
      = ((int (length [1, 2, 3, 4, 5 :: u8]), [1, 2, 3, 4, 5]), (\<lambda>_. []))"
    using total by (simp add: demo_sys_def demo_world_def fun_eq_iff)
  have "fst (read_scattered demo_sys (Some 0) ?bufs (demo_world [1, 2, 3, 4, 5]))
      = Inr (cut_into (map length ?bufs') [1, 2, 3, 4, 5])"
    using read_scattered_correct [of ?bufs ?bufs' demo_sys "demo_world [1, 2, 3, 4, 5]" 0, OF _ _ _ answer] total by auto
  then show ?thesis by (simp add: kReadBufferSize_def)
qed

end
