(* ===== verification/Event_Loop.thy ===== *)
theory Event_Loop
  imports File_Descriptor
begin

text \<open>
  \<open>EventLoop\<close> of \<open>util/eventloop.hh\<close> and \<open>.cc\<close>. The closures that a rule holds are
  named by a number, its code, and an environment says what the closures of each code do:
  they may change anything in the program, the rules of the loop included (they can add
  rules and request cancellations; only the loop itself erases rules, and it is not
  entered from a closure). The loop's part of the state and the descriptors' part are a pair.

  The lists of rules are traversed by position, as \<open>std::list\<close> iterators stay valid when
  closures append. A traversal of a list that closures keep extending does not end, so the
  traversals give an option; the lemmas show that they return when closures add no rules,
  which closures run, and how a busy wait is detected. What is printed to \<open>cerr\<close> is left out.
\<close>

datatype direction = In | Out
datatype wait_result = Success | Timeout | Exit

record basic_rule =
  br_serial :: nat
  br_category_id :: nat
  br_code :: nat
  br_cancel_requested :: bool

record fd_rule = basic_rule +
  fr_fd :: file_descriptor
  fr_direction :: direction

record event_loop =
  el_rule_categories :: "string list"
  el_fd_rules :: "fd_rule list"
  el_non_fd_rules :: "basic_rule list"
  el_next_serial :: nat

type_synonym 'k state = "event_loop \<times> 'k world"

record 'k closures =
  cl_interest :: "nat \<Rightarrow> ('k state, bool) io"
  cl_callback :: "nat \<Rightarrow> ('k state, unit) io"
  cl_cancel :: "nat \<Rightarrow> ('k state, unit) io"
  cl_error :: "nat \<Rightarrow> ('k state, unit) io"

text \<open>\<open>poll\<close> gets descriptors with the events asked for and the timeout, and answers with the
  events that occurred; \<open>getsockopt\<close> of \<open>SO_ERROR\<close> answers with the error and its length.\<close>

record 'k poll_calls =
  sys_poll :: "(int \<times> u16) list \<Rightarrow> int \<Rightarrow> 'k \<Rightarrow> (int \<times> u16 list) \<times> 'k"
  sys_so_error :: "int \<Rightarrow> 'k \<Rightarrow> (int \<times> int \<times> nat) \<times> 'k"

definition POLLIN :: u16 where "POLLIN = 1"
definition POLLOUT :: u16 where "POLLOUT = 4"
definition POLLERR :: u16 where "POLLERR = 8"
definition POLLHUP :: u16 where "POLLHUP = 16"
definition POLLNVAL :: u16 where "POLLNVAL = 32"
definition ENOTSOCK :: int where "ENOTSOCK = 88"

definition event_loop_new :: event_loop where
  "event_loop_new = \<lparr>el_rule_categories = [], el_fd_rules = [], el_non_fd_rules = [], el_next_serial = 0\<rparr>"

text \<open>Room for as many categories as the constructor reserves.\<close>

definition categories_capacity :: nat where "categories_capacity = 64"

definition on_fds :: "('k, 'a) sys \<Rightarrow> ('k state, 'a) io" where
  "on_fds m s = (case m (snd s) of (r, w) \<Rightarrow> (r, (fst s, w)))"

definition update_loop :: "(event_loop \<Rightarrow> event_loop) \<Rightarrow> ('k state, unit) io" where
  "update_loop f = io_update (\<lambda>s. (f (fst s), snd s))"

definition add_category :: "string \<Rightarrow> ('k state, nat) io" where
  "add_category name s =
     (if length (el_rule_categories (fst s)) \<ge> categories_capacity
      then (Inl (Runtime_error ''maximum categories reached''), s)
      else (Inr (length (el_rule_categories (fst s))),
            ((fst s)\<lparr>el_rule_categories := el_rule_categories (fst s) @ [name]\<rparr>, snd s)))"

definition add_fd_rule :: "nat \<Rightarrow> file_descriptor \<Rightarrow> direction \<Rightarrow> nat \<Rightarrow> ('k state, nat) io" where
  "add_fd_rule category_id fd dir code s =
     (let el = fst s; serial = el_next_serial el
      in if category_id \<ge> length (el_rule_categories el) then (Inl (Out_of_range ''bad category_id''), s)
         else (Inr serial, (el\<lparr>el_next_serial := Suc serial,
           el_fd_rules := el_fd_rules el @ [\<lparr>br_serial = serial, br_category_id = category_id, br_code = code,
             br_cancel_requested = False, fr_fd = duplicate fd, fr_direction = dir\<rparr>]\<rparr>, snd s)))"

definition add_rule :: "nat \<Rightarrow> nat \<Rightarrow> ('k state, nat) io" where
  "add_rule category_id code s =
     (let el = fst s; serial = el_next_serial el
      in if category_id \<ge> length (el_rule_categories el) then (Inl (Out_of_range ''bad category_id''), s)
         else (Inr serial, (el\<lparr>el_next_serial := Suc serial,
           el_non_fd_rules := el_non_fd_rules el @ [\<lparr>br_serial = serial, br_category_id = category_id, br_code = code,
             br_cancel_requested = False\<rparr>]\<rparr>, snd s)))"

text \<open>\<open>RuleHandle::cancel\<close>: the weak pointer is empty once the rule has been erased.\<close>

definition cancel_rule :: "nat \<Rightarrow> ('k state, unit) io" where
  "cancel_rule serial = update_loop (\<lambda>el. el\<lparr>
     el_fd_rules := map (\<lambda>r. if br_serial r = serial then r\<lparr>br_cancel_requested := True\<rparr> else r) (el_fd_rules el),
     el_non_fd_rules := map (\<lambda>r. if br_serial r = serial then r\<lparr>br_cancel_requested := True\<rparr> else r) (el_non_fd_rules el)\<rparr>)"

definition service_count :: "fd_rule \<Rightarrow> ('k, u32) sys" where
  "service_count r = (if fr_direction r = In then read_count (fr_fd r) else write_count (fr_fd r))"

definition category_name :: "event_loop \<Rightarrow> nat \<Rightarrow> string result" where
  "category_name el category_id =
     (if category_id < length (el_rule_categories el) then Inr (el_rule_categories el ! category_id)
      else Inl (Out_of_range ''vector::at''))"

definition erase_at :: "nat \<Rightarrow> 'a list \<Rightarrow> 'a list" where
  "erase_at i xs = take i xs @ drop (Suc i) xs"

definition erase_rule :: "nat \<Rightarrow> event_loop \<Rightarrow> event_loop" where
  "erase_rule i el = el\<lparr>el_non_fd_rules := erase_at i (el_non_fd_rules el)\<rparr>"

definition erase_fd_rule :: "nat \<Rightarrow> event_loop \<Rightarrow> event_loop" where
  "erase_fd_rule i el = el\<lparr>el_fd_rules := erase_at i (el_fd_rules el)\<rparr>"

subsection \<open>The rules without a descriptor\<close>

text \<open>The inner loop, from a given number of iterations: it runs the callback until the rule is
  no longer interested and returns whether it ran at all; the counter has 8 bits, but 128
  stops it.\<close>

definition busy_rule :: "string \<Rightarrow> nat \<Rightarrow> cpp_error" where
  "busy_rule name iterations = Runtime_error (''EventLoop: busy wait detected: rule '' @ [CHR 0x22] @ name
     @ [CHR 0x22] @ '' is still interested after '' @ dec_nat iterations @ '' iterations'')"

function serve_rule :: "'k closures \<Rightarrow> basic_rule \<Rightarrow> nat \<Rightarrow> ('k state, bool) io" where
  "serve_rule cl rule iterations s =
     io_bind (cl_interest cl (br_code rule)) (\<lambda>interested.
       if \<not> interested then io_return (iterations > 0)
       else if iterations \<ge> 128
       then (\<lambda>s. io_bind (io_lift (category_name (fst s) (br_category_id rule)))
              (\<lambda>name. io_throw (busy_rule name (iterations + 1))) s)
       else io_bind (cl_callback cl (br_code rule)) (\<lambda>_. serve_rule cl rule (iterations + 1))) s"
  by pat_completeness auto
termination
  by (relation "measure (\<lambda>(cl, rule, iterations, s). 128 - iterations)") auto

declare serve_rule.simps [simp del]

partial_function (option) rules_loop :: "'k closures \<Rightarrow> nat \<Rightarrow> 'k state \<Rightarrow> (bool result \<times> 'k state) option" where
  "rules_loop cl i s =
     (if i \<ge> length (el_non_fd_rules (fst s)) then Some (Inr False, s)
      else let this_rule = el_non_fd_rules (fst s) ! i
      in if br_cancel_requested this_rule then rules_loop cl i (erase_rule i (fst s), snd s)
         else case serve_rule cl this_rule 0 s of
           (Inl e, s) \<Rightarrow> Some (Inl e, s)
         | (Inr rule_fired, s) \<Rightarrow> if rule_fired then Some (Inr True, s) else rules_loop cl (Suc i) s)"

subsection \<open>The rules with a descriptor\<close>

definition defunct :: "fd_rule \<Rightarrow> ('k, bool) sys" where
  "defunct r =
     io_bind (if fr_direction r = In then fd_eof (fr_fd r) else io_return False) (\<lambda>eof.
       if eof then io_return True else fd_closed (fr_fd r))"

text \<open>The entry of one rule in the list to poll, with whether the rule is interested; none if
  the rule is to be erased.\<close>

definition setup_rule :: "'k closures \<Rightarrow> fd_rule \<Rightarrow> ('k state, (int \<times> u16 \<times> bool) option) io" where
  "setup_rule cl this_rule =
     io_bind (on_fds (defunct this_rule)) (\<lambda>gone.
       if gone then io_bind (cl_cancel cl (br_code this_rule)) (\<lambda>_. io_return None)
       else io_bind (cl_interest cl (br_code this_rule)) (\<lambda>interested.
            io_bind (on_fds (fd_num (fr_fd this_rule))) (\<lambda>n.
              if interested then io_return (Some (n, if fr_direction this_rule = In then POLLIN else POLLOUT, True))
              else io_return (Some (n, 0, False)))))"

partial_function (option) setup_loop ::
  "'k closures \<Rightarrow> nat \<Rightarrow> (int \<times> u16) list \<Rightarrow> bool \<Rightarrow> 'k state
    \<Rightarrow> (((int \<times> u16) list \<times> bool) result \<times> 'k state) option" where
  "setup_loop cl i pollfds something_to_poll s =
     (if i \<ge> length (el_fd_rules (fst s)) then Some (Inr (pollfds, something_to_poll), s)
      else let this_rule = el_fd_rules (fst s) ! i
      in if br_cancel_requested this_rule
         then setup_loop cl i pollfds something_to_poll (erase_fd_rule i (fst s), snd s)
         else case setup_rule cl this_rule s of
           (Inl e, s) \<Rightarrow> Some (Inl e, s)
         | (Inr None, s) \<Rightarrow> setup_loop cl i pollfds something_to_poll (erase_fd_rule i (fst s), snd s)
         | (Inr (Some (n, events, interested)), s) \<Rightarrow>
             setup_loop cl (Suc i) (pollfds @ [(n, events)]) (something_to_poll \<or> interested) s)"

text \<open>The equations by which both loops are evaluated.\<close>

declare rules_loop.simps [code] and setup_loop.simps [code]

text \<open>What is asked about a descriptor with an error, for the message to \<open>cerr\<close>.\<close>

definition report_error :: "'k syscalls \<Rightarrow> 'k poll_calls \<Rightarrow> fd_rule \<Rightarrow> ('k state, unit) io" where
  "report_error sys pc this_rule =
     io_bind (on_fds (fd_num (fr_fd this_rule))) (\<lambda>n.
     io_bind (on_fds (call (sys_so_error pc n))) (\<lambda>(ret, socket_error, optlen).
     io_bind (io_ask (\<lambda>s. sys_errno sys (w_kernel (snd s)))) (\<lambda>errno.
     io_bind (io_ask (\<lambda>s. category_name (fst s) (br_category_id this_rule))) (\<lambda>name.
       if ret = - 1 \<and> errno = ENOTSOCK then io_bind (io_lift name) (\<lambda>_. io_return ())
       else if ret = - 1 then io_throw (System_error ''getsockopt'' errno)
       else if optlen \<noteq> 4 then io_throw (Runtime_error (''unexpected length from getsockopt: '' @ dec_nat optlen))
       else if socket_error \<noteq> 0 then io_bind (io_lift name) (\<lambda>_. io_return ())
       else io_return ()))))"

definition busy_fd_rule :: "string \<Rightarrow> cpp_error" where
  "busy_fd_rule name = Runtime_error (''EventLoop: busy wait detected: rule '' @ [CHR 0x22] @ name
     @ [CHR 0x22] @ '' did not read/write fd and is still interested'')"

definition serve_fd_rule :: "'k closures \<Rightarrow> fd_rule \<Rightarrow> ('k state, unit) io" where
  "serve_fd_rule cl this_rule =
     io_bind (on_fds (service_count this_rule)) (\<lambda>count_before.
     io_bind (cl_callback cl (br_code this_rule)) (\<lambda>_.
     io_bind (on_fds (service_count this_rule)) (\<lambda>count_after.
       if count_before \<noteq> count_after then io_return ()
       else io_bind (on_fds (fd_closed (fr_fd this_rule))) (\<lambda>closed.
            if closed then io_return ()
            else io_bind (cl_interest cl (br_code this_rule)) (\<lambda>interested.
                 if \<not> interested then io_return ()
                 else io_bind (io_ask (\<lambda>s. category_name (fst s) (br_category_id this_rule))) (\<lambda>name.
                      io_bind (io_lift name) (\<lambda>name. io_throw (busy_fd_rule name))))))))"

fun with_revents :: "(int \<times> u16) list \<Rightarrow> u16 list \<Rightarrow> (u16 \<times> u16) list" where
  "with_revents [] revents = []"
| "with_revents ((n, events) # pollfds) [] = (events, 0) # with_revents pollfds []"
| "with_revents ((n, events) # pollfds) (r # revents) = (events, r) # with_revents pollfds revents"

definition poll_error :: "u16 \<Rightarrow> bool" where
  "poll_error revents \<longleftrightarrow> revents AND (POLLERR OR POLLNVAL) \<noteq> 0"

definition poll_ready :: "u16 \<Rightarrow> u16 \<Rightarrow> bool" where
  "poll_ready events revents \<longleftrightarrow> revents AND events \<noteq> 0"

definition hung_up :: "fd_rule \<Rightarrow> u16 \<Rightarrow> u16 \<Rightarrow> bool" where
  "hung_up this_rule events revents \<longleftrightarrow> revents AND POLLHUP \<noteq> 0
     \<and> (events \<noteq> 0 \<and> \<not> poll_ready events revents \<or> fr_direction this_rule = Out)"

text \<open>The second traversal, over the results of the poll; \<open>at\<close> throws when there are more rules
  than there were.\<close>

fun results_loop ::
  "'k syscalls \<Rightarrow> 'k poll_calls \<Rightarrow> 'k closures \<Rightarrow> (u16 \<times> u16) list \<Rightarrow> nat \<Rightarrow> ('k state, wait_result) io"
where
  "results_loop sys pc cl [] i s =
     (if i \<ge> length (el_fd_rules (fst s)) then (Inr Success, s) else (Inl (Out_of_range ''vector::at''), s))"
| "results_loop sys pc cl ((events, revents) # polled) i s =
     (if i \<ge> length (el_fd_rules (fst s)) then (Inr Success, s)
      else let this_rule = el_fd_rules (fst s) ! i
      in if poll_error revents
         then io_bind (report_error sys pc this_rule) (\<lambda>_.
              io_bind (cl_error cl (br_code this_rule)) (\<lambda>_.
              io_bind (cl_cancel cl (br_code this_rule)) (\<lambda>_.
              io_bind (update_loop (erase_fd_rule i)) (\<lambda>_. results_loop sys pc cl polled i)))) s
         else if hung_up this_rule events revents
         then io_bind (cl_cancel cl (br_code this_rule)) (\<lambda>_.
              io_bind (update_loop (erase_fd_rule i)) (\<lambda>_. results_loop sys pc cl polled i)) s
         else if poll_ready events revents
         then io_bind (serve_fd_rule cl this_rule) (\<lambda>_. io_return Success) s
         else results_loop sys pc cl polled (Suc i) s)"

subsection \<open>One round\<close>

definition poll_and_serve ::
  "'k syscalls \<Rightarrow> 'k poll_calls \<Rightarrow> 'k closures \<Rightarrow> (int \<times> u16) list \<Rightarrow> int \<Rightarrow> ('k state, wait_result) io"
where
  "poll_and_serve sys pc cl pollfds timeout_ms =
     io_bind (on_fds (call (sys_poll pc pollfds timeout_ms))) (\<lambda>(r, revents).
     io_bind (on_fds (check_system_call sys ''poll'' r)) (\<lambda>count.
       if count = 0 then io_return Timeout
       else results_loop sys pc cl (with_revents pollfds revents) 0))"

definition wait_next_event ::
  "'k syscalls \<Rightarrow> 'k poll_calls \<Rightarrow> 'k closures \<Rightarrow> int \<Rightarrow> 'k state \<Rightarrow> (wait_result result \<times> 'k state) option"
where
  "wait_next_event sys pc cl timeout_ms s =
     (case rules_loop cl 0 s of
        None \<Rightarrow> None
      | Some (Inl e, s) \<Rightarrow> Some (Inl e, s)
      | Some (Inr fired, s) \<Rightarrow>
          if fired then Some (Inr Success, s)
          else (case setup_loop cl 0 [] False s of
                  None \<Rightarrow> None
                | Some (Inl e, s) \<Rightarrow> Some (Inl e, s)
                | Some (Inr (pollfds, something_to_poll), s) \<Rightarrow>
                    if \<not> something_to_poll then Some (Inr Exit, s)
                    else Some (poll_and_serve sys pc cl pollfds timeout_ms s)))"

subsection \<open>A round comes to an end\<close>

definition adds_no_rules :: "(nat \<Rightarrow> ('k state, 'a) io) \<Rightarrow> bool" where
  "adds_no_rules f \<longleftrightarrow> (\<forall>code s.
     length (el_fd_rules (fst (snd (f code s)))) \<le> length (el_fd_rules (fst s))
     \<and> length (el_non_fd_rules (fst (snd (f code s)))) \<le> length (el_non_fd_rules (fst s)))"

lemma length_erase_at [simp]: "i < length xs \<Longrightarrow> length (erase_at i xs) = length xs - 1"
  by (simp add: erase_at_def)

lemma erase_rule_simps [simp]:
  "el_non_fd_rules (erase_rule i el) = erase_at i (el_non_fd_rules el)" "el_fd_rules (erase_rule i el) = el_fd_rules el"
  "el_non_fd_rules (erase_fd_rule i el) = el_non_fd_rules el" "el_fd_rules (erase_fd_rule i el) = erase_at i (el_fd_rules el)"
  by (simp_all add: erase_rule_def erase_fd_rule_def)

lemma on_fds_loop [simp]: "fst (snd (on_fds m s)) = fst s"
  by (simp add: on_fds_def split: prod.splits)

lemma on_fds_unchanged: "on_fds m s = (r, s') \<Longrightarrow> fst s' = fst s"
  by (metis on_fds_loop snd_conv)

lemma serve_rule_fired: "serve_rule cl r n s = (Inr b, s') \<Longrightarrow> 0 < n \<Longrightarrow> b"
proof (induction cl r n s rule: serve_rule.induct)
  case (1 cl r n s)
  show ?case
    using 1(2,3) 1(1)
    by (subst (asm) serve_rule.simps) (auto simp: io_bind_Inr split: if_splits; blast)
qed

lemma serve_rule_idle:
  assumes "adds_no_rules (cl_interest cl)" and "serve_rule cl r 0 s = (Inr False, s')"
  shows "length (el_non_fd_rules (fst s')) \<le> length (el_non_fd_rules (fst s))"
proof -
  have fired: "serve_rule cl r (Suc 0) v \<noteq> (Inr False, v')" for v v'
    using serve_rule_fired by blast
  obtain x s1 where i: "cl_interest cl (br_code r) s = (x, s1)" by (rule prod.exhaust)
  have keep: "length (el_non_fd_rules (fst s1)) \<le> length (el_non_fd_rules (fst s))"
    using assms(1) i by (metis adds_no_rules_def snd_conv)
  show ?thesis
    using assms(2) i keep fired
    by (subst (asm) serve_rule.simps) (auto simp: io_bind_Inr split: if_splits)
qed

lemma rules_loop_returns:
  assumes "adds_no_rules (cl_interest cl)"
  shows "rules_loop cl i s \<noteq> None"
proof (induction "length (el_non_fd_rules (fst s)) - i" arbitrary: i s rule: less_induct)
  case less
  show ?case
  proof (cases "i \<ge> length (el_non_fd_rules (fst s))")
    case False
    let ?r = "el_non_fd_rules (fst s) ! i"
    show ?thesis
    proof (cases "br_cancel_requested ?r")
      case True
      then show ?thesis
        using less [of "(erase_rule i (fst s), snd s)" i] False by (subst rules_loop.simps) auto
    next
      case idle: False
      obtain x s1 where x: "serve_rule cl ?r 0 s = (x, s1)" by (rule prod.exhaust)
      have "rules_loop cl (Suc i) s1 \<noteq> None" if "x = Inr False"
        using serve_rule_idle [OF assms x [unfolded that]] False by (intro less) simp
      then show ?thesis
        using idle False x by (subst rules_loop.simps) (auto simp: Let_def split: sum.splits)
    qed
  qed (subst rules_loop.simps, simp)
qed

lemma setup_rule_keeps:
  assumes "adds_no_rules (cl_interest cl)" and "adds_no_rules (cl_cancel cl)" and "setup_rule cl r s = (x, s')"
  shows "length (el_fd_rules (fst s')) \<le> length (el_fd_rules (fst s))"
proof -
  obtain g s1 where g: "on_fds (defunct r) s = (g, s1)" "fst s1 = fst s" using on_fds_loop by (metis prod.collapse)
  obtain y s2 where y: "cl_cancel cl (br_code r) s1 = (y, s2)" by (rule prod.exhaust)
  obtain z s3 where z: "cl_interest cl (br_code r) s1 = (z, s3)" by (rule prod.exhaust)
  obtain n s4 where n: "on_fds (fd_num (fr_fd r)) s3 = (n, s4)" "fst s4 = fst s3" using on_fds_loop by (metis prod.collapse)
  have "length (el_fd_rules (fst s2)) \<le> length (el_fd_rules (fst s1))" "length (el_fd_rules (fst s3)) \<le> length (el_fd_rules (fst s1))"
    using assms(1,2) y z by (metis adds_no_rules_def snd_conv)+
  then show ?thesis
    using assms(3) g y z n by (auto simp: setup_rule_def io_bind_def split: sum.splits if_splits)
qed

lemma setup_loop_returns:
  assumes "adds_no_rules (cl_interest cl)" and "adds_no_rules (cl_cancel cl)"
  shows "setup_loop cl i pollfds something s \<noteq> None"
proof (induction "length (el_fd_rules (fst s)) - i" arbitrary: i s pollfds something rule: less_induct)
  case less
  show ?case
  proof (cases "i \<ge> length (el_fd_rules (fst s))")
    case False
    let ?r = "el_fd_rules (fst s) ! i"
    show ?thesis
    proof (cases "br_cancel_requested ?r")
      case True
      then show ?thesis
        using less [of "(erase_fd_rule i (fst s), snd s)" i] False by (subst setup_loop.simps) auto
    next
      case idle: False
      obtain x s1 where x: "setup_rule cl ?r s = (x, s1)" by (rule prod.exhaust)
      note shorter = setup_rule_keeps [OF assms x]
      have "setup_loop cl i pollfds something (erase_fd_rule i (fst s1), snd s1) \<noteq> None"
      proof (cases "i < length (el_fd_rules (fst s1))")
        case True
        then show ?thesis using shorter False by (intro less) simp
      next
        case none: False
        then have "i \<ge> length (el_fd_rules (erase_fd_rule i (fst s1)))" by (simp add: erase_at_def)
        then show ?thesis by (subst setup_loop.simps) simp
      qed
      moreover have "setup_loop cl (Suc i) pollfds' something' s1 \<noteq> None" for pollfds' something'
        using shorter False by (intro less) simp
      ultimately show ?thesis
        using idle False x by (subst setup_loop.simps) (auto simp: Let_def split: sum.splits option.splits)
    qed
  qed (subst setup_loop.simps, simp)
qed

subsection \<open>Which rule is served\<close>

lemma rules_loop_skip:
  assumes "\<And>code s. cl_interest cl code s = (Inr (p code s), s)"
    and "el_non_fd_rules (fst s) = xs @ ys" and "\<forall>x\<in>set xs. \<not> br_cancel_requested x \<and> \<not> p (br_code x) s"
  shows "rules_loop cl 0 s = rules_loop cl (length xs) s"
proof -
  have "rules_loop cl i s = rules_loop cl (length xs) s" if "i \<le> length xs" for i
    using that
  proof (induction rule: inc_induct)
    case (step i)
    have x: "el_non_fd_rules (fst s) ! i = xs ! i" "xs ! i \<in> set xs" using step(2) assms(2) by (simp_all add: nth_append)
    have "cl_interest cl (br_code (xs ! i)) s = (Inr False, s)"
      using assms(3) x(2) assms(1) [of "br_code (xs ! i)" s] by simp
    then have "serve_rule cl (xs ! i) 0 s = (Inr False, s)"
      by (subst serve_rule.simps) (simp add: io_bind_def)
    moreover have "\<not> i \<ge> length (el_non_fd_rules (fst s))" "\<not> br_cancel_requested (xs ! i)"
      using step(2) x(2) assms(2,3) by simp_all
    ultimately have "rules_loop cl i s = rules_loop cl (Suc i) s"
      using x(1) by (subst rules_loop.simps) simp
    from this step(3) show ?case by (rule trans)
  qed simp
  from this [OF le0] show ?thesis .
qed

lemma serve_rule_run:
  assumes "\<And>code s. cl_interest cl code s = (Inr (p code s), s)"
    and "\<forall>k<n. p (br_code r) (st k) \<and> cl_callback cl (br_code r) (st k) = (Inr (), st (Suc k))" and "n \<le> 128"
  shows "serve_rule cl r 0 (st 0) = serve_rule cl r n (st n)"
proof -
  have "serve_rule cl r k (st k) = serve_rule cl r n (st n)" if "k \<le> n" for k
    using that
  proof (induction rule: inc_induct)
    case (step k)
    have "cl_interest cl (br_code r) (st k) = (Inr True, st k)" "cl_callback cl (br_code r) (st k) = (Inr (), st (Suc k))"
      "\<not> k \<ge> 128" using assms(2,3) step(2) assms(1) [of "br_code r" "st k"] by simp_all
    then have "serve_rule cl r k (st k) = serve_rule cl r (Suc k) (st (Suc k))"
      by (subst serve_rule.simps) (simp add: io_bind_def)
    from this step(3) show ?case by (rule trans)
  qed simp
  from this [OF le0] show ?thesis .
qed

text \<open>The callbacks that were run, when the program keeps a log of them.\<close>

definition log_of :: "('k \<Rightarrow> nat list) \<Rightarrow> 'k state \<Rightarrow> nat list" where
  "log_of log s = log (w_kernel (snd s))"

definition well_logged :: "('k \<Rightarrow> nat list) \<Rightarrow> 'k poll_calls \<Rightarrow> 'k closures \<Rightarrow> bool" where
  "well_logged log pc cl \<longleftrightarrow>
     (\<forall>code s. log_of log (snd (cl_callback cl code s)) = log_of log s @ [code]
       \<and> log_of log (snd (cl_interest cl code s)) = log_of log s
       \<and> log_of log (snd (cl_cancel cl code s)) = log_of log s
       \<and> log_of log (snd (cl_error cl code s)) = log_of log s)
     \<and> (\<forall>ps t k. log (snd (sys_poll pc ps t k)) = log k) \<and> (\<forall>n k. log (snd (sys_so_error pc n k)) = log k)"

definition silent :: "('k \<Rightarrow> nat list) \<Rightarrow> ('k state, 'a) io \<Rightarrow> bool" where
  "silent log m \<longleftrightarrow> (\<forall>s. log_of log (snd (m s)) = log_of log s)"

named_theorems silence \<open>operations that run no callback\<close>

lemma silentD: "silent log m \<Longrightarrow> m s = (r, s') \<Longrightarrow> log_of log s' = log_of log s"
  unfolding silent_def by (metis snd_conv)

lemma silent_basic [silence]:
  "silent log (io_return x)" "silent log (io_throw e)" "silent log (io_lift r)" "silent log (io_ask g)"
  "silent log (update_loop f)"
  by (simp_all add: silent_def update_loop_def log_of_def)

lemma silent_bind [silence]:
  assumes "silent log m" and "\<And>x. silent log (f x)"
  shows "silent log (io_bind m f)"
  using assms by (auto simp: silent_def io_bind_def split: prod.splits sum.splits) (metis snd_conv)+

lemma silent_if [silence]: "silent log m \<Longrightarrow> silent log m' \<Longrightarrow> silent log (if b then m else m')"
  by simp

lemma silent_fds:
  assumes "\<And>w. w_kernel (snd (m w)) = w_kernel w"
  shows "silent log (on_fds m)"
  unfolding silent_def
proof
  fix s :: "'a state"
  obtain r w where "m (snd s) = (r, w)" by (rule prod.exhaust)
  with assms [of "snd s"] show "log_of log (snd (on_fds m s)) = log_of log s"
    by (simp add: on_fds_def log_of_def)
qed

lemma deref_kernel: "w_kernel (snd (io_bind (deref fd) (\<lambda>a. io_ask (g a)) w)) = w_kernel w"
  by (cases fd) (simp_all add: deref_def)

lemma silent_accessors [silence]:
  "silent log (on_fds (fd_num fd))" "silent log (on_fds (fd_closed fd))" "silent log (on_fds (fd_eof fd))"
  "silent log (on_fds (service_count r))"
  by (rule silent_fds; simp add: fd_num_def fd_closed_def fd_eof_def service_count_def read_count_def
      write_count_def deref_kernel)+

lemma defunct_kernel: "w_kernel (snd (defunct r w)) = w_kernel w"
  by (cases "fr_fd r") (simp_all add: defunct_def io_bind_def fd_eof_def fd_closed_def deref_def)

lemma silent_defunct [silence]: "silent log (on_fds (defunct r))"
  by (rule silent_fds) (rule defunct_kernel)

lemma silent_closures:
  assumes "well_logged log pc cl"
  shows "silent log (cl_interest cl code)" and "silent log (cl_cancel cl code)" and "silent log (cl_error cl code)"
    and "silent log (on_fds (call (sys_so_error pc n)))" and "silent log (on_fds (call (sys_poll pc ps t)))"
  using assms by (auto simp: well_logged_def silent_def on_fds_def call_def log_of_def split: prod.splits) (metis snd_conv)+

lemma callback_log:
  assumes "well_logged log pc cl" and "cl_callback cl code s = (x, s')"
  shows "log_of log s' = log_of log s @ [code]"
  using assms unfolding well_logged_def by (metis snd_conv)

lemma serve_rule_log:
  "well_logged log pc cl \<Longrightarrow> serve_rule cl r it s = (x, s') \<Longrightarrow>
    \<exists>n \<le> 128 - it. log_of log s' = log_of log s @ replicate n (br_code r) \<and> (x = Inr False \<longrightarrow> n = 0)"
proof (induction cl r it s rule: serve_rule.induct)
  case (1 cl r it s)
  obtain y s1 where y: "cl_interest cl (br_code r) s = (y, s1)" by (rule prod.exhaust)
  have s1: "log_of log s1 = log_of log s" using silentD [OF silent_closures(1) [OF 1(2)] y] .
  have run: "serve_rule cl r it s = (x, s')" by (rule 1(3))
  show ?case
  proof (cases "y = Inr True \<and> it < 128")
    case False
    then have "s' = s1"
      using run y by (cases y) (auto simp: serve_rule.simps [of cl r it s] io_bind_eq io_bind_def split: if_splits sum.splits)
    with s1 show ?thesis by auto
  next
    case True
    obtain z s2 where z: "cl_callback cl (br_code r) s1 = (z, s2)" by (rule prod.exhaust)
    have s2: "log_of log s2 = log_of log s @ [br_code r]" using callback_log [OF 1(2) z] s1 by simp
    show ?thesis
    proof (cases z)
      case (Inl e)
      then have "s' = s2" "x = Inl e" using run y z True by (simp_all add: serve_rule.simps [of cl r it s] io_bind_eq)
      with s2 True show ?thesis by (intro exI [of _ 1]) auto
    next
      case (Inr u)
      then have rest: "serve_rule cl r (it + 1) s2 = (x, s')"
        using run y z True by (simp add: serve_rule.simps [of cl r it s] io_bind_eq)
      obtain n where n: "n \<le> 128 - (it + 1)" "log_of log s' = log_of log s2 @ replicate n (br_code r)"
        using 1(1) [of True s1 s2] y True rest 1(2) by auto
      have "x \<noteq> Inr False" using serve_rule_fired [of cl r "it + 1" s2 False s'] rest by auto
      with n s2 True show ?thesis by (intro exI [of _ "Suc n"]) auto
    qed
  qed
qed

lemma rules_loop_log:
  assumes wl: "well_logged log pc cl" and ret: "rules_loop cl i s = Some (x, s')"
  shows "\<exists>code n. n \<le> 128 \<and> log_of log s' = log_of log s @ replicate n code \<and> (x = Inr False \<longrightarrow> n = 0)"
proof -
  let ?P = "\<lambda>cl i s res. well_logged log pc cl \<longrightarrow> (\<exists>code n. n \<le> 128
    \<and> log_of log (snd res) = log_of log s @ replicate n code \<and> (fst res = Inr False \<longrightarrow> n = 0))"
  have "?P cl i s (x, s')"
  proof (rule rules_loop.raw_induct [where P = ?P, OF _ ret])
    fix f and cl :: "'a closures" and i and s :: "'a state" and res
    assume ih: "\<And>cl i s res. f cl i s = Some res \<Longrightarrow> ?P cl i s res"
      and run: "(if length (el_non_fd_rules (fst s)) \<le> i then Some (Inr False, s)
        else let this_rule = el_non_fd_rules (fst s) ! i
          in if br_cancel_requested this_rule then f cl i (erase_rule i (fst s), snd s)
             else case serve_rule cl this_rule 0 s of (Inl e, s) \<Rightarrow> Some (Inl e, s)
               | (Inr fired, s) \<Rightarrow> if fired then Some (Inr True, s) else f cl (Suc i) s) = Some res"
    let ?r = "el_non_fd_rules (fst s) ! i"
    show "?P cl i s res"
    proof
      assume wl: "well_logged log pc cl"
      obtain y s1 where y: "serve_rule cl ?r 0 s = (y, s1)" by (rule prod.exhaust)
      obtain n where n: "n \<le> 128" "log_of log s1 = log_of log s @ replicate n (br_code ?r)" "y = Inr False \<longrightarrow> n = 0"
        using serve_rule_log [OF wl y] by auto
      have erased: "log_of log (erase_rule i (fst s), snd s) = log_of log s" by (simp add: log_of_def)
      consider "res = (Inr False, s)" | "f cl i (erase_rule i (fst s), snd s) = Some res"
        | "res = (y, s1)" | "y = Inr False" "f cl (Suc i) s1 = Some res"
      proof -
        have "res = (y, s1) \<or> y = Inr False \<and> f cl (Suc i) s1 = Some res"
          if "\<not> length (el_non_fd_rules (fst s)) \<le> i" "\<not> br_cancel_requested ?r"
          using run that y by (cases y) (simp_all add: Let_def split: if_splits)
        moreover have "res = (Inr False, s)" if "length (el_non_fd_rules (fst s)) \<le> i"
          using run that by simp
        moreover have "f cl i (erase_rule i (fst s), snd s) = Some res"
          if "\<not> length (el_non_fd_rules (fst s)) \<le> i" "br_cancel_requested ?r"
          using run that by (simp add: Let_def)
        ultimately show ?thesis using that by blast
      qed
      then show "\<exists>code n. n \<le> 128 \<and> log_of log (snd res) = log_of log s @ replicate n code \<and> (fst res = Inr False \<longrightarrow> n = 0)"
      proof cases
        case 1 then show ?thesis by (intro exI [of _ 0]) simp
      next
        case 2 with ih [OF 2] wl erased show ?thesis by simp
      next
        case 3 with n show ?thesis by auto
      next
        case 4 with ih [OF 4(2)] wl n show ?thesis by simp
      qed
    qed
  qed
  with wl show ?thesis by simp
qed

lemma silent_setup_rule:
  "well_logged log pc cl \<Longrightarrow> silent log (setup_rule cl r)"
  unfolding setup_rule_def by (intro silence silent_closures)

lemma setup_loop_log:
  assumes wl: "well_logged log pc cl" and ret: "setup_loop cl i pollfds something s = Some (x, s')"
  shows "log_of log s' = log_of log s"
proof -
  let ?P = "\<lambda>cl i pollfds something s res. well_logged log pc cl \<longrightarrow> log_of log (snd res) = log_of log s"
  have "?P cl i pollfds something s (x, s')"
  proof (rule setup_loop.raw_induct [where P = ?P, OF _ ret])
    fix f and cl :: "'a closures" and i and pollfds :: "(int \<times> u16) list" and something :: bool and s :: "'a state" and res
    assume ih: "\<And>cl i pollfds something s res. f cl i pollfds something s = Some res \<Longrightarrow> ?P cl i pollfds something s res"
      and run: "(if length (el_fd_rules (fst s)) \<le> i then Some (Inr (pollfds, something), s)
        else let this_rule = el_fd_rules (fst s) ! i
          in if br_cancel_requested this_rule then f cl i pollfds something (erase_fd_rule i (fst s), snd s)
             else case setup_rule cl this_rule s of (Inl e, s) \<Rightarrow> Some (Inl e, s)
               | (Inr None, s) \<Rightarrow> f cl i pollfds something (erase_fd_rule i (fst s), snd s)
               | (Inr (Some (n, events, interested)), s) \<Rightarrow>
                   f cl (Suc i) (pollfds @ [(n, events)]) (something \<or> interested) s) = Some res"
    let ?r = "el_fd_rules (fst s) ! i"
    show "?P cl i pollfds something s res"
    proof
      assume wl: "well_logged log pc cl"
      obtain y s1 where y: "setup_rule cl ?r s = (y, s1)" by (rule prod.exhaust)
      have s1: "log_of log s1 = log_of log s" using silentD [OF silent_setup_rule [OF wl] y] .
      have erased: "log_of log (erase_fd_rule i (fst t), snd t) = log_of log t" for t by (simp add: log_of_def)
      consider "snd res = s" | "snd res = s1" | "f cl i pollfds something (erase_fd_rule i (fst s), snd s) = Some res"
        | "f cl i pollfds something (erase_fd_rule i (fst s1), snd s1) = Some res"
        | pf so where "f cl (Suc i) pf so s1 = Some res"
        using run y by (simp add: Let_def split: if_splits sum.splits option.splits prod.splits) fastforce+
      then show "log_of log (snd res) = log_of log s"
      proof cases
        case 3 with ih [OF 3] wl erased show ?thesis by simp
      next
        case 4 with ih [OF 4] wl erased s1 show ?thesis by simp
      next
        case 5 with ih [OF 5] wl s1 show ?thesis by simp
      qed (use s1 in simp_all)
    qed
  qed
  with wl show ?thesis by simp
qed

lemma silent_report_error:
  assumes "well_logged log pc cl"
  shows "silent log (report_error sys pc r)"
  unfolding report_error_def
  by (auto intro!: silence silent_closures [OF assms] split: prod.splits)

lemma serve_fd_rule_log:
  assumes wl: "well_logged log pc cl" and run: "serve_fd_rule cl r s = (x, s')"
  shows "\<exists>n \<le> 1. log_of log s' = log_of log s @ replicate n (br_code r)"
proof -
  obtain c s1 where c: "on_fds (service_count r) s = (c, s1)" by (rule prod.exhaust)
  obtain y s2 where y: "cl_callback cl (br_code r) s1 = (y, s2)" by (rule prod.exhaust)
  have s1: "log_of log s1 = log_of log s" using silentD [OF silent_accessors(4) c] .
  then have s2: "log_of log s2 = log_of log s @ [br_code r]" using callback_log [OF wl y] by simp
  show ?thesis
  proof (cases c)
    case (Inl e)
    with run c s1 show ?thesis by (intro exI [of _ 0]) (simp add: serve_fd_rule_def io_bind_eq)
  next
    case (Inr count)
    define rest :: "('a state, unit) io" where "rest =
      io_bind (on_fds (service_count r)) (\<lambda>count_after.
       if count \<noteq> count_after then io_return ()
       else io_bind (on_fds (fd_closed (fr_fd r))) (\<lambda>closed.
            if closed then io_return ()
            else io_bind (cl_interest cl (br_code r)) (\<lambda>interested.
                 if \<not> interested then io_return ()
                 else io_bind (io_ask (\<lambda>s. category_name (fst s) (br_category_id r))) (\<lambda>name.
                      io_bind (io_lift name) (\<lambda>name. io_throw (busy_fd_rule name))))))"
    have "silent log rest" unfolding rest_def by (intro silence silent_closures [OF wl])
    moreover have "x = Inl e \<and> s' = s2" if "y = Inl e" for e
      using run c y Inr that by (simp add: serve_fd_rule_def io_bind_eq)
    moreover have "rest s2 = (x, s')" if "y = Inr u" for u
      using run c y Inr that by (simp add: serve_fd_rule_def io_bind_eq rest_def)
    ultimately have "log_of log s' = log_of log s2" by (cases y) (auto dest: silentD)
    with s2 show ?thesis by (intro exI [of _ 1]) simp
  qed
qed

lemma results_loop_log:
  assumes "well_logged log pc cl"
  shows "results_loop sys pc cl polled i s = (x, s') \<Longrightarrow>
    x \<noteq> Inr Timeout \<and> x \<noteq> Inr Exit \<and> (\<exists>code n. n \<le> 1 \<and> log_of log s' = log_of log s @ replicate n code)"
proof (induction polled arbitrary: i s)
  case Nil
  then show ?case by (auto split: if_splits)
next
  case (Cons er polled)
  obtain events revents where er: "er = (events, revents)" by (rule prod.exhaust)
  let ?r = "el_fd_rules (fst s) ! i"
  have keep: "x \<noteq> Inr Timeout \<and> x \<noteq> Inr Exit \<and> (\<exists>code n. n \<le> 1 \<and> log_of log s' = log_of log s @ replicate n code)"
    if "io_bind m (\<lambda>_. results_loop sys pc cl polled i) s = (x, s')" and "silent log m" for m :: "('a state, unit) io"
  proof -
    obtain y s1 where y: "m s = (y, s1)" by (rule prod.exhaust)
    have s1: "log_of log s1 = log_of log s" using silentD [OF that(2) y] .
    show ?thesis
    proof (cases y)
      case (Inl e)
      with that(1) y s1 show ?thesis by (auto simp: io_bind_eq intro!: exI [of _ 0])
    next
      case (Inr u)
      with that(1) y have "results_loop sys pc cl polled i s1 = (x, s')" by (simp add: io_bind_eq)
      from Cons.IH [OF this] s1 show ?thesis by simp
    qed
  qed
  show ?case
  proof (cases "i \<ge> length (el_fd_rules (fst s))")
    case True
    with Cons.prems er show ?thesis by (auto intro!: exI [of _ 0])
  next
    case inside: False
    consider "poll_error revents" | "\<not> poll_error revents" "hung_up ?r events revents"
      | "\<not> poll_error revents" "\<not> hung_up ?r events revents" "poll_ready events revents"
      | "\<not> poll_error revents" "\<not> hung_up ?r events revents" "\<not> poll_ready events revents" by blast
    then show ?thesis
    proof cases
      case 1
      with Cons.prems er inside have "io_bind (io_bind (report_error sys pc ?r) (\<lambda>_. io_bind (cl_error cl (br_code ?r)) (\<lambda>_.
          io_bind (cl_cancel cl (br_code ?r)) (\<lambda>_. update_loop (erase_fd_rule i))))) (\<lambda>_. results_loop sys pc cl polled i) s = (x, s')"
        by (simp add: Let_def io_bind_assoc)
      then show ?thesis
        by (rule keep) (intro silence silent_closures [OF assms] silent_report_error [OF assms])
    next
      case 2
      with Cons.prems er inside have "io_bind (io_bind (cl_cancel cl (br_code ?r)) (\<lambda>_. update_loop (erase_fd_rule i)))
          (\<lambda>_. results_loop sys pc cl polled i) s = (x, s')"
        by (simp add: Let_def io_bind_assoc)
      then show ?thesis
        by (rule keep) (intro silence silent_closures [OF assms])
    next
      case 3
      obtain y s1 where y: "serve_fd_rule cl ?r s = (y, s1)" by (rule prod.exhaust)
      with Cons.prems er inside 3 have "s' = s1" "x = map_sum id (\<lambda>_. Success) y"
        by (cases y; simp add: Let_def io_bind_eq)+
      with serve_fd_rule_log [OF assms y] show ?thesis by (cases y) auto
    next
      case 4
      with Cons er inside show ?thesis by simp
    qed
  qed
qed

lemma poll_and_serve_log:
  assumes "well_logged log pc cl" and "poll_and_serve sys pc cl pollfds timeout_ms s = (x, s')"
  shows "\<exists>code n. n \<le> 1 \<and> log_of log s' = log_of log s @ replicate n code \<and> (x = Inr Timeout \<or> x = Inr Exit \<longrightarrow> n = 0)"
proof -
  obtain c s1 where c: "on_fds (call (sys_poll pc pollfds timeout_ms)) s = (c, s1)" by (rule prod.exhaust)
  have s1: "log_of log s1 = log_of log s" using silentD [OF silent_closures(5) [OF assms(1)] c] .
  obtain r revents where r: "c = Inr (r, revents)"
    using c by (auto simp: on_fds_def call_def split: prod.splits)
  obtain d s2 where d: "on_fds (check_system_call sys ''poll'' r) s1 = (d, s2)" by (rule prod.exhaust)
  have quiet: "silent log (on_fds (check_system_call sys ''poll'' r))" by (rule silent_fds) (simp add: check_system_call_def)
  have s2: "log_of log s2 = log_of log s" using silentD [OF quiet d] s1 by simp
  show ?thesis
  proof (cases d)
    case (Inl e)
    with assms(2) c r d have "x = Inl e" "s' = s2" by (simp_all add: poll_and_serve_def io_bind_eq)
    with s2 show ?thesis by (auto intro: exI [of _ 0])
  next
    case (Inr count)
    show ?thesis
    proof (cases "count = 0")
      case True
      with Inr assms(2) c r d have "s' = s2" by (simp add: poll_and_serve_def io_bind_eq)
      with s2 show ?thesis by (auto intro: exI [of _ 0])
    next
      case False
      with Inr assms(2) c r d have "results_loop sys pc cl (with_revents pollfds revents) 0 s2 = (x, s')"
        by (simp add: poll_and_serve_def io_bind_eq)
      from results_loop_log [OF assms(1) this] s2 show ?thesis by auto
    qed
  qed
qed

lemma round_returns:
  assumes "adds_no_rules (cl_interest cl)" and "adds_no_rules (cl_cancel cl)"
  shows "\<exists>r s'. wait_next_event sys pc cl timeout_ms s = Some (r, s')"
proof -
  obtain x s1 where x: "rules_loop cl 0 s = Some (x, s1)" using rules_loop_returns [OF assms(1), of 0 s] by auto
  obtain y s2 where y: "setup_loop cl 0 [] False s1 = Some (y, s2)"
    using setup_loop_returns [OF assms, of 0 "[]" False s1] by auto
  obtain z s3 where z: "poll_and_serve sys pc cl (fst (projr y)) timeout_ms s2 = (z, s3)" by (rule prod.exhaust)
  show ?thesis
    using x y z by (cases x; cases y) (auto simp: wait_next_event_def split: prod.splits)
qed

subsection \<open>Properties\<close>

text \<open>A program whose log is its whole state beside the loop; every rule is interested until
  the log has three entries.\<close>

definition demo_closures :: "nat list closures" where
  "demo_closures = \<lparr>cl_interest = (\<lambda>code s. (Inr (length (w_kernel (snd s)) < 3), s)),
     cl_callback = (\<lambda>code s. (Inr (), (fst s, (snd s)\<lparr>w_kernel := w_kernel (snd s) @ [code]\<rparr>))),
     cl_cancel = (\<lambda>code. io_return ()), cl_error = (\<lambda>code. io_return ())\<rparr>"

definition demo_state :: "nat list \<Rightarrow> nat list state" where
  "demo_state log = (\<lparr>el_rule_categories = [''app''], el_fd_rules = [],
     el_non_fd_rules = [\<lparr>br_serial = 0, br_category_id = 0, br_code = 7, br_cancel_requested = False\<rparr>], el_next_serial = 1\<rparr>,
     \<lparr>w_fds = (\<lambda>_. \<lparr>fw_fd = 3, fw_eof = False, fw_closed = False, fw_non_blocking = False, fw_read_count = 0, fw_write_count = 0\<rparr>),
      w_allocated = 1, w_kernel = log\<rparr>)"

definition demo_poll :: "nat list poll_calls" where
  "demo_poll = \<lparr>sys_poll = (\<lambda>ps t k. ((0, []), k)), sys_so_error = (\<lambda>n k. ((0, 0, 4), k))\<rparr>"

definition demo_calls :: "nat list syscalls" where
  "demo_calls = \<lparr>sys_errno = (\<lambda>_. 0), sys_read = (\<lambda>fd n k. ((0, []), k)), sys_readv = (\<lambda>fd ns k. ((0, []), k)),
     sys_write = (\<lambda>fd bs k. (int (length bs), k)), sys_writev = (\<lambda>fd bs k. (int (length (concat bs)), k)),
     sys_getfl = (\<lambda>fd k. (0, k)), sys_setfl = (\<lambda>fd flags k. (0, k)), sys_close = (\<lambda>fd k. (0, k))\<rparr>"

lemma demo_interest: "cl_interest demo_closures code s = (Inr (length (w_kernel (snd s)) < 3), s)"
  and demo_callback: "cl_callback demo_closures code (demo_state log) = (Inr (), demo_state (log @ [code]))"
  by (simp_all add: demo_closures_def demo_state_def)

text \<open>If asking for interest and cancelling add no rules, a round comes to an end, whatever
  the callbacks do.\<close>

theorem wait_next_event_returns:
  assumes "adds_no_rules (cl_interest cl)" and "adds_no_rules (cl_cancel cl)"
  shows "\<exists>r s'. wait_next_event sys pc cl timeout_ms s = Some (r, s')"
  using assms by (rule round_returns)

theorem wait_next_event_returns_witness:
  "\<exists>r s'. wait_next_event demo_calls demo_poll demo_closures 5 (demo_state []) = Some (r, s')"
  by (rule wait_next_event_returns) (simp_all add: adds_no_rules_def demo_closures_def)

text \<open>C24: when interest depends on the state only and the rules before it are not interested, the
  first interested rule is served: its callback runs again and again until it is no longer
  interested, which ends the round; if it is still interested after 128 runs, the round
  throws, as a busy wait.\<close>

theorem first_interested_rule_served:
  assumes "\<And>code s. cl_interest cl code s = (Inr (p code s), s)"
    and "el_non_fd_rules (fst (st 0)) = xs @ r # ys"
    and "\<forall>x\<in>set xs. \<not> br_cancel_requested x \<and> \<not> p (br_code x) (st 0)" and "\<not> br_cancel_requested r"
    and "\<forall>k<n. p (br_code r) (st k) \<and> cl_callback cl (br_code r) (st k) = (Inr (), st (Suc k))"
    and "0 < n" and "n \<le> 128" and "br_category_id r < length (el_rule_categories (fst (st n)))"
  shows "(\<not> p (br_code r) (st n) \<longrightarrow> wait_next_event sys pc cl timeout_ms (st 0) = Some (Inr Success, st n))
    \<and> (p (br_code r) (st n) \<and> n = 128 \<longrightarrow> wait_next_event sys pc cl timeout_ms (st 0)
        = Some (Inl (busy_rule (el_rule_categories (fst (st n)) ! br_category_id r) 129), st n))"
proof -
  have skip: "rules_loop cl 0 (st 0) = rules_loop cl (length xs) (st 0)"
    using rules_loop_skip [OF assms(1-3)] .
  have here: "\<not> length (el_non_fd_rules (fst (st 0))) \<le> length xs" "el_non_fd_rules (fst (st 0)) ! length xs = r"
    using assms(2) by (simp_all add: nth_append)
  have quiet: "serve_rule cl r n (st n) = (Inr True, st n)" if "\<not> p (br_code r) (st n)"
    using assms(1) [of "br_code r" "st n"] assms(6) that by (subst serve_rule.simps) (simp add: io_bind_def)
  have busy: "serve_rule cl r n (st n) = (Inl (busy_rule (el_rule_categories (fst (st n)) ! br_category_id r) 129), st n)"
    if "p (br_code r) (st n)" "n = 128"
    using assms(1) [of "br_code r" "st n"] assms(8) that
    by (subst serve_rule.simps) (simp add: io_bind_def category_name_def)
  have loop: "rules_loop cl 0 (st 0) = (case serve_rule cl r n (st n) of
      (Inl e, s) \<Rightarrow> Some (Inl e, s)
    | (Inr fired, s) \<Rightarrow> if fired then Some (Inr True, s) else rules_loop cl (Suc (length xs)) s)"
    unfolding skip using here assms(4) serve_rule_run [OF assms(1,5,7)]
    by (subst rules_loop.simps) simp
  show ?thesis
    using loop quiet busy by (auto simp: wait_next_event_def)
qed

theorem first_interested_rule_served_witness:
  "wait_next_event demo_calls demo_poll demo_closures 5 (demo_state []) = Some (Inr Success, demo_state [7, 7, 7])"
proof -
  let ?st = "\<lambda>k. demo_state (replicate k 7)"
  let ?r = "\<lparr>br_serial = 0, br_category_id = 0, br_code = 7, br_cancel_requested = False\<rparr>"
  have "\<forall>k<3. length (w_kernel (snd (?st k))) < 3 \<and> cl_callback demo_closures 7 (?st k) = (Inr (), ?st (Suc k))"
    unfolding demo_callback by (simp add: demo_state_def replicate_append_same)
  with first_interested_rule_served [of demo_closures "\<lambda>code s. length (w_kernel (snd s)) < 3" ?st "[]" ?r "[]" 3 demo_calls demo_poll 5]
  show ?thesis by (simp add: demo_interest demo_state_def numeral_3_eq_3)
qed

text \<open>C23: each round serves at most one rule: the callbacks that run in it are at most 128 runs
  of a single rule's, and there is none in a round that reports a timeout or that there is
  nothing left to wait for.\<close>

theorem one_rule_per_round:
  assumes "well_logged log pc cl" and "wait_next_event sys pc cl timeout_ms s = Some (r, s')"
  shows "\<exists>code n. n \<le> 128 \<and> log_of log s' = log_of log s @ replicate n code
    \<and> (r = Inr Timeout \<or> r = Inr Exit \<longrightarrow> n = 0)"
proof -
  obtain x s1 where x: "rules_loop cl 0 s = Some (x, s1)"
    using assms(2) by (auto simp: wait_next_event_def split: option.splits)
  obtain code n where n: "n \<le> 128" "log_of log s1 = log_of log s @ replicate n code" "x = Inr False \<longrightarrow> n = 0"
    using rules_loop_log [OF assms(1) x] by blast
  show ?thesis
  proof (cases "x = Inr False")
    case False
    then have "s' = s1 \<and> r \<noteq> Inr Timeout \<and> r \<noteq> Inr Exit"
      using assms(2) x by (cases x) (auto simp: wait_next_event_def)
    with n show ?thesis by blast
  next
    case True
    obtain y s2 where y: "setup_loop cl 0 [] False s1 = Some (y, s2)"
      using assms(2) x True by (auto simp: wait_next_event_def split: option.splits)
    have s2: "log_of log s2 = log_of log s"
      using setup_loop_log [OF assms(1) y] n True by simp
    have polled: "\<exists>code n. n \<le> 1 \<and> log_of log s' = log_of log s2 @ replicate n code \<and> (r = Inr Timeout \<or> r = Inr Exit \<longrightarrow> n = 0)"
      if "poll_and_serve sys pc cl pollfds timeout_ms s2 = (r, s')" for pollfds
      by (rule poll_and_serve_log [OF assms(1) that])
    consider "s' = s2" | pollfds where "poll_and_serve sys pc cl pollfds timeout_ms s2 = (r, s')"
      using assms(2) x y True by (auto simp: wait_next_event_def split: sum.splits if_splits)
    then show ?thesis
    proof cases
      case 1 with s2 show ?thesis by (auto intro: exI [of _ 0])
    next
      case 2 from polled [OF 2] s2 show ?thesis by fastforce
    qed
  qed
qed

theorem one_rule_per_round_witness:
  "wait_next_event demo_calls demo_poll demo_closures 5 (demo_state []) = Some (Inr Success, demo_state [7, 7, 7])
   \<and> (\<exists>code n. n \<le> 128 \<and> log_of (\<lambda>k. k) (demo_state [7, 7, 7]) = log_of (\<lambda>k. k) (demo_state []) @ replicate n code)"
proof -
  have "rules_loop demo_closures 0 (demo_state []) = Some (Inr True, demo_state [7, 7, 7])"
    by (simp add: rules_loop.simps serve_rule.simps io_bind_def demo_closures_def demo_state_def)
  then have run: "wait_next_event demo_calls demo_poll demo_closures 5 (demo_state []) = Some (Inr Success, demo_state [7, 7, 7])"
    by (simp add: wait_next_event_def)
  have "well_logged (\<lambda>k. k) demo_poll demo_closures"
    by (simp add: well_logged_def log_of_def demo_closures_def demo_poll_def)
  from one_rule_per_round [OF this run] run show ?thesis by blast
qed

end
