(* ===== verification/Loop_Client.thy ===== *)
theory Loop_Client
  imports Event_Loop
begin

text \<open>
  The contract between the event loop of \<open>util/eventloop.cc\<close> and a program that puts its work
  into the rules: an invariant of the program's state, and for each rule what must hold for its
  callback to run. Asking for interest establishes the latter when the answer is yes, and nothing
  that happens between the answer and the callback may destroy it: of the closures called in
  between only a rule's own, which is erased then, may. The closures leave the loop's rules
  alone, and the codes of the rules with a descriptor are different, and in a given set. Then every round keeps the
  invariant, however it ends.
\<close>

definition distinct_codes :: "nat set \<Rightarrow> event_loop \<Rightarrow> bool" where
  "distinct_codes C el \<longleftrightarrow> distinct (map br_code (el_fd_rules el)) \<and> br_code ` set (el_fd_rules el) \<subseteq> C"

lemma distinct_codes_erase: "distinct_codes C el \<Longrightarrow> distinct_codes C (erase_fd_rule i el)"
proof -
  assume codes: "distinct_codes C el"
  then have "distinct (take i (map br_code (el_fd_rules el)) @ drop (Suc i) (map br_code (el_fd_rules el)))"
    using set_take_disj_set_drop_if_distinct [of "map br_code (el_fd_rules el)" i "Suc i"]
    unfolding distinct_codes_def by simp
  moreover have "br_code ` set (take i (el_fd_rules el) @ drop (Suc i) (el_fd_rules el)) \<subseteq> C"
    using codes set_take_subset [of i "el_fd_rules el"] set_drop_subset [of "Suc i" "el_fd_rules el"]
    by (auto simp: distinct_codes_def)
  ultimately show ?thesis by (simp add: distinct_codes_def erase_at_def take_map drop_map)
qed

lemma distinct_codes_others:
  assumes "distinct_codes C el" and "i < length (el_fd_rules el)"
  shows "br_code (el_fd_rules el ! i) \<notin> br_code ` set (take i (el_fd_rules el))"
    and "br_code (el_fd_rules el ! i) \<notin> br_code ` set (drop (Suc i) (el_fd_rules el))"
proof -
  let ?rs = "el_fd_rules el"
  have "distinct (map br_code (take i ?rs @ ?rs ! i # drop (Suc i) ?rs))"
    using assms by (simp add: distinct_codes_def id_take_nth_drop [symmetric])
  then show "br_code (?rs ! i) \<notin> br_code ` set (take i ?rs)" "br_code (?rs ! i) \<notin> br_code ` set (drop (Suc i) ?rs)"
    by auto
qed

locale loop_client =
  fixes pc :: "'k poll_calls" and cl :: "'k closures" and inv :: "'k world \<Rightarrow> bool"
    and may_run :: "nat \<Rightarrow> 'k world \<Rightarrow> bool"
  assumes interest: "cl_interest cl c s = (r, s') \<Longrightarrow> inv (snd s) \<Longrightarrow>
      inv (snd s') \<and> fst s' = fst s \<and> (\<forall>d. may_run d (snd s) \<longrightarrow> may_run d (snd s')) \<and> (r = Inr True \<longrightarrow> may_run c (snd s'))"
    and cancel: "cl_cancel cl c s = (q, s') \<Longrightarrow> inv (snd s) \<Longrightarrow>
      inv (snd s') \<and> fst s' = fst s \<and> (\<forall>d. d \<noteq> c \<longrightarrow> may_run d (snd s) \<longrightarrow> may_run d (snd s'))"
    and error: "cl_error cl c s = (q, s') \<Longrightarrow> inv (snd s) \<Longrightarrow>
      inv (snd s') \<and> fst s' = fst s \<and> (\<forall>d. d \<noteq> c \<longrightarrow> may_run d (snd s) \<longrightarrow> may_run d (snd s'))"
    and callback: "cl_callback cl c s = (q, s') \<Longrightarrow> inv (snd s) \<Longrightarrow> may_run c (snd s) \<Longrightarrow> inv (snd s') \<and> fst s' = fst s"
    and poll: "sys_poll pc ps t (w_kernel w) = (a, k) \<Longrightarrow> inv w \<Longrightarrow>
      inv (w\<lparr>w_kernel := k\<rparr>) \<and> (\<forall>d. may_run d w \<longrightarrow> may_run d (w\<lparr>w_kernel := k\<rparr>))"
    and so_error: "sys_so_error pc n (w_kernel w) = (b, k) \<Longrightarrow> inv w \<Longrightarrow>
      inv (w\<lparr>w_kernel := k\<rparr>) \<and> (\<forall>d. may_run d w \<longrightarrow> may_run d (w\<lparr>w_kernel := k\<rparr>))"
begin

text \<open>What holds after a step that is not a callback, and concerns a rule of the given code.\<close>

definition calm :: "nat \<Rightarrow> 'k state \<Rightarrow> 'k state \<Rightarrow> bool" where
  "calm c s s' \<longleftrightarrow> inv (snd s') \<and> fst s' = fst s \<and> (\<forall>d. d \<noteq> c \<longrightarrow> may_run d (snd s) \<longrightarrow> may_run d (snd s'))"

definition calmly :: "nat \<Rightarrow> ('k state, 'a) io \<Rightarrow> bool" where
  "calmly c m \<longleftrightarrow> (\<forall>s r s'. m s = (r, s') \<and> inv (snd s) \<longrightarrow> calm c s s')"

lemma calmlyD: "calmly c m \<Longrightarrow> m s = (r, s') \<Longrightarrow> inv (snd s) \<Longrightarrow> calm c s s'"
  unfolding calmly_def by blast

lemma calm_trans: "calm c s s' \<Longrightarrow> calm c s' s'' \<Longrightarrow> calm c s s''"
  unfolding calm_def by simp

lemma calm_refl: "inv (snd s) \<Longrightarrow> calm c s s"
  unfolding calm_def by simp

lemma calmly_basic: "calmly c (io_return x)" "calmly c (io_throw e)" "calmly c (io_lift r)" "calmly c (io_ask g)"
  unfolding calmly_def calm_def by simp_all

lemma calmly_bind:
  assumes "calmly c m" and "\<And>x. calmly c (f x)"
  shows "calmly c (io_bind m f)"
  unfolding calmly_def
proof (intro allI impI)
  fix s r s' assume run: "io_bind m f s = (r, s') \<and> inv (snd s)"
  obtain x s1 where x: "m s = (x, s1)" by (rule prod.exhaust)
  have s1: "calm c s s1" using calmlyD [OF assms(1) x] run by simp
  show "calm c s s'"
  proof (cases x)
    case (Inl e) with run x s1 show ?thesis by (simp add: io_bind_eq)
  next
    case (Inr y)
    with run x have "f y s1 = (r, s')" by (simp add: io_bind_eq)
    then have "calm c s1 s'" using assms(2) [of y] s1 by (auto simp: calm_def dest: calmlyD)
    with s1 show ?thesis by (rule calm_trans)
  qed
qed

lemma calmly_if: "calmly c m \<Longrightarrow> calmly c m' \<Longrightarrow> calmly c (if b then m else m')"
  by simp

lemma calmly_same:
  assumes "\<And>w. snd (m w) = w"
  shows "calmly c (on_fds m)"
  unfolding calmly_def
proof (intro allI impI)
  fix s r s' assume run: "on_fds m s = (r, s') \<and> inv (snd s)"
  then have "s' = s" using assms [of "snd s"] by (cases "m (snd s)") (auto simp: on_fds_def prod_eq_iff)
  with run show "calm c s s'" by (simp add: calm_refl)
qed

lemma deref_same: "snd (io_bind (deref fd) (\<lambda>a. io_ask (g a)) w) = w"
  by (cases fd) (simp_all add: deref_def)

lemma calmly_accessors:
  "calmly c (on_fds (fd_num fd))" "calmly c (on_fds (fd_closed fd))" "calmly c (on_fds (fd_eof fd))"
  "calmly c (on_fds (service_count r))" "calmly c (on_fds (check_system_call sys what n))"
  by (rule calmly_same; simp add: fd_num_def fd_closed_def fd_eof_def service_count_def read_count_def
      write_count_def deref_same check_system_call_def)+

lemma calmly_defunct: "calmly c (on_fds (defunct r))"
  by (rule calmly_same, cases "fr_fd r") (simp_all add: defunct_def io_bind_def fd_eof_def fd_closed_def deref_def)

lemma calmly_closures:
  "calmly c (cl_interest cl c)" "calmly c (cl_cancel cl c)" "calmly c (cl_error cl c)"
  unfolding calmly_def calm_def using interest cancel error by blast+

lemma calmly_calls:
  "calmly c (on_fds (call (sys_poll pc ps t)))" "calmly c (on_fds (call (sys_so_error pc n)))"
  unfolding calmly_def calm_def using poll so_error
  by (auto simp: on_fds_def call_def split: prod.splits)

lemmas calm_intros = calmly_basic calmly_bind calmly_if calmly_accessors calmly_defunct calmly_closures calmly_calls

lemma calmly_report_error: "calmly c (report_error sys pc r)"
  unfolding report_error_def by (auto intro!: calm_intros split: prod.splits)

lemma calmly_setup_rule: "calmly (br_code r) (setup_rule cl r)"
  unfolding setup_rule_def by (intro calm_intros)

text \<open>The entries to poll and the rules they stand for: where an event is asked for, the rule may
  run.\<close>

definition agreed :: "u16 list \<Rightarrow> fd_rule list \<Rightarrow> 'k world \<Rightarrow> bool" where
  "agreed events rules w \<longleftrightarrow> (\<forall>j < min (length events) (length rules). events ! j \<noteq> 0 \<longrightarrow> may_run (br_code (rules ! j)) w)"

lemma agreed_Cons:
  "agreed (e # es) (r # rs) w \<longleftrightarrow> (e \<noteq> 0 \<longrightarrow> may_run (br_code r) w) \<and> agreed es rs w"
proof -
  have "min (length (e # es)) (length (r # rs)) = Suc (min (length es) (length rs))" by simp
  then show ?thesis unfolding agreed_def by (simp only: All_less_Suc2 nth_Cons_0 nth_Cons_Suc)
qed

lemma agreed_calm:
  assumes "agreed events rules (snd s)" and "calm c s s'" and "c \<notin> br_code ` set (take (length events) rules)"
  shows "agreed events rules (snd s')"
proof -
  have "br_code (rules ! j) \<noteq> c" if "j < min (length events) (length rules)" for j
  proof -
    have "take (length events) rules ! j \<in> set (take (length events) rules)" using that by (intro nth_mem) simp
    then show ?thesis using that assms(3) by auto
  qed
  with assms(1,2) show ?thesis unfolding agreed_def calm_def by simp
qed

lemma agreed_calm_all:
  assumes "agreed events rules (snd s)" and "\<And>c. calm c s s'"
  shows "agreed events rules (snd s')"
proof -
  have "may_run d (snd s) \<Longrightarrow> may_run d (snd s')" for d
    using assms(2) [of "Suc d"] by (simp add: calm_def)
  with assms(1) show ?thesis unfolding agreed_def by simp
qed

lemma agreed_snoc:
  assumes "agreed events rules w" and "length events = i" and "i < length rules"
    and "e \<noteq> 0 \<Longrightarrow> may_run (br_code (rules ! i)) w"
  shows "agreed (events @ [e]) rules w"
  using assms unfolding agreed_def by (auto simp: nth_append less_Suc_eq)

lemma agreed_erase:
  assumes "agreed events rules w" and "length events = i"
  shows "agreed events (erase_at i rules) w"
  using assms unfolding agreed_def erase_at_def by (auto simp: nth_append)

lemma setup_rule_answer:
  assumes "setup_rule cl r s = (Inr (Some (n, events, b)), s')" and "inv (snd s)" and "events \<noteq> 0"
  shows "may_run (br_code r) (snd s')"
proof -
  obtain g s1 where g: "on_fds (defunct r) s = (g, s1)" by (rule prod.exhaust)
  obtain t s2 where t: "cl_interest cl (br_code r) s1 = (t, s2)" by (rule prod.exhaust)
  obtain m s3 where m: "on_fds (fd_num (fr_fd r)) s2 = (m, s3)" by (rule prod.exhaust)
  obtain c s4 where c: "cl_cancel cl (br_code r) s1 = (c, s4)" by (rule prod.exhaust)
  have "g = Inr False"
    using assms(1) g c by (cases g; cases c) (auto simp: setup_rule_def io_bind_eq split: if_splits)
  moreover from this have "t = Inr True \<and> s3 = s'"
    using assms(1,3) g t m by (cases t; cases m) (auto simp: setup_rule_def io_bind_eq split: if_splits)
  moreover have "inv (snd s1)" using calmlyD [OF calmly_defunct g assms(2)] by (simp add: calm_def)
  ultimately have "may_run (br_code r) (snd s2)" "inv (snd s2)" "s3 = s'"
    using interest [OF t] by simp_all
  then show ?thesis using calmlyD [OF calmly_accessors(1) [of "Suc (br_code r)"] m] by (simp add: calm_def)
qed

lemma setup_loop_agreed:
  assumes ret: "setup_loop cl i pollfds something s = Some (x, s')" and "inv (snd s)" and "distinct_codes C (fst s)" and "length pollfds = i"
    and "agreed (map snd pollfds) (el_fd_rules (fst s)) (snd s)"
  shows "inv (snd s') \<and> distinct_codes C (fst s') \<and> (\<forall>ps b. x = Inr (ps, b) \<longrightarrow> agreed (map snd ps) (el_fd_rules (fst s')) (snd s'))"
proof -
  let ?P = "\<lambda>cl' i pollfds (something :: bool) s res. cl' = cl \<and> inv (snd s) \<and> distinct_codes C (fst s) \<and> length pollfds = i
      \<and> agreed (map snd pollfds) (el_fd_rules (fst s)) (snd s) \<longrightarrow>
    inv (snd (snd res)) \<and> distinct_codes C (fst (snd res)) \<and> (\<forall>ps b. fst res = Inr (ps, b) \<longrightarrow> agreed (map snd ps) (el_fd_rules (fst (snd res))) (snd (snd res)))"
  have "?P cl i pollfds something s (x, s')"
  proof (rule setup_loop.raw_induct [where P = ?P, OF _ ret])
    fix f and cl' :: "'k closures" and i and pollfds :: "(int \<times> u16) list" and something :: bool and s :: "'k state" and res
    assume ih: "\<And>cl' i pollfds something s res. f cl' i pollfds something s = Some res \<Longrightarrow> ?P cl' i pollfds something s res"
      and run: "(if length (el_fd_rules (fst s)) \<le> i then Some (Inr (pollfds, something), s)
        else let this_rule = el_fd_rules (fst s) ! i
          in if br_cancel_requested this_rule then f cl' i pollfds something (erase_fd_rule i (fst s), snd s)
             else case setup_rule cl' this_rule s of (Inl e, s) \<Rightarrow> Some (Inl e, s)
               | (Inr None, s) \<Rightarrow> f cl' i pollfds something (erase_fd_rule i (fst s), snd s)
               | (Inr (Some (n, events, interested)), s) \<Rightarrow>
                   f cl' (Suc i) (pollfds @ [(n, events)]) (something \<or> interested) s) = Some res"
    let ?r = "el_fd_rules (fst s) ! i"
    show "?P cl' i pollfds something s res"
    proof (intro impI, elim conjE)
      assume cl': "cl' = cl" and inv: "inv (snd s)" and dist: "distinct_codes C (fst s)" and len: "length pollfds = i"
        and agr: "agreed (map snd pollfds) (el_fd_rules (fst s)) (snd s)"
      obtain y s1 where y: "setup_rule cl ?r s = (y, s1)" by (rule prod.exhaust)
      have c: "calm (br_code ?r) s s1" using calmlyD [OF calmly_setup_rule y inv] .
      then have s1: "inv (snd s1)" "fst s1 = fst s" by (simp_all add: calm_def)
      have agr1: "agreed (map snd pollfds) (el_fd_rules (fst s1)) (snd s1)" if "i < length (el_fd_rules (fst s))"
        using agreed_calm [OF agr c] distinct_codes_others(1) [OF dist that] len s1(2) by simp
      have erased: "agreed (map snd pollfds) (erase_at i (el_fd_rules (fst t))) (snd t)"
        if "agreed (map snd pollfds) (el_fd_rules (fst t)) (snd t)" for t :: "'k state"
        using agreed_erase [OF that] len by simp
      consider "i \<ge> length (el_fd_rules (fst s))" | "i < length (el_fd_rules (fst s))" "br_cancel_requested ?r"
        | e where "i < length (el_fd_rules (fst s))" "\<not> br_cancel_requested ?r" "y = Inl e"
        | "i < length (el_fd_rules (fst s))" "\<not> br_cancel_requested ?r" "y = Inr None"
        | n ev b where "i < length (el_fd_rules (fst s))" "\<not> br_cancel_requested ?r" "y = Inr (Some (n, ev, b))"
        by (metis not_le option.exhaust prod_cases3 sum.exhaust)
      then show "inv (snd (snd res)) \<and> distinct_codes C (fst (snd res)) \<and> (\<forall>ps b. fst res = Inr (ps, b) \<longrightarrow> agreed (map snd ps) (el_fd_rules (fst (snd res))) (snd (snd res)))"
      proof cases
        case 1 with run inv dist agr show ?thesis by auto
      next
        case 2
        with run cl' have "f cl i pollfds something (erase_fd_rule i (fst s), snd s) = Some res" by (simp add: Let_def)
        from ih [OF this] inv len distinct_codes_erase [OF dist] erased [OF agr] show ?thesis by simp
      next
        case 3 with run y cl' s1 dist show ?thesis by (auto simp: Let_def)
      next
        case 4
        with run y cl' have "f cl i pollfds something (erase_fd_rule i (fst s1), snd s1) = Some res" by (simp add: Let_def)
        from ih [OF this] s1 len distinct_codes_erase [OF dist] erased [OF agr1 [OF 4(1)]] show ?thesis by simp
      next
        case 5
        with run y cl' have "f cl (Suc i) (pollfds @ [(n, ev)]) (something \<or> b) s1 = Some res" by (simp add: Let_def)
        moreover have "agreed (map snd pollfds @ [ev]) (el_fd_rules (fst s1)) (snd s1)"
          using agreed_snoc [OF agr1 [OF 5(1)]] 5(1) len s1(2) setup_rule_answer [OF y [unfolded 5(3)] inv] by simp
        ultimately show ?thesis using ih s1 len dist by fastforce
      qed
    qed
  qed
  with assms(2-5) show ?thesis by simp
qed

lemma serve_fd_rule_keeps:
  assumes run: "serve_fd_rule cl r s = (x, s')" and "inv (snd s)" and "may_run (br_code r) (snd s)"
  shows "inv (snd s') \<and> fst s' = fst s"
proof -
  obtain c s1 where c: "on_fds (service_count r) s = (c, s1)" by (rule prod.exhaust)
  obtain y s2 where y: "cl_callback cl (br_code r) s1 = (y, s2)" by (rule prod.exhaust)
  have s1: "calm d s s1" for d using calmlyD [OF calmly_accessors(4) c assms(2)] .
  have "may_run (br_code r) (snd s1)" using s1 [of "Suc (br_code r)"] assms(3) by (simp add: calm_def)
  then have s2: "inv (snd s2)" "fst s2 = fst s" using callback [OF y] s1 [of 0] by (simp_all add: calm_def)
  show ?thesis
  proof (cases c)
    case (Inl e)
    with run c s1 [of 0] show ?thesis by (simp add: serve_fd_rule_def io_bind_eq calm_def)
  next
    case (Inr count)
    define rest :: "('k state, unit) io" where "rest =
      io_bind (on_fds (service_count r)) (\<lambda>count_after.
       if count \<noteq> count_after then io_return ()
       else io_bind (on_fds (fd_closed (fr_fd r))) (\<lambda>closed.
            if closed then io_return ()
            else io_bind (cl_interest cl (br_code r)) (\<lambda>interested.
                 if \<not> interested then io_return ()
                 else io_bind (io_ask (\<lambda>s. category_name (fst s) (br_category_id r))) (\<lambda>name.
                      io_bind (io_lift name) (\<lambda>name. io_throw (busy_fd_rule name))))))"
    have calm: "calmly (br_code r) rest" unfolding rest_def by (intro calm_intros)
    show ?thesis
    proof (cases y)
      case (Inl e)
      with run c y \<open>c = Inr count\<close> s2 show ?thesis by (simp add: serve_fd_rule_def io_bind_eq)
    next
      case (Inr u)
      with run c y \<open>c = Inr count\<close> have "rest s2 = (x, s')" by (simp add: serve_fd_rule_def io_bind_eq rest_def)
      from calmlyD [OF calm this s2(1)] s2(2) show ?thesis by (simp add: calm_def)
    qed
  qed
qed

lemma results_loop_keeps:
  "results_loop sys pc cl polled i s = (x, s') \<Longrightarrow> inv (snd s) \<Longrightarrow> distinct_codes C (fst s) \<Longrightarrow>
    agreed (map fst polled) (drop i (el_fd_rules (fst s))) (snd s) \<Longrightarrow> inv (snd s') \<and> distinct_codes C (fst s')"
proof (induction polled arbitrary: i s)
  case Nil
  then show ?case by (auto split: if_splits)
next
  case (Cons er polled)
  obtain events revents where er: "er = (events, revents)" by (rule prod.exhaust)
  let ?rules = "el_fd_rules (fst s)"
  let ?r = "?rules ! i"
  have later: "(events \<noteq> 0 \<longrightarrow> may_run (br_code ?r) (snd s)) \<and> agreed (map fst polled) (drop (Suc i) ?rules) (snd s)"
    if "i < length ?rules"
    using Cons.prems(4) that agreed_Cons [of events "map fst polled" ?r "drop (Suc i) ?rules" "snd s"]
    by (simp add: er Cons_nth_drop_Suc)
  have go: "inv (snd s') \<and> distinct_codes C (fst s')"
    if "io_bind m (\<lambda>_. io_bind (update_loop (erase_fd_rule i)) (\<lambda>_. results_loop sys pc cl polled i)) s = (x, s')"
      and "calmly (br_code ?r) m" and "i < length ?rules" for m :: "('k state, unit) io"
  proof -
    obtain y s1 where y: "m s = (y, s1)" by (rule prod.exhaust)
    have s1: "calm (br_code ?r) s s1" using calmlyD [OF that(2) y Cons.prems(2)] .
    show ?thesis
    proof (cases y)
      case (Inl e)
      with that(1) y s1 Cons.prems(3) show ?thesis by (simp add: io_bind_eq calm_def)
    next
      case (Inr u)
      let ?s2 = "(erase_fd_rule i (fst s1), snd s1)"
      from Inr that(1) y have run: "results_loop sys pc cl polled i ?s2 = (x, s')" by (simp add: io_bind_eq update_loop_def)
      have rules: "drop i (el_fd_rules (fst ?s2)) = drop (Suc i) ?rules"
        using s1 that(3) by (simp add: calm_def erase_at_def)
      have other: "br_code ?r \<notin> br_code ` set (take (length (map fst polled)) (drop (Suc i) ?rules))"
        using distinct_codes_others(2) [OF Cons.prems(3) that(3)] by (auto dest: in_set_takeD)
      have "agreed (map fst polled) (drop (Suc i) ?rules) (snd s)" using later [OF that(3)] by simp
      then have "agreed (map fst polled) (drop i (el_fd_rules (fst ?s2))) (snd ?s2)"
        unfolding rules using agreed_calm [OF _ s1 other] by simp
      moreover have "distinct_codes C (fst ?s2)" using s1 distinct_codes_erase [OF Cons.prems(3)] by (simp add: calm_def)
      ultimately show ?thesis using Cons.IH [OF run] s1 by (simp add: calm_def)
    qed
  qed
  show ?case
  proof (cases "i \<ge> length ?rules")
    case True
    with Cons.prems er show ?thesis by auto
  next
    case inside: False
    consider "poll_error revents" | "\<not> poll_error revents" "hung_up ?r events revents"
      | "\<not> poll_error revents" "\<not> hung_up ?r events revents" "poll_ready events revents"
      | "\<not> poll_error revents" "\<not> hung_up ?r events revents" "\<not> poll_ready events revents" by blast
    then show ?thesis
    proof cases
      case 1
      with Cons.prems(1) er inside have "io_bind (io_bind (report_error sys pc ?r) (\<lambda>_. io_bind (cl_error cl (br_code ?r)) (\<lambda>_.
          cl_cancel cl (br_code ?r)))) (\<lambda>_. io_bind (update_loop (erase_fd_rule i)) (\<lambda>_. results_loop sys pc cl polled i)) s = (x, s')"
        by (simp add: Let_def io_bind_assoc)
      from go [OF this] inside show ?thesis by (simp add: calmly_bind calmly_report_error calmly_closures)
    next
      case 2
      with Cons.prems(1) er inside have "io_bind (cl_cancel cl (br_code ?r))
          (\<lambda>_. io_bind (update_loop (erase_fd_rule i)) (\<lambda>_. results_loop sys pc cl polled i)) s = (x, s')"
        by (simp add: Let_def)
      from go [OF this] inside show ?thesis by (simp add: calmly_closures)
    next
      case 3
      have "events \<noteq> 0" using 3(3) by (auto simp: poll_ready_def)
      then have "may_run (br_code ?r) (snd s)"
        using later inside by simp
      moreover obtain y s1 where y: "serve_fd_rule cl ?r s = (y, s1)" by (rule prod.exhaust)
      moreover from y Cons.prems(1) er inside 3 have "s' = s1" by (cases y) (simp_all add: Let_def io_bind_eq)
      ultimately show ?thesis using serve_fd_rule_keeps Cons.prems(2,3) by metis
    next
      case 4
      have "agreed (map fst polled) (drop (Suc i) ?rules) (snd s)" using later inside by simp
      with 4 Cons er inside show ?thesis by simp
    qed
  qed
qed

lemma serve_rule_keeps:
  "serve_rule cl r n s = (x, s') \<Longrightarrow> inv (snd s) \<Longrightarrow> inv (snd s') \<and> fst s' = fst s"
proof (induction "128 - n" arbitrary: n s rule: less_induct)
  case less
  obtain y s1 where y: "cl_interest cl (br_code r) s = (y, s1)" by (rule prod.exhaust)
  note s1 = interest [OF y less(3)]
  note run = less(2) [unfolded serve_rule.simps [of cl r n s]]
  show ?case
  proof (cases "y = Inr True \<and> n < 128")
    case False
    then have "s' = s1"
      using run y by (cases y) (auto simp: io_bind_eq io_bind_def split: if_splits sum.splits)
    with s1 show ?thesis by simp
  next
    case True
    obtain z s2 where z: "cl_callback cl (br_code r) s1 = (z, s2)" by (rule prod.exhaust)
    have s2: "inv (snd s2)" "fst s2 = fst s" using callback [OF z] s1 True by simp_all
    show ?thesis
    proof (cases z)
      case (Inl e)
      with run y z True s2 show ?thesis by (simp add: io_bind_eq)
    next
      case (Inr u)
      with run y z True have "serve_rule cl r (n + 1) s2 = (x, s')" by (simp add: io_bind_eq)
      with less(1) [of "n + 1" s2] True s2 show ?thesis by auto
    qed
  qed
qed

lemma rules_loop_keeps:
  assumes ret: "rules_loop cl i s = Some (x, s')" and "inv (snd s)"
  shows "inv (snd s') \<and> (distinct_codes C (fst s) \<longrightarrow> distinct_codes C (fst s'))"
proof -
  let ?P = "\<lambda>cl' i s res. cl' = cl \<and> inv (snd s) \<longrightarrow> inv (snd (snd res)) \<and> (distinct_codes C (fst s) \<longrightarrow> distinct_codes C (fst (snd res)))"
  have "?P cl i s (x, s')"
  proof (rule rules_loop.raw_induct [where P = ?P, OF _ ret])
    fix f and cl' :: "'k closures" and i and s :: "'k state" and res
    assume ih: "\<And>cl' i s res. f cl' i s = Some res \<Longrightarrow> ?P cl' i s res"
      and run: "(if length (el_non_fd_rules (fst s)) \<le> i then Some (Inr False, s)
        else let this_rule = el_non_fd_rules (fst s) ! i
          in if br_cancel_requested this_rule then f cl' i (erase_rule i (fst s), snd s)
             else case serve_rule cl' this_rule 0 s of (Inl e, s) \<Rightarrow> Some (Inl e, s)
               | (Inr fired, s) \<Rightarrow> if fired then Some (Inr True, s) else f cl' (Suc i) s) = Some res"
    let ?r = "el_non_fd_rules (fst s) ! i"
    show "?P cl' i s res"
    proof (intro impI, elim conjE)
      assume cl': "cl' = cl" and inv: "inv (snd s)"
      obtain y s1 where y: "serve_rule cl ?r 0 s = (y, s1)" by (rule prod.exhaust)
      have s1: "inv (snd s1)" "fst s1 = fst s" using serve_rule_keeps [OF y inv] by simp_all
      consider "i \<ge> length (el_non_fd_rules (fst s))" | "i < length (el_non_fd_rules (fst s))" "br_cancel_requested ?r"
        | "i < length (el_non_fd_rules (fst s))" "\<not> br_cancel_requested ?r" "y = Inr False"
        | "i < length (el_non_fd_rules (fst s))" "\<not> br_cancel_requested ?r" "y \<noteq> Inr False"
        by (meson not_le)
      then show "inv (snd (snd res)) \<and> (distinct_codes C (fst s) \<longrightarrow> distinct_codes C (fst (snd res)))"
      proof cases
        case 1 with run inv show ?thesis by auto
      next
        case 2
        with run cl' have "f cl i (erase_rule i (fst s), snd s) = Some res" by (simp add: Let_def)
        from ih [OF this] inv show ?thesis by (simp add: distinct_codes_def)
      next
        case 3
        with run y cl' have "f cl (Suc i) s1 = Some res" by (simp add: Let_def)
        from ih [OF this] s1 show ?thesis by simp
      next
        case 4 with run y cl' s1 show ?thesis by (cases y) (auto simp: Let_def)
      qed
    qed
  qed
  with assms(2) show ?thesis by simp
qed

lemma with_revents_events: "map fst (with_revents pollfds revents) = map snd pollfds"
  by (induction pollfds revents rule: with_revents.induct) simp_all

lemma poll_and_serve_keeps:
  assumes run: "poll_and_serve sys pc cl pollfds timeout_ms s = (x, s')" and "inv (snd s)" and "distinct_codes C (fst s)"
    and agr: "agreed (map snd pollfds) (el_fd_rules (fst s)) (snd s)"
  shows "inv (snd s') \<and> distinct_codes C (fst s')"
proof -
  obtain c s1 where c: "on_fds (call (sys_poll pc pollfds timeout_ms)) s = (c, s1)" by (rule prod.exhaust)
  have s1: "calm e s s1" for e using calmlyD [OF calmly_calls(1) c assms(2)] .
  obtain r revents where r: "c = Inr (r, revents)"
    using c by (auto simp: on_fds_def call_def split: prod.splits)
  obtain d s2 where d: "on_fds (check_system_call sys ''poll'' r) s1 = (d, s2)" by (rule prod.exhaust)
  have "calm e s1 s2" for e using calmlyD [OF calmly_accessors(5) d] s1 by (simp add: calm_def)
  with s1 have s2: "calm e s s2" for e by (rule calm_trans)
  show ?thesis
  proof (cases "\<exists>n. d = Inr n \<and> n \<noteq> 0")
    case False
    then have "s' = s2" using run c r d by (cases d) (auto simp: poll_and_serve_def io_bind_eq)
    with s2 [of 0] assms(3) show ?thesis by (simp add: calm_def)
  next
    case True
    then have loop: "results_loop sys pc cl (with_revents pollfds revents) 0 s2 = (x, s')"
      using run c r d by (auto simp: poll_and_serve_def io_bind_eq)
    have s2_fst: "fst s2 = fst s" using s2 [of 0] by (simp add: calm_def)
    then have "agreed (map fst (with_revents pollfds revents)) (drop 0 (el_fd_rules (fst s2))) (snd s2)"
      using agreed_calm_all [OF agr s2] by (simp add: with_revents_events)
    from results_loop_keeps [OF loop _ _ this] s2 [of 0] s2_fst assms(3) show ?thesis by (simp add: calm_def)
  qed
qed

text \<open>However a round ends, the invariant holds after it.\<close>

lemma round_keeps:
  assumes "wait_next_event sys pc cl timeout_ms s = Some (r, s')" and "inv (snd s)" and "distinct_codes C (fst s)"
  shows "inv (snd s') \<and> distinct_codes C (fst s')"
proof -
  obtain x s1 where x: "rules_loop cl 0 s = Some (x, s1)"
    using assms(1) by (auto simp: wait_next_event_def split: option.splits)
  have s1: "inv (snd s1)" "distinct_codes C (fst s1)" using rules_loop_keeps [OF x assms(2)] assms(3) by simp_all
  show ?thesis
  proof (cases "x = Inr False")
    case False
    with assms(1) x s1 show ?thesis by (cases x) (auto simp: wait_next_event_def)
  next
    case True
    obtain y s2 where y: "setup_loop cl 0 [] False s1 = Some (y, s2)"
      using assms(1) x True by (auto simp: wait_next_event_def split: option.splits)
    have "agreed (map snd []) (el_fd_rules (fst s1)) (snd s1)" by (simp add: agreed_def)
    from setup_loop_agreed [OF y s1 _ this]
    have s2: "inv (snd s2)" "distinct_codes C (fst s2)" and agr: "y = Inr (ps, b) \<Longrightarrow> agreed (map snd ps) (el_fd_rules (fst s2)) (snd s2)" for ps b
      by simp_all
    consider e where "y = Inl e" | ps where "y = Inr (ps, False)" | ps where "y = Inr (ps, True)"
      by (metis (full_types) prod.exhaust sum.exhaust)
    then show ?thesis
    proof cases
      case 3
      then have "poll_and_serve sys pc cl ps timeout_ms s2 = (r, s')"
        using assms(1) x y True by (simp add: wait_next_event_def)
      from poll_and_serve_keeps [OF this s2 agr [OF 3]] show ?thesis .
    qed (use assms(1) x y True s2 in \<open>auto simp: wait_next_event_def\<close>)
  qed
qed

end


text \<open>A program for which a rule that answers it is not interested is idle, in a sense that asking
  and cancelling do not undo: when the loop says to exit, all the rules left in it are idle.\<close>

locale idle_client = loop_client +
  fixes idle :: "nat \<Rightarrow> 'a world \<Rightarrow> bool"
  assumes interest_idle: "cl_interest cl c s = (r, s') \<Longrightarrow> inv (snd s) \<Longrightarrow>
      (r = Inr False \<longrightarrow> idle c (snd s')) \<and> (\<forall>d. idle d (snd s) \<longrightarrow> idle d (snd s'))"
    and cancel_idle: "cl_cancel cl c s = (q, s') \<Longrightarrow> inv (snd s) \<Longrightarrow> \<forall>d. idle d (snd s) \<longrightarrow> idle d (snd s')"
begin

lemma on_fds_same: "(\<And>w. snd (m w) = w) \<Longrightarrow> on_fds m s = (r, s') \<Longrightarrow> s' = s"
  by (cases "m (snd s)") (auto simp: on_fds_def prod_eq_iff dest: meta_spec [of _ "snd s"])

lemma defunct_same: "snd (defunct r w) = w"
  by (cases "fr_fd r") (simp_all add: defunct_def io_bind_def fd_eof_def fd_closed_def deref_def)

lemma fd_num_same: "snd (fd_num fd w) = w"
  by (simp add: fd_num_def deref_same)

lemma setup_rule_idle:
  assumes "setup_rule cl r s = (x, s')" and "inv (snd s)"
  shows "(\<forall>d. idle d (snd s) \<longrightarrow> idle d (snd s')) \<and> (\<forall>n ev. x = Inr (Some (n, ev, False)) \<longrightarrow> idle (br_code r) (snd s'))"
proof -
  obtain g s1 where g: "on_fds (defunct r) s = (g, s1)" by (rule prod.exhaust)
  have [simp]: "s1 = s" using on_fds_same [OF defunct_same g] .
  obtain t s2 where t: "cl_interest cl (br_code r) s = (t, s2)" by (rule prod.exhaust)
  obtain m s3 where m: "on_fds (fd_num (fr_fd r)) s2 = (m, s3)" by (rule prod.exhaust)
  have [simp]: "s3 = s2" using on_fds_same [OF fd_num_same m] .
  obtain c s4 where c: "cl_cancel cl (br_code r) s = (c, s4)" by (rule prod.exhaust)
  note asked = interest_idle [OF t assms(2)] and cancelled = cancel_idle [OF c assms(2)]
  consider e where "g = Inl e" | "g = Inr True" | "g = Inr False" by (metis (full_types) sum.exhaust)
  then show ?thesis
  proof cases
    case 1
    then show ?thesis using assms(1) g by (auto simp: setup_rule_def io_bind_eq)
  next
    case 2
    then have run: "io_bind (cl_cancel cl (br_code r)) (\<lambda>_. io_return None) s = (x, s')"
      using assms(1) g by (simp add: setup_rule_def io_bind_eq)
    have "s' = s4 \<and> (\<forall>y. x \<noteq> Inr (Some y))" using run c by (cases c) (auto simp: io_bind_eq)
    with cancelled show ?thesis by simp
  next
    case 3
    then have run: "io_bind (cl_interest cl (br_code r)) (\<lambda>interested. io_bind (on_fds (fd_num (fr_fd r))) (\<lambda>n.
        if interested then io_return (Some (n, if fr_direction r = In then POLLIN else POLLOUT, True))
        else io_return (Some (n, 0, False)))) s = (x, s')"
      using assms(1) g by (simp add: setup_rule_def io_bind_def [of "on_fds (defunct r)"])
    show ?thesis
    proof (cases t)
      case (Inl e)
      with run t have "s' = s2 \<and> x = Inl e" by (simp add: io_bind_eq)
      with asked show ?thesis by simp
    next
      case (Inr interested)
      with run t m have "s' = s2" "x = Inr (Some (n, ev, False)) \<Longrightarrow> \<not> interested" for n ev
        by (cases m; cases interested; auto simp: io_bind_def split: sum.splits)+
      with asked Inr show ?thesis by auto
    qed
  qed
qed

lemma setup_loop_idle:
  assumes ret: "setup_loop cl i pollfds something s = Some (x, s')" and "inv (snd s)"
    and "\<not> something \<Longrightarrow> \<forall>r\<in>set (take i (el_fd_rules (fst s))). idle (br_code r) (snd s)"
  shows "\<forall>ps. x = Inr (ps, False) \<longrightarrow> (\<forall>r\<in>set (el_fd_rules (fst s')). idle (br_code r) (snd s'))"
proof -
  let ?idle = "\<lambda>i (s :: 'a state). \<forall>r\<in>set (take i (el_fd_rules (fst s))). idle (br_code r) (snd s)"
  let ?P = "\<lambda>cl' i (pollfds :: (int \<times> u16) list) something s res. cl' = cl \<and> inv (snd s) \<and> (something \<or> ?idle i s) \<longrightarrow>
    (\<forall>ps. fst res = Inr (ps, False) \<longrightarrow> (\<forall>r\<in>set (el_fd_rules (fst (snd res))). idle (br_code r) (snd (snd res))))"
  have "?P cl i pollfds something s (x, s')"
  proof (rule setup_loop.raw_induct [where P = ?P, OF _ ret])
    fix f and cl' :: "'a closures" and i and pollfds :: "(int \<times> u16) list" and something :: bool and s :: "'a state" and res
    assume ih: "\<And>cl' i pollfds something s res. f cl' i pollfds something s = Some res \<Longrightarrow> ?P cl' i pollfds something s res"
      and run: "(if length (el_fd_rules (fst s)) \<le> i then Some (Inr (pollfds, something), s)
        else let this_rule = el_fd_rules (fst s) ! i
          in if br_cancel_requested this_rule then f cl' i pollfds something (erase_fd_rule i (fst s), snd s)
             else case setup_rule cl' this_rule s of (Inl e, s) \<Rightarrow> Some (Inl e, s)
               | (Inr None, s) \<Rightarrow> f cl' i pollfds something (erase_fd_rule i (fst s), snd s)
               | (Inr (Some (n, events, interested)), s) \<Rightarrow>
                   f cl' (Suc i) (pollfds @ [(n, events)]) (something \<or> interested) s) = Some res"
    let ?r = "el_fd_rules (fst s) ! i"
    show "?P cl' i pollfds something s res"
    proof (intro impI, elim conjE)
      assume cl': "cl' = cl" and inv: "inv (snd s)" and so_far: "something \<or> ?idle i s"
      obtain y s1 where y: "setup_rule cl ?r s = (y, s1)" by (rule prod.exhaust)
      have s1: "inv (snd s1)" "fst s1 = fst s" using calmlyD [OF calmly_setup_rule y inv] by (simp_all add: calm_def)
      note step = setup_rule_idle [OF y inv]
      have so_far1: "something \<or> ?idle i s1" using so_far step s1(2) by auto
      consider "i \<ge> length (el_fd_rules (fst s))" | "i < length (el_fd_rules (fst s))" "br_cancel_requested ?r"
        | e where "i < length (el_fd_rules (fst s))" "\<not> br_cancel_requested ?r" "y = Inl e"
        | "i < length (el_fd_rules (fst s))" "\<not> br_cancel_requested ?r" "y = Inr None"
        | n ev b where "i < length (el_fd_rules (fst s))" "\<not> br_cancel_requested ?r" "y = Inr (Some (n, ev, b))"
        by (metis not_le option.exhaust prod_cases3 sum.exhaust)
      then show "\<forall>ps. fst res = Inr (ps, False) \<longrightarrow> (\<forall>r\<in>set (el_fd_rules (fst (snd res))). idle (br_code r) (snd (snd res)))"
      proof cases
        case 1 with run so_far show ?thesis by auto
      next
        case 2
        with run cl' have "f cl i pollfds something (erase_fd_rule i (fst s), snd s) = Some res" by (simp add: Let_def)
        from ih [OF this] inv so_far 2 show ?thesis by (simp add: erase_at_def)
      next
        case 3 with run y cl' show ?thesis by (auto simp: Let_def)
      next
        case 4
        with run y cl' have "f cl i pollfds something (erase_fd_rule i (fst s1), snd s1) = Some res" by (simp add: Let_def)
        from ih [OF this] s1 so_far1 4 show ?thesis by (auto simp: erase_at_def)
      next
        case 5
        with run y cl' have "f cl (Suc i) (pollfds @ [(n, ev)]) (something \<or> b) s1 = Some res" by (simp add: Let_def)
        moreover have "(something \<or> b) \<or> ?idle (Suc i) s1"
          using so_far1 step 5 s1(2) by (auto simp: take_Suc_conv_app_nth)
        ultimately show ?thesis using ih s1 by fastforce
      qed
    qed
  qed
  with assms(2,3) show ?thesis by auto
qed

lemma results_loop_goes_on: "fst (results_loop sys pc cl polled i s) \<noteq> Inr Exit"
proof (induction polled arbitrary: i s)
  case (Cons er polled)
  have bind: "fst (io_bind m f s) \<noteq> Inr Exit" if "\<And>x s. fst (f x s) \<noteq> Inr Exit" for m :: "('a state, 'b) io" and f s
    using that by (cases "m s"; cases "fst (m s)") (auto simp: io_bind_def)
  show ?case
    by (cases er) (simp add: Let_def Cons.IH bind)
qed simp

lemma exit_idle:
  assumes "wait_next_event sys pc cl timeout_ms s = Some (Inr Exit, s')" and "inv (snd s)"
  shows "\<forall>r\<in>set (el_fd_rules (fst s')). idle (br_code r) (snd s')"
proof -
  obtain x s1 where x: "rules_loop cl 0 s = Some (x, s1)"
    using assms(1) by (auto simp: wait_next_event_def split: option.splits)
  have s1: "inv (snd s1)" using rules_loop_keeps [OF x assms(2)] by simp
  have False: "x = Inr False" using assms(1) x by (auto simp: wait_next_event_def split: sum.splits if_splits)
  obtain y s2 where y: "setup_loop cl 0 [] False s1 = Some (y, s2)"
    using assms(1) x False by (auto simp: wait_next_event_def split: option.splits)
  have served: "poll_and_serve sys pc cl ps timeout_ms s2 \<noteq> (Inr Exit, s')" for ps
  proof
    assume "poll_and_serve sys pc cl ps timeout_ms s2 = (Inr Exit, s')"
    then obtain polled s3 where "results_loop sys pc cl polled 0 s3 = (Inr Exit, s')"
      by (auto simp: poll_and_serve_def io_bind_Inr split: if_splits)
    with results_loop_goes_on [of sys polled 0 s3] show False by simp
  qed
  from assms(1) x y False served have "\<exists>ps. y = Inr (ps, False) \<and> s' = s2"
    by (auto simp: wait_next_event_def split: sum.splits if_splits)
  with setup_loop_idle [OF y s1] show ?thesis by auto
qed

end

end
