(* ===== verification/Wire_Parser.thy ===== *)
theory Wire_Parser
  imports Prelude
begin

text \<open>
  Owned-or-borrowed references (\<open>util/ref.hh\<close>), the parser over a list of chunks and the
  serializer (\<open>util/parser.hh\<close>, \<open>util/parser.cc\<close>), and the helpers that build a
  parser or a serializer of their own (\<open>util/helpers.hh\<close>).

  A borrowed reference is a pointer to an object that its owner keeps unchanged while it is
  borrowed, so it is modelled by the value it points to. A string or vector that has been
  moved from is empty, as in the implementations of the standard library; no code reads one.
  Sizes of strings are natural numbers.
\<close>

subsection \<open>References\<close>

datatype 'a ref = Owned (ref_get: 'a) | Borrowed (ref_get: 'a)

definition ref_borrow :: "'a ref \<Rightarrow> 'a ref" where
  "ref_borrow r = Borrowed (ref_get r)"

definition ref_copy :: "'a ref \<Rightarrow> 'a ref" where
  "ref_copy r = Owned (ref_get r)"

fun is_owned :: "'a ref \<Rightarrow> bool" where
  "is_owned (Owned x) = True"
| "is_owned (Borrowed x) = False"

definition is_borrowed :: "'a ref \<Rightarrow> bool" where
  "is_borrowed r \<longleftrightarrow> \<not> is_owned r"

fun get_mut :: "'a ref \<Rightarrow> 'a result" where
  "get_mut (Owned x) = Inr x"
| "get_mut (Borrowed x) = Inl (Runtime_error ''attempt to mutate borrowed Ref'')"

text \<open>The value that \<open>release\<close> returns: moved out of an owned object, copied from a
  borrowed one.\<close>

definition ref_release :: "'a ref \<Rightarrow> 'a" where
  "ref_release r = ref_get r"

text \<open>What is left of a reference to a string that has been moved from.\<close>

fun moved_from :: "bytes ref \<Rightarrow> bytes ref" where
  "moved_from (Owned s) = Owned []"
| "moved_from (Borrowed s) = Borrowed s"

lemma get_mut_owned [simp]: "is_owned r \<Longrightarrow> get_mut r = Inr (ref_get r)"
  by (cases r) simp_all

lemma ref_get_simps [simp]:
  "ref_get (ref_borrow r) = ref_get r" "ref_get (ref_copy r) = ref_get r" "is_owned (ref_copy r)"
  by (simp_all add: ref_borrow_def ref_copy_def)

subsection \<open>The chunk list\<close>

record buffer_list =
  bl_size :: nat
  bl_buffer :: "bytes ref list"
  bl_skip :: nat

text \<open>\<open>std::string_view::substr\<close> throws when the position is past the end.\<close>

definition substr_from :: "bytes \<Rightarrow> nat \<Rightarrow> bytes result" where
  "substr_from s pos = (if length s < pos then Inl (Out_of_range ''basic_string_view::substr'')
                        else Inr (drop pos s))"

fun buffer_list_init :: "buffer_list \<Rightarrow> bytes ref list \<Rightarrow> buffer_list result" where
  "buffer_list_init bl [] = Inr bl"
| "buffer_list_init bl (x # xs) =
     (if is_borrowed x then Inl (Runtime_error ''cannot parse borrowed string'')
      else buffer_list_init (bl\<lparr>bl_buffer := bl_buffer bl @ [x],
                                bl_size := bl_size bl + length (ref_get x)\<rparr>) xs)"

definition buffer_list_new :: "bytes ref list \<Rightarrow> buffer_list result" where
  "buffer_list_new buffers = buffer_list_init \<lparr>bl_size = 0, bl_buffer = [], bl_skip = 0\<rparr> buffers"

definition bl_empty :: "buffer_list \<Rightarrow> bool" where
  "bl_empty bl \<longleftrightarrow> bl_size bl = 0"

definition buffer_segment_count :: "buffer_list \<Rightarrow> nat" where
  "buffer_segment_count bl = length (bl_buffer bl)"

definition bl_peek :: "buffer_list \<Rightarrow> bytes result" where
  "bl_peek bl = (case bl_buffer bl of
       [] \<Rightarrow> Inl (Runtime_error ''peek on empty BufferList'')
     | x # _ \<Rightarrow> substr_from (ref_get x) (bl_skip bl))"

text \<open>A turn of the loop of \<open>remove_prefix\<close>: the state after it and what is left to
  remove.\<close>

definition remove_turn :: "buffer_list \<Rightarrow> nat \<Rightarrow> (buffer_list \<times> nat) result" where
  "remove_turn bl len =
     res_bind (bl_peek bl) (\<lambda>view.
       let to_pop_now = min len (length view);
           bl = bl\<lparr>bl_skip := bl_skip bl + to_pop_now, bl_size := bl_size bl - to_pop_now\<rparr>;
           len = len - to_pop_now
       in res_bind (get_mut (hd (bl_buffer bl))) (\<lambda>front.
            Inr (if bl_skip bl = length front
                 then bl\<lparr>bl_buffer := tl (bl_buffer bl), bl_skip := 0\<rparr> else bl, len)))"

lemma remove_turn_decreases:
  assumes "remove_turn bl len = Inr (bl', len')" and "bl_buffer bl \<noteq> []" and "0 < len"
  shows "length (bl_buffer bl') + len' < length (bl_buffer bl) + len"
proof -
  obtain x xs where bl: "bl_buffer bl = x # xs" using assms(2) by (cases "bl_buffer bl") auto
  obtain s where x: "x = Owned s" and skip: "bl_skip bl \<le> length s"
    using assms(1) bl by (cases x) (auto simp: remove_turn_def bl_peek_def substr_from_def Let_def split: if_splits)
  show ?thesis
    using assms(1,3) bl x skip
    by (cases "len < length s - bl_skip bl")
      (auto simp: remove_turn_def bl_peek_def substr_from_def Let_def min_def split: if_splits)
qed

function bl_remove_prefix :: "buffer_list \<Rightarrow> nat \<Rightarrow> buffer_list result" where
  "bl_remove_prefix bl len =
     (if len = 0 \<or> bl_buffer bl = [] then Inr bl
      else res_bind (remove_turn bl len) (\<lambda>(bl, len). bl_remove_prefix bl len))"
  by pat_completeness auto
termination
proof (relation "measure (\<lambda>(bl, len). length (bl_buffer bl) + len)", goal_cases)
  case 1
  show ?case by simp
next
  case (2 bl len p bl' len')
  then show ?case using remove_turn_decreases [of bl len bl' len'] by auto
qed

declare bl_remove_prefix.simps [simp del]

text \<open>The loops of \<open>truncate\<close>: chunks are kept while they fit, the chunk that crosses the
  length is cut, and the rest is erased.\<close>

fun truncate_loop :: "nat \<Rightarrow> nat \<Rightarrow> bytes ref list \<Rightarrow> bytes ref list result" where
  "truncate_loop size_so_far len [] = Inr []"
| "truncate_loop size_so_far len (it # rest) =
     (if size_so_far + length (ref_get it) < len
      then map_sum id ((#) it) (truncate_loop (size_so_far + length (ref_get it)) len rest)
      else if size_so_far + length (ref_get it) = len then Inr [it]
      else map_sum id (\<lambda>s. [Owned (take (len - size_so_far) s)]) (get_mut it))"

definition bl_truncate :: "buffer_list \<Rightarrow> nat \<Rightarrow> buffer_list result" where
  "bl_truncate bl len =
     (if bl_size bl \<le> len then Inr bl
      else if len = 0 then Inr (bl\<lparr>bl_buffer := [], bl_size := 0\<rparr>)
      else map_sum id (\<lambda>buf. bl\<lparr>bl_buffer := buf, bl_size := len\<rparr>) (truncate_loop 0 len (bl_buffer bl)))"

definition dump_all :: "buffer_list \<Rightarrow> (bytes ref list \<times> buffer_list) result" where
  "dump_all bl =
     (if bl_empty bl then Inr ([], bl)
      else case bl_buffer bl of
        [] \<Rightarrow> Inl (Undefined_behaviour ''BufferList::dump_all: front of empty deque'')
      | x # xs \<Rightarrow>
          res_bind (if bl_skip bl \<noteq> 0
                    then res_bind (get_mut x) (\<lambda>s.
                      if length s < bl_skip bl then Inl (Out_of_range ''basic_string::substr'')
                      else Inr (Owned (drop (bl_skip bl) s)))
                    else Inr x)
            (\<lambda>first. Inr (first # xs, bl\<lparr>bl_buffer := map moved_from xs\<rparr>)))"

fun views_from :: "nat \<Rightarrow> bytes ref list \<Rightarrow> bytes list result" where
  "views_from skip [] = Inr []"
| "views_from skip (x # xs) =
     res_bind (substr_from (ref_get x) skip) (\<lambda>v. map_sum id ((#) v) (views_from 0 xs))"

definition bl_views :: "buffer_list \<Rightarrow> bytes list result" where
  "bl_views bl = (if bl_empty bl then Inr [] else views_from (bl_skip bl) (bl_buffer bl))"

subsection \<open>The parser\<close>

record parser =
  pa_input :: buffer_list
  pa_error :: bool

definition parser_new :: "bytes ref list \<Rightarrow> parser result" where
  "parser_new input = map_sum id (\<lambda>bl. \<lparr>pa_input = bl, pa_error = False\<rparr>) (buffer_list_new input)"

definition check_size :: "nat \<Rightarrow> parser \<Rightarrow> parser" where
  "check_size n p = (if n > bl_size (pa_input p) then p\<lparr>pa_error := True\<rparr> else p)"

definition pa_set_error :: "parser \<Rightarrow> parser" where
  "pa_set_error p = p\<lparr>pa_error := True\<rparr>"

definition pa_remove_prefix :: "nat \<Rightarrow> parser \<Rightarrow> parser result" where
  "pa_remove_prefix n p = map_sum id (\<lambda>bl. p\<lparr>pa_input := bl\<rparr>) (bl_remove_prefix (pa_input p) n)"

definition pa_truncate :: "nat \<Rightarrow> parser \<Rightarrow> parser result" where
  "pa_truncate len p = map_sum id (\<lambda>bl. p\<lparr>pa_input := bl\<rparr>) (bl_truncate (pa_input p) len)"

definition all_remaining :: "parser \<Rightarrow> (bytes ref list \<times> parser) result" where
  "all_remaining p = map_sum id (\<lambda>(out, bl). (out, p\<lparr>pa_input := bl\<rparr>)) (dump_all (pa_input p))"

definition pa_buffer :: "parser \<Rightarrow> bytes list result" where
  "pa_buffer p = bl_views (pa_input p)"

text \<open>\<open>peek().front()\<close> followed by \<open>remove_prefix(1)\<close>: the front of an empty view is
  undefined.\<close>

definition pop_byte :: "buffer_list \<Rightarrow> (u8 \<times> buffer_list) result" where
  "pop_byte bl = res_bind (bl_peek bl) (\<lambda>view.
     case view of [] \<Rightarrow> Inl (Undefined_behaviour ''Parser::integer: front of empty string_view'')
     | b # _ \<Rightarrow> map_sum id (Pair b) (bl_remove_prefix bl 1))"

fun integer_loop :: "nat \<Rightarrow> 'a::len word \<Rightarrow> buffer_list \<Rightarrow> ('a word \<times> buffer_list) result" where
  "integer_loop 0 out bl = Inr (out, bl)"
| "integer_loop (Suc i) out bl =
     res_bind (pop_byte bl) (\<lambda>(b, bl). integer_loop i (or (push_bit 8 out) (ucast b)) bl)"

text \<open>The size of an unsigned integer type in bytes, \<open>sizeof( T )\<close>.\<close>

definition sizeof :: "'a::len word \<Rightarrow> nat" where
  "sizeof x = LENGTH('a) div 8"

text \<open>\<open>Parser::integer\<close> assigns to its argument, which keeps its value on an error.\<close>

definition parse_integer :: "'a::len word \<Rightarrow> parser \<Rightarrow> ('a word \<times> parser) result" where
  "parse_integer out p =
     (let p = check_size (sizeof out) p
      in if pa_error p then Inr (out, p)
         else if sizeof out = 1
         then map_sum id (\<lambda>(b, bl). (ucast b, p\<lparr>pa_input := bl\<rparr>)) (pop_byte (pa_input p))
         else map_sum id (\<lambda>(v, bl). (v, p\<lparr>pa_input := bl\<rparr>)) (integer_loop (sizeof out) 0 (pa_input p)))"

text \<open>The loop of \<open>Parser::string\<close> with the bytes copied so far. It makes no progress on
  an empty view, so it need not return.\<close>

partial_function (option) string_loop ::
    "nat \<Rightarrow> bytes \<Rightarrow> buffer_list \<Rightarrow> (bytes \<times> buffer_list) result option" where
  "string_loop n copied bl =
     (if length copied = n then Some (Inr (copied, bl))
      else case bl_peek bl of
          Inl e \<Rightarrow> Some (Inl e)
        | Inr peeked \<Rightarrow>
            (case bl_remove_prefix bl (length (take (n - length copied) peeked)) of
               Inl e \<Rightarrow> Some (Inl e)
             | Inr bl' \<Rightarrow> string_loop n (copied @ take (n - length copied) peeked) bl'))"

definition parse_string :: "bytes \<Rightarrow> parser \<Rightarrow> (bytes \<times> parser) result option" where
  "parse_string out p =
     (let p = check_size (length out) p
      in if pa_error p then Some (Inr (out, p))
         else map_option (map_sum id (\<lambda>(copied, bl). (copied, p\<lparr>pa_input := bl\<rparr>)))
                (string_loop (length out) [] (pa_input p)))"

definition concatenate_all_remaining :: "parser \<Rightarrow> (bytes \<times> parser) result" where
  "concatenate_all_remaining p = map_sum id (\<lambda>(concat_refs, p).
     (case concat_refs of [] \<Rightarrow> [] | x # xs \<Rightarrow> ref_release x @ concat (map ref_get xs), p)) (all_remaining p)"

subsection \<open>The serializer\<close>

record serializer =
  se_output :: "bytes ref list"
  se_buffer :: bytes

definition serializer_new :: serializer where
  "serializer_new = \<lparr>se_output = [], se_buffer = []\<rparr>"

definition se_flush :: "serializer \<Rightarrow> serializer" where
  "se_flush s = (if se_buffer s \<noteq> []
     then s\<lparr>se_output := se_output s @ [Owned (se_buffer s)], se_buffer := []\<rparr> else s)"

definition serialize_integer :: "'a::len word \<Rightarrow> serializer \<Rightarrow> serializer" where
  "serialize_integer val s = s\<lparr>se_buffer := se_buffer s @
     map (\<lambda>i. ucast (drop_bit ((sizeof val - i - 1) * 8) val)) [0..<sizeof val]\<rparr>"

definition serialize_string :: "bytes \<Rightarrow> serializer \<Rightarrow> serializer" where
  "serialize_string buf s = (if buf \<noteq> []
     then (let s = se_flush s in s\<lparr>se_output := se_output s @ [Owned buf]\<rparr>) else s)"

definition serialize_ref :: "bytes ref \<Rightarrow> serializer \<Rightarrow> serializer" where
  "serialize_ref buf s = (if ref_get buf \<noteq> []
     then (let s = se_flush s in s\<lparr>se_output := se_output s @ [buf]\<rparr>) else s)"

definition serialize_refs :: "bytes ref list \<Rightarrow> serializer \<Rightarrow> serializer" where
  "serialize_refs bufs s = foldl (\<lambda>s b. serialize_ref (ref_borrow b) s) s bufs"

definition se_finish :: "serializer \<Rightarrow> bytes ref list \<times> serializer" where
  "se_finish s = (let s = se_flush s in (se_output s, s\<lparr>se_output := []\<rparr>))"

subsection \<open>The bytes that are left\<close>

definition chunks :: "bytes ref list \<Rightarrow> bytes" where
  "chunks rs = concat (map ref_get rs)"

lemma chunks_simps [simp]:
  "chunks [] = []" "chunks (x # xs) = ref_get x @ chunks xs" "chunks (xs @ ys) = chunks xs @ chunks ys"
  by (simp_all add: chunks_def)

definition bl_rest :: "buffer_list \<Rightarrow> bytes" where
  "bl_rest bl = drop (bl_skip bl) (chunks (bl_buffer bl))"

text \<open>Empty chunks stand only at the end: a read into several buffers that returns fewer
  bytes than fit leaves such chunks.\<close>

fun packed :: "bytes ref list \<Rightarrow> bool" where
  "packed [] = True"
| "packed (x # xs) = (if ref_get x = [] then chunks xs = [] else packed xs)"

lemma packed_empty: "chunks xs = [] \<Longrightarrow> packed xs"
  by (induction xs) auto

definition bl_ok :: "buffer_list \<Rightarrow> bool" where
  "bl_ok bl \<longleftrightarrow> bl_size bl = length (bl_rest bl) \<and> (\<forall>x\<in>set (bl_buffer bl). is_owned x)
     \<and> packed (bl_buffer bl)
     \<and> (case bl_buffer bl of [] \<Rightarrow> True | x # _ \<Rightarrow> bl_skip bl < length (ref_get x) \<or> bl_skip bl = 0)"

lemma bl_ok_peek:
  assumes "bl_ok bl" and "bl_rest bl \<noteq> []"
  shows "\<exists>v rest. bl_peek bl = Inr v \<and> v \<noteq> [] \<and> bl_rest bl = v @ rest"
proof -
  obtain x xs where bl: "bl_buffer bl = x # xs"
    using assms(2) by (cases "bl_buffer bl") (auto simp: bl_rest_def)
  have skip: "bl_skip bl < length (ref_get x)"
    using assms bl by (cases "ref_get x") (auto simp: bl_ok_def bl_rest_def)
  then have "bl_peek bl = Inr (drop (bl_skip bl) (ref_get x))"
    by (simp add: bl_peek_def bl substr_from_def)
  with skip bl show ?thesis by (simp add: bl_rest_def)
qed

lemma remove_turn_ok:
  assumes ok: "bl_ok bl" and ne: "bl_buffer bl \<noteq> []"
  shows "\<exists>bl' len'. remove_turn bl len = Inr (bl', len') \<and> bl_ok bl' \<and> len' \<le> len
    \<and> bl_rest bl' = drop (len - len') (bl_rest bl)"
proof -
  obtain x xs where bl: "bl_buffer bl = x # xs" using ne by (cases "bl_buffer bl") auto
  then have own: "is_owned x" "\<forall>y\<in>set xs. is_owned y" and pk: "packed (x # xs)"
    and skip: "bl_skip bl \<le> length (ref_get x)"
    and size: "bl_size bl = length (ref_get x) - bl_skip bl + length (chunks xs)"
    using ok by (auto simp: bl_ok_def bl_rest_def)
  let ?k = "min len (length (ref_get x) - bl_skip bl)"
  have peek: "bl_peek bl = Inr (drop (bl_skip bl) (ref_get x))"
    using skip by (simp add: bl_peek_def bl substr_from_def)
  show ?thesis
  proof (cases "bl_skip bl + ?k = length (ref_get x)")
    case True
    let ?bl = "bl\<lparr>bl_skip := 0, bl_size := bl_size bl - ?k, bl_buffer := xs\<rparr>"
    have "remove_turn bl len = Inr (?bl, len - ?k)"
      using True by (simp add: remove_turn_def peek bl own(1) Let_def)
    moreover have rest: "bl_rest ?bl = drop ?k (bl_rest bl)"
      using True by (simp add: bl_rest_def bl)
    moreover have "packed xs" using pk packed_empty by (simp split: if_splits)
    then have "bl_ok ?bl"
      using True size own(2) unfolding bl_ok_def rest
      by (auto simp: bl_rest_def bl split: list.splits)
    ultimately show ?thesis by (intro exI [of _ ?bl] exI [of _ "len - ?k"]) simp
  next
    case False
    let ?bl = "bl\<lparr>bl_skip := bl_skip bl + ?k, bl_size := bl_size bl - ?k\<rparr>"
    have lt: "bl_skip bl + ?k < length (ref_get x)" using False skip by auto
    then have k: "?k = len" by auto
    have "remove_turn bl len = Inr (?bl, len - ?k)"
      using False by (simp add: remove_turn_def peek bl own(1) Let_def)
    moreover have rest: "bl_rest ?bl = drop ?k (bl_rest bl)"
      using lt skip unfolding k by (simp add: bl_rest_def bl add.commute)
    moreover have "bl_ok ?bl"
      using lt [unfolded k] ok bl k unfolding bl_ok_def rest by auto
    ultimately show ?thesis using k by (intro exI [of _ ?bl] exI [of _ "len - ?k"]) simp
  qed
qed

lemma bl_remove_prefix_ok:
  "bl_ok bl \<Longrightarrow>
   \<exists>bl'. bl_remove_prefix bl n = Inr bl' \<and> bl_ok bl' \<and> bl_rest bl' = drop n (bl_rest bl)"
proof (induction bl n rule: bl_remove_prefix.induct)
  case (1 bl len)
  show ?case
  proof (cases "len = 0 \<or> bl_buffer bl = []")
    case True
    with 1(2) show ?thesis
      by (auto simp: bl_remove_prefix.simps [of bl len] bl_rest_def)
  next
    case False
    then obtain bl' len' where turn: "remove_turn bl len = Inr (bl', len')" "bl_ok bl'" "len' \<le> len"
      "bl_rest bl' = drop (len - len') (bl_rest bl)"
      using remove_turn_ok [OF 1(2)] by blast
    from "1.IH" [OF False turn(1) refl turn(2)] obtain bl'' where
      "bl_remove_prefix bl' len' = Inr bl''" "bl_ok bl''" "bl_rest bl'' = drop len' (bl_rest bl')"
      by blast
    then show ?thesis
      using False turn by (simp add: bl_remove_prefix.simps [of bl len])
  qed
qed

lemma pop_byte_ok:
  assumes "bl_ok bl" and "bl_rest bl = b # bs"
  shows "\<exists>bl'. pop_byte bl = Inr (b, bl') \<and> bl_ok bl' \<and> bl_rest bl' = bs"
proof -
  obtain v rest where v: "bl_peek bl = Inr v" "v \<noteq> []" "bl_rest bl = v @ rest"
    using bl_ok_peek [OF assms(1)] assms(2) by auto
  then obtain v' where "v = b # v'" using assms(2) by (cases v) auto
  moreover obtain bl' where "bl_remove_prefix bl 1 = Inr bl'" "bl_ok bl'" "bl_rest bl' = bs"
    using bl_remove_prefix_ok [OF assms(1), of 1] assms(2) by auto
  ultimately show ?thesis using v(1) by (simp add: pop_byte_def)
qed

subsection \<open>Sequencing\<close>

definition pbind :: "(parser \<Rightarrow> ('a \<times> parser) result) \<Rightarrow> ('a \<Rightarrow> parser \<Rightarrow> ('b \<times> parser) result)
    \<Rightarrow> parser \<Rightarrow> ('b \<times> parser) result" where
  "pbind f k p = res_bind (f p) (\<lambda>(v, p). k v p)"

definition preturn :: "'a \<Rightarrow> parser \<Rightarrow> ('a \<times> parser) result" where
  "preturn v p = Inr (v, p)"

subsection \<open>The parser as a function of the bytes\<close>

text \<open>All that a parse can depend on when its chunks are in order: the bytes left and the
  error flag.\<close>

type_synonym flat = "bytes \<times> bool"

definition pa_flat :: "parser \<Rightarrow> flat" where
  "pa_flat p = (bl_rest (pa_input p), pa_error p)"

definition pa_ok :: "parser \<Rightarrow> bool" where
  "pa_ok p \<longleftrightarrow> bl_ok (pa_input p)"

text \<open>A parse that always returns, keeps the chunks in order, and depends on nothing else.\<close>

definition implements :: "(parser \<Rightarrow> ('a \<times> parser) result) \<Rightarrow> (flat \<Rightarrow> 'a \<times> flat) \<Rightarrow> bool" where
  "implements f g \<longleftrightarrow> (\<forall>p. pa_ok p \<longrightarrow> (\<exists>p'. f p = Inr (fst (g (pa_flat p)), p')
     \<and> pa_ok p' \<and> pa_flat p' = snd (g (pa_flat p))))"

definition flatly :: "(parser \<Rightarrow> ('a \<times> parser) result) \<Rightarrow> bool" where
  "flatly f \<longleftrightarrow> (\<exists>g. implements f g)"

text \<open>A parse that takes exactly the given bytes and returns the given value.\<close>

definition reads :: "(parser \<Rightarrow> ('a \<times> parser) result) \<Rightarrow> bytes \<Rightarrow> 'a \<Rightarrow> bool" where
  "reads f bs v \<longleftrightarrow> (\<forall>p rest. pa_ok p \<longrightarrow> pa_flat p = (bs @ rest, False) \<longrightarrow>
     (\<exists>p'. f p = Inr (v, p') \<and> pa_ok p' \<and> pa_flat p' = (rest, False)))"

named_theorems flat_intros \<open>parses that depend only on the bytes left\<close>

lemma implements_bind:
  assumes "implements f g" and "\<And>v. implements (k v) (h v)"
  shows "implements (pbind f k) (\<lambda>s. case g s of (v, s') \<Rightarrow> h v s')"
  unfolding implements_def
proof (intro allI impI)
  fix p
  assume "pa_ok p"
  with assms(1) obtain p' where p': "f p = Inr (fst (g (pa_flat p)), p')" "pa_ok p'"
    "pa_flat p' = snd (g (pa_flat p))"
    unfolding implements_def by blast
  with assms(2) [of "fst (g (pa_flat p))"] show "\<exists>p'. pbind f k p = Inr (fst (case g (pa_flat p) of (v, s') \<Rightarrow> h v s'), p')
      \<and> pa_ok p' \<and> pa_flat p' = snd (case g (pa_flat p) of (v, s') \<Rightarrow> h v s')"
    unfolding implements_def pbind_def by (auto simp: split_def)
qed

lemma flatly_bind [flat_intros]:
  assumes "flatly f" and "\<And>v. flatly (k v)"
  shows "flatly (pbind f k)"
proof -
  obtain g where "implements f g" using assms(1) by (auto simp: flatly_def)
  moreover obtain h where "\<And>v. implements (k v) (h v)"
    using assms(2) unfolding flatly_def by metis
  ultimately show ?thesis unfolding flatly_def by (blast intro: implements_bind)
qed

lemma flatly_return [flat_intros]: "flatly (preturn v)"
  unfolding flatly_def implements_def preturn_def by (intro exI [of _ "Pair v"]) simp

lemma flatly_if [flat_intros]: "flatly f \<Longrightarrow> flatly f' \<Longrightarrow> flatly (if c then f else f')"
  by simp

lemma reads_bind:
  assumes "reads f bs v" and "reads (k v) bs' w"
  shows "reads (pbind f k) (bs @ bs') w"
  unfolding reads_def
proof (intro allI impI)
  fix p rest
  assume "pa_ok p" "pa_flat p = ((bs @ bs') @ rest, False)"
  with assms(1) obtain p' where "f p = Inr (v, p')" "pa_ok p'" "pa_flat p' = (bs' @ rest, False)"
    unfolding reads_def by (metis append.assoc)
  with assms(2) show "\<exists>p'. pbind f k p = Inr (w, p') \<and> pa_ok p' \<and> pa_flat p' = (rest, False)"
    unfolding reads_def pbind_def by auto
qed

lemma reads_return: "reads (preturn v) [] v"
  by (simp add: reads_def preturn_def)

lemma reads_last: "reads f bs v \<Longrightarrow> g v = w \<Longrightarrow> reads (pbind f (\<lambda>v. preturn (g v))) bs w"
  using reads_bind [of f bs v "\<lambda>v. preturn (g v)" "[]" w] reads_return [of "g v"] by simp

text \<open>A parse from a given state that returns a value without an error.\<close>

definition yields :: "'a \<Rightarrow> ('a \<times> parser) result \<Rightarrow> bool" where
  "yields x r \<longleftrightarrow> (\<exists>p. r = Inr (x, p) \<and> \<not> pa_error p)"

lemma yields_bind:
  assumes "reads f bs v" and "pa_ok p" and "pa_flat p = (bs @ rest, False)"
    and "\<And>p. pa_ok p \<Longrightarrow> pa_flat p = (rest, False) \<Longrightarrow> yields x (k v p)"
  shows "yields x (pbind f k p)"
proof -
  obtain p' where "f p = Inr (v, p')" "pa_ok p'" "pa_flat p' = (rest, False)"
    using assms(1-3) unfolding reads_def by blast
  with assms(4) show ?thesis by (simp add: pbind_def)
qed

text \<open>Setting the error flag on a condition, and stopping once it is set.\<close>

definition fail_if :: "bool \<Rightarrow> parser \<Rightarrow> (unit \<times> parser) result" where
  "fail_if c p = Inr ((), if c then pa_set_error p else p)"

definition unless_error :: "'a \<Rightarrow> (parser \<Rightarrow> ('a \<times> parser) result) \<Rightarrow> parser \<Rightarrow> ('a \<times> parser) result" where
  "unless_error v f p = (if pa_error p then Inr (v, p) else f p)"

lemma flatly_fail_if [flat_intros]: "flatly (fail_if c)"
  unfolding flatly_def implements_def
  by (intro exI [of _ "\<lambda>(bs, e). ((), bs, c \<or> e)"]) (simp add: fail_if_def pa_set_error_def pa_ok_def pa_flat_def)

lemma reads_fail_if: "\<not> c \<Longrightarrow> reads (fail_if c) [] ()"
  by (simp add: reads_def fail_if_def)

lemma flatly_unless_error [flat_intros]:
  assumes "flatly f"
  shows "flatly (unless_error v f)"
proof -
  obtain g where "implements f g" using assms by (auto simp: flatly_def)
  then have "implements (unless_error v f) (\<lambda>(bs, e). if e then (v, bs, e) else g (bs, e))"
    unfolding implements_def unless_error_def by (auto simp: pa_flat_def)
  then show ?thesis unfolding flatly_def by blast
qed

lemma reads_unless_error: "reads f bs v \<Longrightarrow> reads (unless_error d f) bs v"
  unfolding reads_def unless_error_def by (simp add: pa_flat_def)

subsection \<open>Integers\<close>

definition be_word :: "bytes \<Rightarrow> 'a::len word" where
  "be_word bs = foldl (\<lambda>out b. or (push_bit 8 out) (ucast b)) 0 bs"

definition be_bytes :: "'a::len word \<Rightarrow> bytes" where
  "be_bytes val = map (\<lambda>i. ucast (drop_bit ((sizeof val - i - 1) * 8) val)) [0..<sizeof val]"

lemma length_be_bytes [simp]: "length (be_bytes (v :: 'a::len word)) = LENGTH('a) div 8"
  by (simp add: be_bytes_def sizeof_def)

lemma integer_loop_ok:
  "bl_ok bl \<Longrightarrow> n \<le> length (bl_rest bl) \<Longrightarrow>
   \<exists>bl'. integer_loop n out bl = Inr (foldl (\<lambda>out b. or (push_bit 8 out) (ucast b)) out (take n (bl_rest bl)), bl')
     \<and> bl_ok bl' \<and> bl_rest bl' = drop n (bl_rest bl)"
proof (induction n arbitrary: out bl)
  case (Suc n)
  then obtain b bs where bs: "bl_rest bl = b # bs" by (cases "bl_rest bl") auto
  from pop_byte_ok [OF Suc.prems(1) this] obtain bl1 where
    bl1: "pop_byte bl = Inr (b, bl1)" "bl_ok bl1" "bl_rest bl1 = bs" by blast
  moreover from this Suc.prems(2) bs have "n \<le> length (bl_rest bl1)" by simp
  from Suc.IH [OF bl1(2) this, of "or (push_bit 8 out) (ucast b)"] obtain bl2 where
    "integer_loop n (or (push_bit 8 out) (ucast b)) bl1 =
       Inr (foldl (\<lambda>out b. or (push_bit 8 out) (ucast b)) (or (push_bit 8 out) (ucast b)) (take n bs), bl2)"
    "bl_ok bl2" "bl_rest bl2 = drop n bs"
    using bl1(3) by auto
  ultimately show ?case using bs by simp
qed simp

definition flat_integer :: "'a::len word \<Rightarrow> flat \<Rightarrow> 'a word \<times> flat" where
  "flat_integer out = (\<lambda>(bs, e). if e \<or> length bs < sizeof out then (out, bs, True)
     else (be_word (take (sizeof out) bs), drop (sizeof out) bs, False))"

lemma pa_flat_size: "pa_ok p \<Longrightarrow> bl_size (pa_input p) = length (bl_rest (pa_input p))"
  by (simp add: pa_ok_def bl_ok_def)

lemma parse_integer_implements:
  fixes out :: "'a::len word"
  shows "implements (parse_integer out) (flat_integer out)"
  unfolding implements_def
proof (intro allI impI)
  fix p
  assume ok: "pa_ok p"
  then have bl: "bl_ok (pa_input p)" by (simp add: pa_ok_def)
  show "\<exists>p'. parse_integer out p = Inr (fst (flat_integer out (pa_flat p)), p') \<and> pa_ok p'
      \<and> pa_flat p' = snd (flat_integer out (pa_flat p))"
  proof (cases "pa_error p \<or> length (bl_rest (pa_input p)) < sizeof out")
    case True
    then show ?thesis
      using ok pa_flat_size [OF ok]
      by (auto simp: parse_integer_def check_size_def flat_integer_def pa_flat_def pa_ok_def Let_def)
  next
    case False
    then have check: "check_size (sizeof out) p = p" and err: "\<not> pa_error p"
      and len: "sizeof out \<le> length (bl_rest (pa_input p))"
      using pa_flat_size [OF ok] by (auto simp: check_size_def)
    show ?thesis
    proof (cases "sizeof out = 1")
      case True
      then obtain b bs where bs: "bl_rest (pa_input p) = b # bs"
        using len by (cases "bl_rest (pa_input p)") auto
      from pop_byte_ok [OF bl this] show ?thesis
        using err check True bs
        by (auto simp: parse_integer_def flat_integer_def pa_flat_def pa_ok_def be_word_def)
    next
      case False
      from integer_loop_ok [OF bl len, of "0 :: 'a word"] show ?thesis
        using err check False len
        by (auto simp: parse_integer_def flat_integer_def pa_flat_def pa_ok_def be_word_def)
    qed
  qed
qed

lemma flatly_integer [flat_intros]: "flatly (parse_integer out)"
  using parse_integer_implements unfolding flatly_def by blast

text \<open>A parse that takes exactly \<open>n\<close> bytes, or flags an error when there are fewer.\<close>

definition takes :: "nat \<Rightarrow> (parser \<Rightarrow> ('a \<times> parser) result) \<Rightarrow> bool" where
  "takes n f \<longleftrightarrow> (\<forall>p. pa_ok p \<longrightarrow> (\<exists>v p'. f p = Inr (v, p') \<and> pa_ok p' \<and>
     (if \<not> pa_error p \<and> n \<le> length (fst (pa_flat p))
      then pa_flat p' = (drop n (fst (pa_flat p)), False) else pa_error p')))"

lemma takes_bind:
  assumes "takes m f" and "\<And>v. takes n (k v)"
  shows "takes (m + n) (pbind f k)"
  unfolding takes_def
proof (intro allI impI)
  fix p
  assume "pa_ok p"
  with assms(1) obtain v p1 where p1: "f p = Inr (v, p1)" "pa_ok p1"
    "if \<not> pa_error p \<and> m \<le> length (fst (pa_flat p))
     then pa_flat p1 = (drop m (fst (pa_flat p)), False) else pa_error p1"
    unfolding takes_def by blast
  with assms(2) [of v] obtain w p2 where p2: "k v p1 = Inr (w, p2)" "pa_ok p2"
    "if \<not> pa_error p1 \<and> n \<le> length (fst (pa_flat p1))
     then pa_flat p2 = (drop n (fst (pa_flat p1)), False) else pa_error p2"
    unfolding takes_def by blast
  have "if \<not> pa_error p \<and> m + n \<le> length (fst (pa_flat p))
     then pa_flat p2 = (drop (m + n) (fst (pa_flat p)), False) else pa_error p2"
  proof (cases "\<not> pa_error p \<and> m \<le> length (fst (pa_flat p))")
    case True
    then have "pa_flat p1 = (drop m (fst (pa_flat p)), False)" using p1(3) by simp
    moreover from this have "\<not> pa_error p1" by (simp add: pa_flat_def)
    ultimately show ?thesis using p2(3) True by (auto simp: add.commute split: if_splits)
  next
    case False
    then have "pa_error p1" using p1(3) by argo
    then show ?thesis using p2(3) False by (auto split: if_splits)
  qed
  with p1(1) p2 show "\<exists>v p'. pbind f k p = Inr (v, p') \<and> pa_ok p' \<and>
      (if \<not> pa_error p \<and> m + n \<le> length (fst (pa_flat p))
       then pa_flat p' = (drop (m + n) (fst (pa_flat p)), False) else pa_error p')"
    by (simp add: pbind_def)
qed

lemma takes_return: "takes 0 (preturn v)"
  by (auto simp: takes_def preturn_def pa_flat_def)

lemma takes_last: "takes n f \<Longrightarrow> takes n (pbind f (\<lambda>v. preturn (g v)))"
  using takes_bind [of n f 0 "\<lambda>v. preturn (g v)", OF _ takes_return] by simp

lemma takes_integer: "takes (LENGTH('a) div 8) (parse_integer (out :: 'a::len word))"
  unfolding takes_def
proof (intro allI impI)
  fix p
  assume "pa_ok p"
  then obtain p' where "parse_integer out p = Inr (fst (flat_integer out (pa_flat p)), p')" "pa_ok p'"
    "pa_flat p' = snd (flat_integer out (pa_flat p))"
    using parse_integer_implements [of out] unfolding implements_def by blast
  then show "\<exists>v p'. parse_integer out p = Inr (v, p') \<and> pa_ok p' \<and>
      (if \<not> pa_error p \<and> LENGTH('a) div 8 \<le> length (fst (pa_flat p))
       then pa_flat p' = (drop (LENGTH('a) div 8) (fst (pa_flat p)), False) else pa_error p')"
    by (auto simp: flat_integer_def sizeof_def pa_flat_def split: if_splits)
qed

lemma takes_integers:
  "takes 1 (parse_integer (a :: u8))" "takes 2 (parse_integer (b :: u16))" "takes 4 (parse_integer (c :: u32))"
  using takes_integer [of a] takes_integer [of b] takes_integer [of c] by simp_all

lemma be_bytes_simps:
  "be_bytes (a :: u8) = [a]"
  "be_bytes (b :: u16) = [ucast (drop_bit 8 b), ucast b]"
  "be_bytes (c :: u32) = [ucast (drop_bit 24 c), ucast (drop_bit 16 c), ucast (drop_bit 8 c), ucast c]"
  by (simp_all add: be_bytes_def sizeof_def upt_rec)

lemma be_word_bytes_8: "be_word (be_bytes (a :: u8)) = a"
  by (simp add: be_word_def be_bytes_simps)

lemma be_word_bytes_16: "be_word (be_bytes (b :: u16)) = b"
  unfolding be_bytes_simps be_word_def foldl.simps
  by (rule bit_word_eqI) (auto simp: bit_simps)

lemma be_word_bytes_32: "be_word (be_bytes (c :: u32)) = c"
  unfolding be_bytes_simps be_word_def foldl.simps
proof (rule bit_word_eqI, goal_cases)
  case (1 n)
  then show ?case by (cases "n < 16"; cases "n < 24") (auto simp: bit_simps not_less)
qed

lemma reads_integer_eq:
  assumes "be_word (be_bytes v) = (v :: 'a::len word)"
  shows "reads (parse_integer (out :: 'a word)) (be_bytes v) v"
  unfolding reads_def
proof (intro allI impI)
  fix p rest
  assume p: "pa_ok p" "pa_flat p = (be_bytes v @ rest, False)"
  have "flat_integer out (be_bytes v @ rest, False) = (v, rest, False)"
    using assms by (simp add: flat_integer_def sizeof_def)
  then show "\<exists>p'. parse_integer out p = Inr (v, p') \<and> pa_ok p' \<and> pa_flat p' = (rest, False)"
    using parse_integer_implements [of out] p unfolding implements_def by (metis fst_conv snd_conv)
qed

lemmas reads_integer =
  reads_integer_eq [OF be_word_bytes_8] reads_integer_eq [OF be_word_bytes_16]
  reads_integer_eq [OF be_word_bytes_32]

subsection \<open>What a serializer has written\<close>

definition se_flat :: "serializer \<Rightarrow> bytes" where
  "se_flat s = chunks (se_output s) @ se_buffer s"

named_theorems written \<open>what an operation of the serializer appends\<close>

lemma se_flat_new [written]: "se_flat serializer_new = []"
  by (simp add: se_flat_def serializer_new_def)

lemma se_flat_flush [written]: "se_flat (se_flush s) = se_flat s"
  by (simp add: se_flat_def se_flush_def)

lemma se_flat_integer [written]: "se_flat (serialize_integer v s) = se_flat s @ be_bytes v"
  by (simp add: se_flat_def serialize_integer_def be_bytes_def)

lemma se_flat_string [written]: "se_flat (serialize_string buf s) = se_flat s @ buf"
  by (simp add: serialize_string_def Let_def) (simp add: se_flat_def se_flush_def)

lemma se_flat_ref [written]: "se_flat (serialize_ref buf s) = se_flat s @ ref_get buf"
  by (simp add: serialize_ref_def Let_def) (simp add: se_flat_def se_flush_def)

lemma se_flat_refs [written]: "se_flat (serialize_refs bufs s) = se_flat s @ chunks bufs"
  unfolding serialize_refs_def
  by (induction bufs arbitrary: s) (simp_all add: written)

lemma se_finish_chunks [written]: "chunks (fst (se_finish s)) = se_flat s"
  using se_flat_flush [of s] by (simp add: se_finish_def Let_def se_flat_def se_flush_def split: if_splits)

text \<open>The chunks that a serializer emits are never empty.\<close>

definition se_solid :: "serializer \<Rightarrow> bool" where
  "se_solid s \<longleftrightarrow> (\<forall>x\<in>set (se_output s). ref_get x \<noteq> [])"

lemma se_solid_simps:
  "se_solid serializer_new" "se_solid s \<Longrightarrow> se_solid (se_flush s)"
  "se_solid s \<Longrightarrow> se_solid (serialize_integer v s)" "se_solid s \<Longrightarrow> se_solid (serialize_string b s)"
  "se_solid s \<Longrightarrow> se_solid (serialize_ref r s)"
  by (simp_all add: se_solid_def serializer_new_def se_flush_def serialize_integer_def serialize_string_def
      serialize_ref_def Let_def)

lemma se_solid_refs: "se_solid s \<Longrightarrow> se_solid (serialize_refs bs s)"
  unfolding serialize_refs_def by (induction bs arbitrary: s) (simp_all add: se_solid_simps)

subsection \<open>Building a parser\<close>

text \<open>The helpers \<open>serialize\<close> and \<open>parse\<close> of \<open>util/helpers.hh\<close>: an object's chunks, and
  an object parsed from chunks together with the success flag.\<close>

definition serialize_with :: "(serializer \<Rightarrow> serializer result) \<Rightarrow> bytes ref list result" where
  "serialize_with f = map_sum id (\<lambda>s. fst (se_finish s)) (f serializer_new)"

definition parse_with :: "(parser \<Rightarrow> ('a \<times> parser) result) \<Rightarrow> bytes ref list \<Rightarrow> ('a \<times> bool) result" where
  "parse_with f buffers =
     res_bind (parser_new buffers) (\<lambda>p. map_sum id (\<lambda>(obj, p). (obj, \<not> pa_error p)) (f p))"

definition concat_refs :: "bytes ref list \<Rightarrow> bytes" where
  "concat_refs r = concat (map ref_get r)"

text \<open>\<open>clone\<close> copies every buffer, so that the copies are owned.\<close>

definition clone_refs :: "bytes ref list \<Rightarrow> bytes ref list" where
  "clone_refs = map ref_copy"

lemma clone_refs_owned: "\<forall>x\<in>set (clone_refs xs). is_owned x" and chunks_clone: "chunks (clone_refs xs) = chunks xs"
  and packed_clone: "packed (clone_refs xs) = packed xs"
proof -
  show "\<forall>x\<in>set (clone_refs xs). is_owned x" by (simp add: clone_refs_def)
  show chunks: "chunks (clone_refs xs) = chunks xs" for xs by (simp add: clone_refs_def chunks_def comp_def)
  show "packed (clone_refs xs) = packed xs"
    using chunks by (induction xs) (simp_all add: clone_refs_def)
qed

lemma packed_solid: "\<forall>x\<in>set xs. ref_get x \<noteq> [] \<Longrightarrow> packed xs"
  by (induction xs) auto

lemma buffer_list_init_ok:
  "\<forall>x\<in>set xs. is_owned x \<Longrightarrow> buffer_list_init bl xs =
     Inr (bl\<lparr>bl_buffer := bl_buffer bl @ xs, bl_size := bl_size bl + length (chunks xs)\<rparr>)"
  by (induction xs arbitrary: bl) (simp_all add: is_borrowed_def)

lemma parser_new_ok:
  assumes "\<forall>x\<in>set xs. is_owned x" and "packed xs"
  shows "\<exists>p. parser_new xs = Inr p \<and> pa_ok p \<and> pa_flat p = (chunks xs, False)"
  using assms
  by (simp add: parser_new_def buffer_list_new_def buffer_list_init_ok pa_ok_def pa_flat_def bl_ok_def bl_rest_def
      split: list.splits)

lemma flatly_set_error [flat_intros]: "flatly (\<lambda>p. Inr (v, pa_set_error p))"
  unfolding flatly_def implements_def
  by (intro exI [of _ "\<lambda>(bs, e). (v, bs, True)"]) (simp add: pa_set_error_def pa_ok_def pa_flat_def)

subsection \<open>Skipping, cutting and taking the rest\<close>

lemma flatly_remove_prefix [flat_intros]:
  "flatly (\<lambda>p. map_sum id (Pair v) (pa_remove_prefix n p))"
  unfolding flatly_def implements_def
proof (intro exI [of _ "\<lambda>(bs, e). (v, drop n bs, e)"] allI impI)
  fix p
  assume "pa_ok p"
  then obtain bl where "bl_remove_prefix (pa_input p) n = Inr bl" "bl_ok bl"
    "bl_rest bl = drop n (bl_rest (pa_input p))"
    using bl_remove_prefix_ok [of "pa_input p" n] by (auto simp: pa_ok_def)
  then show "\<exists>p'. map_sum id (Pair v) (pa_remove_prefix n p)
        = Inr (fst (case pa_flat p of (bs, e) \<Rightarrow> (v, drop n bs, e)), p') \<and> pa_ok p'
      \<and> pa_flat p' = snd (case pa_flat p of (bs, e) \<Rightarrow> (v, drop n bs, e))"
    by (auto simp: pa_remove_prefix_def pa_ok_def pa_flat_def)
qed

lemma reads_remove_prefix_0:
  "reads (\<lambda>p. map_sum id (Pair v) (pa_remove_prefix 0 p)) [] v"
  by (simp add: reads_def pa_remove_prefix_def bl_remove_prefix.simps)

lemma dump_all_ok:
  assumes ok: "bl_ok bl"
  shows "\<exists>out bl'. dump_all bl = Inr (out, bl') \<and> chunks out = bl_rest bl
    \<and> (\<forall>x\<in>set out. is_owned x) \<and> packed out"
proof (cases "bl_rest bl = []")
  case True
  then show ?thesis using ok by (simp add: dump_all_def bl_empty_def bl_ok_def)
next
  case False
  then obtain x xs where bl: "bl_buffer bl = x # xs"
    by (cases "bl_buffer bl") (auto simp: bl_rest_def)
  have skip: "bl_skip bl < length (ref_get x)"
    using ok False bl by (cases "ref_get x") (auto simp: bl_ok_def bl_rest_def)
  have own: "is_owned x" "\<forall>y\<in>set xs. is_owned y" and pk: "packed xs" and size: "bl_size bl \<noteq> 0"
    using ok bl False packed_empty by (auto simp: bl_ok_def split: if_splits)
  show ?thesis
    using skip own pk size by (auto simp: dump_all_def bl_empty_def bl substr_from_def bl_rest_def)
qed

lemma all_remaining_ok:
  assumes "pa_ok p"
  shows "\<exists>out p'. all_remaining p = Inr (out, p') \<and> chunks out = fst (pa_flat p)
    \<and> pa_error p' = pa_error p \<and> (\<forall>x\<in>set out. is_owned x) \<and> packed out"
  using dump_all_ok [of "pa_input p"] assms by (auto simp: all_remaining_def pa_ok_def pa_flat_def)

lemma concatenate_all_remaining_ok:
  assumes "pa_ok p"
  shows "\<exists>p'. concatenate_all_remaining p = Inr (fst (pa_flat p), p') \<and> pa_error p' = pa_error p"
proof -
  obtain out p' where out: "all_remaining p = Inr (out, p')" "chunks out = fst (pa_flat p)"
    "pa_error p' = pa_error p"
    using all_remaining_ok [OF assms] by blast
  have "(case out of [] \<Rightarrow> [] | x # xs \<Rightarrow> ref_release x @ concat (map ref_get xs)) = chunks out"
    by (cases out) (simp_all add: ref_release_def chunks_def)
  with out show ?thesis by (simp add: concatenate_all_remaining_def)
qed

lemma yields_concatenate:
  assumes "pa_ok p" "pa_flat p = (bs, False)"
  shows "yields x (pbind concatenate_all_remaining (\<lambda>v. preturn (g v)) p) \<longleftrightarrow> x = g bs"
  using concatenate_all_remaining_ok [OF assms(1)] assms(2)
  by (auto simp: yields_def pbind_def preturn_def pa_flat_def)

lemma views_from_0: "\<exists>vs. views_from 0 xs = Inr vs \<and> concat vs = chunks xs"
  by (induction xs) (auto simp: substr_from_def)

lemma pa_buffer_ok:
  assumes "pa_ok p"
  shows "\<exists>vs. pa_buffer p = Inr vs \<and> concat vs = fst (pa_flat p)"
proof (cases "bl_rest (pa_input p) = []")
  case True
  then show ?thesis
    using assms by (simp add: pa_buffer_def bl_views_def bl_empty_def pa_flat_def pa_ok_def bl_ok_def)
next
  case False
  then obtain x xs where bl: "bl_buffer (pa_input p) = x # xs"
    by (cases "bl_buffer (pa_input p)") (auto simp: bl_rest_def)
  then have "bl_skip (pa_input p) \<le> length (ref_get x)" "bl_size (pa_input p) \<noteq> 0"
    using assms False by (auto simp: pa_ok_def bl_ok_def)
  with views_from_0 [of xs] show ?thesis
    by (auto simp: pa_buffer_def bl_views_def bl_empty_def bl substr_from_def pa_flat_def bl_rest_def)
qed

lemma truncate_loop_ok:
  "\<forall>x\<in>set xs. is_owned x \<Longrightarrow> packed xs \<Longrightarrow> n < len \<Longrightarrow> len \<le> n + length (chunks xs) \<Longrightarrow>
   \<exists>ys. truncate_loop n len xs = Inr ys \<and> chunks ys = take (len - n) (chunks xs)
     \<and> (\<forall>y\<in>set ys. is_owned y \<and> ref_get y \<noteq> [])"
proof (induction n len xs rule: truncate_loop.induct)
  case (2 n len it rest)
  then have ne: "ref_get it \<noteq> []" and own: "is_owned it" by (auto split: if_splits)
  consider "n + length (ref_get it) < len" | "n + length (ref_get it) = len" | "len < n + length (ref_get it)"
    by linarith
  then show ?case
  proof cases
    case 1
    then obtain ys where "truncate_loop (n + length (ref_get it)) len rest = Inr ys"
      "chunks ys = take (len - (n + length (ref_get it))) (chunks rest)"
      "\<forall>y\<in>set ys. is_owned y \<and> ref_get y \<noteq> []"
      using 2 ne by auto
    with 1 own ne show ?thesis by (simp add: add.commute)
  next
    case 2
    with own ne show ?thesis by auto
  next
    case 3
    with own ne "2.prems"(3) show ?thesis by auto
  qed
qed simp

text \<open>\<open>truncate\<close> keeps the first \<open>len\<close> bytes left when nothing has been taken from the
  front chunk.\<close>

lemma truncate_ok:
  assumes ok: "bl_ok bl" and skip: "bl_skip bl = 0 \<or> len = 0 \<or> length (bl_rest bl) \<le> len"
  shows "\<exists>bl'. bl_truncate bl len = Inr bl' \<and> bl_ok bl' \<and> bl_rest bl' = take len (bl_rest bl)"
proof -
  have size: "bl_size bl = length (bl_rest bl)" using ok by (simp add: bl_ok_def)
  show ?thesis
  proof (cases "length (bl_rest bl) \<le> len \<or> len = 0")
    case True
    with ok size show ?thesis
      by (auto simp: bl_truncate_def) (simp_all add: bl_ok_def bl_rest_def)
  next
    case False
    then have rest: "bl_rest bl = chunks (bl_buffer bl)" and skip0: "bl_skip bl = 0"
      using skip by (auto simp: bl_rest_def)
    obtain ys where ys: "truncate_loop 0 len (bl_buffer bl) = Inr ys"
      "chunks ys = take len (chunks (bl_buffer bl))" "\<forall>y\<in>set ys. is_owned y \<and> ref_get y \<noteq> []"
      using truncate_loop_ok [of "bl_buffer bl" 0 len] ok False rest by (auto simp: bl_ok_def)
    with False size rest skip0 show ?thesis
      by (auto simp: bl_truncate_def bl_ok_def bl_rest_def intro!: packed_solid split: list.splits)
  qed
qed

subsection \<open>The chunks left\<close>

text \<open>A parse takes chunks off the front and leaves the others as they are.\<close>

definition shrinks :: "(parser \<Rightarrow> ('a \<times> parser) result) \<Rightarrow> bool" where
  "shrinks f \<longleftrightarrow> (\<forall>p v p'. f p = Inr (v, p') \<longrightarrow> (\<exists>k. bl_buffer (pa_input p') = drop k (bl_buffer (pa_input p))))"

named_theorems shrink_intros \<open>parses that only take chunks off the front\<close>

lemma shrinksI: "(\<And>p v p'. f p = Inr (v, p') \<Longrightarrow> \<exists>k. bl_buffer (pa_input p') = drop k (bl_buffer (pa_input p))) \<Longrightarrow> shrinks f"
  by (simp add: shrinks_def)

lemma shrinksD: "shrinks f \<Longrightarrow> f p = Inr (v, p') \<Longrightarrow> \<exists>k. bl_buffer (pa_input p') = drop k (bl_buffer (pa_input p))"
  by (simp add: shrinks_def)

lemma shrinks_bind [shrink_intros]:
  assumes "shrinks f" and "\<And>v. shrinks (g v)"
  shows "shrinks (pbind f g)"
proof (rule shrinksI)
  fix p v p'
  assume "pbind f g p = Inr (v, p')"
  then obtain w q where q: "f p = Inr (w, q)" "g w q = Inr (v, p')" by (auto simp: pbind_def)
  from shrinksD [OF assms(1) q(1)] shrinksD [OF assms(2) q(2)]
  show "\<exists>k. bl_buffer (pa_input p') = drop k (bl_buffer (pa_input p))" by auto
qed

lemma drop_0_ex: "\<exists>k. xs = drop k xs"
  by (rule exI [of _ 0]) simp

lemma shrinks_same [shrink_intros]: "shrinks (preturn v)" "shrinks (fail_if c)"
  by (auto intro!: shrinksI simp: preturn_def fail_if_def pa_set_error_def drop_0_ex split: if_splits)

lemma shrinks_unless_error [shrink_intros]: "shrinks f \<Longrightarrow> shrinks (unless_error d f)"
  by (rule shrinksI) (auto simp: unless_error_def drop_0_ex dest: shrinksD split: if_splits)

lemma remove_turn_shrinks: "remove_turn bl len = Inr (bl', len') \<Longrightarrow> \<exists>k. bl_buffer bl' = drop k (bl_buffer bl)"
  by (auto simp: remove_turn_def Let_def drop_0_ex split: if_splits intro: exI [of _ "Suc 0"] simp: drop_Suc)

lemma bl_remove_prefix_shrinks: "bl_remove_prefix bl n = Inr bl' \<Longrightarrow> \<exists>k. bl_buffer bl' = drop k (bl_buffer bl)"
proof (induction bl n arbitrary: bl' rule: bl_remove_prefix.induct)
  case (1 bl len)
  show ?case
  proof (cases "len = 0 \<or> bl_buffer bl = []")
    case True
    with 1(2) show ?thesis by (simp add: bl_remove_prefix.simps [of bl len] drop_0_ex)
  next
    case False
    then obtain bl1 len1 where turn: "remove_turn bl len = Inr (bl1, len1)" "bl_remove_prefix bl1 len1 = Inr bl'"
      using 1(2) by (auto simp: bl_remove_prefix.simps [of bl len])
    from "1.IH" [OF False turn(1) refl turn(2)] remove_turn_shrinks [OF turn(1)] show ?thesis by auto
  qed
qed

lemma pop_byte_shrinks: "pop_byte bl = Inr (b, bl') \<Longrightarrow> \<exists>k. bl_buffer bl' = drop k (bl_buffer bl)"
  using bl_remove_prefix_shrinks [of bl 1 bl']
  by (cases "bl_peek bl") (auto simp: pop_byte_def map_sum_eq_Inr split: list.split_asm)

lemma integer_loop_shrinks: "integer_loop n v bl = Inr (w, bl') \<Longrightarrow> \<exists>k. bl_buffer bl' = drop k (bl_buffer bl)"
proof (induction n v bl rule: integer_loop.induct)
  case (2 i out bl)
  then obtain b bl1 where pop: "pop_byte bl = Inr (b, bl1)"
    "integer_loop i (or (push_bit 8 out) (ucast b)) bl1 = Inr (w, bl')" by auto
  from "2.IH" [OF this(1) refl this(2)] pop_byte_shrinks [OF pop(1)] show ?case by auto
qed (simp add: drop_0_ex)

lemma shrinks_integer [shrink_intros]: "shrinks (parse_integer out)"
  by (rule shrinksI) (auto simp: parse_integer_def check_size_def Let_def map_sum_eq_Inr drop_0_ex
      dest!: integer_loop_shrinks pop_byte_shrinks split: if_splits)

lemma shrinks_remove_prefix [shrink_intros]: "shrinks (\<lambda>p. map_sum id (Pair v) (pa_remove_prefix n p))"
  by (rule shrinksI) (auto simp: pa_remove_prefix_def map_sum_eq_Inr dest!: bl_remove_prefix_shrinks)

subsection \<open>Parses that succeed\<close>

text \<open>The error flag is never taken back.\<close>

definition sticky :: "(parser \<Rightarrow> ('a \<times> parser) result) \<Rightarrow> bool" where
  "sticky f \<longleftrightarrow> (\<forall>p v p'. f p = Inr (v, p') \<longrightarrow> pa_error p \<longrightarrow> pa_error p')"

named_theorems sticky_intros \<open>parses that keep the error flag\<close>

lemma sticky_bind [sticky_intros]:
  assumes "sticky f" and "\<And>v. sticky (g v)"
  shows "sticky (pbind f g)"
  unfolding sticky_def
proof (intro allI impI)
  fix p v p'
  assume "pbind f g p = Inr (v, p')" and e: "pa_error p"
  then obtain w q where q: "f p = Inr (w, q)" "g w q = Inr (v, p')" by (auto simp: pbind_def)
  then have "pa_error q" using assms(1) e unfolding sticky_def by blast
  with q(2) assms(2) show "pa_error p'" unfolding sticky_def by blast
qed

lemma sticky_basic [sticky_intros]:
  "sticky (preturn v)" "sticky (parse_integer out)" "sticky (\<lambda>p. map_sum id (Pair u) (pa_remove_prefix n p))"
  "sticky concatenate_all_remaining" "sticky (\<lambda>p. Inr (w, pa_set_error p))"
  by (auto simp: sticky_def preturn_def parse_integer_def check_size_def pa_remove_prefix_def pa_set_error_def
      concatenate_all_remaining_def all_remaining_def map_sum_eq_Inr Let_def split: if_splits)

text \<open>When a parse that begins with an integer succeeds, it has read the first bytes, and the rest of the
  parse has succeeded on the others.\<close>

lemma integer_succeeds:
  fixes out :: "'a::len word"
  assumes "pbind (parse_integer out) g p = Inr (x, q)" and "\<not> pa_error q" and "pa_ok p" and "\<And>v. sticky (g v)"
  shows "\<exists>p'. g (be_word (take (sizeof out) (bl_rest (pa_input p)))) p' = Inr (x, q) \<and> pa_ok p'
    \<and> bl_rest (pa_input p') = drop (sizeof out) (bl_rest (pa_input p)) \<and> sizeof out \<le> length (bl_rest (pa_input p))"
proof -
  obtain p' where p': "parse_integer out p = Inr (fst (flat_integer out (pa_flat p)), p')" "pa_ok p'"
    "pa_flat p' = snd (flat_integer out (pa_flat p))"
    using parse_integer_implements [of out] assms(3) unfolding implements_def by blast
  then have rest: "g (fst (flat_integer out (pa_flat p))) p' = Inr (x, q)" using assms(1) by (simp add: pbind_def)
  then have "\<not> pa_error p'" using assms(2,4) unfolding sticky_def by blast
  then have "\<not> (pa_error p \<or> length (bl_rest (pa_input p)) < sizeof out)"
    using p'(3) by (auto simp: flat_integer_def pa_flat_def)
  then show ?thesis using rest p'(2,3) by (auto simp: flat_integer_def pa_flat_def)
qed

text \<open>What holds of every result of a parse.\<close>

definition returns :: "('a \<Rightarrow> bool) \<Rightarrow> (parser \<Rightarrow> ('a \<times> parser) result) \<Rightarrow> bool" where
  "returns P f \<longleftrightarrow> (\<forall>p v p'. f p = Inr (v, p') \<longrightarrow> P v)"

lemma returns_bind: "(\<And>v. returns P (g v)) \<Longrightarrow> returns P (pbind f g)"
  by (auto simp: returns_def pbind_def)

lemma returns_basic: "P v \<Longrightarrow> returns P (preturn v)" "P v \<Longrightarrow> returns P (\<lambda>p. Inr (v, pa_set_error p))"
  by (auto simp: returns_def preturn_def)

lemma two_integers_succeed:
  assumes "pbind (parse_integer (a :: u16)) (\<lambda>x. pbind (parse_integer (b :: u16)) (\<lambda>y. g x y)) p = Inr (s, q)"
    and "\<not> pa_error q" and "pa_ok p"
    and sticky: "\<And>x y. sticky (g x y)" and returns: "\<And>x y. returns (\<lambda>s. first s = x \<and> second s = y) (g x y)"
  shows "first s = be_word (take 2 (bl_rest (pa_input p))) \<and> second s = be_word (take 2 (drop 2 (bl_rest (pa_input p))))"
proof -
  have "sticky (pbind (parse_integer b) (\<lambda>y. g x y))" for x by (intro sticky_intros sticky)
  from integer_succeeds [OF assms(1-3) this] obtain p1 where p1: "pa_ok p1" "bl_rest (pa_input p1) = drop 2 (bl_rest (pa_input p))"
    "pbind (parse_integer b) (\<lambda>y. g (be_word (take 2 (bl_rest (pa_input p)))) y) p1 = Inr (s, q)"
    by (auto simp: sizeof_def)
  from integer_succeeds [OF p1(3) assms(2) p1(1) sticky] obtain p2 where
    "g (be_word (take 2 (bl_rest (pa_input p)))) (be_word (take 2 (drop 2 (bl_rest (pa_input p))))) p2 = Inr (s, q)"
    by (auto simp: sizeof_def p1(2))
  with returns show ?thesis unfolding returns_def by blast
qed

lemma buffer_list_init_fields:
  "buffer_list_init bl cs = Inr bl' \<Longrightarrow> bl' = bl\<lparr>bl_buffer := bl_buffer bl @ cs, bl_size := bl_size bl + length (chunks cs)\<rparr>
    \<and> (\<forall>c\<in>set cs. is_owned c)"
proof (induction bl cs arbitrary: bl' rule: buffer_list_init.induct)
  case (2 bl x xs)
  then have own: "is_owned x" by (cases "is_owned x") (simp_all add: is_borrowed_def)
  with 2 show ?case by (simp add: is_borrowed_def)
qed simp

lemma parser_new_fields:
  assumes "parser_new cs = Inr p"
  shows "pa_input p = \<lparr>bl_size = length (chunks cs), bl_buffer = cs, bl_skip = 0\<rparr>"
    and "\<forall>c\<in>set cs. is_owned c" and "\<not> pa_error p"
proof -
  obtain bl where bl: "buffer_list_init \<lparr>bl_size = 0, bl_buffer = [], bl_skip = 0\<rparr> cs = Inr bl"
    "p = \<lparr>pa_input = bl, pa_error = False\<rparr>"
    using assms by (auto simp: parser_new_def buffer_list_new_def map_sum_eq_Inr)
  from buffer_list_init_fields [OF bl(1)] bl(2)
  show "pa_input p = \<lparr>bl_size = length (chunks cs), bl_buffer = cs, bl_skip = 0\<rparr>"
    "\<forall>c\<in>set cs. is_owned c" "\<not> pa_error p" by simp_all
qed

lemma parser_new_buffer:
  assumes "parser_new cs = Inr p"
  shows "\<exists>views. pa_buffer p = Inr views \<and> concat views = chunks cs"
  using parser_new_fields [OF assms] views_from_0 [of cs] by (simp add: pa_buffer_def bl_views_def bl_empty_def)

text \<open>The contract of a parse that reads whatever its serializer writes.\<close>

locale wire_format =
  fixes put :: "'a \<Rightarrow> bytes" and get :: "'a \<Rightarrow> parser \<Rightarrow> ('a \<times> parser) result" and valid :: "'a \<Rightarrow> bool"
  assumes get_put: "valid x \<Longrightarrow> reads (get old) (put x) x"
    and get_flat: "flatly (get old)"
begin

lemma roundtrip:
  assumes "valid x" "\<forall>r\<in>set cs. is_owned r" "packed cs" "chunks cs = put x @ rest"
  shows "\<exists>p p'. parser_new cs = Inr p \<and> get old p = Inr (x, p') \<and> \<not> pa_error p'
    \<and> pa_ok p' \<and> bl_rest (pa_input p') = rest"
proof -
  obtain p where p: "parser_new cs = Inr p" "pa_ok p" "pa_flat p = (put x @ rest, False)"
    using parser_new_ok [OF assms(2,3)] assms(4) by auto
  with get_put [OF assms(1), of old] show ?thesis
    unfolding reads_def pa_flat_def by (metis fst_conv snd_conv)
qed

text \<open>Two chunkings of the same bytes parse alike.\<close>

lemma chunking_irrelevant:
  assumes "pa_ok p" "pa_ok q" "pa_flat p = pa_flat q"
  shows "\<exists>v p' q'. get old p = Inr (v, p') \<and> get old q = Inr (v, q') \<and> pa_flat p' = pa_flat q'
    \<and> pa_ok p' \<and> pa_ok q'"
  using get_flat [of old] assms unfolding flatly_def implements_def by metis

text \<open>What was written determines what follows it.\<close>

lemma put_prefix_free:
  assumes "valid x" "valid y" "put x @ r = put y @ r'"
  shows "x = y \<and> r = r'"
proof -
  have "\<forall>c\<in>set [Owned (put x @ r)]. is_owned c" "packed [Owned (put x @ r)]"
    "chunks [Owned (put x @ r)] = put x @ r" by simp_all
  then obtain p where p: "parser_new [Owned (put x @ r)] = Inr p" "pa_ok p" "pa_flat p = (put x @ r, False)"
    using parser_new_ok by metis
  with assms get_put [OF assms(1), of undefined] get_put [OF assms(2), of undefined] show ?thesis
    unfolding reads_def by (metis Inr_inject prod.inject)
qed

end

text \<open>The integers of the wire.\<close>

interpretation wire8: wire_format "be_bytes :: u8 \<Rightarrow> bytes" parse_integer "\<lambda>_. True"
  by unfold_locales (auto intro: reads_integer flat_intros)

interpretation wire16: wire_format "be_bytes :: u16 \<Rightarrow> bytes" parse_integer "\<lambda>_. True"
  by unfold_locales (auto intro: reads_integer flat_intros)

interpretation wire32: wire_format "be_bytes :: u32 \<Rightarrow> bytes" parse_integer "\<lambda>_. True"
  by unfold_locales (auto intro: reads_integer flat_intros)

subsection \<open>Properties\<close>

lemma string_loop_ok:
  "bl_ok bl \<Longrightarrow> length copied \<le> n \<Longrightarrow> n - length copied \<le> length (bl_rest bl) \<Longrightarrow>
   \<exists>bl'. string_loop n copied bl = Some (Inr (copied @ take (n - length copied) (bl_rest bl), bl'))
     \<and> bl_ok bl' \<and> bl_rest bl' = drop (n - length copied) (bl_rest bl)"
proof (induction "n - length copied" arbitrary: copied bl rule: less_induct)
  case less
  show ?case
  proof (cases "length copied = n")
    case True
    with less.prems show ?thesis by (simp add: string_loop.simps [of n copied bl])
  next
    case False
    with less.prems have "bl_rest bl \<noteq> []" by auto
    then obtain v rest where v: "bl_peek bl = Inr v" "v \<noteq> []" "bl_rest bl = v @ rest"
      using bl_ok_peek [OF less.prems(1)] by blast
    let ?view = "take (n - length copied) v"
    obtain bl1 where bl1: "bl_remove_prefix bl (length ?view) = Inr bl1" "bl_ok bl1"
      "bl_rest bl1 = drop (length ?view) (bl_rest bl)"
      using bl_remove_prefix_ok [OF less.prems(1)] by blast
    have step: "string_loop n copied bl = string_loop n (copied @ ?view) bl1"
      using False v(1) bl1(1) by (simp add: string_loop.simps [of n copied bl])
    have pos: "0 < length ?view" using v(2) False less.prems(2) by simp
    have len: "length (copied @ ?view) \<le> n" using less.prems(2) by simp
    have smaller: "n - length (copied @ ?view) < n - length copied"
      using pos len False less.prems(2) by (simp only: length_append)
    have enough: "n - length (copied @ ?view) \<le> length (bl_rest bl1)"
      using less.prems(3) bl1(3) by (simp add: min_def)
    from less.hyps [OF smaller bl1(2) len enough] obtain bl2 where
      bl2: "string_loop n (copied @ ?view) bl1 =
        Some (Inr ((copied @ ?view) @ take (n - length (copied @ ?view)) (bl_rest bl1), bl2))"
      "bl_ok bl2" "bl_rest bl2 = drop (n - length (copied @ ?view)) (bl_rest bl1)" by blast
    have "?view @ take (n - length (copied @ ?view)) (bl_rest bl1) = take (n - length copied) (bl_rest bl)"
      using bl1(3) v(3) by (cases "n - length copied \<le> length v") (simp_all add: min_def)
    moreover have "drop (n - length (copied @ ?view)) (bl_rest bl1) = drop (n - length copied) (bl_rest bl)"
      using bl1(3) v(3) by (cases "n - length copied \<le> length v") (simp_all add: min_def)
    ultimately show ?thesis using step bl2 by simp
  qed
qed

text \<open>Reading a fixed number of bytes always returns when the chunks are in order: it
  gives the next bytes, across chunk boundaries, or sets the error flag when there are too
  few.\<close>

theorem parse_string_returns:
  assumes "pa_ok p" and "\<not> pa_error p"
  shows "\<exists>p'. pa_ok p' \<and> parse_string out p =
    (if length out \<le> length (fst (pa_flat p)) then Some (Inr (take (length out) (fst (pa_flat p)), p'))
     else Some (Inr (out, p'))) \<and> pa_error p' = (length (fst (pa_flat p)) < length out)"
proof (cases "length out \<le> length (fst (pa_flat p))")
  case True
  have "bl_ok (pa_input p)" using assms(1) by (simp add: pa_ok_def)
  from string_loop_ok [OF this, of "[]" "length out"] True obtain bl where
    "string_loop (length out) [] (pa_input p) = Some (Inr (take (length out) (bl_rest (pa_input p)), bl))" "bl_ok bl"
    by (auto simp: pa_flat_def)
  then show ?thesis
    using assms True pa_flat_size [OF assms(1)]
    by (simp add: parse_string_def check_size_def pa_flat_def pa_ok_def)
next
  case False
  then show ?thesis
    using assms pa_flat_size [OF assms(1)]
    by (simp add: parse_string_def check_size_def pa_flat_def pa_ok_def)
qed

theorem parse_string_returns_witness:
  "\<exists>p p'. parser_new [Owned [1, 2], Owned [3]] = Inr p \<and> parse_string [0, 0, 0] p = Some (Inr ([1, 2, 3], p'))"
proof -
  obtain p where p: "parser_new [Owned [1, 2], Owned [3]] = Inr p" "pa_ok p" "pa_flat p = ([1, 2, 3], False)"
    using parser_new_ok [of "[Owned [1, 2], Owned [3]]"] by auto
  then show ?thesis
    using parse_string_returns [OF p(2), of "[0, 0, 0]"] by (auto simp: pa_flat_def)
qed

text \<open>\<open>truncate\<close> ignores what has already been taken from the front chunk: it counts
  the length from the start of the chunk, so it keeps too few bytes by exactly that
  amount, while the recorded size says they are all there.\<close>

theorem truncate_ignores_skip:
  assumes "bl_ok bl" and "0 < bl_skip bl" and "0 < len" and "len < bl_size bl"
  shows "\<exists>bl'. bl_truncate bl len = Inr bl' \<and> bl_size bl' = len \<and> length (bl_rest bl') = len - bl_skip bl
    \<and> bl_rest bl' \<noteq> take len (bl_rest bl)"
proof -
  have size: "bl_size bl = length (bl_rest bl)" using assms(1) by (simp add: bl_ok_def)
  obtain ys where ys: "truncate_loop 0 len (bl_buffer bl) = Inr ys"
    "chunks ys = take len (chunks (bl_buffer bl))"
  proof -
    have "len \<le> 0 + length (chunks (bl_buffer bl))" using assms(4) size by (simp add: bl_rest_def)
    moreover have "\<forall>x\<in>set (bl_buffer bl). is_owned x" "packed (bl_buffer bl)"
      using assms(1) by (simp_all add: bl_ok_def)
    ultimately show thesis using truncate_loop_ok [of "bl_buffer bl" 0 len] assms(3) that by auto
  qed
  let ?bl = "bl\<lparr>bl_buffer := ys, bl_size := len\<rparr>"
  have run: "bl_truncate bl len = Inr ?bl" using assms(3,4) ys by (simp add: bl_truncate_def)
  have len: "length (bl_rest ?bl) = len - bl_skip bl"
    using ys(2) assms(4) size by (simp add: bl_rest_def)
  moreover have "length (take len (bl_rest bl)) = len" using assms(4) size by simp
  ultimately have "bl_rest ?bl \<noteq> take len (bl_rest bl)" using assms(2,3) by (metis diff_less less_irrefl)
  with run len show ?thesis by (intro exI [of _ ?bl]) simp
qed

theorem truncate_ignores_skip_witness:
  "\<exists>bl'. bl_truncate \<lparr>bl_size = 4, bl_buffer = [Owned [1, 2, 3, 4, 5, 6]], bl_skip = 2\<rparr> 3 = Inr bl'
     \<and> bl_size bl' = 3 \<and> length (bl_rest bl') = 1"
proof -
  let ?bl = "\<lparr>bl_size = 4, bl_buffer = [Owned [1, 2, 3, 4, 5, 6]], bl_skip = 2\<rparr>"
  have ok: "bl_ok ?bl" "0 < bl_skip ?bl" "(0::nat) < 3" "3 < bl_size ?bl"
    by (simp_all add: bl_ok_def bl_rest_def)
  show ?thesis using truncate_ignores_skip [OF ok] by auto
qed

text \<open>Reading an integer of any width takes its bytes in network order wherever the
  chunk boundaries are, and with too few bytes left changes only the error flag.\<close>

theorem parse_integer_flat:
  fixes out :: "'a::len word"
  assumes "pa_ok p"
  shows "\<exists>p'. parse_integer out p = Inr (fst (flat_integer out (pa_flat p)), p') \<and> pa_ok p'
    \<and> pa_flat p' = snd (flat_integer out (pa_flat p))"
  using parse_integer_implements [of out] assms unfolding implements_def by blast

theorem parse_integer_flat_witness:
  "\<exists>p p'. parser_new [Owned [1], Owned [2, 3]] = Inr p \<and> parse_integer (0 :: u16) p = Inr (0x102, p')"
proof -
  obtain p where p: "parser_new [Owned [1], Owned [2, 3]] = Inr p" "pa_ok p" "pa_flat p = ([1, 2, 3], False)"
    using parser_new_ok [of "[Owned [1], Owned [2, 3]]"] by auto
  have "fst (flat_integer (0 :: u16) ([1, 2, 3], False)) = 0x102"
    by (simp add: flat_integer_def sizeof_def be_word_def)
  then show ?thesis using parse_integer_flat [OF p(2), of "0 :: u16"] p by auto
qed

end
