(* ===== verification/Address.thy ===== *)
theory Address
  imports Wire_Parser Text
begin

text \<open>
  Socket addresses: \<open>util/address.hh\<close> and \<open>util/address.cc\<close>. The wrapped
  \<open>sockaddr_storage\<close> is its 128 bytes, laid out as on Linux for a little-endian machine:
  the family in host byte order first, for \<open>AF_INET\<close> then the port and the address, both
  big-endian. The resolver (\<open>getaddrinfo\<close>, \<open>getnameinfo\<close>) belongs to the system and
  is an argument: it answers with an error code or with a result.
\<close>

definition AF_INET :: u16 where "AF_INET = 2"
definition AF_INET6 :: u16 where "AF_INET6 = 10"
definition AF_PACKET :: u16 where "AF_PACKET = 17"
definition SOCKADDR_STORAGE_SIZE :: nat where "SOCKADDR_STORAGE_SIZE = 128"
definition SOCKADDR_IN_SIZE :: nat where "SOCKADDR_IN_SIZE = 16"

record address =
  ad_size :: nat
  ad_storage :: bytes

text \<open>The bytes at the pointer, and the number of them to copy.\<close>

definition address_new :: "bytes \<Rightarrow> nat \<Rightarrow> address result" where
  "address_new addr sz =
     (if sz > SOCKADDR_STORAGE_SIZE then Inl (Runtime_error ''invalid sockaddr size'')
      else if length addr < sz then Inl (Undefined_behaviour ''memcpy past the end of the address'')
      else Inr \<lparr>ad_size = sz, ad_storage = take sz addr @ replicate (SOCKADDR_STORAGE_SIZE - sz) 0\<rparr>)"

definition ss_family :: "address \<Rightarrow> u16" where
  "ss_family a = be_word (rev (take 2 (ad_storage a)))"

text \<open>The resolver's hints: flags and family.\<close>

definition address_resolve ::
  "(string \<Rightarrow> string \<Rightarrow> int \<times> int \<Rightarrow> int \<times> (bytes \<times> nat) option) \<Rightarrow> string \<Rightarrow> string \<Rightarrow> int \<times> int
     \<Rightarrow> address result"
where
  "address_resolve getaddrinfo node service hints =
     (let (gai_ret, resolved_address) = getaddrinfo node service hints
      in if gai_ret \<noteq> 0 then Inl (System_error (''getaddrinfo('' @ node @ '', '' @ service @ '')'') gai_ret)
         else case resolved_address of
             None \<Rightarrow> Inl (Runtime_error ''getaddrinfo returned successfully but with no results'')
           | Some (ai_addr, ai_addrlen) \<Rightarrow> address_new ai_addr ai_addrlen)"

text \<open>The constructor from the text of an address and a port, with the flags
  \<open>AI_NUMERICHOST | AI_NUMERICSERV\<close>.\<close>

definition address_of_text ::
  "(string \<Rightarrow> string \<Rightarrow> int \<times> int \<Rightarrow> int \<times> (bytes \<times> nat) option) \<Rightarrow> string \<Rightarrow> u16 \<Rightarrow> address result"
where
  "address_of_text getaddrinfo ip port =
     address_resolve getaddrinfo ip (dec_nat (unat port)) (4 + 1024, uint AF_INET)"

text \<open>The constructor from the names of a host and a service, with the flag \<open>AI_ALL\<close>.\<close>

definition address_of_name ::
  "(string \<Rightarrow> string \<Rightarrow> int \<times> int \<Rightarrow> int \<times> (bytes \<times> nat) option) \<Rightarrow> string \<Rightarrow> string \<Rightarrow> address result"
where
  "address_of_name getaddrinfo hostname service = address_resolve getaddrinfo hostname service (16, uint AF_INET)"

definition ip_port :: "(bytes \<Rightarrow> int + string \<times> string) \<Rightarrow> address \<Rightarrow> (string \<times> u16) result" where
  "ip_port getnameinfo a =
     (if ss_family a \<noteq> AF_INET \<and> ss_family a \<noteq> AF_INET6
      then Inl (Runtime_error ''Address::ip_port() called on non-Internet address'')
      else case getnameinfo (take (ad_size a) (ad_storage a)) of
          Inl gni_ret \<Rightarrow> Inl (System_error ''getnameinfo'' gni_ret)
        | Inr (ip, port) \<Rightarrow> map_sum id (\<lambda>n. (ip, word_of_int n)) (stoi port))"

definition port :: "(bytes \<Rightarrow> int + string \<times> string) \<Rightarrow> address \<Rightarrow> u16 result" where
  "port getnameinfo a = map_sum id snd (ip_port getnameinfo a)"

definition address_ip :: "(bytes \<Rightarrow> int + string \<times> string) \<Rightarrow> address \<Rightarrow> string result" where
  "address_ip getnameinfo a = map_sum id fst (ip_port getnameinfo a)"

definition address_to_string :: "(bytes \<Rightarrow> int + string \<times> string) \<Rightarrow> address \<Rightarrow> string result" where
  "address_to_string getnameinfo a =
     (if ss_family a = AF_INET \<or> ss_family a = AF_INET6
      then map_sum id (\<lambda>(ip, port). ip @ '':'' @ dec_nat (unat port)) (ip_port getnameinfo a)
      else Inr ''(non-Internet address)'')"

definition ipv4_numeric :: "address \<Rightarrow> u32 result" where
  "ipv4_numeric a =
     (if ss_family a \<noteq> AF_INET \<or> ad_size a \<noteq> SOCKADDR_IN_SIZE
      then Inl (Runtime_error ''ipv4_numeric called on non-IPV4 address'')
      else Inr (be_word (take 4 (drop 4 (ad_storage a)))))"

definition from_ipv4_numeric :: "u32 \<Rightarrow> address result" where
  "from_ipv4_numeric ip_address =
     address_new (rev (be_bytes AF_INET) @ [0, 0] @ be_bytes ip_address @ replicate 8 0) SOCKADDR_IN_SIZE"

definition address_eq :: "address \<Rightarrow> address \<Rightarrow> bool" where
  "address_eq a b \<longleftrightarrow> ad_size a = ad_size b \<and> take (ad_size a) (ad_storage a) = take (ad_size a) (ad_storage b)"

text \<open>\<open>as\<close>, for a sockaddr type of the given size and family.\<close>

definition address_as :: "nat \<Rightarrow> u16 \<Rightarrow> address \<Rightarrow> bytes result" where
  "address_as type_size type_family a =
     (if type_size < ad_size a \<or> ss_family a \<noteq> type_family
      then Inl (Runtime_error ''Address::as() conversion failure'')
      else Inr (take type_size (ad_storage a)))"

text \<open>The address of an IPv4 number, as a value.\<close>

definition ipv4_address :: "u32 \<Rightarrow> address" where
  "ipv4_address ip = \<lparr>ad_size = 16, ad_storage = [2, 0, 0, 0] @ be_bytes ip @ replicate 120 0\<rparr>"

lemma from_ipv4_numeric_eq [simp]: "from_ipv4_numeric ip = Inr (ipv4_address ip)"
proof -
  have "rev (be_bytes AF_INET) = [2, 0]" by code_simp
  then show ?thesis
    by (simp add: from_ipv4_numeric_def address_new_def ipv4_address_def SOCKADDR_IN_SIZE_def
        SOCKADDR_STORAGE_SIZE_def replicate_add [symmetric])
qed

lemma ss_family_ipv4_address: "ss_family (ipv4_address ip) = AF_INET"
  by (simp add: ss_family_def ipv4_address_def AF_INET_def be_word_def)

lemma ipv4_numeric_address [simp]: "ipv4_numeric (ipv4_address ip) = Inr ip"
  by (simp add: ipv4_numeric_def ss_family_ipv4_address)
    (simp add: ipv4_address_def SOCKADDR_IN_SIZE_def be_word_bytes_32)

lemma ipv4_numeric_Inr:
  "ipv4_numeric a = Inr ip \<Longrightarrow> ss_family a = AF_INET \<and> ad_size a = 16"
  by (auto simp: ipv4_numeric_def SOCKADDR_IN_SIZE_def split: if_splits)

subsection \<open>Properties\<close>

text \<open>The numeric view of an address is the number it was built from, so that two
  addresses built from numbers are equal exactly when the numbers are; and such an address
  can be viewed as a \<open>sockaddr_in\<close> but not as a \<open>sockaddr_in6\<close>.\<close>

theorem ipv4_numeric_roundtrip:
  "\<exists>a. from_ipv4_numeric ip = Inr a \<and> ipv4_numeric a = Inr ip
    \<and> (\<forall>ip' a'. from_ipv4_numeric ip' = Inr a' \<longrightarrow> address_eq a a' = (ip = ip'))
    \<and> (\<exists>bs. address_as SOCKADDR_IN_SIZE AF_INET a = Inr bs)
    \<and> address_as 28 AF_INET6 a = Inl (Runtime_error ''Address::as() conversion failure'')"
proof -
  have "address_eq (ipv4_address ip) (ipv4_address ip') = (ip = ip')" for ip'
  proof
    assume "address_eq (ipv4_address ip) (ipv4_address ip')"
    then have "be_bytes ip = be_bytes ip'" by (simp add: address_eq_def ipv4_address_def)
    then show "ip = ip'" by (metis be_word_bytes_32)
  qed (simp add: address_eq_def)
  then show ?thesis
    by (simp add: address_as_def ss_family_ipv4_address)
      (simp add: AF_INET_def AF_INET6_def SOCKADDR_IN_SIZE_def ipv4_address_def)
qed

theorem ipv4_numeric_roundtrip_witness:
  "\<exists>a. from_ipv4_numeric 0x0a000001 = Inr a \<and> ipv4_numeric a = Inr 0x0a000001
    \<and> address_eq a (ipv4_address 0x0a000002) = False"
  using ipv4_numeric_roundtrip [of "0x0a000001"] by auto

end
