(* ===== verification/Socket.thy ===== *)
theory Socket
  imports Address File_Descriptor
begin

unbundle bit_operations_syntax

text \<open>
  The sockets of \<open>util/socket.hh\<close> and \<open>.cc\<close>: a socket is a file descriptor, and the
  socket calls of the kernel are further functions on its state. The lemmas say which
  descriptors a socket can be made from, what a datagram received into several buffers
  looks like, and that receiving into a single buffer leaves the buffer at its old size.
\<close>

definition SOL_SOCKET :: int where "SOL_SOCKET = 1"
definition SO_REUSEADDR :: int where "SO_REUSEADDR = 2"
definition SO_TYPE :: int where "SO_TYPE = 3"
definition SO_ERROR :: int where "SO_ERROR = 4"
definition SO_BINDTODEVICE :: int where "SO_BINDTODEVICE = 25"
definition SO_PROTOCOL :: int where "SO_PROTOCOL = 38"
definition SO_DOMAIN :: int where "SO_DOMAIN = 39"
definition MSG_TRUNC :: int where "MSG_TRUNC = 32"
definition SHUT_RD :: int where "SHUT_RD = 0"
definition SHUT_WR :: int where "SHUT_WR = 1"
definition SHUT_RDWR :: int where "SHUT_RDWR = 2"

text \<open>An address as the kernel gives it: the bytes of the storage and a length. \<open>recvfrom\<close> and
  \<open>recvmsg\<close> answer with the bytes they put into the buffers, the sender's address and, the
  latter, flags; \<open>getsockopt\<close> with the value and its length; addresses are passed as bytes and
  a length, and a destination may be missing.\<close>

record 'k socket_calls =
  so_socket :: "int \<Rightarrow> int \<Rightarrow> int \<Rightarrow> 'k \<Rightarrow> int \<times> 'k"
  so_getsockopt :: "int \<Rightarrow> int \<Rightarrow> int \<Rightarrow> 'k \<Rightarrow> (int \<times> int \<times> nat) \<times> 'k"
  so_setsockopt :: "int \<Rightarrow> int \<Rightarrow> int \<Rightarrow> bytes \<Rightarrow> 'k \<Rightarrow> int \<times> 'k"
  so_getsockname :: "int \<Rightarrow> 'k \<Rightarrow> (int \<times> bytes \<times> nat) \<times> 'k"
  so_getpeername :: "int \<Rightarrow> 'k \<Rightarrow> (int \<times> bytes \<times> nat) \<times> 'k"
  so_bind :: "int \<Rightarrow> bytes \<Rightarrow> nat \<Rightarrow> 'k \<Rightarrow> int \<times> 'k"
  so_connect :: "int \<Rightarrow> bytes \<Rightarrow> nat \<Rightarrow> 'k \<Rightarrow> int \<times> 'k"
  so_shutdown :: "int \<Rightarrow> int \<Rightarrow> 'k \<Rightarrow> int \<times> 'k"
  so_recvfrom :: "int \<Rightarrow> nat \<Rightarrow> int \<Rightarrow> 'k \<Rightarrow> (int \<times> bytes \<times> bytes \<times> nat) \<times> 'k"
  so_recvmsg :: "int \<Rightarrow> nat list \<Rightarrow> int \<Rightarrow> 'k \<Rightarrow> (int \<times> bytes \<times> bytes \<times> nat \<times> int) \<times> 'k"
  so_sendto :: "int \<Rightarrow> bytes \<Rightarrow> (bytes \<times> nat) option \<Rightarrow> 'k \<Rightarrow> int \<times> 'k"
  so_sendmsg :: "int \<Rightarrow> bytes list \<Rightarrow> (bytes \<times> nat) option \<Rightarrow> 'k \<Rightarrow> int \<times> 'k"
  so_listen :: "int \<Rightarrow> int \<Rightarrow> 'k \<Rightarrow> int \<times> 'k"
  so_accept :: "int \<Rightarrow> 'k \<Rightarrow> int \<times> 'k"

definition raw_address :: "address \<Rightarrow> bytes \<times> nat" where
  "raw_address a = (ad_storage a, ad_size a)"

subsection \<open>Options and construction\<close>

definition socket_new :: "'k syscalls \<Rightarrow> 'k socket_calls \<Rightarrow> int \<Rightarrow> int \<Rightarrow> int \<Rightarrow> ('k, file_descriptor) sys" where
  "socket_new sys so domain type protocol =
     io_bind (call (so_socket so domain type protocol)) (\<lambda>r.
     io_bind (check_system_call sys ''socket'' r) (fd_new sys))"

text \<open>The value and the length of an option.\<close>

definition getsockopt :: "'k syscalls \<Rightarrow> 'k socket_calls \<Rightarrow> file_descriptor \<Rightarrow> int \<Rightarrow> int \<Rightarrow> ('k, int \<times> nat) sys" where
  "getsockopt sys so fd level option =
     io_bind (fd_num fd) (\<lambda>n.
     io_bind (call (so_getsockopt so n level option)) (\<lambda>(r, value, optlen).
     io_bind (check_system_call sys ''getsockopt'' r) (\<lambda>_. io_return (value, optlen))))"

definition setsockopt :: "'k syscalls \<Rightarrow> 'k socket_calls \<Rightarrow> file_descriptor \<Rightarrow> int \<Rightarrow> int \<Rightarrow> bytes \<Rightarrow> ('k, unit) sys" where
  "setsockopt sys so fd level option option_val =
     io_bind (fd_num fd) (\<lambda>n.
     io_bind (call (so_setsockopt so n level option option_val)) (\<lambda>r.
     io_bind (check_system_call sys ''setsockopt'' r) (\<lambda>_. io_return ())))"

definition verify_option :: "'k syscalls \<Rightarrow> 'k socket_calls \<Rightarrow> file_descriptor \<Rightarrow> int \<Rightarrow> int \<Rightarrow> string \<Rightarrow> ('k, unit) sys" where
  "verify_option sys so fd option expected complaint =
     io_bind (getsockopt sys so fd SOL_SOCKET option) (\<lambda>(actual_value, len).
       if len \<noteq> 4 \<or> actual_value \<noteq> expected then io_throw (Runtime_error complaint) else io_return ())"

text \<open>The constructor that takes a descriptor over; where it throws, the base object is destroyed,
  and with it the descriptor, which the callers do not share.\<close>

definition socket_of_fd ::
  "'k syscalls \<Rightarrow> 'k socket_calls \<Rightarrow> file_descriptor \<Rightarrow> int \<Rightarrow> int \<Rightarrow> int \<Rightarrow> ('k, file_descriptor) sys"
where
  "socket_of_fd sys so fd domain type protocol =
     io_cleanup
       (io_bind (verify_option sys so fd SO_DOMAIN domain ''socket domain mismatch'') (\<lambda>_.
        io_bind (verify_option sys so fd SO_TYPE type ''socket type mismatch'') (\<lambda>_.
        io_bind (verify_option sys so fd SO_PROTOCOL protocol ''socket protocol mismatch'') (\<lambda>_.
        io_return fd))))
       (\<lambda>w. case fd of Some a \<Rightarrow> fdw_destroy sys a w | None \<Rightarrow> w)"

definition get_address ::
  "'k syscalls \<Rightarrow> string \<Rightarrow> (int \<Rightarrow> 'k \<Rightarrow> (int \<times> bytes \<times> nat) \<times> 'k) \<Rightarrow> file_descriptor \<Rightarrow> ('k, address) sys" where
  "get_address sys name_of_function f fd =
     io_bind (fd_num fd) (\<lambda>n.
     io_bind (call (f n)) (\<lambda>(r, raw, size).
     io_bind (check_system_call sys name_of_function r) (\<lambda>_. io_lift (address_new raw size))))"

definition local_address :: "'k syscalls \<Rightarrow> 'k socket_calls \<Rightarrow> file_descriptor \<Rightarrow> ('k, address) sys" where
  "local_address sys so = get_address sys ''getsockname'' (so_getsockname so)"

definition peer_address :: "'k syscalls \<Rightarrow> 'k socket_calls \<Rightarrow> file_descriptor \<Rightarrow> ('k, address) sys" where
  "peer_address sys so = get_address sys ''getpeername'' (so_getpeername so)"

definition bind_socket :: "'k syscalls \<Rightarrow> 'k socket_calls \<Rightarrow> file_descriptor \<Rightarrow> address \<Rightarrow> ('k, unit) sys" where
  "bind_socket sys so fd a =
     io_bind (fd_num fd) (\<lambda>n.
     io_bind (call (so_bind so n (ad_storage a) (ad_size a))) (\<lambda>r.
     io_bind (check_system_call sys ''bind'' r) (\<lambda>_. io_return ())))"

definition bind_to_device :: "'k syscalls \<Rightarrow> 'k socket_calls \<Rightarrow> file_descriptor \<Rightarrow> bytes \<Rightarrow> ('k, unit) sys" where
  "bind_to_device sys so fd device_name = setsockopt sys so fd SOL_SOCKET SO_BINDTODEVICE device_name"

definition connect_socket :: "'k syscalls \<Rightarrow> 'k socket_calls \<Rightarrow> file_descriptor \<Rightarrow> address \<Rightarrow> ('k, unit) sys" where
  "connect_socket sys so fd a =
     io_bind (fd_num fd) (\<lambda>n.
     io_bind (call (so_connect so n (ad_storage a) (ad_size a))) (\<lambda>r.
     io_bind (check_fd_system_call sys fd ''connect'' r) (\<lambda>_. io_return ())))"

definition shutdown :: "'k syscalls \<Rightarrow> 'k socket_calls \<Rightarrow> file_descriptor \<Rightarrow> int \<Rightarrow> ('k, unit) sys" where
  "shutdown sys so fd how =
     io_bind (fd_num fd) (\<lambda>n.
     io_bind (call (so_shutdown so n how)) (\<lambda>r.
     io_bind (check_system_call sys ''shutdown'' r) (\<lambda>_.
       if how = SHUT_RD then register_read fd
       else if how = SHUT_WR then register_write fd
       else if how = SHUT_RDWR then io_bind (register_read fd) (\<lambda>_. register_write fd)
       else io_throw (Runtime_error ''Socket::shutdown() called with invalid `how`''))))"

text \<open>\<open>int { true }\<close>, in the byte order of the machine.\<close>

definition set_reuseaddr :: "'k syscalls \<Rightarrow> 'k socket_calls \<Rightarrow> file_descriptor \<Rightarrow> ('k, unit) sys" where
  "set_reuseaddr sys so fd = setsockopt sys so fd SOL_SOCKET SO_REUSEADDR [1, 0, 0, 0]"

definition throw_if_error :: "'k syscalls \<Rightarrow> 'k socket_calls \<Rightarrow> file_descriptor \<Rightarrow> ('k, unit) sys" where
  "throw_if_error sys so fd =
     io_bind (getsockopt sys so fd SOL_SOCKET SO_ERROR) (\<lambda>(socket_error, len).
       if len \<noteq> 4 then io_throw (Runtime_error (''unexpected length from getsockopt: '' @ dec_nat len))
       else if socket_error \<noteq> 0 then io_throw (System_error ''socket error'' socket_error)
       else io_return ())"

definition listen :: "'k syscalls \<Rightarrow> 'k socket_calls \<Rightarrow> file_descriptor \<Rightarrow> int \<Rightarrow> ('k, unit) sys" where
  "listen sys so fd backlog =
     io_bind (fd_num fd) (\<lambda>n.
     io_bind (call (so_listen so n backlog)) (\<lambda>r.
     io_bind (check_system_call sys ''listen'' r) (\<lambda>_. io_return ())))"

definition IPPROTO_TCP :: int where "IPPROTO_TCP = 6"
definition SOCK_STREAM :: int where "SOCK_STREAM = 1"

definition accept :: "'k syscalls \<Rightarrow> 'k socket_calls \<Rightarrow> file_descriptor \<Rightarrow> ('k, file_descriptor) sys" where
  "accept sys so fd =
     io_bind (register_read fd) (\<lambda>_.
     io_bind (fd_num fd) (\<lambda>n.
     io_bind (call (so_accept so n)) (\<lambda>r.
     io_bind (check_system_call sys ''accept'' r) (\<lambda>m.
     io_bind (fd_new sys m) (\<lambda>new_fd.
       socket_of_fd sys so new_fd (uint AF_INET) SOCK_STREAM IPPROTO_TCP)))))"

subsection \<open>The kinds of sockets\<close>

definition AF_UNIX :: int where "AF_UNIX = 1"
definition SOCK_DGRAM :: int where "SOCK_DGRAM = 2"
definition SOCK_RAW :: int where "SOCK_RAW = 3"
definition IPPROTO_RAW :: int where "IPPROTO_RAW = 255"

definition datagram_socket :: "'k syscalls \<Rightarrow> 'k socket_calls \<Rightarrow> int \<Rightarrow> int \<Rightarrow> int \<Rightarrow> ('k, file_descriptor) sys" where
  "datagram_socket sys so domain type protocol = socket_new sys so domain type protocol"

definition udp_socket :: "'k syscalls \<Rightarrow> 'k socket_calls \<Rightarrow> ('k, file_descriptor) sys" where
  "udp_socket sys so = datagram_socket sys so (uint AF_INET) SOCK_DGRAM 0"

definition udp_socket_of_fd :: "'k syscalls \<Rightarrow> 'k socket_calls \<Rightarrow> file_descriptor \<Rightarrow> ('k, file_descriptor) sys" where
  "udp_socket_of_fd sys so fd = socket_of_fd sys so fd (uint AF_INET) SOCK_DGRAM 0"

definition tcp_socket :: "'k syscalls \<Rightarrow> 'k socket_calls \<Rightarrow> ('k, file_descriptor) sys" where
  "tcp_socket sys so = socket_new sys so (uint AF_INET) SOCK_STREAM 0"

definition packet_socket :: "'k syscalls \<Rightarrow> 'k socket_calls \<Rightarrow> int \<Rightarrow> int \<Rightarrow> ('k, file_descriptor) sys" where
  "packet_socket sys so type protocol = datagram_socket sys so (uint AF_PACKET) type protocol"

definition raw_socket :: "'k syscalls \<Rightarrow> 'k socket_calls \<Rightarrow> ('k, file_descriptor) sys" where
  "raw_socket sys so = datagram_socket sys so (uint AF_INET) SOCK_RAW IPPROTO_RAW"

definition local_stream_socket :: "'k syscalls \<Rightarrow> 'k socket_calls \<Rightarrow> file_descriptor \<Rightarrow> ('k, file_descriptor) sys" where
  "local_stream_socket sys so fd = socket_of_fd sys so fd AF_UNIX SOCK_STREAM 0"

definition local_datagram_of_fd :: "'k syscalls \<Rightarrow> 'k socket_calls \<Rightarrow> file_descriptor \<Rightarrow> ('k, file_descriptor) sys" where
  "local_datagram_of_fd sys so fd = socket_of_fd sys so fd AF_UNIX SOCK_DGRAM 0"

definition local_datagram_socket :: "'k syscalls \<Rightarrow> 'k socket_calls \<Rightarrow> ('k, file_descriptor) sys" where
  "local_datagram_socket sys so = datagram_socket sys so AF_UNIX SOCK_DGRAM 0"

subsection \<open>Datagrams\<close>

definition recv :: "'k syscalls \<Rightarrow> 'k socket_calls \<Rightarrow> file_descriptor \<Rightarrow> bytes \<Rightarrow> ('k, address \<times> bytes) sys" where
  "recv sys so fd payload =
     (let payload = (if payload = [] then resize kReadBufferSize payload else payload)
      in io_bind (fd_num fd) (\<lambda>n.
         io_bind (call (so_recvfrom so n (length payload) MSG_TRUNC)) (\<lambda>(r, data, raw_source_address, namelen).
         io_bind (check_fd_system_call sys fd ''recvfrom'' r) (\<lambda>recv_len.
         io_bind (register_read fd) (\<lambda>_.
           let payload = filled payload data
           in if recv_len > length payload
              then io_throw (Runtime_error (''recvfrom (oversized datagram of length '' @ dec_nat recv_len @ '')''))
              else if namelen = 0 \<or> namelen > SOCKADDR_STORAGE_SIZE
              then io_throw (Runtime_error ''recvfrom gave invalid namelen'')
              else io_bind (io_lift (address_new raw_source_address namelen)) (\<lambda>source_address.
                   io_return (source_address, payload)))))))"

definition recv_scattered ::
  "'k syscalls \<Rightarrow> 'k socket_calls \<Rightarrow> file_descriptor \<Rightarrow> bytes list \<Rightarrow> ('k, address \<times> bytes list) sys" where
  "recv_scattered sys so fd payloads =
     (if payloads = [] then io_throw (Runtime_error ''DatagramSocket::recv called with no payload buffers'')
      else let payloads = (if last payloads = [] then butlast payloads @ [resize kReadBufferSize []] else payloads)
      in io_bind (io_lift (to_iovecs payloads)) (\<lambda>total_size.
         io_bind (fd_num fd) (\<lambda>n.
         io_bind (call (so_recvmsg so n (map length payloads) MSG_TRUNC)) (\<lambda>(r, data, raw_source_address, namelen, flags).
         io_bind (check_fd_system_call sys fd ''recvmsg'' r) (\<lambda>recv_len.
         io_bind (register_read fd) (\<lambda>_.
           if recv_len > total_size
           then io_throw (Runtime_error (''recvmsg (oversized datagram of length '' @ dec_nat recv_len @ '')''))
           else if flags AND MSG_TRUNC \<noteq> 0
           then io_throw (Runtime_error ''recvmsg (oversized datagram indicated only by MSG_TRUNC)'')
           else if namelen = 0 \<or> namelen > SOCKADDR_STORAGE_SIZE
           then io_throw (Runtime_error ''recvmsg gave invalid namelen'')
           else io_bind (io_lift (address_new raw_source_address namelen)) (\<lambda>source_address.
                io_return (source_address, shrink_loop recv_len (scatter payloads data)))))))))"

definition send :: "'k syscalls \<Rightarrow> 'k socket_calls \<Rightarrow> file_descriptor \<Rightarrow> bytes \<Rightarrow> address option \<Rightarrow> ('k, unit) sys" where
  "send sys so fd payload destination =
     io_bind (fd_num fd) (\<lambda>n.
     io_bind (call (so_sendto so n payload (map_option raw_address destination))) (\<lambda>r.
     io_bind (check_fd_system_call sys fd ''sendto'' r) (\<lambda>bytes_sent.
     io_bind (register_write fd) (\<lambda>_.
       if bytes_sent \<noteq> length payload
       then io_throw (Runtime_error ''sendto sent some length other than that of payload'')
       else io_return ()))))"

definition send_iovecs ::
  "'k syscalls \<Rightarrow> 'k socket_calls \<Rightarrow> file_descriptor \<Rightarrow> bytes list \<Rightarrow> nat \<Rightarrow> address option \<Rightarrow> ('k, unit) sys" where
  "send_iovecs sys so fd iovecs total_size destination =
     io_bind (fd_num fd) (\<lambda>n.
     io_bind (call (so_sendmsg so n iovecs (map_option raw_address destination))) (\<lambda>r.
     io_bind (check_fd_system_call sys fd ''sendmsg'' r) (\<lambda>bytes_sent.
     io_bind (register_write fd) (\<lambda>_.
       if bytes_sent \<noteq> total_size
       then io_throw (Runtime_error ''sendmsg sent some length other than that of payload'')
       else io_return ()))))"

definition send_gathered ::
  "'k syscalls \<Rightarrow> 'k socket_calls \<Rightarrow> file_descriptor \<Rightarrow> bytes list \<Rightarrow> address option \<Rightarrow> ('k, unit) sys" where
  "send_gathered sys so fd payloads destination =
     io_bind (io_lift (to_iovecs payloads)) (\<lambda>total_size. send_iovecs sys so fd payloads total_size destination)"

subsection \<open>Properties\<close>

text \<open>A kernel in which every socket has received one datagram, of three bytes, from 10.0.0.1.\<close>

definition demo_socket_calls :: "(int \<Rightarrow> bytes) socket_calls" where
  "demo_socket_calls = \<lparr>so_socket = (\<lambda>_ _ _ k. (3, k)), so_getsockopt = (\<lambda>_ _ _ k. ((0, 0, 4), k)),
     so_setsockopt = (\<lambda>_ _ _ _ k. (0, k)), so_getsockname = (\<lambda>_ k. ((0, [], 0), k)),
     so_getpeername = (\<lambda>_ k. ((0, [], 0), k)), so_bind = (\<lambda>_ _ _ k. (0, k)), so_connect = (\<lambda>_ _ _ k. (0, k)),
     so_shutdown = (\<lambda>_ _ k. (0, k)),
     so_recvfrom = (\<lambda>_ _ _ k. ((3, [1, 2, 3], [2, 0, 0, 0, 10, 0, 0, 1, 0, 0, 0, 0, 0, 0, 0, 0], 16), k)),
     so_recvmsg = (\<lambda>_ _ _ k. ((3, [1, 2, 3], [2, 0, 0, 0, 10, 0, 0, 1, 0, 0, 0, 0, 0, 0, 0, 0], 16, 0), k)),
     so_sendto = (\<lambda>_ bs _ k. (int (length bs), k)), so_sendmsg = (\<lambda>_ bs _ k. (int (length (concat bs)), k)),
     so_listen = (\<lambda>_ _ k. (0, k)), so_accept = (\<lambda>_ k. (4, k))\<rparr>"

text \<open>A datagram that fits into the buffers is handed out whole, cut at their sizes, with the
  address of its sender; one that the kernel marks as truncated is never handed out.\<close>

theorem recv_scattered_correct:
  assumes "bufs \<noteq> []" and "\<forall>b\<in>set (butlast bufs). b \<noteq> []"
    and "bufs' = (if last bufs = [] then butlast bufs @ [replicate kReadBufferSize 0] else bufs)"
    and "so_recvmsg so (fw_fd (w_fds w a)) (map length bufs') MSG_TRUNC (w_kernel w) = ((int (length data), data, raw, namelen, flags), k)"
    and "length data \<le> sum_list (map length bufs')" and "0 < namelen" and "address_new raw namelen = Inr source"
  shows "\<exists>w'. recv_scattered sys so (Some a) bufs w =
      (if flags AND MSG_TRUNC \<noteq> 0 then Inl (Runtime_error ''recvmsg (oversized datagram indicated only by MSG_TRUNC)'')
       else Inr (source, cut_into (map length bufs') data), w')
    \<and> concat (cut_into (map length bufs') data) = data \<and> w_kernel w' = k"
proof -
  have small: "\<not> namelen > SOCKADDR_STORAGE_SIZE"
    using assms(7) by (auto simp: address_new_def split: if_splits)
  note sized = sized_buffers [OF assms(1-3)]
  have zeros: "resize kReadBufferSize [] = replicate kReadBufferSize 0" by (simp add: resize_def)
  let ?w' = "set_fd a (\<lambda>f. f\<lparr>fw_read_count := fw_read_count f + 1\<rparr>) (w\<lparr>w_kernel := k\<rparr>)"
  have "recv_scattered sys so (Some a) bufs w =
      (if flags AND MSG_TRUNC \<noteq> 0 then Inl (Runtime_error ''recvmsg (oversized datagram indicated only by MSG_TRUNC)'')
       else Inr (source, cut_into (map length bufs') data), ?w')"
    using assms(1,3-7) small to_iovecs_eq [OF sized(2,1)] shrink_scatter [OF assms(5)] zeros
    by (simp add: recv_scattered_def io_bind_def Let_def call_def check_fd_system_call_def
        fdw_check_system_call_def split: if_splits)
  moreover have "w_kernel ?w' = k" by simp
  ultimately show ?thesis using concat_cut_into [OF assms(5)] by blast
qed

theorem recv_scattered_correct_witness:
  "fst (recv_scattered demo_sys demo_socket_calls (Some 0) [[0, 0], []] (demo_world []))
    = Inr (\<lparr>ad_size = 16, ad_storage = [2, 0, 0, 0, 10, 0, 0, 1] @ replicate 120 0\<rparr>, [[1, 2], [3]])"
proof -
  let ?bufs' = "butlast [[0, 0], []] @ [replicate kReadBufferSize 0] :: bytes list"
  have answer: "so_recvmsg demo_socket_calls (fw_fd (w_fds (demo_world []) 0)) (map length ?bufs') MSG_TRUNC (w_kernel (demo_world []))
      = ((int (length [1, 2, 3 :: u8]), [1, 2, 3], [2, 0, 0, 0, 10, 0, 0, 1, 0, 0, 0, 0, 0, 0, 0, 0], 16, 0), w_kernel (demo_world []))"
    by (simp add: demo_socket_calls_def)
  have source: "address_new [2, 0, 0, 0, 10, 0, 0, 1, 0, 0, 0, 0, 0, 0, 0, 0] 16
      = Inr \<lparr>ad_size = 16, ad_storage = [2, 0, 0, 0, 10, 0, 0, 1] @ replicate 120 0\<rparr>"
    by code_simp
  show ?thesis
    using recv_scattered_correct [of "[[0, 0], []]" ?bufs', OF _ _ _ answer _ _ source, of demo_sys]
    by (auto simp: kReadBufferSize_def)
qed

text \<open>C35: receiving a datagram into a single buffer does not cut the buffer down to the datagram:
  what is handed out is as long as the buffer that was passed, whatever was received.\<close>

theorem recv_keeps_buffer_size:
  assumes "so_recvfrom so (fw_fd (w_fds w a)) kReadBufferSize MSG_TRUNC (w_kernel w) = ((int (length data), data, raw, namelen), k)"
    and "length data \<le> kReadBufferSize" and "0 < namelen" and "address_new raw namelen = Inr source"
  shows "\<exists>w'. recv sys so (Some a) [] w = (Inr (source, data @ replicate (kReadBufferSize - length data) 0), w')"
proof -
  have small: "\<not> namelen > SOCKADDR_STORAGE_SIZE"
    using assms(4) by (auto simp: address_new_def split: if_splits)
  have "filled (replicate kReadBufferSize 0) data = data @ replicate (kReadBufferSize - length data) 0"
    using assms(2) by (simp add: filled_def)
  then show ?thesis
    using assms small
    by (simp add: recv_def io_bind_def Let_def call_def check_fd_system_call_def fdw_check_system_call_def resize_def)
qed

theorem recv_keeps_buffer_size_witness:
  "map_sum id (length \<circ> snd) (fst (recv demo_sys demo_socket_calls (Some 0) [] (demo_world []))) = Inr 16384"
proof -
  have answer: "so_recvfrom demo_socket_calls (fw_fd (w_fds (demo_world []) 0)) kReadBufferSize MSG_TRUNC (w_kernel (demo_world []))
      = ((int (length [1, 2, 3 :: u8]), [1, 2, 3], [2, 0, 0, 0, 10, 0, 0, 1, 0, 0, 0, 0, 0, 0, 0, 0], 16), w_kernel (demo_world []))"
    by (simp add: demo_socket_calls_def)
  have source: "address_new [2, 0, 0, 0, 10, 0, 0, 1, 0, 0, 0, 0, 0, 0, 0, 0] 16
      = Inr \<lparr>ad_size = 16, ad_storage = [2, 0, 0, 0, 10, 0, 0, 1] @ replicate 120 0\<rparr>"
    by code_simp
  show ?thesis
    using recv_keeps_buffer_size [OF answer _ _ source, of demo_sys] by (auto simp: kReadBufferSize_def)
qed

end
