(* ===== verification/Captured.thy ===== *)
theory Captured
  imports Loop_Client Socket
begin

text \<open>
  Programs whose closures capture local variables by reference. The variables are kept beside the
  kernel, as part of the state that the closures run on; \<open>sys_beside\<close> and its companions are the
  kernel's calls on that state. The lemmas say what the operations of \<open>File_Descriptor\<close> and
  \<open>Socket\<close> leave alone: the variables, the descriptors' numbers, and, where they neither read nor
  write, the bytes that were taken from and written to the descriptors.
\<close>

subsection \<open>The kernel beside the local variables\<close>

definition beside :: "('k \<Rightarrow> 'a \<times> 'k) \<Rightarrow> 'm \<times> 'k \<Rightarrow> 'a \<times> ('m \<times> 'k)" where
  "beside f p = (case f (snd p) of (r, k) \<Rightarrow> (r, (fst p, k)))"

definition sys_beside :: "'k syscalls \<Rightarrow> ('m \<times> 'k) syscalls" where
  "sys_beside sys = \<lparr>sys_errno = sys_errno sys \<circ> snd,
     sys_read = (\<lambda>fd n. beside (sys_read sys fd n)), sys_readv = (\<lambda>fd ns. beside (sys_readv sys fd ns)),
     sys_write = (\<lambda>fd bs. beside (sys_write sys fd bs)), sys_writev = (\<lambda>fd bs. beside (sys_writev sys fd bs)),
     sys_getfl = (\<lambda>fd. beside (sys_getfl sys fd)), sys_setfl = (\<lambda>fd flags. beside (sys_setfl sys fd flags)),
     sys_close = (\<lambda>fd. beside (sys_close sys fd))\<rparr>"

definition poll_beside :: "'k poll_calls \<Rightarrow> ('m \<times> 'k) poll_calls" where
  "poll_beside pc = \<lparr>sys_poll = (\<lambda>ps t. beside (sys_poll pc ps t)), sys_so_error = (\<lambda>fd. beside (sys_so_error pc fd))\<rparr>"

definition socket_beside :: "'k socket_calls \<Rightarrow> ('m \<times> 'k) socket_calls" where
  "socket_beside so = \<lparr>so_socket = (\<lambda>d t p. beside (so_socket so d t p)),
     so_getsockopt = (\<lambda>fd l opt. beside (so_getsockopt so fd l opt)),
     so_setsockopt = (\<lambda>fd l opt v. beside (so_setsockopt so fd l opt v)),
     so_getsockname = (\<lambda>fd. beside (so_getsockname so fd)), so_getpeername = (\<lambda>fd. beside (so_getpeername so fd)),
     so_bind = (\<lambda>fd a n. beside (so_bind so fd a n)), so_connect = (\<lambda>fd a n. beside (so_connect so fd a n)),
     so_shutdown = (\<lambda>fd how. beside (so_shutdown so fd how)),
     so_recvfrom = (\<lambda>fd n flags. beside (so_recvfrom so fd n flags)),
     so_recvmsg = (\<lambda>fd ns flags. beside (so_recvmsg so fd ns flags)),
     so_sendto = (\<lambda>fd bs a. beside (so_sendto so fd bs a)), so_sendmsg = (\<lambda>fd bs a. beside (so_sendmsg so fd bs a)),
     so_listen = (\<lambda>fd n. beside (so_listen so fd n)), so_accept = (\<lambda>fd. beside (so_accept so fd))\<rparr>"

definition locals :: "('m \<times> 'k) state \<Rightarrow> 'm" where
  "locals s = fst (w_kernel (snd s))"

definition set_locals :: "('m \<Rightarrow> 'm) \<Rightarrow> (('m \<times> 'k) state, unit) io" where
  "set_locals f = io_update (\<lambda>s. (fst s, (snd s)\<lparr>w_kernel := (f (locals s), snd (w_kernel (snd s)))\<rparr>))"

lemma on_fds_eq: "m (snd s) = (r, w) \<Longrightarrow> on_fds m s = (r, (fst s, w))"
  by (simp add: on_fds_def)

lemma set_locals_eq:
  "set_locals f s = (Inr (), (fst s, (snd s)\<lparr>w_kernel := (f (locals s), snd (w_kernel (snd s)))\<rparr>))"
  by (simp add: set_locals_def)

lemma locals_updated: "locals (e, w\<lparr>w_kernel := (c, k)\<rparr>) = c"
  by (simp add: locals_def)

definition add_named_rule :: "string \<Rightarrow> file_descriptor \<Rightarrow> direction \<Rightarrow> nat \<Rightarrow> ('k state, nat) io" where
  "add_named_rule name fd dir code = io_bind (add_category name) (\<lambda>category_id. add_fd_rule category_id fd dir code)"

text \<open>Operations of a closure that leave the loop alone.\<close>

definition leaves_rules :: "('k state, 'a) io \<Rightarrow> bool" where
  "leaves_rules m \<longleftrightarrow> (\<forall>s. fst (snd (m s)) = fst s)"

lemma leaves_rulesD: "leaves_rules m \<Longrightarrow> m s = (r, s') \<Longrightarrow> fst s' = fst s"
  unfolding leaves_rules_def by (metis snd_conv)

lemma leaves_rules_basic:
  "leaves_rules (io_return x)" "leaves_rules (io_throw e)" "leaves_rules (io_lift r)" "leaves_rules (io_ask g)"
  "leaves_rules (on_fds m)" "leaves_rules (set_locals f)"
  by (simp_all add: leaves_rules_def set_locals_eq)

lemma leaves_rules_bind:
  assumes "leaves_rules m" and "\<And>x. leaves_rules (f x)"
  shows "leaves_rules (io_bind m f)"
  unfolding leaves_rules_def
proof
  fix s
  obtain x s1 where x: "m s = (x, s1)" by (rule prod.exhaust)
  then have "fst s1 = fst s" by (rule leaves_rulesD [OF assms(1)])
  with x assms(2) show "fst (snd (io_bind m f s)) = fst s"
    by (cases x; cases s1) (simp_all add: io_bind_eq leaves_rules_def)
qed

lemma leaves_rules_if: "leaves_rules m \<Longrightarrow> leaves_rules m' \<Longrightarrow> leaves_rules (if b then m else m')"
  by simp

lemmas rules_intros = leaves_rules_basic leaves_rules_bind leaves_rules_if

text \<open>The codes of the rules with a descriptor, after a rule was added.\<close>

definition codes :: "event_loop \<Rightarrow> nat list" where
  "codes el = map br_code (el_fd_rules el)"

lemma add_named_rule_codes:
  assumes "add_named_rule name fd dir code s = (x, s')"
  shows "codes (fst s') = (case x of Inl _ \<Rightarrow> codes (fst s) | Inr _ \<Rightarrow> codes (fst s) @ [code])"
  using assms by (auto simp: add_named_rule_def io_bind_def add_category_def add_fd_rule_def codes_def Let_def
      split: if_splits)

lemma distinct_codes_codes: "distinct_codes C el \<longleftrightarrow> distinct (codes el) \<and> set (codes el) \<subseteq> C"
  by (simp add: distinct_codes_def codes_def)

subsection \<open>What the calls do to the bytes\<close>

text \<open>What is relied on in the kernel: \<open>read\<close> gives at most as many bytes as it is asked for, and
  exactly those are taken from the descriptor; \<open>write\<close> appends some of the bytes; the other calls
  do neither. What was taken and written so far are two functions of the kernel's state.\<close>

definition quiet :: "('k \<Rightarrow> 'b) \<Rightarrow> ('k \<Rightarrow> 'a \<times> 'k) \<Rightarrow> bool" where
  "quiet obs f \<longleftrightarrow> (\<forall>k. obs (snd (f k)) = obs k)"

definition conveys ::
  "('k \<Rightarrow> int \<Rightarrow> bytes) \<Rightarrow> ('k \<Rightarrow> int \<Rightarrow> bytes) \<Rightarrow> 'k syscalls \<Rightarrow> 'k socket_calls \<Rightarrow> 'k poll_calls \<Rightarrow> bool" where
  "conveys taken written sys so pc \<longleftrightarrow>
     (\<forall>fd n k. case sys_read sys fd n k of ((r, data), k') \<Rightarrow>
        r \<le> int n \<and> length data = nat r \<and> taken k' = (taken k)(fd := taken k fd @ data) \<and> written k' = written k)
   \<and> (\<forall>fd bs k. case sys_write sys fd bs k of (r, k') \<Rightarrow>
        r \<le> int (length bs) \<and> written k' = (written k)(fd := written k fd @ take (nat r) bs) \<and> taken k' = taken k)
   \<and> (\<forall>fd flags. quiet (\<lambda>k. (taken k, written k)) (sys_getfl sys fd)
        \<and> quiet (\<lambda>k. (taken k, written k)) (sys_setfl sys fd flags) \<and> quiet (\<lambda>k. (taken k, written k)) (sys_close sys fd))
   \<and> (\<forall>fd how. quiet (\<lambda>k. (taken k, written k)) (so_shutdown so fd how))
   \<and> (\<forall>ps t fd. quiet (\<lambda>k. (taken k, written k)) (sys_poll pc ps t) \<and> quiet (\<lambda>k. (taken k, written k)) (sys_so_error pc fd))"

text \<open>The local variables and the descriptors' numbers are the same after a call.\<close>

definition kept :: "('m \<times> 'k) world \<Rightarrow> ('m \<times> 'k) world \<Rightarrow> bool" where
  "kept w w' \<longleftrightarrow> fst (w_kernel w') = fst (w_kernel w) \<and> (\<forall>a. fw_fd (w_fds w' a) = fw_fd (w_fds w a))"

lemma conveys_calls:
  assumes "conveys taken written sys so pc"
  shows "sys_read sys fd n k = ((r, data), k') \<Longrightarrow> r \<le> int n \<and> length data = nat r
      \<and> taken k' = (taken k)(fd := taken k fd @ data) \<and> written k' = written k"
    and "sys_write sys fd bs k = (m, k') \<Longrightarrow> m \<le> int (length bs)
      \<and> written k' = (written k)(fd := written k fd @ take (nat m) bs) \<and> taken k' = taken k"
proof -
  have "case sys_read sys fd n k of ((r, data), k') \<Rightarrow>
      r \<le> int n \<and> length data = nat r \<and> taken k' = (taken k)(fd := taken k fd @ data) \<and> written k' = written k"
    by (rule assms [unfolded conveys_def, THEN conjunct1, rule_format])
  moreover have "case sys_write sys fd bs k of (r, k') \<Rightarrow>
      r \<le> int (length bs) \<and> written k' = (written k)(fd := written k fd @ take (nat r) bs) \<and> taken k' = taken k"
    by (rule assms [unfolded conveys_def, THEN conjunct2, THEN conjunct1, rule_format])
  ultimately show "sys_read sys fd n k = ((r, data), k') \<Longrightarrow> r \<le> int n \<and> length data = nat r
      \<and> taken k' = (taken k)(fd := taken k fd @ data) \<and> written k' = written k"
    and "sys_write sys fd bs k = (m, k') \<Longrightarrow> m \<le> int (length bs)
      \<and> written k' = (written k)(fd := written k fd @ take (nat m) bs) \<and> taken k' = taken k"
    by simp_all
qed

lemma conveys_read:
  assumes "conveys taken written sys so pc" and "read (sys_beside sys) (Some a) buf w = (x, w')" and "buf \<noteq> []"
  shows "kept w w' \<and> written (snd (w_kernel w')) = written (snd (w_kernel w))
    \<and> (case x of Inl e \<Rightarrow> taken (snd (w_kernel w')) = taken (snd (w_kernel w))
       | Inr data \<Rightarrow> length data \<le> length buf \<and> taken (snd (w_kernel w')) =
           (taken (snd (w_kernel w)))(fw_fd (w_fds w a) := taken (snd (w_kernel w)) (fw_fd (w_fds w a)) @ data))"
proof -
  obtain r data k' where r: "sys_read sys (fw_fd (w_fds w a)) (length buf) (snd (w_kernel w)) = ((r, data), k')"
    by (metis prod.exhaust)
  have law: "r \<le> int (length buf)" "length data = nat r" "written k' = written (snd (w_kernel w))"
    "taken k' = (taken (snd (w_kernel w)))(fw_fd (w_fds w a) := taken (snd (w_kernel w)) (fw_fd (w_fds w a)) @ data)"
    using conveys_calls(1) [OF assms(1) r] by simp_all
  have cut: "resize (nat r) (filled buf data) = data"
    using law(1,2) by (simp add: resize_def filled_def)
  have none: "r < 0 \<Longrightarrow> data = []" using law(2) by simp
  show ?thesis
    using assms(2,3) law cut none
    by (auto simp: read_def io_bind_def call_def r beside_def sys_beside_def check_read_def fdw_check_read_def
        fdw_check_system_call_def Let_def kept_def resize_def split: if_splits)
qed

lemma conveys_write:
  assumes "conveys taken written sys so pc" and "write_once (sys_beside sys) (Some a) buf w = (x, w')"
  shows "kept w w' \<and> taken (snd (w_kernel w')) = taken (snd (w_kernel w))
    \<and> (case x of Inl e \<Rightarrow> written (snd (w_kernel w')) = written (snd (w_kernel w))
       | Inr n \<Rightarrow> n \<le> length buf \<and> written (snd (w_kernel w')) =
           (written (snd (w_kernel w)))(fw_fd (w_fds w a) := written (snd (w_kernel w)) (fw_fd (w_fds w a)) @ take n buf))"
proof -
  obtain r k' where r: "sys_write sys (fw_fd (w_fds w a)) buf (snd (w_kernel w)) = (r, k')"
    by (metis prod.exhaust)
  have law: "r \<le> int (length buf)" "taken k' = taken (snd (w_kernel w))"
    "written k' = (written (snd (w_kernel w)))(fw_fd (w_fds w a) := written (snd (w_kernel w)) (fw_fd (w_fds w a)) @ take (nat r) buf)"
    using conveys_calls(2) [OF assms(1) r] by simp_all
  show ?thesis
    using assms(2) law
    by (auto simp: write_once_def io_bind_def call_def r beside_def sys_beside_def check_fd_system_call_def
        fdw_check_system_call_def Let_def kept_def nat_le_iff split: if_splits)
qed

definition unmoved ::
  "('k \<Rightarrow> int \<Rightarrow> bytes) \<Rightarrow> ('k \<Rightarrow> int \<Rightarrow> bytes) \<Rightarrow> ('m \<times> 'k) world \<Rightarrow> ('m \<times> 'k) world \<Rightarrow> bool" where
  "unmoved taken written w w' \<longleftrightarrow> kept w w'
     \<and> taken (snd (w_kernel w')) = taken (snd (w_kernel w)) \<and> written (snd (w_kernel w')) = written (snd (w_kernel w))"

definition still :: "('k \<Rightarrow> int \<Rightarrow> bytes) \<Rightarrow> ('k \<Rightarrow> int \<Rightarrow> bytes) \<Rightarrow> ('m \<times> 'k, 'a) sys \<Rightarrow> bool" where
  "still taken written m \<longleftrightarrow> (\<forall>w. unmoved taken written w (snd (m w)))"

lemma still_bind:
  assumes "still taken written m" and "\<And>x. still taken written (f x)"
  shows "still taken written (io_bind m f)"
  unfolding still_def
proof
  fix w
  obtain x w1 where x: "m w = (x, w1)" by (rule prod.exhaust)
  have w1: "unmoved taken written w w1" using assms(1) x unfolding still_def by (metis snd_conv)
  show "unmoved taken written w (snd (io_bind m f w))"
  proof (cases x)
    case (Inl e) with x w1 show ?thesis by (simp add: io_bind_eq)
  next
    case (Inr y)
    have "unmoved taken written w1 (snd (f y w1))" using assms(2) unfolding still_def by blast
    with w1 x Inr show ?thesis by (simp add: io_bind_eq unmoved_def kept_def)
  qed
qed

lemma still_basic:
  "still taken written (io_return x)" "still taken written (io_throw e)" "still taken written (io_ask g)"
  "still taken written (deref fd)" "still taken written (check_system_call sys what r)"
  by (auto simp: still_def unmoved_def kept_def deref_def check_system_call_def split: option.splits)

lemma still_set_fd: "(\<And>f. fw_fd (g f) = fw_fd f) \<Longrightarrow> still taken written (io_update (set_fd a g))"
  by (simp add: still_def unmoved_def kept_def)

lemma still_call:
  assumes "quiet (\<lambda>k. (taken k, written k)) f"
  shows "still taken written (call (beside f))"
  using assms unfolding quiet_def still_def unmoved_def kept_def call_def beside_def
  by (auto simp: split: prod.splits) (metis snd_conv)+

lemma still_state: "(\<And>v. still taken written (m v)) \<Longrightarrow> still taken written (\<lambda>w. m w w)"
  by (simp add: still_def)

lemmas still_intros = still_basic still_bind still_call still_set_fd

lemma still_fd_ops:
  assumes "conveys taken written sys so pc"
  shows "still taken written (set_blocking (sys_beside sys) fd b)"
    and "still taken written (shutdown (sys_beside sys) (socket_beside so) fd how)"
    and "still taken written (fd_close (sys_beside sys) fd)"
    and "still taken written (fdw_close (sys_beside sys) a)"
proof -
  have quiet: "quiet (\<lambda>k. (taken k, written k)) (sys_getfl sys n)" "quiet (\<lambda>k. (taken k, written k)) (sys_setfl sys n flags)"
    "quiet (\<lambda>k. (taken k, written k)) (sys_close sys n)" "quiet (\<lambda>k. (taken k, written k)) (so_shutdown so n how)" for n flags how
    using assms unfolding conveys_def by blast+
  note calls = still_intros quiet allI impI conjI
  show "still taken written (set_blocking (sys_beside sys) fd b)"
    unfolding set_blocking_def fd_num_def Let_def sys_beside_def by (simp; intro calls; simp)
  show "still taken written (shutdown (sys_beside sys) (socket_beside so) fd how)"
    unfolding shutdown_def fd_num_def register_read_def register_write_def socket_beside_def
    by (simp; intro calls; simp)
  show close: "still taken written (fdw_close (sys_beside sys) a)" for a
    unfolding fdw_close_def [abs_def] sys_beside_def by (rule still_state, simp del: io_simps, intro calls, simp)
  show "still taken written (fd_close (sys_beside sys) fd)"
    unfolding fd_close_def by (intro calls close)
qed

subsection \<open>Operations on the loop\<close>

text \<open>What is done to set the loop up leaves the variables, the bytes and the descriptors alone.\<close>

definition loop_keeps :: "(('m \<times> 'k) world \<Rightarrow> ('m \<times> 'k) world \<Rightarrow> bool) \<Rightarrow> (('m \<times> 'k) state, 'a) io \<Rightarrow> bool" where
  "loop_keeps R m \<longleftrightarrow> (\<forall>s. R (snd s) (snd (snd (m s))))"

lemma loop_keeps_bind:
  assumes "loop_keeps (unmoved taken written) m" and "\<And>x. loop_keeps (unmoved taken written) (f x)"
  shows "loop_keeps (unmoved taken written) (io_bind m f)"
  unfolding loop_keeps_def
proof
  fix s
  obtain x s1 where x: "m s = (x, s1)" by (rule prod.exhaust)
  have s1: "unmoved taken written (snd s) (snd s1)" using assms(1) x unfolding loop_keeps_def by (metis snd_conv)
  show "unmoved taken written (snd s) (snd (snd (io_bind m f s)))"
  proof (cases x)
    case (Inl e) with x s1 show ?thesis by (simp add: io_bind_eq)
  next
    case (Inr y)
    have "unmoved taken written (snd s1) (snd (snd (f y s1)))" using assms(2) unfolding loop_keeps_def by blast
    with s1 x Inr show ?thesis by (simp add: io_bind_eq unmoved_def kept_def)
  qed
qed

lemma loop_keeps_fds: "still taken written m \<Longrightarrow> loop_keeps (unmoved taken written) (on_fds m)"
  by (auto simp: loop_keeps_def still_def on_fds_def split: prod.splits) (metis snd_conv)

lemma loop_keeps_rule: "loop_keeps (unmoved taken written) (add_named_rule name fd dir code)"
  unfolding add_named_rule_def
  by (intro loop_keeps_bind) (simp_all add: loop_keeps_def add_category_def add_fd_rule_def Let_def unmoved_def kept_def)

lemma loop_keeps_return: "loop_keeps (unmoved taken written) (io_return x)"
  by (simp add: loop_keeps_def unmoved_def kept_def)

end
