(* ===== verification/Byte_Stream.thy ===== *)
theory Byte_Stream
  imports Prelude
begin

text \<open>
  The in-memory byte stream of \<open>src/byte_stream.hh\<close>, \<open>src/byte_stream.cc\<close> and
  \<open>src/byte_stream_helpers.cc\<close>: its state, the operations of its \<open>Writer\<close> and
  \<open>Reader\<close> faces (which share the state), and the helper \<open>read\<close>. The locale
  \<open>bounded_fifo\<close> is the contract its clients use: what is written comes out in order,
  and never more than the capacity is held.
\<close>

record byte_stream =
  bs_capacity :: u64
  bs_error :: bool
  bs_total_pushed :: u64
  bs_buffer :: bytes
  bs_stream_closed :: bool
  bs_total_popped :: u64

definition byte_stream_new :: "u64 \<Rightarrow> byte_stream" where
  "byte_stream_new capacity =
     \<lparr>bs_capacity = capacity, bs_error = False, bs_total_pushed = 0, bs_buffer = [],
      bs_stream_closed = False, bs_total_popped = 0\<rparr>"

definition set_error :: "byte_stream \<Rightarrow> byte_stream" where
  "set_error bs = bs\<lparr>bs_error := True\<rparr>"

definition has_error :: "byte_stream \<Rightarrow> bool" where
  "has_error bs = bs_error bs"

text \<open>The writer.\<close>

fun writer_push :: "byte_stream \<Rightarrow> bytes \<Rightarrow> byte_stream" where
  "writer_push bs [] = bs"
| "writer_push bs (c # data) =
     (if len64 (bs_buffer bs) < bs_capacity bs
      then writer_push
        (bs\<lparr>bs_buffer := bs_buffer bs @ [c], bs_total_pushed := bs_total_pushed bs + 1\<rparr>) data
      else bs)"

definition writer_close :: "byte_stream \<Rightarrow> byte_stream" where
  "writer_close bs = bs\<lparr>bs_stream_closed := True\<rparr>"

definition is_closed :: "byte_stream \<Rightarrow> bool" where
  "is_closed bs = bs_stream_closed bs"

definition available_capacity :: "byte_stream \<Rightarrow> u64" where
  "available_capacity bs = bs_capacity bs - len64 (bs_buffer bs)"

definition bytes_pushed :: "byte_stream \<Rightarrow> u64" where
  "bytes_pushed bs = bs_total_pushed bs"

text \<open>The reader. \<open>std::string::erase\<close> removes at most what the string holds, while
  the counter grows by the requested length.\<close>

definition reader_peek :: "byte_stream \<Rightarrow> bytes" where
  "reader_peek bs = bs_buffer bs"

definition reader_pop :: "byte_stream \<Rightarrow> u64 \<Rightarrow> byte_stream" where
  "reader_pop bs len =
     bs\<lparr>bs_buffer := drop (unat len) (bs_buffer bs), bs_total_popped := bs_total_popped bs + len\<rparr>"

definition is_finished :: "byte_stream \<Rightarrow> bool" where
  "is_finished bs \<longleftrightarrow> bs_stream_closed bs \<and> bs_total_pushed bs = bs_total_popped bs"

definition bytes_buffered :: "byte_stream \<Rightarrow> u64" where
  "bytes_buffered bs = bs_total_pushed bs - bs_total_popped bs"

definition bytes_popped :: "byte_stream \<Rightarrow> u64" where
  "bytes_popped bs = bs_total_popped bs"

text \<open>The helper \<open>read\<close>: the loop of \<open>src/byte_stream_helpers.cc\<close> with its
  accumulated output.\<close>

function read_loop :: "byte_stream \<Rightarrow> u64 \<Rightarrow> bytes \<Rightarrow> (byte_stream \<times> bytes) result" where
  "read_loop reader max_len out =
     (if bytes_buffered reader \<noteq> 0 \<and> len64 out < max_len
      then let view = reader_peek reader
           in if view = []
              then Inl (Runtime_error ''Reader::peek() returned empty string_view'')
              else let view' = take (unat (max_len - len64 out)) view
                   in read_loop (reader_pop reader (len64 view')) max_len (out @ view')
      else Inr (reader, out))"
  by pat_completeness auto
termination
proof (relation "measure (\<lambda>(reader, max_len, out). length (bs_buffer reader))", goal_cases)
  case 1
  show ?case by simp
next
  case (2 reader max_len out view view')
  then have "max_len - len64 out \<noteq> 0" by auto
  then have "0 < unat (max_len - len64 out)" by (simp add: unat_gt_0)
  with 2 have "0 < length view'" by auto
  moreover have "length view' \<le> unat (max_len - len64 out)" using 2 by simp
  ultimately have "0 < unat (len64 view')" by (simp only: unat_len64_le)
  moreover have "bs_buffer reader \<noteq> []" using 2 by (simp add: reader_peek_def)
  ultimately show ?case by (simp add: reader_pop_def)
qed

declare read_loop.simps [simp del]

definition read_stream :: "byte_stream \<Rightarrow> u64 \<Rightarrow> (byte_stream \<times> bytes) result" where
  "read_stream reader max_len = read_loop reader max_len []"

subsection \<open>The invariant and the operations' effects\<close>

definition bs_ok :: "byte_stream \<Rightarrow> bool" where
  "bs_ok bs \<longleftrightarrow> length (bs_buffer bs) \<le> unat (bs_capacity bs)
     \<and> bs_total_pushed bs = bs_total_popped bs + len64 (bs_buffer bs)"

text \<open>How many more bytes the stream takes.\<close>

definition room :: "byte_stream \<Rightarrow> nat" where
  "room bs = unat (bs_capacity bs) - length (bs_buffer bs)"

lemma bs_ok_new [simp]: "bs_ok (byte_stream_new c)"
  by (simp add: bs_ok_def byte_stream_new_def)

lemma available_capacity_room: "bs_ok bs \<Longrightarrow> available_capacity bs = of_nat (room bs)"
  by (simp add: bs_ok_def available_capacity_def room_def of_nat_diff)

lemma unat_available_capacity: "bs_ok bs \<Longrightarrow> unat (available_capacity bs) = room bs"
  unfolding available_capacity_def room_def bs_ok_def
  by (auto simp add: unat_minus_le word_le_nat_alt unat_len64_le)

lemma bytes_buffered_eq: "bs_ok bs \<Longrightarrow> bytes_buffered bs = len64 (bs_buffer bs)"
  by (simp add: bs_ok_def bytes_buffered_def)

lemma unat_bytes_buffered: "bs_ok bs \<Longrightarrow> unat (bytes_buffered bs) = length (bs_buffer bs)"
  by (metis bs_ok_def bytes_buffered_eq unat_len64_le)

lemma is_finished_iff: "bs_ok bs \<Longrightarrow> is_finished bs \<longleftrightarrow> bs_stream_closed bs \<and> bs_buffer bs = []"
  using len64_eq_iff [of "bs_buffer bs" "bs_capacity bs"]
  by (auto simp: bs_ok_def is_finished_def)

lemma writer_push_eq:
  assumes "length (bs_buffer bs) \<le> unat (bs_capacity bs)"
  shows "writer_push bs data =
    bs\<lparr>bs_buffer := bs_buffer bs @ take (room bs) data,
       bs_total_pushed := bs_total_pushed bs + len64 (take (room bs) data)\<rparr>"
  using assms
proof (induction bs data rule: writer_push.induct)
  case (1 bs)
  then show ?case by simp
next
  case (2 bs c data)
  have less: "len64 (bs_buffer bs) < bs_capacity bs \<longleftrightarrow> 0 < room bs"
    using 2(2) by (simp add: word_less_nat_alt unat_len64_le room_def)
  show ?case
  proof (cases "room bs")
    case 0
    with less show ?thesis by simp
  next
    case (Suc m)
    let ?bs = "bs\<lparr>bs_buffer := bs_buffer bs @ [c], bs_total_pushed := bs_total_pushed bs + 1\<rparr>"
    have room': "room ?bs = m" using Suc by (simp add: room_def)
    have "length (bs_buffer ?bs) \<le> unat (bs_capacity ?bs)" using Suc by (simp add: room_def)
    with Suc less have "writer_push ?bs data = ?bs\<lparr>bs_buffer := bs_buffer ?bs @ take m data,
        bs_total_pushed := bs_total_pushed ?bs + len64 (take m data)\<rparr>"
      using 2(1) room' by simp
    then show ?thesis using Suc less by (simp add: add.assoc)
  qed
qed

lemma writer_push_fields [simp, frames]:
  "bs_capacity (writer_push bs data) = bs_capacity bs"
  "bs_error (writer_push bs data) = bs_error bs"
  "bs_stream_closed (writer_push bs data) = bs_stream_closed bs"
  "bs_total_popped (writer_push bs data) = bs_total_popped bs"
  by (induction bs data rule: writer_push.induct) simp_all

declare writer_push.simps [simp del]

lemma writer_push_buffer:
  "bs_ok bs \<Longrightarrow> bs_buffer (writer_push bs data) = bs_buffer bs @ take (room bs) data"
  by (simp add: bs_ok_def writer_push_eq)

lemma writer_push_total:
  "bs_ok bs \<Longrightarrow> bs_total_pushed (writer_push bs data) = bs_total_pushed bs + len64 (take (room bs) data)"
  by (simp add: bs_ok_def writer_push_eq)

lemma bs_ok_push [simp]: "bs_ok bs \<Longrightarrow> bs_ok (writer_push bs data)"
  by (auto simp: bs_ok_def writer_push_eq room_def min_def)

lemma room_push: "bs_ok bs \<Longrightarrow> room (writer_push bs data) = room bs - length data"
  by (auto simp: room_def writer_push_buffer)

lemma bs_ok_close [simp]: "bs_ok (writer_close bs) = bs_ok bs"
  by (simp add: bs_ok_def writer_close_def)

lemma bs_ok_set_error [simp]: "bs_ok (set_error bs) = bs_ok bs"
  by (simp add: bs_ok_def set_error_def)

lemma bs_ok_pop:
  assumes "bs_ok bs" "unat n \<le> length (bs_buffer bs)"
  shows "bs_ok (reader_pop bs n)"
proof -
  have "len64 (drop (unat n) (bs_buffer bs)) = len64 (bs_buffer bs) - n"
    using assms(2) by (simp add: of_nat_diff)
  with assms show ?thesis by (auto simp add: bs_ok_def reader_pop_def)
qed

lemma room_pop:
  "bs_ok bs \<Longrightarrow> unat n \<le> length (bs_buffer bs) \<Longrightarrow> room (reader_pop bs n) = room bs + unat n"
  by (auto simp: bs_ok_def room_def reader_pop_def)

subsection \<open>The helper read\<close>

lemma reader_pop_0 [simp]: "reader_pop bs 0 = bs"
  by (simp add: reader_pop_def)

lemma read_loop_spec:
  assumes "bs_ok r" and "out = []"
  shows "read_loop r max_len out =
    Inr (reader_pop r (min max_len (bytes_buffered r)),
         take (unat max_len) (reader_peek r))"
proof (cases "bytes_buffered r \<noteq> 0 \<and> 0 < max_len")
  case False
  then have "max_len = 0 \<or> bs_buffer r = []"
    using assms unat_bytes_buffered [of r] by (auto simp: word_gt_0)
  moreover have "min max_len (bytes_buffered r) = 0"
    using False by (auto simp: min_def word_gt_0)
  ultimately show ?thesis using False assms(2)
    by (subst read_loop.simps) (auto simp: reader_peek_def)
next
  case True
  let ?view = "take (unat max_len) (bs_buffer r)"
  let ?r = "reader_pop r (len64 ?view)"
  have buf: "length (bs_buffer r) = unat (bytes_buffered r)"
    using assms(1) by (simp add: unat_bytes_buffered)
  have n: "len64 ?view = min max_len (bytes_buffered r)"
    by (simp add: buf min_def word_le_nat_alt)
  have le: "unat (min max_len (bytes_buffered r)) \<le> length (bs_buffer r)"
    by (simp add: buf min_def word_le_nat_alt)
  then have ok: "bs_ok ?r" using assms(1) by (simp only: n bs_ok_pop)
  have stop: "\<not> (bytes_buffered ?r \<noteq> 0 \<and> len64 ?view < max_len)"
  proof (cases "max_len \<le> bytes_buffered r")
    case True
    then show ?thesis using n by (simp add: min_def)
  next
    case False
    then have "bs_buffer ?r = []" using n by (simp add: reader_pop_def min_def buf)
    then show ?thesis using ok by (simp add: bytes_buffered_eq)
  qed
  have "bs_buffer r \<noteq> []" using True buf by (auto simp: unat_eq_zero)
  then have "read_loop r max_len [] = read_loop ?r max_len ?view"
    using True by (subst read_loop.simps) (simp add: reader_peek_def Let_def)
  also have "\<dots> = Inr (?r, ?view)"
    by (subst read_loop.simps) (rule if_not_P [OF stop])
  finally show ?thesis using assms(2) n by (simp add: reader_peek_def)
qed

lemma read_stream_spec:
  "bs_ok r \<Longrightarrow> read_stream r max_len =
    Inr (reader_pop r (min max_len (bytes_buffered r)), take (unat max_len) (reader_peek r))"
  by (simp add: read_stream_def read_loop_spec)

subsection \<open>The contract of a bounded queue of bytes\<close>

datatype 'a fifo_call = Wr "'a list" | Rd nat

fun fifo_run :: "('s \<Rightarrow> 'a list \<Rightarrow> 's) \<Rightarrow> ('s \<Rightarrow> nat \<Rightarrow> 's) \<Rightarrow> 's \<Rightarrow> 'a fifo_call list \<Rightarrow> 's" where
  "fifo_run wr rd s [] = s"
| "fifo_run wr rd s (Wr xs # cs) = fifo_run wr rd (wr s xs) cs"
| "fifo_run wr rd s (Rd n # cs) = fifo_run wr rd (rd s n) cs"

text \<open>The bytes that the reads of a run took out.\<close>

fun fifo_out :: "('s \<Rightarrow> 'a list \<Rightarrow> 's) \<Rightarrow> ('s \<Rightarrow> nat \<Rightarrow> 's) \<Rightarrow> ('s \<Rightarrow> 'a list) \<Rightarrow> 's \<Rightarrow> 'a fifo_call list \<Rightarrow> 'a list" where
  "fifo_out wr rd held s [] = []"
| "fifo_out wr rd held s (Wr xs # cs) = fifo_out wr rd held (wr s xs) cs"
| "fifo_out wr rd held s (Rd n # cs) = take n (held s) @ fifo_out wr rd held (rd s n) cs"

text \<open>What an ideal queue of a given capacity does, on its contents alone: the bytes that it accepts
  during a run, each write's up to the room that is left, and what it holds in the end.\<close>

fun queue_accepts :: "nat \<Rightarrow> 'a list \<Rightarrow> 'a fifo_call list \<Rightarrow> 'a list" where
  "queue_accepts capacity q [] = []"
| "queue_accepts capacity q (Wr xs # cs) =
     (let accepted = take (capacity - length q) xs in accepted @ queue_accepts capacity (q @ accepted) cs)"
| "queue_accepts capacity q (Rd n # cs) = queue_accepts capacity (drop n q) cs"

fun queue_left :: "nat \<Rightarrow> 'a list \<Rightarrow> 'a fifo_call list \<Rightarrow> 'a list" where
  "queue_left capacity q [] = q"
| "queue_left capacity q (Wr xs # cs) = queue_left capacity (q @ take (capacity - length q) xs) cs"
| "queue_left capacity q (Rd n # cs) = queue_left capacity (drop n q) cs"

text \<open>A run is legal when no read asks for more than is held.\<close>

fun fifo_legal :: "('s \<Rightarrow> 'a list \<Rightarrow> 's) \<Rightarrow> ('s \<Rightarrow> nat \<Rightarrow> 's) \<Rightarrow> ('s \<Rightarrow> 'a list) \<Rightarrow> 's \<Rightarrow> 'a fifo_call list \<Rightarrow> bool" where
  "fifo_legal wr rd held s [] = True"
| "fifo_legal wr rd held s (Wr xs # cs) = fifo_legal wr rd held (wr s xs) cs"
| "fifo_legal wr rd held s (Rd n # cs) = (n \<le> length (held s) \<and> fifo_legal wr rd held (rd s n) cs)"

locale bounded_fifo =
  fixes wr :: "'s \<Rightarrow> 'a list \<Rightarrow> 's"
    and rd :: "'s \<Rightarrow> nat \<Rightarrow> 's"
    and held :: "'s \<Rightarrow> 'a list"
    and space :: "'s \<Rightarrow> nat"
    and ok :: "'s \<Rightarrow> bool"
  assumes ok_wr: "ok s \<Longrightarrow> ok (wr s xs)"
    and ok_rd: "ok s \<Longrightarrow> n \<le> length (held s) \<Longrightarrow> ok (rd s n)"
    and held_wr: "ok s \<Longrightarrow> held (wr s xs) = held s @ take (space s) xs"
    and held_rd: "ok s \<Longrightarrow> n \<le> length (held s) \<Longrightarrow> held (rd s n) = drop n (held s)"
    and space_wr: "ok s \<Longrightarrow> space (wr s xs) = space s - length xs"
    and space_rd: "ok s \<Longrightarrow> n \<le> length (held s) \<Longrightarrow> space (rd s n) = space s + n"
begin

lemma ok_run: "ok s \<Longrightarrow> fifo_legal wr rd held s cs \<Longrightarrow> ok (fifo_run wr rd s cs)"
proof (induction cs arbitrary: s)
  case (Cons c cs)
  then show ?case by (cases c) (simp_all add: ok_wr ok_rd)
qed simp

text \<open>Every run is a run of the ideal queue.\<close>

lemma run_is_queue:
  "ok s \<Longrightarrow> fifo_legal wr rd held s cs \<Longrightarrow>
   held (fifo_run wr rd s cs) = queue_left (length (held s) + space s) (held s) cs
   \<and> fifo_out wr rd held s cs @ held (fifo_run wr rd s cs)
      = held s @ queue_accepts (length (held s) + space s) (held s) cs"
proof (induction cs arbitrary: s)
  case (Cons c cs)
  show ?case
  proof (cases c)
    case (Wr xs)
    have sum: "length (held (wr s xs)) + space (wr s xs) = length (held s) + space s"
      using Cons.prems(1) by (simp add: held_wr space_wr)
    have "fifo_legal wr rd held (wr s xs) cs" using Cons.prems(2) Wr by simp
    from Cons.IH [OF ok_wr [OF Cons.prems(1)] this, unfolded sum]
    show ?thesis using Cons.prems(1) by (auto simp: Wr held_wr Let_def)
  next
    case (Rd n)
    then have n: "n \<le> length (held s)" using Cons.prems(2) by simp
    have sum: "length (held (rd s n)) + space (rd s n) = length (held s) + space s"
      using Cons.prems(1) n by (simp add: held_rd space_rd)
    have "fifo_legal wr rd held (rd s n) cs" using Cons.prems(2) Rd by simp
    from Cons.IH [OF ok_rd [OF Cons.prems(1) n] this, unfolded sum]
    have left: "held (fifo_run wr rd (rd s n) cs) = queue_left (length (held s) + space s) (drop n (held s)) cs"
      and out: "fifo_out wr rd held (rd s n) cs @ held (fifo_run wr rd (rd s n) cs)
        = drop n (held s) @ queue_accepts (length (held s) + space s) (drop n (held s)) cs"
      using Cons.prems(1) n by (auto simp: held_rd)
    have "fifo_out wr rd held s (c # cs) @ held (fifo_run wr rd s (c # cs))
        = take n (held s) @ fifo_out wr rd held (rd s n) cs @ held (fifo_run wr rd (rd s n) cs)" by (simp add: Rd)
    also have "\<dots> = held s @ queue_accepts (length (held s) + space s) (held s) (c # cs)"
      unfolding out by (simp add: Rd flip: append_assoc)
    finally show ?thesis using left by (simp add: Rd)
  qed
qed simp

text \<open>What is held and what is free always add up to the same bound.\<close>

lemma run_bound:
  "ok s \<Longrightarrow> fifo_legal wr rd held s cs \<Longrightarrow>
   length (held (fifo_run wr rd s cs)) + space (fifo_run wr rd s cs) = length (held s) + space s"
proof (induction cs arbitrary: s)
  case (Cons c cs)
  then show ?case
    by (cases c) (simp_all add: ok_wr ok_rd held_wr held_rd space_wr space_rd)
qed simp

lemma wr_wr: "ok s \<Longrightarrow> held (wr (wr s xs) ys) = held (wr s (xs @ ys))"
  by (simp add: held_wr ok_wr space_wr)

lemma wr_fits: "ok s \<Longrightarrow> length xs \<le> space s \<Longrightarrow> held (wr s xs) = held s @ xs"
  by (simp add: held_wr)

end

text \<open>The code's byte stream keeps the contract; a pop of more than \<open>2 ^ 64 - 1\<close>
  bytes cannot be asked for, so the count is read modulo \<open>2 ^ 64\<close>.\<close>

interpretation bs: bounded_fifo writer_push "\<lambda>bs n. reader_pop bs (of_nat n)" reader_peek room bs_ok
proof
  fix s :: byte_stream and n xs
  assume ok: "bs_ok s"
  show "bs_ok (writer_push s xs)" using ok by simp
  show "reader_peek (writer_push s xs) = reader_peek s @ take (room s) xs"
    using ok by (simp add: reader_peek_def writer_push_buffer)
  show "room (writer_push s xs) = room s - length xs"
    using ok by (rule room_push)
  assume n: "n \<le> length (reader_peek s)"
  then have un: "unat (of_nat n :: u64) = n"
    using ok unat_less_64 [of "bs_capacity s"]
    by (simp add: unat_of_nat bs_ok_def reader_peek_def)
  then show "bs_ok (reader_pop s (of_nat n))"
    using ok n by (simp add: bs_ok_pop reader_peek_def)
  show "reader_peek (reader_pop s (of_nat n)) = drop n (reader_peek s)"
    using un by (simp add: reader_peek_def reader_pop_def)
  show "room (reader_pop s (of_nat n)) = room s + n"
    using ok n un by (simp add: room_pop reader_peek_def)
qed

subsection \<open>Properties\<close>

lemma capacity_run: "bs_capacity (fifo_run writer_push (\<lambda>bs n. reader_pop bs (of_nat n)) bs cs) = bs_capacity bs"
proof (induction cs arbitrary: bs)
  case (Cons c cs)
  then show ?case by (cases c) (simp_all add: reader_pop_def)
qed simp

text \<open>How the counter of pushed bytes runs with what an ideal queue accepts.\<close>

lemma pushed_run:
  assumes "bs_ok bs" and "fifo_legal writer_push (\<lambda>bs n. reader_pop bs (of_nat n)) reader_peek bs cs"
  shows "bytes_pushed (fifo_run writer_push (\<lambda>bs n. reader_pop bs (of_nat n)) bs cs)
    = bytes_pushed bs + len64 (queue_accepts (unat (bs_capacity bs)) (reader_peek bs) cs)"
  using assms
proof (induction cs arbitrary: bs)
  case (Cons c cs)
  show ?case
  proof (cases c)
    case (Wr xs)
    with Cons.prems Cons.IH [of "writer_push bs xs"] show ?thesis
      by (simp add: bytes_pushed_def writer_push_total bs.held_wr Let_def room_def add.assoc)
        (simp add: reader_peek_def room_def)
  next
    case (Rd n)
    with Cons.prems Cons.IH [of "reader_pop bs (of_nat n)"] bs.ok_rd [of bs n] bs.held_rd [of bs n] show ?thesis
      by (simp add: bytes_pushed_def) (simp add: reader_pop_def)
  qed
qed simp

text \<open>C33: whatever sequence of pushes and legal pops is made on a consistent stream, the stream is a
  queue of its capacity: of each push it takes the bytes that fit, from the first, and drops the others;
  the bytes popped followed by the bytes still buffered are those that were buffered before followed by
  those taken, in their order; what is buffered is what an ideal queue holds, never more than the
  capacity; and the counter of pushed bytes has grown by the number of bytes taken.\<close>

theorem stream_in_order:
  fixes bs :: byte_stream
  defines "run \<equiv> fifo_run writer_push (\<lambda>bs n. reader_pop bs (of_nat n)) bs"
    and "capacity \<equiv> unat (bs_capacity bs)"
  assumes "bs_ok bs"
    and "fifo_legal writer_push (\<lambda>bs n. reader_pop bs (of_nat n)) reader_peek bs cs"
  shows "bs_ok (run cs) \<and> length (reader_peek (run cs)) \<le> capacity
    \<and> reader_peek (run cs) = queue_left capacity (reader_peek bs) cs
    \<and> fifo_out writer_push (\<lambda>bs n. reader_pop bs (of_nat n)) reader_peek bs cs @ reader_peek (run cs)
       = reader_peek bs @ queue_accepts capacity (reader_peek bs) cs
    \<and> bytes_pushed (run cs) = bytes_pushed bs + len64 (queue_accepts capacity (reader_peek bs) cs)"
proof -
  have ok: "bs_ok (run cs)" unfolding run_def by (rule bs.ok_run) (rule assms)+
  have "length (reader_peek bs) + room bs = capacity"
    using assms(3) by (simp add: room_def reader_peek_def bs_ok_def capacity_def)
  moreover have "length (reader_peek (run cs)) \<le> capacity"
    using ok capacity_run [of bs cs] by (simp add: bs_ok_def reader_peek_def run_def capacity_def)
  ultimately show ?thesis
    using ok bs.run_is_queue [OF assms(3,4)] pushed_run [OF assms(3,4)] unfolding run_def capacity_def by metis
qed

theorem stream_in_order_witness:
  "fifo_out writer_push (\<lambda>bs n. reader_pop bs (of_nat n)) reader_peek (byte_stream_new 3)
     [Wr [1, 2], Rd 1, Wr [3, 4, 5], Rd 3] = [1, 2, 3, 4]"
proof -
  let ?pop = "\<lambda>bs n. reader_pop bs (of_nat n)"
  let ?cs = "[Wr [1, 2], Rd 1, Wr [3, 4, 5], Rd 3] :: u8 fifo_call list"
  have legal: "fifo_legal writer_push ?pop reader_peek (byte_stream_new 3) ?cs"
    by (simp add: writer_push.simps byte_stream_new_def reader_pop_def reader_peek_def)
  have start: "reader_peek (byte_stream_new 3) = []" "bs_capacity (byte_stream_new 3) = 3" "unat (3 :: u64) = 3"
    by (simp_all add: byte_stream_new_def reader_peek_def)
  let ?run = "fifo_run writer_push ?pop (byte_stream_new 3) ?cs"
  have "reader_peek ?run = queue_left 3 [] ?cs"
    "fifo_out writer_push ?pop reader_peek (byte_stream_new 3) ?cs @ reader_peek ?run = queue_accepts 3 [] ?cs"
    using stream_in_order [OF bs_ok_new legal, unfolded start append_Nil] by blast+
  then have "fifo_out writer_push ?pop reader_peek (byte_stream_new 3) ?cs @ queue_left 3 [] ?cs = queue_accepts 3 [] ?cs"
    by simp
  moreover have "queue_left 3 [] ?cs = []" "queue_accepts 3 [] ?cs = [1, 2, 3, 4]" by (simp_all add: Let_def)
  ultimately show ?thesis by (simp only: append_Nil2)
qed

text \<open>On a consistent stream the helper \<open>read\<close> never throws: it returns the
  first \<open>min max_len bytes_buffered\<close> bytes and pops exactly those.\<close>

theorem read_returns_prefix:
  assumes "bs_ok bs"
  shows "\<exists>bs'. read_stream bs max_len = Inr (bs', take (unat max_len) (reader_peek bs))
    \<and> bs' = reader_pop bs (min max_len (bytes_buffered bs)) \<and> bs_ok bs'
    \<and> reader_peek bs' = drop (unat max_len) (reader_peek bs)"
proof -
  let ?n = "min max_len (bytes_buffered bs)"
  have n: "unat ?n = min (unat max_len) (length (bs_buffer bs))"
    using unat_bytes_buffered [OF assms] by (simp add: min_def word_le_nat_alt)
  then have "bs_ok (reader_pop bs ?n)" by (intro bs_ok_pop assms) simp
  moreover have "reader_peek (reader_pop bs ?n) = drop (unat max_len) (reader_peek bs)"
    using n by (simp add: reader_peek_def reader_pop_def min_def)
  ultimately show ?thesis using read_stream_spec [OF assms] by blast
qed

theorem read_returns_prefix_witness:
  "\<exists>bs'. read_stream (writer_push (byte_stream_new 5) [7, 8, 9]) 2 = Inr (bs', [7, 8])"
proof -
  have ok: "bs_ok (writer_push (byte_stream_new 5) [7, 8, 9])" by (intro bs_ok_push bs_ok_new)
  show ?thesis
    using read_returns_prefix [OF ok, of 2]
    by (auto simp: writer_push.simps byte_stream_new_def reader_peek_def)
qed

text \<open>A pop of more bytes than are buffered empties the buffer but counts all the
  bytes asked for, so the number of buffered bytes the stream reports wraps around.\<close>

theorem overlong_pop_breaks_count:
  assumes "bs_ok bs" "length (bs_buffer bs) < unat n"
  shows "reader_peek (reader_pop bs n) = [] \<and> bytes_buffered (reader_pop bs n) \<noteq> 0"
proof
  show "reader_peek (reader_pop bs n) = []"
    using assms(2) by (simp add: reader_peek_def reader_pop_def)
  have "bytes_buffered (reader_pop bs n) = len64 (bs_buffer bs) - n"
    using assms(1) by (simp add: bytes_buffered_def reader_pop_def bs_ok_def)
  moreover have "len64 (bs_buffer bs) \<noteq> n"
    using assms by (metis bs_ok_def unat_len64_le less_irrefl)
  ultimately show "bytes_buffered (reader_pop bs n) \<noteq> 0" by simp
qed

theorem overlong_pop_breaks_count_witness:
  "bytes_buffered (reader_pop (writer_push (byte_stream_new 5) [7]) 2) = 2 ^ 64 - 1 \<and>
   bytes_buffered (reader_pop (writer_push (byte_stream_new 5) [7]) 2) \<noteq> 0"
proof -
  have ok: "bs_ok (writer_push (byte_stream_new 5) [7])" by (intro bs_ok_push bs_ok_new)
  have short: "length (bs_buffer (writer_push (byte_stream_new 5) [7])) < unat (2 :: u64)"
    by (simp add: writer_push.simps byte_stream_new_def)
  show ?thesis
    using overlong_pop_breaks_count [OF ok short]
    by (simp add: writer_push.simps byte_stream_new_def bytes_buffered_def reader_pop_def)
qed

end
