(* ===== verification/Stream_Copy.thy ===== *)
theory Stream_Copy
  imports Captured Byte_Stream
begin

text \<open>
  \<open>bidirectional_stream_copy\<close> of \<open>apps/bidirectional_stream_copy.cc\<close>, which the programs over
  TCP end in: four rules of an event loop carry bytes from the standard input through one byte
  stream into a socket, and from the socket through another into the standard output.

  The function's local variables are kept beside the kernel. The infinite loop gets a number of
  rounds, after which it is left; what is shown holds for every number. The name of the peer is
  only printed, and left out.
\<close>

record copy_state =
  cs_outbound :: byte_stream
  cs_inbound :: byte_stream
  cs_outbound_shutdown :: bool
  cs_inbound_shutdown :: bool

definition copy_buffer_size :: u64 where "copy_buffer_size = 1048576"

definition copy_state_new :: copy_state where
  "copy_state_new = \<lparr>cs_outbound = byte_stream_new copy_buffer_size, cs_inbound = byte_stream_new copy_buffer_size,
     cs_outbound_shutdown = False, cs_inbound_shutdown = False\<rparr>"

subsection \<open>The four rules\<close>

text \<open>The callback of rules 1 and 3: read from a descriptor into a stream.\<close>

definition fill_stream ::
  "'k syscalls \<Rightarrow> file_descriptor \<Rightarrow> (copy_state \<Rightarrow> byte_stream) \<Rightarrow> ((byte_stream \<Rightarrow> byte_stream) \<Rightarrow> copy_state \<Rightarrow> copy_state)
    \<Rightarrow> ((copy_state \<times> 'k) state, unit) io" where
  "fill_stream sys source stream update_stream =
     io_bind (io_ask (\<lambda>s. replicate (unat (available_capacity (stream (locals s)))) 0)) (\<lambda>data.
     io_bind (on_fds (read (sys_beside sys) source data)) (\<lambda>data.
     io_bind (set_locals (update_stream (\<lambda>bs. writer_push bs data))) (\<lambda>_.
     io_bind (on_fds (fd_eof source)) (\<lambda>eof.
       if eof then set_locals (update_stream writer_close) else io_return ()))))"

text \<open>The callback of rules 2 and 4: write from a stream into a descriptor, and finish.\<close>

definition drain_stream ::
  "'k syscalls \<Rightarrow> file_descriptor \<Rightarrow> (copy_state \<Rightarrow> byte_stream) \<Rightarrow> ((byte_stream \<Rightarrow> byte_stream) \<Rightarrow> copy_state \<Rightarrow> copy_state)
    \<Rightarrow> ((copy_state \<times> 'k) state, unit) io \<Rightarrow> ((copy_state \<times> 'k) state, unit) io" where
  "drain_stream sys destination stream update_stream finish =
     io_bind (io_ask (\<lambda>s. stream (locals s))) (\<lambda>bs.
     io_bind (if bytes_buffered bs \<noteq> 0
              then io_bind (on_fds (write_once (sys_beside sys) destination (reader_peek bs))) (\<lambda>n.
                   set_locals (update_stream (\<lambda>bs. reader_pop bs (of_nat n))))
              else io_return ()) (\<lambda>_.
     io_bind (io_ask (\<lambda>s. stream (locals s))) (\<lambda>bs.
       if is_finished bs then finish else io_return ())))"

definition copy_callback ::
  "'k syscalls \<Rightarrow> 'k socket_calls \<Rightarrow> file_descriptor \<Rightarrow> file_descriptor \<Rightarrow> file_descriptor \<Rightarrow> nat
    \<Rightarrow> ((copy_state \<times> 'k) state, unit) io" where
  "copy_callback sys so socket input output code =
     (if code = 0 then fill_stream sys input cs_outbound cs_outbound_update
      else if code = 1 then drain_stream sys socket cs_outbound cs_outbound_update
        (io_bind (on_fds (shutdown (sys_beside sys) (socket_beside so) socket SHUT_WR)) (\<lambda>_.
         set_locals (\<lambda>c. c\<lparr>cs_outbound_shutdown := True\<rparr>)))
      else if code = 2 then fill_stream sys socket cs_inbound cs_inbound_update
      else drain_stream sys output cs_inbound cs_inbound_update
        (io_bind (on_fds (fd_close (sys_beside sys) output)) (\<lambda>_.
         set_locals (\<lambda>c. c\<lparr>cs_inbound_shutdown := True\<rparr>))))"

definition copy_interest :: "nat \<Rightarrow> copy_state \<Rightarrow> bool" where
  "copy_interest code c =
     (if code = 0 then \<not> has_error (cs_outbound c) \<and> \<not> has_error (cs_inbound c)
        \<and> available_capacity (cs_outbound c) > 0 \<and> \<not> is_closed (cs_outbound c)
      else if code = 1 then bytes_buffered (cs_outbound c) \<noteq> 0
        \<or> is_finished (cs_outbound c) \<and> \<not> cs_outbound_shutdown c
      else if code = 2 then \<not> has_error (cs_inbound c) \<and> \<not> has_error (cs_outbound c)
        \<and> available_capacity (cs_inbound c) > 0 \<and> \<not> is_closed (cs_inbound c)
      else bytes_buffered (cs_inbound c) \<noteq> 0
        \<or> is_finished (cs_inbound c) \<and> \<not> cs_inbound_shutdown c)"

definition copy_cancel :: "nat \<Rightarrow> copy_state \<Rightarrow> copy_state" where
  "copy_cancel code = (if code = 0 \<or> code = 1 then cs_outbound_update writer_close else cs_inbound_update writer_close)"

definition copy_error :: "copy_state \<Rightarrow> copy_state" where
  "copy_error c = c\<lparr>cs_outbound := set_error (cs_outbound c), cs_inbound := set_error (cs_inbound c)\<rparr>"

definition copy_closures ::
  "'k syscalls \<Rightarrow> 'k socket_calls \<Rightarrow> file_descriptor \<Rightarrow> file_descriptor \<Rightarrow> file_descriptor \<Rightarrow> (copy_state \<times> 'k) closures" where
  "copy_closures sys so socket input output =
     \<lparr>cl_interest = (\<lambda>code. io_ask (\<lambda>s. copy_interest code (locals s))),
      cl_callback = copy_callback sys so socket input output,
      cl_cancel = (\<lambda>code. set_locals (copy_cancel code)),
      cl_error = (\<lambda>_. set_locals copy_error)\<rparr>"

subsection \<open>The function\<close>

definition copy_setup ::
  "'k syscalls \<Rightarrow> file_descriptor \<Rightarrow> file_descriptor \<Rightarrow> file_descriptor \<Rightarrow> ((copy_state \<times> 'k) state, unit) io" where
  "copy_setup sys socket input output =
     io_bind (on_fds (set_blocking (sys_beside sys) socket False)) (\<lambda>_.
     io_bind (on_fds (set_blocking (sys_beside sys) input False)) (\<lambda>_.
     io_bind (on_fds (set_blocking (sys_beside sys) output False)) (\<lambda>_.
     io_bind (add_named_rule ''read from stdin into outbound byte stream'' input In 0) (\<lambda>_.
     io_bind (add_named_rule ''read from outbound byte stream into socket'' socket Out 1) (\<lambda>_.
     io_bind (add_named_rule ''read from socket into inbound byte stream'' socket In 2) (\<lambda>_.
     io_bind (add_named_rule ''read from inbound byte stream into stdout'' output Out 3) (\<lambda>_.
     io_return ())))))))"

text \<open>The loop, with whether it returned within the given number of rounds.\<close>

fun copy_loop ::
  "'k syscalls \<Rightarrow> 'k poll_calls \<Rightarrow> 'k closures \<Rightarrow> nat \<Rightarrow> 'k state \<Rightarrow> (bool result \<times> 'k state) option" where
  "copy_loop sys pc cl 0 s = Some (Inr False, s)"
| "copy_loop sys pc cl (Suc rounds) s =
     (case wait_next_event sys pc cl (- 1) s of
        None \<Rightarrow> None
      | Some (Inl e, s) \<Rightarrow> Some (Inl e, s)
      | Some (Inr r, s) \<Rightarrow> if r = Exit then Some (Inr True, s) else copy_loop sys pc cl rounds s)"

text \<open>The destructors: the output's descriptor outlives the input's if its rule still holds it.\<close>

definition copy_destroy :: "'k syscalls \<Rightarrow> nat \<Rightarrow> nat \<Rightarrow> 'k state \<Rightarrow> 'k state" where
  "copy_destroy sys input output s = (fst s,
     if \<exists>r\<in>set (el_fd_rules (fst s)). br_code r = 3
     then fdw_destroy sys output (fdw_destroy sys input (snd s))
     else fdw_destroy sys input (fdw_destroy sys output (snd s)))"

definition copy_between ::
  "'k syscalls \<Rightarrow> 'k socket_calls \<Rightarrow> 'k poll_calls \<Rightarrow> file_descriptor \<Rightarrow> nat \<Rightarrow> nat \<Rightarrow> nat
    \<Rightarrow> (copy_state \<times> 'k) state \<Rightarrow> (bool result \<times> (copy_state \<times> 'k) state) option" where
  "copy_between sys so pc socket input output rounds s =
     (case copy_setup sys socket (Some input) (Some output) s of
        (Inl e, s) \<Rightarrow> Some (Inl e, s)
      | (Inr _, s) \<Rightarrow> copy_loop (sys_beside sys) (poll_beside pc)
          (copy_closures sys so socket (Some input) (Some output)) rounds s)"

definition with_locals :: "'m \<Rightarrow> 'k world \<Rightarrow> ('m \<times> 'k) state" where
  "with_locals c w = (event_loop_new, \<lparr>w_fds = w_fds w, w_allocated = w_allocated w, w_kernel = (c, w_kernel w)\<rparr>)"

definition bidirectional_stream_copy ::
  "'k syscalls \<Rightarrow> 'k socket_calls \<Rightarrow> 'k poll_calls \<Rightarrow> file_descriptor \<Rightarrow> nat \<Rightarrow> 'k world
    \<Rightarrow> (bool result \<times> (copy_state \<times> 'k) state) option" where
  "bidirectional_stream_copy sys so pc socket rounds w =
     (case on_fds (fd_new (sys_beside sys) 0) (with_locals copy_state_new w) of
        (Inl e, s) \<Rightarrow> Some (Inl e, s)
      | (Inr input, s) \<Rightarrow>
          (case on_fds (fd_new (sys_beside sys) 1) s of
             (Inl e, s) \<Rightarrow> Some (Inl e, (fst s, fdw_destroy (sys_beside sys) (the input) (snd s)))
           | (Inr output, s) \<Rightarrow>
               map_option (\<lambda>(r, s). (r, if r = Inr False then s else copy_destroy (sys_beside sys) (the input) (the output) s))
                 (copy_between sys so pc socket (the input) (the output) rounds s)))"

subsection \<open>One callback\<close>

text \<open>A field of the local variables that holds a stream, with its update.\<close>

definition stream_field ::
  "(copy_state \<Rightarrow> byte_stream) \<Rightarrow> ((byte_stream \<Rightarrow> byte_stream) \<Rightarrow> copy_state \<Rightarrow> copy_state) \<Rightarrow> bool" where
  "stream_field stream upd \<longleftrightarrow> (\<forall>f g c. stream (upd f c) = f (stream c) \<and> upd f (upd g c) = upd (f \<circ> g) c \<and> upd id c = c)"

lemma stream_fields: "stream_field cs_outbound cs_outbound_update" "stream_field cs_inbound cs_inbound_update"
  by (simp_all add: stream_field_def)

definition streams :: "copy_state \<Rightarrow> byte_stream \<times> byte_stream" where
  "streams c = (cs_outbound c, cs_inbound c)"

text \<open>How a callback of a reading rule ends, whether it throws or not: the bytes taken from its
  descriptor are at the end of its stream.\<close>

lemma fill_stream_step:
  assumes law: "conveys taken written sys so pc" and field: "stream_field stream upd"
    and run: "fill_stream sys (Some a) stream upd s = (x, s')"
    and ok: "bs_ok (stream (locals s))" and room: "0 < room (stream (locals s))"
  shows "\<exists>f data. locals s' = upd f (locals s) \<and> bs_ok (f (stream (locals s)))
    \<and> reader_peek (f (stream (locals s))) = reader_peek (stream (locals s)) @ data
    \<and> (\<forall>b. fw_fd (w_fds (snd s') b) = fw_fd (w_fds (snd s) b))
    \<and> written (snd (w_kernel (snd s'))) = written (snd (w_kernel (snd s)))
    \<and> taken (snd (w_kernel (snd s'))) = (taken (snd (w_kernel (snd s))))(fw_fd (w_fds (snd s) a) :=
        taken (snd (w_kernel (snd s))) (fw_fd (w_fds (snd s) a)) @ data)"
proof -
  let ?bs = "stream (locals s)" let ?k = "snd (w_kernel (snd s))" let ?n = "fw_fd (w_fds (snd s) a)"
  let ?buf = "replicate (room ?bs) (0 :: u8)"
  obtain d w1 where d: "read (sys_beside sys) (Some a) ?buf (snd s) = (d, w1)" by (rule prod.exhaust)
  note reading = conveys_read [OF law d]
  have buf: "replicate (unat (available_capacity ?bs)) 0 = ?buf" using ok by (simp add: unat_available_capacity)
  show ?thesis
  proof (cases d)
    case (Inl e)
    with run d have "s' = (fst s, w1)" by (simp add: fill_stream_def buf on_fds_eq io_bind_eq)
    with reading Inl room ok field show ?thesis
      by (intro exI [of _ id] exI [of _ "[]"]) (simp add: locals_def kept_def stream_field_def)
  next
    case (Inr data)
    then have data: "length data \<le> room ?bs" using reading room by simp
    let ?f = "\<lambda>bs. if fw_eof (w_fds w1 a) then writer_close (writer_push bs data) else writer_push bs data"
    have locals1: "locals (fst s, w1) = locals s" using reading room by (simp add: locals_def kept_def)
    from run d Inr have "s' = (fst s, w1\<lparr>w_kernel := (upd ?f (locals s), snd (w_kernel w1))\<rparr>)"
      using field by (auto simp: fill_stream_def buf on_fds_eq io_bind_eq set_locals_eq locals1 locals_updated on_fds_def
          stream_field_def comp_def split: if_splits)
    moreover have "bs_ok (?f ?bs)" using ok by simp
    moreover have "reader_peek (?f ?bs) = reader_peek ?bs @ data"
      using data ok by (simp add: reader_peek_def writer_push_buffer writer_close_def)
    ultimately show ?thesis
      using reading Inr room by (intro exI [of _ ?f] exI [of _ data]) (simp add: locals_def kept_def)
  qed
qed

lemma finish_step:
  assumes "io_bind (on_fds m) (\<lambda>_. set_locals g) s = (r, s')" and "still taken written m"
    and "\<And>c. streams (g c) = streams c"
  shows "streams (locals s') = streams (locals s) \<and> (\<forall>b. fw_fd (w_fds (snd s') b) = fw_fd (w_fds (snd s) b))
    \<and> taken (snd (w_kernel (snd s'))) = taken (snd (w_kernel (snd s)))
    \<and> written (snd (w_kernel (snd s'))) = written (snd (w_kernel (snd s)))"
proof -
  obtain y w1 where y: "m (snd s) = (y, w1)" by (rule prod.exhaust)
  have w1: "unmoved taken written (snd s) w1" using assms(2) y unfolding still_def by (metis snd_conv)
  then have "locals (fst s, w1) = locals s" by (simp add: locals_def unmoved_def kept_def)
  with assms(1,3) w1 y show ?thesis
    by (cases y) (auto simp: on_fds_eq io_bind_eq set_locals_eq unmoved_def kept_def locals_updated locals_def)
qed

text \<open>How a callback of a writing rule ends: the bytes written are gone from the front of its
  stream. The step that finishes the stream leaves streams and bytes alone.\<close>

lemma drain_stream_step:
  assumes law: "conveys taken written sys so pc" and field: "stream_field stream upd"
    and run: "drain_stream sys (Some a) stream upd finish s = (x, s')"
    and ok: "bs_ok (stream (locals s))"
    and finish: "finish = io_bind (on_fds m) (\<lambda>_. set_locals g)" "still taken written m" "\<And>c. streams (g c) = streams c"
  shows "\<exists>f data. streams (locals s') = streams (upd f (locals s)) \<and> bs_ok (f (stream (locals s)))
    \<and> reader_peek (stream (locals s)) = data @ reader_peek (f (stream (locals s)))
    \<and> (\<forall>b. fw_fd (w_fds (snd s') b) = fw_fd (w_fds (snd s) b))
    \<and> taken (snd (w_kernel (snd s'))) = taken (snd (w_kernel (snd s)))
    \<and> written (snd (w_kernel (snd s'))) = (written (snd (w_kernel (snd s))))(fw_fd (w_fds (snd s) a) :=
        written (snd (w_kernel (snd s))) (fw_fd (w_fds (snd s) a)) @ data)"
proof -
  let ?bs = "stream (locals s)"
  let ?tail = "\<lambda>bs. if is_finished bs then finish else io_return ()"
  have tail: "streams (locals s') = streams (locals t)
      \<and> (\<forall>b. fw_fd (w_fds (snd s') b) = fw_fd (w_fds (snd t) b))
      \<and> taken (snd (w_kernel (snd s'))) = taken (snd (w_kernel (snd t)))
      \<and> written (snd (w_kernel (snd s'))) = written (snd (w_kernel (snd t)))"
    if "?tail bs t = (x, s')" for bs t
    using that finish_step [OF _ finish(2,3)] finish(1) by (auto split: if_splits)
  show ?thesis
  proof (cases "bytes_buffered ?bs = 0")
    case True
    with run have "?tail ?bs s = (x, s')" by (simp add: drain_stream_def)
    from tail [OF this] show ?thesis
      using ok field by (intro exI [of _ id] exI [of _ "[]"]) (simp add: stream_field_def)
  next
    case False
    obtain m w1 where m: "write_once (sys_beside sys) (Some a) (reader_peek ?bs) (snd s) = (m, w1)" by (rule prod.exhaust)
    note writing = conveys_write [OF law m]
    show ?thesis
    proof (cases m)
      case (Inl e)
      with run m False have "s' = (fst s, w1)" by (simp add: drain_stream_def on_fds_eq io_bind_eq)
      with writing Inl ok field show ?thesis
        by (intro exI [of _ id] exI [of _ "[]"]) (simp add: locals_def kept_def stream_field_def)
    next
      case (Inr n)
      let ?f = "\<lambda>bs. reader_pop bs (of_nat n)"
      let ?t = "(fst s, w1\<lparr>w_kernel := (upd ?f (locals s), snd (w_kernel w1))\<rparr>)"
      have locals1: "locals (fst s, w1) = locals s" using writing by (simp add: locals_def kept_def)
      from run m Inr False have "?tail (stream (locals ?t)) ?t = (x, s')"
        by (simp add: drain_stream_def on_fds_eq io_bind_eq set_locals_eq locals1 io_bind_assoc)
      note tail [OF this]
      moreover have n: "n \<le> length (reader_peek ?bs)" using writing Inr by simp
      then have "bs_ok (?f ?bs)" "reader_peek (?f ?bs) = drop n (reader_peek ?bs)"
        using bs.ok_rd [OF ok n] bs.held_rd [OF ok n] by simp_all
      ultimately show ?thesis
        using writing Inr by (intro exI [of _ ?f] exI [of _ "take n (reader_peek ?bs)"]) (simp add: locals_def kept_def)
    qed
  qed
qed

subsection \<open>The invariant, and the event loop's contract\<close>

text \<open>What a stream carries from one descriptor to another: what was taken from the one, since a
  start, is what was written to the other followed by what the stream holds.\<close>

definition carried ::
  "(int \<Rightarrow> bytes) \<Rightarrow> (int \<Rightarrow> bytes) \<Rightarrow> int \<Rightarrow> (int \<Rightarrow> bytes) \<Rightarrow> (int \<Rightarrow> bytes) \<Rightarrow> int \<Rightarrow> byte_stream \<Rightarrow> bool" where
  "carried t t0 source w w0 destination bs \<longleftrightarrow>
     (\<exists>x. t source = t0 source @ x @ reader_peek bs \<and> w destination = w0 destination @ x)"

lemma carried_take:
  "carried t t0 m w w0 n bs \<Longrightarrow> reader_peek bs' = reader_peek bs @ data \<Longrightarrow>
     carried (t(m := t m @ data)) t0 m w w0 n bs'"
  by (auto simp: carried_def)

lemma carried_write:
  "carried t t0 m w w0 n bs \<Longrightarrow> reader_peek bs = data @ reader_peek bs' \<Longrightarrow>
     carried t t0 m (w(n := w n @ data)) w0 n bs'"
  by (auto simp: carried_def)

lemma carried_other:
  "carried t t0 m w w0 n bs \<Longrightarrow> t' m = t m \<Longrightarrow> w' n = w n \<Longrightarrow> reader_peek bs' = reader_peek bs \<Longrightarrow>
     carried t' t0 m w' w0 n bs'"
  by (simp add: carried_def)

definition copy_inv ::
  "('k \<Rightarrow> int \<Rightarrow> bytes) \<Rightarrow> ('k \<Rightarrow> int \<Rightarrow> bytes) \<Rightarrow> 'k syscalls \<Rightarrow> 'k socket_calls \<Rightarrow> 'k poll_calls
    \<Rightarrow> nat \<Rightarrow> nat \<Rightarrow> nat \<Rightarrow> int \<Rightarrow> (int \<Rightarrow> bytes) \<Rightarrow> (int \<Rightarrow> bytes) \<Rightarrow> (copy_state \<times> 'k) world \<Rightarrow> bool" where
  "copy_inv taken written sys so pc socket input output n t0 w0 w \<longleftrightarrow>
     conveys taken written sys so pc \<and> n \<noteq> 0 \<and> n \<noteq> 1
   \<and> fw_fd (w_fds w socket) = n \<and> fw_fd (w_fds w input) = 0 \<and> fw_fd (w_fds w output) = 1
   \<and> (case w_kernel w of (c, k) \<Rightarrow> bs_ok (cs_outbound c) \<and> bs_ok (cs_inbound c)
       \<and> carried (taken k) t0 0 (written k) w0 n (cs_outbound c)
       \<and> carried (taken k) t0 n (written k) w0 1 (cs_inbound c))"

text \<open>A reading rule's callback must find room in its stream: an empty buffer would be enlarged
  for the read, and bytes would be lost.\<close>

definition copy_may_run :: "nat \<Rightarrow> (copy_state \<times> 'k) world \<Rightarrow> bool" where
  "copy_may_run code w \<longleftrightarrow> (code = 0 \<longrightarrow> 0 < room (cs_outbound (fst (w_kernel w))))
     \<and> (code = 2 \<longrightarrow> 0 < room (cs_inbound (fst (w_kernel w))))"

lemma copy_inv_still:
  assumes "unmoved taken written w w'" and "copy_inv taken written sys so pc socket input output n t0 w0 w"
  shows "copy_inv taken written sys so pc socket input output n t0 w0 w' \<and> (\<forall>d. copy_may_run d w \<longrightarrow> copy_may_run d w')"
  using assms by (auto simp: unmoved_def kept_def copy_inv_def copy_may_run_def carried_def split: prod.splits)

text \<open>Closing streams and setting their error flags leaves what they hold alone.\<close>

lemma copy_inv_flags:
  assumes "copy_inv taken written sys so pc socket input output n t0 w0 w"
    and "c = fst (w_kernel w)" and "f = copy_cancel code \<or> f = copy_error"
  shows "copy_inv taken written sys so pc socket input output n t0 w0 (w\<lparr>w_kernel := (f c, snd (w_kernel w))\<rparr>)
    \<and> (\<forall>d. copy_may_run d w \<longrightarrow> copy_may_run d (w\<lparr>w_kernel := (f c, snd (w_kernel w))\<rparr>))"
proof -
  have "bs_ok (cs_outbound (f c)) = bs_ok (cs_outbound c)" "bs_ok (cs_inbound (f c)) = bs_ok (cs_inbound c)"
    using assms(3) by (auto simp: copy_cancel_def copy_error_def if_distribR split: if_splits)
  moreover have "reader_peek (cs_outbound (f c)) = reader_peek (cs_outbound c)" "reader_peek (cs_inbound (f c)) = reader_peek (cs_inbound c)"
    "room (cs_outbound (f c)) = room (cs_outbound c)" "room (cs_inbound (f c)) = room (cs_inbound c)"
    using assms(3) by (auto simp: copy_cancel_def copy_error_def if_distribR reader_peek_def room_def writer_close_def set_error_def)
  ultimately show ?thesis
    using assms(1,2) by (auto simp: copy_inv_def copy_may_run_def carried_def split: prod.splits)
qed

lemma copy_callback_rules: "leaves_rules (copy_callback sys so socket input output code)"
  unfolding copy_callback_def fill_stream_def drain_stream_def by (intro rules_intros)

lemma copy_callback_keeps:
  assumes run: "copy_callback sys so (Some socket) (Some input) (Some output) code s = (x, s')"
    and inv: "copy_inv taken written sys so pc socket input output n t0 w0 (snd s)" and may: "copy_may_run code (snd s)"
  shows "copy_inv taken written sys so pc socket input output n t0 w0 (snd s')"
proof -
  have law: "conveys taken written sys so pc"
    and nums: "n \<noteq> 0" "n \<noteq> 1" "fw_fd (w_fds (snd s) socket) = n" "fw_fd (w_fds (snd s) input) = 0" "fw_fd (w_fds (snd s) output) = 1"
    and ok: "bs_ok (cs_outbound (locals s))" "bs_ok (cs_inbound (locals s))"
    and out: "carried (taken (snd (w_kernel (snd s)))) t0 0 (written (snd (w_kernel (snd s)))) w0 n (cs_outbound (locals s))"
    and inb: "carried (taken (snd (w_kernel (snd s)))) t0 n (written (snd (w_kernel (snd s)))) w0 1 (cs_inbound (locals s))"
    using inv by (auto simp: copy_inv_def locals_def split: prod.splits)
  have goal: "copy_inv taken written sys so pc socket input output n t0 w0 (snd s')"
    if "\<forall>b. fw_fd (w_fds (snd s') b) = fw_fd (w_fds (snd s) b)"
      "bs_ok (cs_outbound (locals s'))" "bs_ok (cs_inbound (locals s'))"
      "carried (taken (snd (w_kernel (snd s')))) t0 0 (written (snd (w_kernel (snd s')))) w0 n (cs_outbound (locals s'))"
      "carried (taken (snd (w_kernel (snd s')))) t0 n (written (snd (w_kernel (snd s')))) w0 1 (cs_inbound (locals s'))"
    using that law nums by (cases "w_kernel (snd s')") (simp add: copy_inv_def locals_def)
  consider "code = 0" | "code = 1" | "code = 2" | "code \<noteq> 0" "code \<noteq> 1" "code \<noteq> 2" by blast
  then show ?thesis
  proof cases
    case 1
    then have "0 < room (cs_outbound (locals s))" using may by (simp add: copy_may_run_def locals_def)
    from fill_stream_step [OF law stream_fields(1) run [unfolded copy_callback_def 1, simplified] ok(1) this]
    obtain f data where "locals s' = cs_outbound_update f (locals s)" "bs_ok (f (cs_outbound (locals s)))"
      "reader_peek (f (cs_outbound (locals s))) = reader_peek (cs_outbound (locals s)) @ data"
      "\<forall>b. fw_fd (w_fds (snd s') b) = fw_fd (w_fds (snd s) b)"
      "written (snd (w_kernel (snd s'))) = written (snd (w_kernel (snd s)))"
      "taken (snd (w_kernel (snd s'))) = (taken (snd (w_kernel (snd s))))(0 := taken (snd (w_kernel (snd s))) 0 @ data)"
      unfolding nums by blast
    then show ?thesis using ok out inb nums by (intro goal) (simp_all add: carried_take carried_def)
  next
    case 3
    then have "0 < room (cs_inbound (locals s))" using may by (simp add: copy_may_run_def locals_def)
    from fill_stream_step [OF law stream_fields(2) run [unfolded copy_callback_def 3, simplified] ok(2) this]
    obtain f data where "locals s' = cs_inbound_update f (locals s)" "bs_ok (f (cs_inbound (locals s)))"
      "reader_peek (f (cs_inbound (locals s))) = reader_peek (cs_inbound (locals s)) @ data"
      "\<forall>b. fw_fd (w_fds (snd s') b) = fw_fd (w_fds (snd s) b)"
      "written (snd (w_kernel (snd s'))) = written (snd (w_kernel (snd s)))"
      "taken (snd (w_kernel (snd s'))) = (taken (snd (w_kernel (snd s))))(n := taken (snd (w_kernel (snd s))) n @ data)"
      unfolding nums by blast
    then show ?thesis using ok out inb nums by (intro goal) (simp_all add: carried_take carried_def)
  next
    case 2
    have "drain_stream sys (Some socket) cs_outbound cs_outbound_update
        (io_bind (on_fds (shutdown (sys_beside sys) (socket_beside so) (Some socket) SHUT_WR)) (\<lambda>_.
         set_locals (\<lambda>c. c\<lparr>cs_outbound_shutdown := True\<rparr>))) s = (x, s')"
      using run 2 by (simp add: copy_callback_def)
    from drain_stream_step [OF law stream_fields(1) this ok(1) refl still_fd_ops(2) [OF law]]
    obtain f data where "streams (locals s') = streams (cs_outbound_update f (locals s))" "bs_ok (f (cs_outbound (locals s)))"
      "reader_peek (cs_outbound (locals s)) = data @ reader_peek (f (cs_outbound (locals s)))"
      "\<forall>b. fw_fd (w_fds (snd s') b) = fw_fd (w_fds (snd s) b)"
      "taken (snd (w_kernel (snd s'))) = taken (snd (w_kernel (snd s)))"
      "written (snd (w_kernel (snd s'))) = (written (snd (w_kernel (snd s))))(n := written (snd (w_kernel (snd s))) n @ data)"
      unfolding nums by (auto simp: streams_def)
    then show ?thesis using ok out inb nums
      by (intro goal) (simp_all add: streams_def carried_write carried_other)
  next
    case 4
    have "drain_stream sys (Some output) cs_inbound cs_inbound_update
        (io_bind (on_fds (fd_close (sys_beside sys) (Some output))) (\<lambda>_.
         set_locals (\<lambda>c. c\<lparr>cs_inbound_shutdown := True\<rparr>))) s = (x, s')"
      using run 4 by (simp add: copy_callback_def)
    from drain_stream_step [OF law stream_fields(2) this ok(2) refl still_fd_ops(3) [OF law]]
    obtain f data where "streams (locals s') = streams (cs_inbound_update f (locals s))" "bs_ok (f (cs_inbound (locals s)))"
      "reader_peek (cs_inbound (locals s)) = data @ reader_peek (f (cs_inbound (locals s)))"
      "\<forall>b. fw_fd (w_fds (snd s') b) = fw_fd (w_fds (snd s) b)"
      "taken (snd (w_kernel (snd s'))) = taken (snd (w_kernel (snd s)))"
      "written (snd (w_kernel (snd s'))) = (written (snd (w_kernel (snd s))))(1 := written (snd (w_kernel (snd s))) 1 @ data)"
      unfolding nums by (auto simp: streams_def)
    then show ?thesis using ok out inb nums
      by (intro goal) (simp_all add: streams_def carried_write carried_other)
  qed
qed

lemma copy_set_flags:
  assumes "set_locals f s = (q, s')" and "copy_inv taken written sys so pc socket input output n t0 w0 (snd s)"
    and "f = copy_cancel code \<or> f = copy_error"
  shows "copy_inv taken written sys so pc socket input output n t0 w0 (snd s') \<and> fst s' = fst s
    \<and> (\<forall>d. copy_may_run d (snd s) \<longrightarrow> copy_may_run d (snd s'))"
  using copy_inv_flags [OF assms(2) refl assms(3)] assms(1) by (auto simp: set_locals_eq locals_def)

lemma copy_interest_room:
  assumes "bs_ok (cs_outbound c)" and "bs_ok (cs_inbound c)" and "copy_interest code c"
  shows "(code = 0 \<longrightarrow> 0 < room (cs_outbound c)) \<and> (code = 2 \<longrightarrow> 0 < room (cs_inbound c))"
  using assms unat_available_capacity [of "cs_outbound c"] unat_available_capacity [of "cs_inbound c"]
  by (auto simp: copy_interest_def word_less_nat_alt)

lemma copy_kernel_call:
  assumes "beside f (w_kernel w) = (a, k)" and "copy_inv taken written sys so pc socket input output n t0 w0 w"
    and "quiet (\<lambda>k. (taken k, written k)) f"
  shows "copy_inv taken written sys so pc socket input output n t0 w0 (w\<lparr>w_kernel := k\<rparr>)
    \<and> (\<forall>d. copy_may_run d w \<longrightarrow> copy_may_run d (w\<lparr>w_kernel := k\<rparr>))"
proof -
  have "unmoved taken written w (w\<lparr>w_kernel := k\<rparr>)"
    using still_call [OF assms(3), unfolded still_def, rule_format, of w] assms(1) by (simp add: call_def)
  from copy_inv_still [OF this assms(2)] show ?thesis .
qed

interpretation copy: loop_client "poll_beside pc" "copy_closures sys so (Some socket) (Some inp) (Some outp)"
  "copy_inv taken written sys so pc socket inp outp n t0 w0" copy_may_run
  for taken written and sys :: "'k syscalls" and so pc and socket inp outp :: nat and n t0 w0
proof
  fix c d and s s' :: "(copy_state \<times> 'k) state" and w :: "(copy_state \<times> 'k) world" and r and q :: "unit result"
    and ps t a b fd and k :: "copy_state \<times> 'k"
  let ?cl = "copy_closures sys so (Some socket) (Some inp) (Some outp)"
  let ?inv = "copy_inv taken written sys so pc socket inp outp n t0 w0"
  show "?inv (snd s') \<and> fst s' = fst s \<and> (\<forall>d. copy_may_run d (snd s) \<longrightarrow> copy_may_run d (snd s'))
      \<and> (r = Inr True \<longrightarrow> copy_may_run c (snd s'))"
    if "cl_interest ?cl c s = (r, s')" and inv: "?inv (snd s)"
  proof -
    have s: "s' = s" "r = Inr (copy_interest c (locals s))" using that(1) by (auto simp: copy_closures_def)
    have "bs_ok (cs_outbound (locals s))" "bs_ok (cs_inbound (locals s))"
      using inv by (auto simp: copy_inv_def locals_def split: prod.splits)
    with s inv copy_interest_room [of "locals s" c] show ?thesis
      unfolding copy_may_run_def locals_def by blast
  qed
  show "?inv (snd s') \<and> fst s' = fst s \<and> (\<forall>d. d \<noteq> c \<longrightarrow> copy_may_run d (snd s) \<longrightarrow> copy_may_run d (snd s'))"
    if "cl_cancel ?cl c s = (q, s')" and "?inv (snd s)"
    using copy_set_flags [OF _ that(2)] that(1) unfolding copy_closures_def by simp blast
  show "?inv (snd s') \<and> fst s' = fst s \<and> (\<forall>d. d \<noteq> c \<longrightarrow> copy_may_run d (snd s) \<longrightarrow> copy_may_run d (snd s'))"
    if "cl_error ?cl c s = (q, s')" and "?inv (snd s)"
    using copy_set_flags [OF _ that(2)] that(1) unfolding copy_closures_def by simp
  show "?inv (snd s') \<and> fst s' = fst s"
    if "cl_callback ?cl c s = (q, s')" and "?inv (snd s)" and "copy_may_run c (snd s)"
    using copy_callback_keeps [OF _ that(2,3)] leaves_rulesD [OF copy_callback_rules] that(1)
    by (simp add: copy_closures_def)
  have quiet: "quiet (\<lambda>k. (taken k, written k)) (sys_poll pc ps t)" "quiet (\<lambda>k. (taken k, written k)) (sys_so_error pc fd)"
    if "?inv w"
    using that unfolding copy_inv_def conveys_def by blast+
  show "?inv (w\<lparr>w_kernel := k\<rparr>) \<and> (\<forall>d. copy_may_run d w \<longrightarrow> copy_may_run d (w\<lparr>w_kernel := k\<rparr>))"
    if "sys_poll (poll_beside pc) ps t (w_kernel w) = (a, k)" and "?inv w"
    using copy_kernel_call [OF _ that(2) quiet(1) [OF that(2)]] that(1) by (simp add: poll_beside_def)
  show "?inv (w\<lparr>w_kernel := k\<rparr>) \<and> (\<forall>d. copy_may_run d w \<longrightarrow> copy_may_run d (w\<lparr>w_kernel := k\<rparr>))"
    if "sys_so_error (poll_beside pc) fd (w_kernel w) = (b, k)" and "?inv w"
    using copy_kernel_call [OF _ that(2) quiet(2) [OF that(2)]] that(1) by (simp add: poll_beside_def)
qed

text \<open>The closures add no rules, so every round returns.\<close>

lemma copy_round_returns:
  "\<exists>r s'. wait_next_event sys' pc' (copy_closures sys so socket input output) t s = Some (r, s')"
  by (rule round_returns) (simp_all add: adds_no_rules_def copy_closures_def set_locals_eq)

lemma copy_loop_keeps:
  assumes "copy_inv taken written sys so pc socket input output n t0 w0 (snd s)" and "distinct_codes UNIV (fst s)"
  shows "\<exists>r s'. copy_loop (sys_beside sys) (poll_beside pc) (copy_closures sys so (Some socket) (Some input) (Some output)) rounds s
      = Some (r, s') \<and> copy_inv taken written sys so pc socket input output n t0 w0 (snd s')"
  using assms
proof (induction rounds arbitrary: s)
  case 0
  then show ?case by simp
next
  case (Suc rounds)
  let ?cl = "copy_closures sys so (Some socket) (Some input) (Some output)"
  obtain r s1 where r: "wait_next_event (sys_beside sys) (poll_beside pc) ?cl (- 1) s = Some (r, s1)"
    using copy_round_returns by blast
  note s1 = copy.round_keeps [OF r Suc.prems]
  from r s1 Suc.IH [of s1] show ?case by (cases r; cases s1) auto
qed


subsection \<open>Exit\<close>

text \<open>A writing rule that is not interested has nothing left to write.\<close>

definition copy_idle :: "nat \<Rightarrow> (copy_state \<times> 'k) world \<Rightarrow> bool" where
  "copy_idle code w \<longleftrightarrow> (code = 1 \<longrightarrow> reader_peek (cs_outbound (fst (w_kernel w))) = [])
     \<and> (code = 3 \<longrightarrow> reader_peek (cs_inbound (fst (w_kernel w))) = [])"

lemma copy_interest_idle:
  assumes "bs_ok (cs_outbound c)" and "bs_ok (cs_inbound c)" and "\<not> copy_interest code c"
  shows "(code = 1 \<longrightarrow> reader_peek (cs_outbound c) = []) \<and> (code = 3 \<longrightarrow> reader_peek (cs_inbound c) = [])"
  using assms unat_bytes_buffered [of "cs_outbound c"] unat_bytes_buffered [of "cs_inbound c"]
  by (auto simp: copy_interest_def reader_peek_def)

interpretation copy: idle_client "poll_beside pc" "copy_closures sys so (Some socket) (Some inp) (Some outp)"
  "copy_inv taken written sys so pc socket inp outp n t0 w0" copy_may_run copy_idle
  for taken written and sys :: "'k syscalls" and so pc and socket inp outp :: nat and n t0 w0
proof
  fix c and s s' :: "(copy_state \<times> 'k) state" and r and q :: "unit result"
  let ?cl = "copy_closures sys so (Some socket) (Some inp) (Some outp)"
  let ?inv = "copy_inv taken written sys so pc socket inp outp n t0 w0"
  show "(r = Inr False \<longrightarrow> copy_idle c (snd s')) \<and> (\<forall>d. copy_idle d (snd s) \<longrightarrow> copy_idle d (snd s'))"
    if "cl_interest ?cl c s = (r, s')" and inv: "?inv (snd s)"
  proof -
    have s: "s' = s" "r = Inr (copy_interest c (locals s))" using that(1) by (auto simp: copy_closures_def)
    have "bs_ok (cs_outbound (locals s))" "bs_ok (cs_inbound (locals s))"
      using inv by (auto simp: copy_inv_def locals_def split: prod.splits)
    from copy_interest_idle [OF this, of c] show ?thesis
      unfolding s copy_idle_def locals_def by blast
  qed
  show "\<forall>d. copy_idle d (snd s) \<longrightarrow> copy_idle d (snd s')" if "cl_cancel ?cl c s = (q, s')"
    using that by (auto simp: copy_closures_def set_locals_eq copy_idle_def copy_cancel_def if_distribR locals_def
        reader_peek_def writer_close_def split: if_splits)
qed

lemma copy_loop_exit:
  assumes "copy_inv taken written sys so pc socket input output n t0 w0 (snd s)" and "distinct_codes UNIV (fst s)"
    and "copy_loop (sys_beside sys) (poll_beside pc) (copy_closures sys so (Some socket) (Some input) (Some output)) rounds s
      = Some (Inr True, s')"
  shows "\<forall>r\<in>set (el_fd_rules (fst s')). copy_idle (br_code r) (snd s')"
  using assms
proof (induction rounds arbitrary: s)
  case (Suc rounds)
  let ?cl = "copy_closures sys so (Some socket) (Some input) (Some output)"
  obtain r s1 where r: "wait_next_event (sys_beside sys) (poll_beside pc) ?cl (- 1) s = Some (r, s1)"
    using copy_round_returns by blast
  note s1 = copy.round_keeps [OF r Suc.prems(1,2)]
  show ?case
  proof (cases "r = Inr Exit")
    case True
    with Suc.prems(3) r have "s' = s1" by simp
    with copy.exit_idle [OF r [unfolded True] Suc.prems(1)] show ?thesis by simp
  next
    case False
    with Suc.prems(3) r have "copy_loop (sys_beside sys) (poll_beside pc) ?cl rounds s1 = Some (Inr True, s')"
      by (cases r) auto
    from Suc.IH [OF _ _ this] s1 show ?thesis by blast
  qed
qed simp

subsection \<open>The whole function\<close>

lemma loop_keeps_setup:
  assumes "conveys taken written sys so pc"
  shows "loop_keeps (unmoved taken written) (copy_setup sys socket input output)"
  unfolding copy_setup_def
  by (intro loop_keeps_bind loop_keeps_fds still_fd_ops(1) [OF assms] loop_keeps_rule loop_keeps_return)

lemma copy_setup_codes:
  assumes "copy_setup sys socket input output s = (x, s')" and "codes (fst s) = []"
  shows "distinct_codes UNIV (fst s')"
proof -
  have fds: "on_fds m t = (y, t') \<Longrightarrow> codes (fst t') = codes (fst t)" for m :: "(copy_state \<times> 'a, 'b) sys" and t y t'
    by (auto dest: on_fds_unchanged)
  show ?thesis
    using assms unfolding copy_setup_def distinct_codes_codes
    by (auto simp: io_bind_def dest!: fds add_named_rule_codes split: prod.splits sum.splits)
qed

lemma copy_between_keeps:
  assumes "copy_inv taken written sys so pc socket input output n t0 w0 (snd s)" and "codes (fst s) = []"
  shows "\<exists>r s'. copy_between sys so pc (Some socket) input output rounds s = Some (r, s')
    \<and> copy_inv taken written sys so pc socket input output n t0 w0 (snd s')
    \<and> (r = Inr True \<longrightarrow> (\<forall>rule\<in>set (el_fd_rules (fst s')). copy_idle (br_code rule) (snd s')))"
proof -
  obtain x s1 where x: "copy_setup sys (Some socket) (Some input) (Some output) s = (x, s1)" by (rule prod.exhaust)
  have "conveys taken written sys so pc" using assms(1) by (simp add: copy_inv_def)
  from loop_keeps_setup [OF this, of "Some socket" "Some input" "Some output"] x
  have "unmoved taken written (snd s) (snd s1)" unfolding loop_keeps_def by (metis snd_conv)
  from copy_inv_still [OF this assms(1)]
  have s1: "copy_inv taken written sys so pc socket input output n t0 w0 (snd s1)" by blast
  show ?thesis
  proof (cases x)
    case (Inl e)
    with x s1 show ?thesis by (cases s1) (simp add: copy_between_def)
  next
    case (Inr u)
    note dist = copy_setup_codes [OF x assms(2)]
    from Inr x copy_loop_keeps [OF s1 dist, of rounds] copy_loop_exit [OF s1 dist, of rounds] show ?thesis
      by (auto simp: copy_between_def)
  qed
qed


text \<open>A new handle is a fresh one.\<close>

lemma fd_new_fresh:
  assumes law: "conveys taken written sys so pc" and run: "fd_new (sys_beside sys) fd w = (x, w')"
  shows "fst (w_kernel w') = fst (w_kernel w)"
    and "taken (snd (w_kernel w')) = taken (snd (w_kernel w))" and "written (snd (w_kernel w')) = written (snd (w_kernel w))"
    and "a < w_allocated w \<Longrightarrow> w_fds w' a = w_fds w a"
    and "x = Inr h \<Longrightarrow> h = Some (w_allocated w) \<and> fw_fd (w_fds w' (w_allocated w)) = fd \<and> w_allocated w' = Suc (w_allocated w)"
proof -
  obtain r k where r: "sys_getfl sys fd (snd (w_kernel w)) = (r, k)" by (rule prod.exhaust)
  have "quiet (\<lambda>k. (taken k, written k)) (sys_getfl sys fd)" using law unfolding conveys_def by blast
  then have k: "taken k = taken (snd (w_kernel w))" "written k = written (snd (w_kernel w))"
    using r unfolding quiet_def by (metis prod.inject snd_conv)+
  note run = run [unfolded fd_new_def fdw_new_def call_def check_system_call_def sys_beside_def beside_def]
  show "fst (w_kernel w') = fst (w_kernel w)"
    and "taken (snd (w_kernel w')) = taken (snd (w_kernel w))" and "written (snd (w_kernel w')) = written (snd (w_kernel w))"
    and "a < w_allocated w \<Longrightarrow> w_fds w' a = w_fds w a"
    and "x = Inr h \<Longrightarrow> h = Some (w_allocated w) \<and> fw_fd (w_fds w' (w_allocated w)) = fd \<and> w_allocated w' = Suc (w_allocated w)"
    using run r k by (auto simp: io_bind_def split: if_splits)
qed

lemma fdw_destroy_still:
  assumes "conveys taken written sys so pc"
  shows "unmoved taken written w (fdw_destroy (sys_beside sys) a w)"
proof -
  have "unmoved taken written w (snd (fdw_close (sys_beside sys) a w))"
    by (rule still_fd_ops(4) [OF assms, unfolded still_def, rule_format])
  then show ?thesis by (simp add: fdw_destroy_def) (simp add: unmoved_def kept_def)
qed

text \<open>What both streams carry, in the whole state.\<close>

definition copied ::
  "('k \<Rightarrow> int \<Rightarrow> bytes) \<Rightarrow> ('k \<Rightarrow> int \<Rightarrow> bytes) \<Rightarrow> int \<Rightarrow> 'k \<Rightarrow> copy_state \<times> 'k \<Rightarrow> bool" where
  "copied taken written n k0 ck \<longleftrightarrow> (case ck of (c, k) \<Rightarrow>
     carried (taken k) (taken k0) 0 (written k) (written k0) n (cs_outbound c)
     \<and> carried (taken k) (taken k0) n (written k) (written k0) 1 (cs_inbound c))"

lemma copied_unmoved:
  "unmoved taken written w w' \<Longrightarrow> copied taken written n k0 (w_kernel w) \<Longrightarrow> copied taken written n k0 (w_kernel w')"
  by (cases "w_kernel w"; cases "w_kernel w'") (simp add: copied_def unmoved_def kept_def)

lemma copy_destroy_copied:
  assumes "conveys taken written sys so pc" and "copied taken written n k0 (w_kernel (snd s))"
  shows "copied taken written n k0 (w_kernel (snd (copy_destroy (sys_beside sys) input output s)))"
  using assms(2) by (simp add: copy_destroy_def copied_unmoved [OF fdw_destroy_still [OF assms(1)]])

lemma copy_destroy_idle:
  assumes "conveys taken written sys so pc"
  shows "copy_idle code (snd (copy_destroy (sys_beside sys) input output s)) = copy_idle code (snd s)"
    and "fst (copy_destroy (sys_beside sys) input output s) = fst s"
proof -
  have "fst (w_kernel (fdw_destroy (sys_beside sys) a w)) = fst (w_kernel w)" for a and w :: "(copy_state \<times> 'a) world"
    using fdw_destroy_still [OF assms, of w a] by (simp add: unmoved_def kept_def)
  then show "copy_idle code (snd (copy_destroy (sys_beside sys) input output s)) = copy_idle code (snd s)"
    by (simp add: copy_destroy_def copy_idle_def)
qed (simp add: copy_destroy_def)

lemma copied_new:
  assumes "taken k = taken k0" and "written k = written k0"
  shows "copied taken written n k0 (copy_state_new, k)"
  using assms by (simp add: copied_def carried_def copy_state_new_def byte_stream_new_def reader_peek_def)

lemma stream_copy_copied:
  assumes law: "conveys taken written sys so pc" and socket: "socket < w_allocated w" "fw_fd (w_fds w socket) = n"
    and n: "n \<noteq> 0" "n \<noteq> 1"
  shows "\<exists>r s'. bidirectional_stream_copy sys so pc (Some socket) rounds w = Some (r, s')
    \<and> copied taken written n (w_kernel w) (w_kernel (snd s'))
    \<and> (r = Inr True \<longrightarrow> (\<forall>rule\<in>set (el_fd_rules (fst s')). copy_idle (br_code rule) (snd s')))"
proof -
  let ?s0 = "with_locals copy_state_new w"
  let ?t0 = "taken (w_kernel w)" and ?w0 = "written (w_kernel w)"
  obtain x w1 where x: "fd_new (sys_beside sys) 0 (snd ?s0) = (x, w1)" by (rule prod.exhaust)
  note new1 = fd_new_fresh [OF law x]
  have f1: "fst (w_kernel w1) = copy_state_new" using new1(1) by (simp add: with_locals_def)
  then obtain k1 where k1: "w_kernel w1 = (copy_state_new, k1)" by (cases "w_kernel w1") simp
  have c1: "copied taken written n (w_kernel w) (w_kernel w1)"
    unfolding k1 using new1(2,3) by (intro copied_new) (simp_all add: with_locals_def k1)
  obtain y w2 where y: "fd_new (sys_beside sys) 1 w1 = (y, w2)" by (rule prod.exhaust)
  note new2 = fd_new_fresh [OF law y]
  from f1 obtain k2 where k2: "w_kernel w2 = (copy_state_new, k2)" using new2(1) by (cases "w_kernel w2") simp
  have c2: "copied taken written n (w_kernel w) (w_kernel w2)"
    unfolding k2 using new1(2,3) new2(2,3) by (intro copied_new) (simp_all add: with_locals_def k1 k2)
  show ?thesis
  proof (cases x)
    case (Inl e)
    with x c1 show ?thesis by (auto simp: bidirectional_stream_copy_def on_fds_eq)
  next
    case (Inr h)
    note h = new1(5) [OF Inr]
    show ?thesis
    proof (cases y)
      case (Inl e)
      with x y Inr copied_unmoved [OF fdw_destroy_still [OF law] c1] copied_unmoved [OF fdw_destroy_still [OF law] c2]
      show ?thesis by (auto simp: bidirectional_stream_copy_def on_fds_def)
    next
      case (Inr g)
      note g = new2(5) [OF Inr]
      let ?i = "w_allocated w" let ?o = "Suc (w_allocated w)"
      have new: "h = Some ?i" "g = Some ?o" "fw_fd (w_fds w2 ?i) = 0" "fw_fd (w_fds w2 ?o) = 1" "fw_fd (w_fds w2 socket) = n"
        using h g new1(4) [of socket] new2(4) [of ?i] new2(4) [of socket] socket by (simp_all add: with_locals_def)
      have "copy_inv taken written sys so pc socket ?i ?o n ?t0 ?w0 w2"
        using law n new c2 by (simp add: copy_inv_def k2 copied_def) (simp add: copy_state_new_def)
      then have "copy_inv taken written sys so pc socket ?i ?o n ?t0 ?w0 (snd (fst ?s0, w2))" by simp
      moreover have "codes (fst (fst ?s0, w2)) = []" by (simp add: with_locals_def codes_def event_loop_new_def)
      ultimately obtain r s' where r: "copy_between sys so pc (Some socket) ?i ?o rounds (fst ?s0, w2) = Some (r, s')"
        "copy_inv taken written sys so pc socket ?i ?o n ?t0 ?w0 (snd s')"
        "r = Inr True \<longrightarrow> (\<forall>rule\<in>set (el_fd_rules (fst s')). copy_idle (br_code rule) (snd s'))"
        using copy_between_keeps by blast
      then have "copied taken written n (w_kernel w) (w_kernel (snd s'))"
        by (simp add: copy_inv_def copied_def split: prod.splits)
      note this copy_destroy_copied [OF law this]
      with r(1,3) x y new \<open>x = Inr h\<close> Inr show ?thesis
        by (simp add: bidirectional_stream_copy_def on_fds_eq copy_destroy_idle [OF law])
    qed
  qed
qed


subsection \<open>Properties\<close>

text \<open>A kernel that has bytes waiting to be read from each descriptor, and records what was taken
  and written. Its poll finds every descriptor ready, or those for reading hung up.\<close>

type_synonym demo_kernel = "(int \<Rightarrow> bytes) \<times> (int \<Rightarrow> bytes) \<times> (int \<Rightarrow> bytes)"

definition pipe_sys :: "demo_kernel syscalls" where
  "pipe_sys = \<lparr>sys_errno = (\<lambda>_. 11),
     sys_read = (\<lambda>fd n (p, t, w). ((int (length (take n (p fd))), take n (p fd)), (p(fd := drop n (p fd)), t(fd := t fd @ take n (p fd)), w))),
     sys_readv = (\<lambda>fd ns k. ((0, []), k)),
     sys_write = (\<lambda>fd bs (p, t, w). (int (length bs), (p, t, w(fd := w fd @ bs)))), sys_writev = (\<lambda>fd bs k. (0, k)),
     sys_getfl = (\<lambda>fd k. (0, k)), sys_setfl = (\<lambda>fd flags k. (0, k)), sys_close = (\<lambda>fd k. (0, k))\<rparr>"

definition pipe_socket_calls :: "demo_kernel socket_calls" where
  "pipe_socket_calls = \<lparr>so_socket = (\<lambda>_ _ _ k. (3, k)), so_getsockopt = (\<lambda>_ _ _ k. ((0, 0, 4), k)),
     so_setsockopt = (\<lambda>_ _ _ _ k. (0, k)), so_getsockname = (\<lambda>_ k. ((0, [], 0), k)),
     so_getpeername = (\<lambda>_ k. ((0, [], 0), k)), so_bind = (\<lambda>_ _ _ k. (0, k)), so_connect = (\<lambda>_ _ _ k. (0, k)),
     so_shutdown = (\<lambda>_ _ k. (0, k)), so_recvfrom = (\<lambda>_ _ _ k. ((0, [], [], 0), k)),
     so_recvmsg = (\<lambda>_ _ _ k. ((0, [], [], 0, 0), k)), so_sendto = (\<lambda>_ _ _ k. (0, k)), so_sendmsg = (\<lambda>_ _ _ k. (0, k)),
     so_listen = (\<lambda>_ _ k. (0, k)), so_accept = (\<lambda>_ k. (4, k))\<rparr>"

definition pipe_poll :: "bool \<Rightarrow> demo_kernel poll_calls" where
  "pipe_poll hup = \<lparr>sys_poll = (\<lambda>ps t k. ((1, map (\<lambda>(fd, ev). if hup \<and> ev = POLLIN then POLLHUP else ev) ps), k)),
     sys_so_error = (\<lambda>fd k. ((0, 0, 4), k))\<rparr>"

definition pipe_world :: "bytes \<Rightarrow> bytes \<Rightarrow> demo_kernel world" where
  "pipe_world typed arrived = \<lparr>w_fds = (\<lambda>_. \<lparr>fw_fd = 3, fw_eof = False, fw_closed = False, fw_non_blocking = False,
     fw_read_count = 0, fw_write_count = 0\<rparr>), w_allocated = 1, w_kernel = ((\<lambda>_. [])(0 := typed, 3 := arrived), (\<lambda>_. []), (\<lambda>_. []))\<rparr>"

lemma pipe_conveys: "conveys (\<lambda>(p, t, w). t) (\<lambda>(p, t, w). w) pipe_sys pipe_socket_calls (pipe_poll hup)"
  by (auto simp: conveys_def quiet_def pipe_sys_def pipe_socket_calls_def pipe_poll_def)

text \<open>C14: copying in both directions loses, repeats and reorders nothing, however many bytes each read
  and write takes, whatever the polls answer, and however it ends, with an exception or without:
  what was read from the standard input is what was written to the socket, followed by what the
  outbound stream holds, and what was read from the socket is what was written to the standard
  output, followed by what the inbound stream holds. Each number of rounds comes to an end.\<close>

theorem stream_copy_conveys:
  assumes "conveys taken written sys so pc" and "socket < w_allocated w" and "fw_fd (w_fds w socket) = n"
    and "n \<noteq> 0" and "n \<noteq> 1"
  shows "\<exists>r e w' c k x y. bidirectional_stream_copy sys so pc (Some socket) rounds w = Some (r, e, w') \<and> w_kernel w' = (c, k)
    \<and> taken k 0 = taken (w_kernel w) 0 @ x @ reader_peek (cs_outbound c) \<and> written k n = written (w_kernel w) n @ x
    \<and> taken k n = taken (w_kernel w) n @ y @ reader_peek (cs_inbound c) \<and> written k 1 = written (w_kernel w) 1 @ y"
proof -
  obtain r s' where run: "bidirectional_stream_copy sys so pc (Some socket) rounds w = Some (r, s')"
    and copied: "copied taken written n (w_kernel w) (w_kernel (snd s'))"
    using stream_copy_copied [OF assms] by blast
  obtain e w' where s': "s' = (e, w')" by (rule prod.exhaust)
  obtain c k where "w_kernel w' = (c, k)" by (rule prod.exhaust)
  with run copied s' show ?thesis unfolding copied_def carried_def by fastforce
qed

theorem stream_copy_conveys_witness:
  "\<exists>r e w' c k x. bidirectional_stream_copy pipe_sys pipe_socket_calls (pipe_poll False) (Some 0) 5 (pipe_world [1, 2] [3])
      = Some (r, e, w') \<and> w_kernel w' = (c, k) \<and> fst (snd k) 0 = x @ reader_peek (cs_outbound c) \<and> snd (snd k) 3 = x"
  using stream_copy_conveys [OF pipe_conveys, of 0 "pipe_world [1, 2] [3]" 3 False 5]
  by (fastforce simp: pipe_world_def case_prod_beta)

text \<open>What unfolds a run on the kernel above.\<close>

lemmas copy_run_simps = bidirectional_stream_copy_def copy_between_def copy_setup_def add_named_rule_def add_category_def add_fd_rule_def
  wait_next_event_def rules_loop.simps setup_loop.simps setup_rule_def defunct_def poll_and_serve_def
  serve_fd_rule_def service_count_def drain_stream_def copy_callback_def copy_closures_def copy_interest_def copy_cancel_def
  set_locals_def locals_def with_locals_def copy_state_new_def event_loop_new_def update_loop_def on_fds_def call_def
  check_system_call_def io_bind_def fd_new_def fdw_new_def set_blocking_def shutdown_def fd_close_def fdw_close_def
  sys_beside_def poll_beside_def socket_beside_def beside_def pipe_sys_def pipe_poll_def pipe_socket_calls_def pipe_world_def
  poll_error_def poll_ready_def hung_up_def erase_at_def categories_capacity_def duplicate_def copy_destroy_def fdw_destroy_def
  POLLIN_def POLLOUT_def POLLHUP_def POLLERR_def POLLNVAL_def available_capacity_def byte_stream_new_def has_error_def
  is_closed_def copy_buffer_size_def bytes_buffered_def is_finished_def writer_close_def SHUT_RD_def SHUT_WR_def category_name_def

text \<open>C26: when copying ends by itself and the rule that writes to the socket has not been removed
  from the loop, all that was read from the standard input has been written to the socket; and
  likewise for the rule that writes to the standard output.\<close>

theorem stream_copy_exit:
  assumes "conveys taken written sys so pc" and "socket < w_allocated w" and "fw_fd (w_fds w socket) = n"
    and "n \<noteq> 0" and "n \<noteq> 1"
    and "bidirectional_stream_copy sys so pc (Some socket) rounds w = Some (Inr True, e, w')"
  shows "(1 \<in> br_code ` set (el_fd_rules e) \<longrightarrow> (\<exists>x. taken (snd (w_kernel w')) 0 = taken (w_kernel w) 0 @ x
        \<and> written (snd (w_kernel w')) n = written (w_kernel w) n @ x))
    \<and> (3 \<in> br_code ` set (el_fd_rules e) \<longrightarrow> (\<exists>y. taken (snd (w_kernel w')) n = taken (w_kernel w) n @ y
        \<and> written (snd (w_kernel w')) 1 = written (w_kernel w) 1 @ y))"
  using stream_copy_copied [OF assms(1-5), of rounds] assms(6)
  by (cases "w_kernel w'") (auto simp: copied_def carried_def copy_idle_def)

theorem stream_copy_exit_witness:
  "case bidirectional_stream_copy pipe_sys pipe_socket_calls (pipe_poll True) (Some 0) (Suc (Suc (Suc (Suc (Suc 0))))) (pipe_world [1, 2] [3])
   of Some (Inr True, e, w') \<Rightarrow> 1 \<in> br_code ` set (el_fd_rules e)
        \<and> fst (snd (snd (w_kernel w'))) 0 = snd (snd (snd (w_kernel w'))) 3
    | _ \<Rightarrow> False"
proof -
  let ?run = "bidirectional_stream_copy pipe_sys pipe_socket_calls (pipe_poll True) (Some 0) (Suc (Suc (Suc (Suc (Suc 0))))) (pipe_world [1, 2] [3])"
  have ends: "case ?run of Some (Inr True, e, w') \<Rightarrow> 1 \<in> br_code ` set (el_fd_rules e) | _ \<Rightarrow> False"
    by (simp add: copy_run_simps Let_def)
  then obtain e w' where run: "?run = Some (Inr True, e, w')" and "1 \<in> br_code ` set (el_fd_rules e)"
    by (auto split: option.splits prod.splits sum.splits bool.splits)
  with stream_copy_exit [OF pipe_conveys _ _ _ _ run, of 3] show ?thesis
    by (auto simp: pipe_world_def case_prod_beta)
qed

end
