(* ===== verification/Ethernet.thy ===== *)
theory Ethernet
  imports Wire_Parser
begin

text \<open>
  Ethernet addresses, headers and frames: \<open>util/ethernet_header.hh\<close>,
  \<open>util/ethernet_header.cc\<close>, \<open>util/ethernet_frame.hh\<close>. An address is an array of six
  bytes, so it has one constructor with six fields and its loops are unrolled.
\<close>

datatype ethernet_address = Eth u8 u8 u8 u8 u8 u8

definition ETHERNET_BROADCAST :: ethernet_address where
  "ETHERNET_BROADCAST = Eth 0xff 0xff 0xff 0xff 0xff 0xff"

fun eth_octets :: "ethernet_address \<Rightarrow> u8 list" where
  "eth_octets (Eth a b c d e f) = [a, b, c, d, e, f]"

record ethernet_header =
  eh_dst :: ethernet_address
  eh_src :: ethernet_address
  eh_type :: u16

definition ETHERNET_LENGTH :: nat where "ETHERNET_LENGTH = 14"
definition TYPE_IPv4 :: u16 where "TYPE_IPv4 = 0x800"
definition TYPE_ARP :: u16 where "TYPE_ARP = 0x806"

text \<open>The loops over the six bytes of an address.\<close>

fun parse_address :: "ethernet_address \<Rightarrow> parser \<Rightarrow> (ethernet_address \<times> parser) result" where
  "parse_address (Eth a b c d e f) =
     pbind (parse_integer a) (\<lambda>a. pbind (parse_integer b) (\<lambda>b. pbind (parse_integer c) (\<lambda>c.
     pbind (parse_integer d) (\<lambda>d. pbind (parse_integer e) (\<lambda>e. pbind (parse_integer f) (\<lambda>f.
     preturn (Eth a b c d e f)))))))"

definition serialize_address :: "ethernet_address \<Rightarrow> serializer \<Rightarrow> serializer" where
  "serialize_address a s = foldl (\<lambda>s b. serialize_integer b s) s (eth_octets a)"

definition ethernet_header_parse :: "ethernet_header \<Rightarrow> parser \<Rightarrow> (ethernet_header \<times> parser) result" where
  "ethernet_header_parse h =
     pbind (parse_address (eh_dst h)) (\<lambda>dst. pbind (parse_address (eh_src h)) (\<lambda>src.
     pbind (parse_integer (eh_type h)) (\<lambda>type. preturn \<lparr>eh_dst = dst, eh_src = src, eh_type = type\<rparr>)))"

definition ethernet_header_serialize :: "ethernet_header \<Rightarrow> serializer \<Rightarrow> serializer" where
  "ethernet_header_serialize h s =
     serialize_integer (eh_type h) (serialize_address (eh_src h) (serialize_address (eh_dst h) s))"

record ethernet_frame =
  ef_header :: ethernet_header
  ef_payload :: "bytes ref list"

definition default_ethernet_frame :: ethernet_frame where
  "default_ethernet_frame =
     \<lparr>ef_header = \<lparr>eh_dst = Eth 0 0 0 0 0 0, eh_src = Eth 0 0 0 0 0 0, eh_type = 0\<rparr>, ef_payload = []\<rparr>"

definition ethernet_frame_parse :: "ethernet_frame \<Rightarrow> parser \<Rightarrow> (ethernet_frame \<times> parser) result" where
  "ethernet_frame_parse f =
     pbind (ethernet_header_parse (ef_header f)) (\<lambda>header.
     pbind all_remaining (\<lambda>payload. preturn \<lparr>ef_header = header, ef_payload = payload\<rparr>))"

definition ethernet_frame_serialize :: "ethernet_frame \<Rightarrow> serializer \<Rightarrow> serializer" where
  "ethernet_frame_serialize f s = serialize_refs (ef_payload f) (ethernet_header_serialize (ef_header f) s)"

definition clone_frame :: "ethernet_frame \<Rightarrow> ethernet_frame" where
  "clone_frame x = \<lparr>ef_header = ef_header x, ef_payload = clone_refs (ef_payload x)\<rparr>"

subsection \<open>The wire format\<close>

definition address_bytes :: "ethernet_address \<Rightarrow> bytes" where
  "address_bytes a = concat (map be_bytes (eth_octets a))"

definition ethernet_header_bytes :: "ethernet_header \<Rightarrow> bytes" where
  "ethernet_header_bytes h = address_bytes (eh_dst h) @ address_bytes (eh_src h) @ be_bytes (eh_type h)"

lemma se_flat_address [written]: "se_flat (serialize_address a s) = se_flat s @ address_bytes a"
  by (cases a) (simp add: serialize_address_def address_bytes_def written)

lemma se_flat_ethernet_header [written]:
  "se_flat (ethernet_header_serialize h s) = se_flat s @ ethernet_header_bytes h"
  by (simp add: ethernet_header_serialize_def ethernet_header_bytes_def written)

lemma reads_address: "reads (parse_address old) (address_bytes a) a"
  by (cases old; cases a)
    (simp add: address_bytes_def, (rule reads_bind, rule reads_integer)+, rule reads_last, rule reads_integer, rule refl)

lemma flatly_address [flat_intros]: "flatly (parse_address old)"
  by (cases old) (auto intro!: flat_intros)

lemma reads_ethernet_header: "reads (ethernet_header_parse old) (ethernet_header_bytes h) h"
  unfolding ethernet_header_parse_def ethernet_header_bytes_def
  by (intro reads_bind [OF reads_address] reads_last [OF reads_integer(2)]) simp

lemma flatly_ethernet_header [flat_intros]: "flatly (ethernet_header_parse old)"
  unfolding ethernet_header_parse_def by (intro flat_intros)

interpretation eth: wire_format ethernet_header_bytes ethernet_header_parse "\<lambda>_. True"
  by unfold_locales (auto intro: reads_ethernet_header flat_intros)

subsection \<open>Frames\<close>

lemma takes_address: "takes 6 (parse_address old)"
proof (cases old)
  case (Eth a b c d e f)
  have "takes (1 + (1 + (1 + (1 + (1 + 1))))) (parse_address (Eth a b c d e f))"
    unfolding parse_address.simps by (intro takes_bind takes_last takes_integers)
  then show ?thesis by (simp add: Eth numeral_eq_Suc)
qed

lemma takes_ethernet_header: "takes 14 (ethernet_header_parse old)"
proof -
  have "takes (6 + (6 + 2)) (ethernet_header_parse old)"
    unfolding ethernet_header_parse_def by (intro takes_bind takes_last takes_address takes_integers)
  then show ?thesis by simp
qed

lemma length_ethernet_header_bytes: "length (ethernet_header_bytes h) = 14"
  by (cases "eh_dst h"; cases "eh_src h") (simp add: ethernet_header_bytes_def address_bytes_def)

subsection \<open>Text\<close>

definition hex_digit :: "nat \<Rightarrow> char" where
  "hex_digit n = ''0123456789abcdef'' ! n"

fun hex_nat :: "nat \<Rightarrow> string" where
  "hex_nat n = (if n < 16 then [hex_digit n] else hex_nat (n div 16) @ [hex_digit (n mod 16)])"

declare hex_nat.simps [simp del]

text \<open>\<open>ss.width( 2 ); ss << setfill( '0' ) << hex\<close>.\<close>

definition hex2 :: "u8 \<Rightarrow> string" where
  "hex2 b = (let s = hex_nat (unat b) in replicate (2 - length s) CHR ''0'' @ s)"

fun address_loop :: "u8 list \<Rightarrow> string" where
  "address_loop [] = []"
| "address_loop [b] = hex2 b"
| "address_loop (b # bs) = hex2 b @ '':'' @ address_loop bs"

definition eth_to_string :: "ethernet_address \<Rightarrow> string" where
  "eth_to_string address = address_loop (eth_octets address)"

definition ethernet_header_to_string :: "ethernet_header \<Rightarrow> string" where
  "ethernet_header_to_string h =
     ''dst='' @ eth_to_string (eh_dst h) @ '' src='' @ eth_to_string (eh_src h) @ '' type='' @
     (if eh_type h = TYPE_IPv4 then ''IPv4''
      else if eh_type h = TYPE_ARP then ''ARP''
      else ''[unknown type '' @ hex_nat (unat (eh_type h)) @ ''!]'')"

lemma hex2_eq: "hex2 b = [hex_digit (unat b div 16), hex_digit (unat b mod 16)]"
proof -
  have "unat b div 16 < 16" using unat_less_8 [of b] by (simp add: less_mult_imp_div_less)
  then show ?thesis
    by (cases "unat b < 16")
      (simp_all add: hex2_def hex_nat.simps [of "unat b"] hex_nat.simps [of "unat b div 16"] hex_digit_def)
qed

lemma hex_digit_inj: "m < 16 \<Longrightarrow> n < 16 \<Longrightarrow> hex_digit m = hex_digit n \<longleftrightarrow> m = n"
proof -
  have "distinct ''0123456789abcdef''" "length ''0123456789abcdef'' = 16" by simp_all
  then show "m < 16 \<Longrightarrow> n < 16 \<Longrightarrow> hex_digit m = hex_digit n \<longleftrightarrow> m = n"
    unfolding hex_digit_def by (simp only: nth_eq_iff_index_eq)
qed

lemma hex2_inj: "hex2 a = hex2 b \<longleftrightarrow> a = b"
proof -
  have small: "unat x div 16 < 16" "unat x mod 16 < 16" for x :: u8
    using unat_less_8 [of x] by (simp_all add: less_mult_imp_div_less)
  show ?thesis
    unfolding hex2_eq by (auto simp: hex_digit_inj small word_unat_eq_iff) (metis div_mult_mod_eq)
qed

subsection \<open>Properties\<close>

text \<open>A frame survives the wire: whatever its serialized bytes are cut into, parsing
  them gives the same header and the same payload bytes.\<close>

theorem ethernet_frame_roundtrip:
  assumes "\<forall>c\<in>set cs. is_owned c" and "packed cs"
    and "chunks cs = se_flat (ethernet_frame_serialize f serializer_new)"
  shows "\<exists>payload. parse_with (ethernet_frame_parse old) cs
      = Inr (\<lparr>ef_header = ef_header f, ef_payload = payload\<rparr>, True)
    \<and> chunks payload = chunks (ef_payload f) \<and> (\<forall>x\<in>set payload. is_owned x)"
proof -
  have "chunks cs = ethernet_header_bytes (ef_header f) @ chunks (ef_payload f)"
    using assms(3) by (simp add: ethernet_frame_serialize_def written)
  from eth.roundtrip [OF TrueI assms(1,2) this, of "ef_header old"] obtain p p' where
    p: "parser_new cs = Inr p" "ethernet_header_parse (ef_header old) p = Inr (ef_header f, p')"
      "\<not> pa_error p'" "pa_ok p'" "bl_rest (pa_input p') = chunks (ef_payload f)"
    by blast
  from all_remaining_ok [OF p(4)] p(3,5) obtain out p'' where
    "all_remaining p' = Inr (out, p'')" "chunks out = chunks (ef_payload f)" "\<not> pa_error p''"
    "\<forall>x\<in>set out. is_owned x"
    by (auto simp: pa_flat_def)
  with p show ?thesis
    by (simp add: parse_with_def ethernet_frame_parse_def pbind_def preturn_def)
qed

theorem ethernet_frame_roundtrip_witness:
  "\<exists>payload. parse_with (ethernet_frame_parse default_ethernet_frame)
      [Owned (take 5 (se_flat (ethernet_frame_serialize
         \<lparr>ef_header = \<lparr>eh_dst = ETHERNET_BROADCAST, eh_src = Eth 1 2 3 4 5 6, eh_type = TYPE_ARP\<rparr>,
          ef_payload = [Borrowed [7], Owned [8, 9]]\<rparr> serializer_new))),
       Owned (drop 5 (se_flat (ethernet_frame_serialize
         \<lparr>ef_header = \<lparr>eh_dst = ETHERNET_BROADCAST, eh_src = Eth 1 2 3 4 5 6, eh_type = TYPE_ARP\<rparr>,
          ef_payload = [Borrowed [7], Owned [8, 9]]\<rparr> serializer_new)))]
    = Inr (\<lparr>ef_header = \<lparr>eh_dst = ETHERNET_BROADCAST, eh_src = Eth 1 2 3 4 5 6, eh_type = TYPE_ARP\<rparr>,
        ef_payload = payload\<rparr>, True) \<and> chunks payload = [7, 8, 9]"
proof -
  let ?f = "\<lparr>ef_header = \<lparr>eh_dst = ETHERNET_BROADCAST, eh_src = Eth 1 2 3 4 5 6, eh_type = TYPE_ARP\<rparr>,
      ef_payload = [Borrowed [7], Owned [8, 9]]\<rparr>"
  let ?bs = "se_flat (ethernet_frame_serialize ?f serializer_new)"
  have "length ?bs = 17"
    by (simp add: ethernet_frame_serialize_def written length_ethernet_header_bytes)
  then have cs: "\<forall>c\<in>set [Owned (take 5 ?bs), Owned (drop 5 ?bs)]. is_owned c"
    "packed [Owned (take 5 ?bs), Owned (drop 5 ?bs)]"
    "chunks [Owned (take 5 ?bs), Owned (drop 5 ?bs)] = ?bs"
    by auto
  show ?thesis using ethernet_frame_roundtrip [OF cs, of default_ethernet_frame] by auto
qed

text \<open>Parsing a frame never fails otherwise than by the error flag, and that is set
  exactly when there are fewer bytes than a header.\<close>

theorem ethernet_frame_accepts:
  assumes "\<forall>c\<in>set cs. is_owned c" and "packed cs"
  shows "\<exists>f. parse_with (ethernet_frame_parse old) cs = Inr (f, ETHERNET_LENGTH \<le> length (chunks cs))"
proof -
  obtain p where p: "parser_new cs = Inr p" "pa_ok p" "pa_flat p = (chunks cs, False)"
    using parser_new_ok [OF assms] by blast
  then have "fst (pa_flat p) = chunks cs" "\<not> pa_error p" by (simp_all add: pa_flat_def)
  with takes_ethernet_header [of "ef_header old"] p(2) obtain h p1 where
    h: "ethernet_header_parse (ef_header old) p = Inr (h, p1)" "pa_ok p1"
      "if 14 \<le> length (chunks cs) then pa_flat p1 = (drop 14 (chunks cs), False) else pa_error p1"
    unfolding takes_def by metis
  from all_remaining_ok [OF h(2)] obtain out p2 where
    "all_remaining p1 = Inr (out, p2)" "pa_error p2 = pa_error p1" by blast
  with p h show ?thesis
    by (auto simp: parse_with_def ethernet_frame_parse_def pbind_def preturn_def ETHERNET_LENGTH_def
        pa_flat_def split: if_splits)
qed

theorem ethernet_frame_accepts_witness:
  "\<exists>f. parse_with (ethernet_frame_parse default_ethernet_frame) [Owned [1, 2, 3], Owned [4]] = Inr (f, False)"
proof -
  have cs: "\<forall>c\<in>set [Owned [1, 2, 3], Owned [4 :: u8]]. is_owned c" "packed [Owned [1, 2, 3], Owned [4 :: u8]]"
    by simp_all
  show ?thesis using ethernet_frame_accepts [OF cs, of default_ethernet_frame] by (simp add: ETHERNET_LENGTH_def)
qed

text \<open>The text of an Ethernet address determines the address.\<close>

theorem eth_to_string_inj: "eth_to_string a = eth_to_string b \<longleftrightarrow> a = b"
proof -
  have len: "length (hex2 x) = 2" for x by (simp add: hex2_eq)
  obtain a1 a2 a3 a4 a5 a6 where a: "a = Eth a1 a2 a3 a4 a5 a6" by (cases a)
  obtain b1 b2 b3 b4 b5 b6 where b: "b = Eth b1 b2 b3 b4 b5 b6" by (cases b)
  show ?thesis
    by (simp add: a b eth_to_string_def append_eq_append_conv len hex2_inj)
qed

end
