(* ===== verification/Checksum.thy ===== *)
theory Checksum
  imports Wire_Parser
begin

text \<open>
  The Internet checksum of \<open>util/checksum.hh\<close>. The lemmas read the 32-bit accumulator as
  a natural number, show that how the data is cut into pieces does not matter, that the
  value is the ones-complement of the sum modulo \<open>2 ^ 16 - 1\<close>, and that data with its
  checksum stored in it verifies.
\<close>

record internet_checksum =
  ck_sum :: u32
  ck_parity :: bool

definition checksum_new :: "u32 \<Rightarrow> internet_checksum" where
  "checksum_new initial = \<lparr>ck_sum = initial, ck_parity = False\<rparr>"

fun checksum_add :: "internet_checksum \<Rightarrow> bytes \<Rightarrow> internet_checksum" where
  "checksum_add c [] = c"
| "checksum_add c (i # data) =
     (let val = ucast i :: u16;
          val = (if \<not> ck_parity c then push_bit 8 val else val)
      in checksum_add (c\<lparr>ck_sum := ck_sum c + ucast val, ck_parity := \<not> ck_parity c\<rparr>) data)"

definition checksum_add_all :: "internet_checksum \<Rightarrow> bytes list \<Rightarrow> internet_checksum" where
  "checksum_add_all c data = foldl checksum_add c data"

lemma halves:
  "n = 65536 * (n div 65536) + n mod 65536" "65536 \<le> n \<Longrightarrow> 1 \<le> n div (65536 :: nat)"
  by (simp_all add: Suc_le_eq div_greater_zero_iff)

lemma checksum_fold_less: "0xffff < ret \<Longrightarrow> drop_bit 16 ret + ucast (ucast ret :: u16) < (ret :: u32)"
proof -
  assume "0xffff < ret"
  then have big: "65536 \<le> unat ret" by (simp add: word_less_nat_alt)
  have hi: "unat (drop_bit 16 ret) = unat ret div 65536"
    unfolding unat_drop_bit_eq by (simp add: drop_bit_eq_div)
  have lo: "unat (ucast (ucast ret :: u16) :: u32) = unat ret mod 65536"
    by (simp add: unat_ucast_mod)
  have "unat ret div 65536 + unat ret mod 65536 < unat ret"
    using halves [of "unat ret"] big by linarith
  moreover from this have "unat (drop_bit 16 ret + ucast (ucast ret :: u16)) = unat ret div 65536 + unat ret mod 65536"
    using unat_less_32 [of ret] by (subst unat_plus_no_overflow) (simp_all add: hi lo)
  ultimately show ?thesis by (simp add: word_less_nat_alt)
qed

function checksum_fold :: "u32 \<Rightarrow> u32" where
  "checksum_fold ret = (if ret > 0xffff then checksum_fold (drop_bit 16 ret + ucast (ucast ret :: u16)) else ret)"
  by pat_completeness auto
termination
  by (relation "measure unat") (use checksum_fold_less in \<open>auto simp: word_less_nat_alt\<close>)

declare checksum_fold.simps [simp del]

definition checksum_value :: "internet_checksum \<Rightarrow> u16" where
  "checksum_value c = ucast (not (checksum_fold (ck_sum c)))"

subsection \<open>The sum as a natural number\<close>

fun byte_sum :: "bool \<Rightarrow> bytes \<Rightarrow> nat" where
  "byte_sum p [] = 0"
| "byte_sum p (b # bs) = (if p then unat b else 256 * unat b) + byte_sum (\<not> p) bs"

lemma byte_sum_append: "byte_sum p (xs @ ys) = byte_sum p xs + byte_sum (p \<noteq> odd (length xs)) ys"
  by (induction p xs rule: byte_sum.induct) auto

lemma byte_sum_le: "byte_sum p bs \<le> 65280 * length bs"
proof (induction p bs rule: byte_sum.induct)
  case (2 p b bs)
  have "unat b \<le> 255" using unat_less_8 [of b] by simp
  with 2 show ?case by (cases p) auto
qed simp

lemma checksum_add_append: "checksum_add c (xs @ ys) = checksum_add (checksum_add c xs) ys"
  by (induction c xs rule: checksum_add.induct) (simp_all add: Let_def)

lemma checksum_add_parity: "ck_parity (checksum_add c bs) = (ck_parity c \<noteq> odd (length bs))"
  by (induction c bs rule: checksum_add.induct) (auto simp: Let_def)

lemma checksum_add_all_concat: "checksum_add_all c xss = checksum_add c (concat xss)"
  unfolding checksum_add_all_def by (induction xss arbitrary: c) (simp_all add: checksum_add_append)

lemma checksum_word: "unat (ucast (if \<not> p then push_bit 8 (ucast b :: u16) else ucast b :: u16) :: u32)
  = (if p then unat b else 256 * unat (b :: u8))"
proof -
  have "unat b < 256" using unat_less_8 [of b] by simp
  then have "unat (push_bit 8 (ucast b :: u16)) = 256 * unat b"
    by (simp add: unsigned_push_bit_eq unat_ucast_mod push_bit_eq_mult [of _ "unat b"] take_bit_eq_mod)
  then show ?thesis
    using \<open>unat b < 256\<close> by (cases p) (simp_all add: unat_ucast_mod)
qed

lemma checksum_add_sum:
  "unat (ck_sum c) + byte_sum (ck_parity c) bs < 2 ^ 32 \<Longrightarrow>
   unat (ck_sum (checksum_add c bs)) = unat (ck_sum c) + byte_sum (ck_parity c) bs"
proof (induction c bs rule: checksum_add.induct)
  case (2 c i data)
  define val :: u32 where "val = ucast (if \<not> ck_parity c then push_bit 8 (ucast i :: u16) else ucast i :: u16)"
  have val: "unat val = (if ck_parity c then unat i else 256 * unat i)"
    unfolding val_def by (rule checksum_word)
  have step: "unat (ck_sum c + val) = unat (ck_sum c) + unat val"
    using 2(2) val by (intro unat_plus_no_overflow) (simp split: if_splits)
  let ?c = "c\<lparr>ck_sum := ck_sum c + val, ck_parity := \<not> ck_parity c\<rparr>"
  have "unat (ck_sum ?c) + byte_sum (ck_parity ?c) data < 2 ^ 32"
    using 2(2) step val by simp
  then have "unat (ck_sum (checksum_add ?c data)) = unat (ck_sum ?c) + byte_sum (ck_parity ?c) data"
    by (rule "2.IH" [OF refl refl, folded val_def])
  moreover have "checksum_add c (i # data) = checksum_add ?c data"
    by (simp only: checksum_add.simps Let_def val_def)
  ultimately show ?case using step val by simp
qed simp

subsection \<open>Folding\<close>

lemma fold_step_mod:
  assumes "unat ret div 65536 + unat ret mod 65536 = (m :: nat)"
  shows "m mod 65535 = unat (ret :: u32) mod 65535"
proof -
  have "unat ret = 65535 * (unat ret div 65536) + m"
    using assms halves(1) [of "unat ret"] by linarith
  then show ?thesis by (metis mod_mult_self4)
qed

lemma checksum_fold_spec:
  "unat (checksum_fold ret) \<le> 65535 \<and> unat (checksum_fold ret) mod 65535 = unat ret mod 65535
   \<and> (checksum_fold ret = 0 \<longleftrightarrow> ret = 0)"
proof (induction ret rule: checksum_fold.induct)
  case (1 ret)
  show ?case
  proof (cases "ret > 0xffff")
    case True
    let ?next = "drop_bit 16 ret + ucast (ucast ret :: u16) :: u32"
    have hi: "unat (drop_bit 16 ret) = unat ret div 65536"
      unfolding unat_drop_bit_eq by (simp add: drop_bit_eq_div)
    have lo: "unat (ucast (ucast ret :: u16) :: u32) = unat ret mod 65536"
      by (simp add: unat_ucast_mod)
    have next_val: "unat ?next = unat ret div 65536 + unat ret mod 65536"
      using unat_less_32 [of ret] by (subst unat_plus_no_overflow) (simp_all add: hi lo)
    have "65536 \<le> unat ret" using True by (simp add: word_less_nat_alt)
    then have "unat ?next \<noteq> 0" unfolding next_val using halves(2) [of "unat ret"] by linarith
    then have "?next \<noteq> 0" "ret \<noteq> 0" using True by auto
    then show ?thesis
      using "1.IH" [OF True] True fold_step_mod [OF next_val [symmetric]]
      by (simp add: checksum_fold.simps [of ret])
  next
    case False
    then show ?thesis by (simp add: checksum_fold.simps [of ret] word_less_nat_alt not_less)
  qed
qed

lemma checksum_value_unat: "unat (checksum_value c) = 65535 - unat (checksum_fold (ck_sum c))"
proof -
  let ?f = "checksum_fold (ck_sum c)"
  have f: "unat ?f \<le> 65535" using checksum_fold_spec by blast
  have "ucast (not ?f) = not (ucast ?f :: u16)"
    by (rule bit_word_eqI) (auto simp: bit_simps)
  then have "unat (checksum_value c) = unat (not (ucast ?f :: u16))"
    by (simp add: checksum_value_def)
  also have "not (ucast ?f :: u16) = - 1 - ucast ?f" by (simp add: not_eq_complement)
  also have "unat (- 1 - ucast ?f :: u16) = 65535 - unat (ucast ?f :: u16)"
    by (simp add: unat_minus_le unsigned_minus_1_eq_mask mask_eq_exp_minus_1)
  also have "unat (ucast ?f :: u16) = unat ?f" using f by (simp add: unat_ucast_mod)
  finally show ?thesis .
qed

lemma checksum_value_0: "checksum_value c = 0 \<longleftrightarrow> 0 < unat (ck_sum c) \<and> unat (ck_sum c) mod 65535 = 0"
proof -
  let ?f = "unat (checksum_fold (ck_sum c))"
  have "checksum_value c = 0 \<longleftrightarrow> unat (checksum_value c) = 0" by (simp add: unat_eq_zero)
  also have "\<dots> \<longleftrightarrow> ?f = 65535"
    unfolding checksum_value_unat using checksum_fold_spec [of "ck_sum c"] by auto
  also have "\<dots> \<longleftrightarrow> ?f \<noteq> 0 \<and> ?f mod 65535 = 0"
    using checksum_fold_spec [of "ck_sum c"] by (auto simp: le_less)
  also have "\<dots> \<longleftrightarrow> 0 < unat (ck_sum c) \<and> unat (ck_sum c) mod 65535 = 0"
    using checksum_fold_spec [of "ck_sum c"] by (auto simp: unat_eq_zero unat_gt_0)
  finally show ?thesis .
qed

text \<open>The value that a checksum over initial sum and data has.\<close>

abbreviation checksum_of :: "u32 \<Rightarrow> bytes \<Rightarrow> u16" where
  "checksum_of initial bs \<equiv> checksum_value (checksum_add (checksum_new initial) bs)"

lemma checksum_of_sum:
  assumes "unat initial \<le> 2 ^ 24" and "length bs \<le> 65535"
  shows "unat (ck_sum (checksum_add (checksum_new initial) bs)) = unat initial + byte_sum False bs"
proof -
  have "byte_sum False bs \<le> 65280 * 65535"
    using byte_sum_le [of False bs] assms(2) by (meson le_trans mult_le_mono2)
  then have "unat initial + byte_sum False bs < 2 ^ 32" using assms(1) by simp
  then show ?thesis using checksum_add_sum [of "checksum_new initial" bs] by (simp add: checksum_new_def)
qed

lemma byte_sum_be_bytes: "byte_sum False (be_bytes (v :: u16)) = unat v"
proof -
  have "unat (ucast (drop_bit 8 v) :: u8) = unat v div 256"
  proof -
    have "unat v div 256 < 256" using unat_less_16 [of v] by (simp add: less_mult_imp_div_less)
    then show ?thesis by (simp add: unat_ucast_mod unat_drop_bit_eq drop_bit_eq_div [of _ "unat v"])
  qed
  moreover have "unat (ucast v :: u8) = unat v mod 256" by (simp add: unat_ucast_mod)
  ultimately show ?thesis by (simp add: be_bytes_simps)
qed

text \<open>A field of the data may be replaced: the sums differ by the fields.\<close>

lemma byte_sum_field:
  "even (length pre) \<Longrightarrow>
   byte_sum False (pre @ be_bytes (v :: u16) @ post) = byte_sum False pre + unat v + byte_sum False post"
  using byte_sum_be_bytes [of v] by (simp add: byte_sum_append be_bytes_simps)

lemma checksum_complement:
  assumes "t mod 65535 = f mod 65535" "f \<le> 65535" "f = 0 \<longleftrightarrow> t = (0 :: nat)"
  shows "0 < t + (65535 - f) \<and> (t + (65535 - f)) mod 65535 = 0"
proof
  show "0 < t + (65535 - f)" using assms(3) by (cases "f = 0") auto
  have "(t + (65535 - f)) mod 65535 = (f + (65535 - f)) mod 65535"
    using assms(1) by (metis mod_add_left_eq)
  then show "(t + (65535 - f)) mod 65535 = 0" using assms(2) by simp
qed

lemma checksum_is_zero:
  assumes "unat initial \<le> 2 ^ 24" and "length bs \<le> 65535"
  shows "checksum_of initial bs = 0 \<longleftrightarrow>
    0 < unat initial + byte_sum False bs \<and> (unat initial + byte_sum False bs) mod 65535 = 0"
  using checksum_of_sum [OF assms] by (simp add: checksum_value_0)

lemma checksum_filled_in:
  assumes "unat initial \<le> 2 ^ 24" and "length pre + 2 + length post \<le> 65535" and "even (length pre)"
  shows "checksum_of initial (pre @ be_bytes (checksum_of initial (pre @ [0, 0] @ post)) @ post) = 0"
proof -
  let ?v = "checksum_of initial (pre @ [0, 0] @ post)"
  define t where "t = unat initial + byte_sum False (pre @ [0, 0] @ post)"
  define f where "f = unat (checksum_fold (ck_sum (checksum_add (checksum_new initial) (pre @ [0, 0] @ post))))"
  have t: "unat (ck_sum (checksum_add (checksum_new initial) (pre @ [0, 0] @ post))) = t"
    unfolding t_def using assms(2) by (intro checksum_of_sum [OF assms(1)]) simp
  have v: "unat ?v = 65535 - f"
    unfolding f_def by (rule checksum_value_unat)
  have f: "t mod 65535 = f mod 65535" "f \<le> 65535" "f = 0 \<longleftrightarrow> t = 0"
    using checksum_fold_spec [of "ck_sum (checksum_add (checksum_new initial) (pre @ [0, 0] @ post))"] t
    by (auto simp: f_def unat_eq_zero)
  have zero: "[0, 0] = be_bytes (0 :: u16)" by (simp add: be_bytes_simps)
  have "unat initial + byte_sum False (pre @ be_bytes ?v @ post) = t + (65535 - f)"
    unfolding t_def unfolding zero byte_sum_field [OF assms(3)] v [unfolded zero] by simp
  then show ?thesis
    using checksum_complement [OF f] assms(1,2) by (subst checksum_is_zero) simp_all
qed

subsection \<open>Properties\<close>

text \<open>The checksum does not depend on how the data is cut into pieces.\<close>

theorem checksum_pieces:
  assumes "concat xss = concat yss"
  shows "checksum_add_all c xss = checksum_add_all c yss"
  using assms by (simp add: checksum_add_all_concat)

theorem checksum_pieces_witness:
  "checksum_add_all (checksum_new 0) [[1], [2, 3]] = checksum_add_all (checksum_new 0) [[1, 2], [], [3]]"
  by (rule checksum_pieces) simp

text \<open>The value is zero exactly when the sum of the 16-bit words is a nonzero multiple
  of \<open>2 ^ 16 - 1\<close>, for data short enough that the accumulator does not overflow.\<close>

theorem checksum_zero_iff:
  assumes "unat initial \<le> 2 ^ 24" and "length bs \<le> 65535"
  shows "checksum_of initial bs = 0 \<longleftrightarrow>
    0 < unat initial + byte_sum False bs \<and> (unat initial + byte_sum False bs) mod 65535 = 0"
  by (rule checksum_is_zero) (rule assms)+

theorem checksum_zero_iff_witness: "checksum_of 0 [0xff, 0xff] = 0"
proof -
  have small: "unat (0 :: u32) \<le> 2 ^ 24" "length [0xff, 0xff :: u8] \<le> 65535" by simp_all
  show ?thesis using checksum_zero_iff [OF small] by simp
qed

text \<open>Data whose checksum field, at an even offset, holds the checksum computed with
  that field zero, verifies.\<close>

theorem checksum_verifies:
  assumes "unat initial \<le> 2 ^ 24" and "length pre + 2 + length post \<le> 65535" and "even (length pre)"
  shows "checksum_of initial (pre @ be_bytes (checksum_of initial (pre @ [0, 0] @ post)) @ post) = 0"
  by (rule checksum_filled_in) (rule assms)+

theorem checksum_verifies_witness:
  "checksum_of 7 ([1, 2] @ be_bytes (checksum_of 7 ([1, 2] @ [0, 0] @ [3])) @ [3]) = 0"
  by (rule checksum_verifies) simp_all

end
