(* ===== verification/Ipv4.thy ===== *)
theory Ipv4
  imports Checksum
begin

text \<open>
  IPv4 headers and datagrams: \<open>util/ipv4_header.hh\<close>, \<open>util/ipv4_header.cc\<close>,
  \<open>util/ipv4_datagram.hh\<close>.
\<close>

unbundle bit_operations_syntax

record ipv4_header =
  ip_ver :: u8
  ip_hlen :: u8
  ip_tos :: u8
  ip_len :: u16
  ip_id :: u16
  ip_df :: bool
  ip_mf :: bool
  ip_offset :: u16
  ip_ttl :: u8
  ip_proto :: u8
  ip_cksum :: u16
  ip_src :: u32
  ip_dst :: u32

definition IPV4_LENGTH :: nat where "IPV4_LENGTH = 20"
definition DEFAULT_TTL :: u8 where "DEFAULT_TTL = 128"
definition PROTO_TCP :: u8 where "PROTO_TCP = 6"

definition default_ipv4_header :: ipv4_header where
  "default_ipv4_header =
     \<lparr>ip_ver = 4, ip_hlen = of_nat (IPV4_LENGTH div 4), ip_tos = 0, ip_len = 0, ip_id = 0, ip_df = True,
      ip_mf = False, ip_offset = 0, ip_ttl = DEFAULT_TTL, ip_proto = PROTO_TCP, ip_cksum = 0,
      ip_src = 0, ip_dst = 0\<rparr>"

text \<open>The flags and the fragment offset in one 16-bit field.\<close>

definition fo_field :: "ipv4_header \<Rightarrow> u16" where
  "fo_field h = (if ip_df h then 0x4000 else 0) OR (if ip_mf h then 0x2000 else 0)
     OR (ip_offset h AND 0x1fff)"

definition first_byte :: "ipv4_header \<Rightarrow> u8" where
  "first_byte h = ucast (push_bit 4 (ucast (ip_ver h) :: u32) OR (ucast (ip_hlen h) AND 0xf))"

definition ipv4_header_serialize :: "ipv4_header \<Rightarrow> serializer \<Rightarrow> serializer result" where
  "ipv4_header_serialize h s =
     (if ip_ver h \<noteq> 4 then Inl (Runtime_error ''wrong IP version'')
      else Inr
        (serialize_integer (ip_dst h) (serialize_integer (ip_src h) (serialize_integer (ip_cksum h)
        (serialize_integer (ip_proto h) (serialize_integer (ip_ttl h) (serialize_integer (fo_field h)
        (serialize_integer (ip_id h) (serialize_integer (ip_len h) (serialize_integer (ip_tos h)
        (serialize_integer (first_byte h) s)))))))))))"

definition payload_length :: "ipv4_header \<Rightarrow> u16" where
  "payload_length h = ip_len h - 4 * ucast (ip_hlen h)"

definition pseudo_checksum :: "ipv4_header \<Rightarrow> u32" where
  "pseudo_checksum h =
     (let pcksum = drop_bit 16 (ip_src h) + ucast (ucast (ip_src h) :: u16);
          pcksum = pcksum + (drop_bit 16 (ip_dst h) + ucast (ucast (ip_dst h) :: u16));
          pcksum = pcksum + ucast (ip_proto h)
      in pcksum + ucast (payload_length h))"

definition ipv4_compute_checksum :: "ipv4_header \<Rightarrow> ipv4_header result" where
  "ipv4_compute_checksum h =
     (let h = h\<lparr>ip_cksum := 0\<rparr>
      in res_bind (ipv4_header_serialize h serializer_new) (\<lambda>s.
           let check = checksum_add_all (checksum_new 0) (map ref_get (fst (se_finish s)))
           in Inr (h\<lparr>ip_cksum := checksum_value check\<rparr>)))"

text \<open>The end of \<open>parse\<close>: skip the options and verify the checksum.\<close>

definition ipv4_finish_parse :: "ipv4_header \<Rightarrow> parser \<Rightarrow> (ipv4_header \<times> parser) result" where
  "ipv4_finish_parse h =
     pbind (\<lambda>p. map_sum id (Pair ()) (pa_remove_prefix (unat (ip_hlen h) * 4 - IPV4_LENGTH) p)) (\<lambda>_ p.
       let given_cksum = ip_cksum h
       in res_bind (ipv4_compute_checksum h) (\<lambda>h.
            if ip_cksum h \<noteq> given_cksum then Inr (h, pa_set_error p) else Inr (h, p)))"

definition ipv4_header_parse :: "ipv4_header \<Rightarrow> parser \<Rightarrow> (ipv4_header \<times> parser) result" where
  "ipv4_header_parse h =
     pbind (parse_integer (0 :: u8)) (\<lambda>first.
     pbind (parse_integer (ip_tos h)) (\<lambda>tos.
     pbind (parse_integer (ip_len h)) (\<lambda>len.
     pbind (parse_integer (ip_id h)) (\<lambda>id.
     pbind (parse_integer (0 :: u16)) (\<lambda>fo_val.
     pbind (parse_integer (ip_ttl h)) (\<lambda>ttl.
     pbind (parse_integer (ip_proto h)) (\<lambda>proto.
     pbind (parse_integer (ip_cksum h)) (\<lambda>cksum.
     pbind (parse_integer (ip_src h)) (\<lambda>src.
     pbind (parse_integer (ip_dst h)) (\<lambda>dst.
       let h = \<lparr>ip_ver = drop_bit 4 first, ip_hlen = first AND 0x0f, ip_tos = tos, ip_len = len, ip_id = id,
                ip_df = (fo_val AND 0x4000 \<noteq> 0), ip_mf = (fo_val AND 0x2000 \<noteq> 0),
                ip_offset = fo_val AND 0x1fff, ip_ttl = ttl, ip_proto = proto, ip_cksum = cksum,
                ip_src = src, ip_dst = dst\<rparr>
       in pbind (fail_if (ip_ver h \<noteq> 4)) (\<lambda>_.
          pbind (fail_if (ip_hlen h < 5)) (\<lambda>_.
          unless_error h (ipv4_finish_parse h)))))))))))))"

record ipv4_datagram =
  dg_header :: ipv4_header
  dg_payload :: "bytes ref list"

definition default_datagram :: ipv4_datagram where
  "default_datagram = \<lparr>dg_header = default_ipv4_header, dg_payload = []\<rparr>"

definition ipv4_datagram_parse :: "ipv4_datagram \<Rightarrow> parser \<Rightarrow> (ipv4_datagram \<times> parser) result" where
  "ipv4_datagram_parse d =
     pbind (ipv4_header_parse (dg_header d)) (\<lambda>header.
     pbind (\<lambda>p. map_sum id (Pair ()) (pa_truncate (unat (payload_length header)) p)) (\<lambda>_.
     pbind all_remaining (\<lambda>payload. preturn \<lparr>dg_header = header, dg_payload = payload\<rparr>)))"

definition ipv4_datagram_serialize :: "ipv4_datagram \<Rightarrow> serializer \<Rightarrow> serializer result" where
  "ipv4_datagram_serialize d s = map_sum id (serialize_refs (dg_payload d)) (ipv4_header_serialize (dg_header d) s)"

definition clone_datagram :: "ipv4_datagram \<Rightarrow> ipv4_datagram" where
  "clone_datagram x = \<lparr>dg_header = dg_header x, dg_payload = clone_refs (dg_payload x)\<rparr>"

subsection \<open>The wire format\<close>

definition ipv4_header_bytes :: "ipv4_header \<Rightarrow> bytes" where
  "ipv4_header_bytes h =
     be_bytes (first_byte h) @ be_bytes (ip_tos h) @ be_bytes (ip_len h) @ be_bytes (ip_id h) @
     be_bytes (fo_field h) @ be_bytes (ip_ttl h) @ be_bytes (ip_proto h) @ be_bytes (ip_cksum h) @
     be_bytes (ip_src h) @ be_bytes (ip_dst h)"

lemma ipv4_header_serialize_flat:
  assumes "ip_ver h = 4"
  shows "\<exists>s'. ipv4_header_serialize h s = Inr s' \<and> se_flat s' = se_flat s @ ipv4_header_bytes h"
  using assms by (simp add: ipv4_header_serialize_def ipv4_header_bytes_def written)

text \<open>The checksum over the header with its checksum field zero.\<close>

definition header_checksum :: "ipv4_header \<Rightarrow> u16" where
  "header_checksum h = checksum_of 0 (ipv4_header_bytes (h\<lparr>ip_cksum := 0\<rparr>))"

lemma ipv4_compute_checksum_eq:
  assumes "ip_ver h = 4"
  shows "ipv4_compute_checksum h = Inr (h\<lparr>ip_cksum := header_checksum h\<rparr>)"
proof -
  obtain s where s: "ipv4_header_serialize (h\<lparr>ip_cksum := 0\<rparr>) serializer_new = Inr s"
    "se_flat s = ipv4_header_bytes (h\<lparr>ip_cksum := 0\<rparr>)"
    using ipv4_header_serialize_flat [of "h\<lparr>ip_cksum := 0\<rparr>" serializer_new] assms by (auto simp: written)
  have "concat (map ref_get (fst (se_finish s))) = se_flat s"
    using se_finish_chunks [of s] by (simp add: chunks_def)
  with s show ?thesis
    by (simp add: ipv4_compute_checksum_def Let_def checksum_add_all_concat header_checksum_def)
qed

text \<open>A header without options, with fields in range and a correct checksum.\<close>

definition valid_header :: "ipv4_header \<Rightarrow> bool" where
  "valid_header h \<longleftrightarrow> ip_ver h = 4 \<and> ip_hlen h = 5 \<and> ip_offset h AND 0x1fff = ip_offset h
     \<and> ip_cksum h = header_checksum h"

lemma first_byte_simple: "ip_ver h = 4 \<Longrightarrow> ip_hlen h = 5 \<Longrightarrow> first_byte h = 0x45"
  by (simp add: first_byte_def)

lemma fo_field_flags:
  assumes "ip_offset h AND 0x1fff = ip_offset h"
  shows "fo_field h AND 0x4000 \<noteq> 0 \<longleftrightarrow> ip_df h" "fo_field h AND 0x2000 \<noteq> 0 \<longleftrightarrow> ip_mf h"
    "fo_field h AND 0x1fff = ip_offset h"
proof -
  have "(x AND 0x1fff) AND 0x4000 = 0" "(x AND 0x1fff) AND 0x2000 = 0" for x :: u16
    by (simp_all add: and.assoc)
  then have off: "ip_offset h AND 0x4000 = 0" "ip_offset h AND 0x2000 = 0"
    using assms by metis+
  show "fo_field h AND 0x4000 \<noteq> 0 \<longleftrightarrow> ip_df h" "fo_field h AND 0x2000 \<noteq> 0 \<longleftrightarrow> ip_mf h"
    "fo_field h AND 0x1fff = ip_offset h"
    unfolding fo_field_def assms
    by (simp_all add: bit.conj_disj_distrib2 off assms)
qed

lemma flatly_finish_parse: "ip_ver h = 4 \<Longrightarrow> flatly (ipv4_finish_parse h)"
proof -
  assume ver: "ip_ver h = 4"
  have "flatly (\<lambda>p. if c then Inr (v, pa_set_error p) else Inr (v :: ipv4_header, p))" for c v
    using flatly_set_error [of v] flatly_return [of v] by (cases c) (simp_all add: preturn_def [abs_def])
  then show ?thesis
    unfolding ipv4_finish_parse_def ipv4_compute_checksum_eq [OF ver] Let_def res_bind_simps ipv4_header.simps
    by (intro flatly_bind flatly_remove_prefix) simp
qed

lemma flatly_checked_finish:
  "flatly (pbind (fail_if (ip_ver h \<noteq> 4)) (\<lambda>_. pbind (fail_if c) (\<lambda>_. unless_error h (ipv4_finish_parse h))))"
proof (cases "ip_ver h = 4")
  case True
  then show ?thesis by (intro flat_intros flatly_finish_parse)
next
  case False
  have "pbind (fail_if (ip_ver h \<noteq> 4)) (\<lambda>_. pbind (fail_if c) (\<lambda>_. unless_error h (ipv4_finish_parse h)))
      = (\<lambda>p. Inr (h, pa_set_error p))"
    using False by (intro ext) (simp add: pbind_def fail_if_def unless_error_def pa_set_error_def)
  then show ?thesis by (simp only: flatly_set_error)
qed

lemma flatly_ipv4_header [flat_intros]: "flatly (ipv4_header_parse old)"
  unfolding ipv4_header_parse_def Let_def
  by (intro flatly_bind flatly_integer flatly_checked_finish)

lemma reads_finish_parse:
  assumes "valid_header h"
  shows "reads (ipv4_finish_parse h) [] h"
proof -
  have ver: "ip_ver h = 4" and skip: "unat (ip_hlen h) * 4 - IPV4_LENGTH = 0"
    and ck: "header_checksum h = ip_cksum h"
    using assms by (simp_all add: valid_header_def IPV4_LENGTH_def)
  have "reads (\<lambda>p. Inr (h, p)) [] h" using reads_return [of h] by (simp add: preturn_def [abs_def])
  from reads_bind [of "\<lambda>p. map_sum id (Pair ()) (pa_remove_prefix 0 p)" "[]" "()" "\<lambda>_ p. Inr (h, p)",
      OF reads_remove_prefix_0 this]
  show ?thesis
    unfolding ipv4_finish_parse_def ipv4_compute_checksum_eq [OF ver] Let_def res_bind_simps skip
    by (simp add: ck)
qed

lemma reads_ipv4_header:
  assumes v: "valid_header h"
  shows "reads (ipv4_header_parse old) (ipv4_header_bytes h) h"
proof -
  have f: "first_byte h = 0x45" and fields: "ip_ver h = 4" "ip_hlen h = 5"
    using v first_byte_simple by (simp_all add: valid_header_def)
  note fo = fo_field_flags [of h]
  have eq: "\<lparr>ip_ver = drop_bit 4 (first_byte h), ip_hlen = first_byte h AND 0x0f, ip_tos = ip_tos h,
      ip_len = ip_len h, ip_id = ip_id h, ip_df = (fo_field h AND 0x4000 \<noteq> 0),
      ip_mf = (fo_field h AND 0x2000 \<noteq> 0), ip_offset = fo_field h AND 0x1fff, ip_ttl = ip_ttl h,
      ip_proto = ip_proto h, ip_cksum = ip_cksum h, ip_src = ip_src h, ip_dst = ip_dst h\<rparr> = h"
  proof -
    have "drop_bit 4 (first_byte h) = ip_ver h" "first_byte h AND 0x0f = ip_hlen h"
      by (simp_all add: f fields)
    moreover have "ip_offset h AND 0x1fff = ip_offset h" using v by (simp add: valid_header_def)
    ultimately show ?thesis using fo by simp
  qed
  have rest: "reads (pbind (fail_if (ip_ver h \<noteq> 4)) (\<lambda>_. pbind (fail_if (ip_hlen h < 5))
      (\<lambda>_. unless_error h (ipv4_finish_parse h)))) ([] @ ([] @ [])) h"
    by (intro reads_bind reads_fail_if reads_unless_error reads_finish_parse v)
      (simp_all add: fields reads_fail_if)
  have split: "ipv4_header_bytes h = be_bytes (first_byte h) @ be_bytes (ip_tos h) @ be_bytes (ip_len h) @
      be_bytes (ip_id h) @ be_bytes (fo_field h) @ be_bytes (ip_ttl h) @ be_bytes (ip_proto h) @
      be_bytes (ip_cksum h) @ be_bytes (ip_src h) @ be_bytes (ip_dst h) @ ([] @ ([] @ []))"
    by (simp add: ipv4_header_bytes_def)
  show ?thesis
    unfolding split ipv4_header_parse_def Let_def
    by (intro reads_bind [OF reads_integer(1)] reads_bind [OF reads_integer(2)] reads_bind [OF reads_integer(3)])
      (simp only: eq rest)
qed

interpretation ipv4: wire_format ipv4_header_bytes ipv4_header_parse valid_header
  by unfold_locales (auto intro: reads_ipv4_header flat_intros)

lemma length_ipv4_header_bytes: "length (ipv4_header_bytes h) = 20"
  by (simp add: ipv4_header_bytes_def)

lemma unat_payload_length:
  assumes "ip_hlen h = 5" "20 \<le> unat (ip_len h)"
  shows "unat (payload_length h) = unat (ip_len h) - 20"
  using assms by (simp add: payload_length_def unat_minus_le word_le_nat_alt)

text \<open>After the error checks the header is of version 4, long enough, and its checksum has
  been recomputed.\<close>

lemma checked_finish_accepts:
  assumes "pbind (fail_if (ip_ver h \<noteq> 4)) (\<lambda>_. pbind (fail_if (ip_hlen h < 5))
      (\<lambda>_. unless_error h (ipv4_finish_parse h))) p = Inr (h', p')" and "\<not> pa_error p'"
  shows "h' = h \<and> ip_ver h = 4 \<and> 5 \<le> ip_hlen h \<and> ip_cksum h = header_checksum h"
proof -
  have ver: "ip_ver h = 4" and hlen: "5 \<le> ip_hlen h" and "ipv4_finish_parse h p = Inr (h', p')"
    using assms
    by (auto simp: pbind_def fail_if_def unless_error_def pa_set_error_def not_less split: if_splits)
  then show ?thesis
    using assms(2) unfolding ipv4_finish_parse_def pbind_def ipv4_compute_checksum_eq [OF ver]
    by (cases h) (auto simp: Let_def pa_set_error_def split: if_splits)
qed

lemma ipv4_header_parse_accepts:
  assumes "ipv4_header_parse old p = Inr (h, p')" and "\<not> pa_error p'"
  shows "ip_ver h = 4 \<and> 5 \<le> ip_hlen h \<and> ip_cksum h = header_checksum h"
proof -
  obtain g q where "pbind (fail_if (ip_ver g \<noteq> 4)) (\<lambda>_. pbind (fail_if (ip_hlen g < 5))
      (\<lambda>_. unless_error g (ipv4_finish_parse g))) q = Inr (h, p')"
    using assms(1) unfolding ipv4_header_parse_def pbind_def [of "parse_integer _"] Let_def
    by (auto simp only: res_bind_eq_Inr split_paired_Ex prod.case)
  from checked_finish_accepts [OF this assms(2)] show ?thesis by blast
qed

lemma parsed_datagram_version:
  assumes "parse_with (ipv4_datagram_parse old) cs = Inr (d, True)"
  shows "ip_ver (dg_header d) = 4"
proof -
  obtain p h p1 p2 payload p3 where p: "ipv4_header_parse (dg_header old) p = Inr (h, p1)"
    "pa_truncate (unat (payload_length h)) p1 = Inr p2" "all_remaining p2 = Inr (payload, p3)" "\<not> pa_error p3"
    "d = \<lparr>dg_header = h, dg_payload = payload\<rparr>"
    using assms by (auto simp: parse_with_def ipv4_datagram_parse_def pbind_def preturn_def map_sum_eq_Inr)
  then have "\<not> pa_error p1" by (auto simp: pa_truncate_def all_remaining_def map_sum_eq_Inr)
  with ipv4_header_parse_accepts [OF p(1)] p(5) show ?thesis by simp
qed

text \<open>A datagram is parsed from any chunks that hold exactly its bytes.\<close>

lemma parse_datagram_packed:
  assumes "valid_header h" and "unat (ip_len h) = 20 + length bs"
    and "\<forall>c\<in>set cs. is_owned c" and "packed cs" and "chunks cs = ipv4_header_bytes h @ bs"
  shows "\<exists>payload. parse_with (ipv4_datagram_parse old) cs = Inr (\<lparr>dg_header = h, dg_payload = payload\<rparr>, True)
    \<and> chunks payload = bs \<and> (\<forall>x\<in>set payload. is_owned x) \<and> packed payload"
proof -
  from ipv4.roundtrip [OF assms(1,3,4,5), of "dg_header old"] obtain p p1 where
    p: "parser_new cs = Inr p" "ipv4_header_parse (dg_header old) p = Inr (h, p1)" "\<not> pa_error p1"
      "pa_ok p1" "bl_rest (pa_input p1) = bs" by blast
  have len: "unat (payload_length h) = length bs"
    using unat_payload_length [of h] assms(1,2) by (simp add: valid_header_def)
  obtain bl where bl: "bl_truncate (pa_input p1) (unat (payload_length h)) = Inr bl" "bl_ok bl" "bl_rest bl = bs"
    using truncate_ok [of "pa_input p1" "unat (payload_length h)"] p(4,5) len by (auto simp: pa_ok_def)
  let ?p2 = "p1\<lparr>pa_input := bl\<rparr>"
  have p2: "pa_truncate (unat (payload_length h)) p1 = Inr ?p2" "pa_ok ?p2"
    using bl by (simp_all add: pa_truncate_def pa_ok_def)
  from all_remaining_ok [OF p2(2)] p(3) bl(3) obtain out p3 where
    "all_remaining ?p2 = Inr (out, p3)" "chunks out = bs" "\<not> pa_error p3" "\<forall>x\<in>set out. is_owned x" "packed out"
    by (auto simp: pa_flat_def)
  with p p2 show ?thesis
    by (simp add: parse_with_def ipv4_datagram_parse_def pbind_def preturn_def)
qed

lemma parse_datagram:
  assumes "valid_header h" and "unat (ip_len h) = 20 + length bs"
    and "\<forall>c\<in>set cs. is_owned c" and "packed cs" and "chunks cs = ipv4_header_bytes h @ bs"
  shows "\<exists>payload. parse_with (ipv4_datagram_parse old) cs = Inr (\<lparr>dg_header = h, dg_payload = payload\<rparr>, True)
    \<and> chunks payload = bs \<and> (\<forall>x\<in>set payload. is_owned x)"
  using parse_datagram_packed [OF assms] by blast

text \<open>A datagram followed by padding in the same buffer: the truncation counts from the start of the
  buffer, where the header was, so it keeps 20 bytes too few, or fewer than the header's.\<close>

lemma shrinks_ipv4_header: "shrinks (ipv4_header_parse h)"
proof -
  have "shrinks (ipv4_finish_parse h)" for h
    unfolding ipv4_finish_parse_def
    by (rule shrinks_bind [OF shrinks_remove_prefix], rule shrinksI)
      (auto simp: Let_def pa_set_error_def drop_0_ex split: if_splits)
  then show ?thesis unfolding ipv4_header_parse_def Let_def by (intro shrink_intros)
qed

lemma padded_datagram:
  assumes "valid_header h" and "unat (ip_len h) = 20 + length bs" and "bs \<noteq> []" and "padding \<noteq> []"
  shows "parse_with (ipv4_datagram_parse old) [Owned (ipv4_header_bytes h @ bs @ padding)] =
    (if length bs < 20 then Inl (Out_of_range ''basic_string::substr'')
     else Inr (\<lparr>dg_header = h, dg_payload = [Owned (take (length bs - 20) bs)]\<rparr>, True))"
proof -
  let ?all = "ipv4_header_bytes h @ bs @ padding"
  note hlen = length_ipv4_header_bytes [of h]
  have cs: "\<forall>c\<in>set [Owned ?all]. is_owned c" "packed [Owned ?all]" "chunks [Owned ?all] = ipv4_header_bytes h @ bs @ padding"
    by simp_all
  from ipv4.roundtrip [OF assms(1) cs, of "dg_header old"] obtain p p1 where
    p: "parser_new [Owned ?all] = Inr p" "ipv4_header_parse (dg_header old) p = Inr (h, p1)" "\<not> pa_error p1"
      "pa_ok p1" "bl_rest (pa_input p1) = bs @ padding" by blast
  have "bl_buffer (pa_input p) = [Owned ?all]"
    using p(1) by (auto simp: parser_new_def buffer_list_new_def is_borrowed_def)
  then obtain k where "bl_buffer (pa_input p1) = drop k [Owned ?all]"
    using shrinksD [OF shrinks_ipv4_header p(2)] by auto
  then have buf: "bl_buffer (pa_input p1) = [Owned ?all]"
    using p(5) assms(3) by (cases k) (auto simp: bl_rest_def)
  have size: "bl_size (pa_input p1) = length bs + length padding"
    using p(4,5) by (simp add: pa_ok_def bl_ok_def)
  have "length ?all - bl_skip (pa_input p1) = length (bs @ padding)"
    using arg_cong [OF p(5), of length] by (simp add: bl_rest_def buf)
  then have skip: "bl_skip (pa_input p1) = 20" using hlen assms(3) by (cases bs) auto
  have len: "unat (payload_length h) = length bs"
    using unat_payload_length [of h] assms(1,2) by (simp add: valid_header_def)
  have cut: "bl_truncate (pa_input p1) (length bs) = Inr ((pa_input p1)\<lparr>bl_buffer := [Owned (take (length bs) ?all)], bl_size := length bs\<rparr>)"
    using assms(3,4) hlen by (simp add: bl_truncate_def size buf)
  have rest: "drop 20 (take (length bs) ?all) = take (length bs - 20) bs"
    by (simp only: drop_take) (simp add: hlen)
  have "length (take (length bs) ?all) = length bs" using hlen by simp
  then show ?thesis
    using p(1-3) assms(3) rest
    by (auto simp: parse_with_def ipv4_datagram_parse_def pbind_def preturn_def pa_truncate_def len cut all_remaining_def
        dump_all_def bl_empty_def skip)
qed

subsection \<open>Properties\<close>

text \<open>A datagram with a valid header whose length field counts its payload survives the
  wire: whatever its serialized bytes are cut into, parsing gives the same header and the
  same payload bytes.\<close>

theorem ipv4_datagram_roundtrip:
  assumes "valid_header (dg_header d)"
    and "unat (ip_len (dg_header d)) = 20 + length (chunks (dg_payload d))"
    and "ipv4_datagram_serialize d serializer_new = Inr s"
    and "\<forall>c\<in>set cs. is_owned c" and "packed cs" and "chunks cs = se_flat s"
  shows "\<exists>payload. parse_with (ipv4_datagram_parse old) cs
      = Inr (\<lparr>dg_header = dg_header d, dg_payload = payload\<rparr>, True)
    \<and> chunks payload = chunks (dg_payload d) \<and> (\<forall>x\<in>set payload. is_owned x)"
proof -
  obtain s0 where "ipv4_header_serialize (dg_header d) serializer_new = Inr s0"
    "se_flat s0 = ipv4_header_bytes (dg_header d)"
    using ipv4_header_serialize_flat [of "dg_header d" serializer_new] assms(1) by (auto simp: valid_header_def written)
  then have "chunks cs = ipv4_header_bytes (dg_header d) @ chunks (dg_payload d)"
    using assms(3,6) by (auto simp: ipv4_datagram_serialize_def written)
  from parse_datagram [OF assms(1,2,4,5) this] show ?thesis .
qed

text \<open>A datagram with four bytes of payload.\<close>

definition demo_header :: ipv4_header where
  "demo_header = default_ipv4_header\<lparr>ip_len := 24, ip_src := 0x0a000001, ip_dst := 0x0a000002, ip_cksum := 0xe6dd\<rparr>"

lemma demo_header_valid: "valid_header demo_header"
  by code_simp

theorem ipv4_datagram_roundtrip_witness:
  "\<exists>payload. parse_with (ipv4_datagram_parse default_datagram)
      [Owned (ipv4_header_bytes demo_header @ [1]), Owned [2, 3, 4]]
    = Inr (\<lparr>dg_header = demo_header, dg_payload = payload\<rparr>, True) \<and> chunks payload = [1, 2, 3, 4]"
proof -
  let ?d = "\<lparr>dg_header = demo_header, dg_payload = [Borrowed [1, 2], Owned [3, 4]]\<rparr>"
  have len: "unat (ip_len (dg_header ?d)) = 20 + length (chunks (dg_payload ?d))"
    by (simp add: demo_header_def)
  have ver: "ip_ver demo_header = 4" using demo_header_valid by (simp add: valid_header_def)
  obtain s where s: "ipv4_datagram_serialize ?d serializer_new = Inr s"
    "se_flat s = ipv4_header_bytes demo_header @ [1, 2, 3, 4]"
    using ipv4_header_serialize_flat [OF ver, of serializer_new]
    by (auto simp: ipv4_datagram_serialize_def written)
  let ?cs = "[Owned (ipv4_header_bytes demo_header @ [1]), Owned [2, 3, 4]]"
  have cs: "\<forall>c\<in>set ?cs. is_owned c" "packed ?cs" "chunks ?cs = se_flat s"
    using s(2) by simp_all
  have v: "valid_header (dg_header ?d)" using demo_header_valid by simp
  show ?thesis using ipv4_datagram_roundtrip [OF v len s(1) cs, of default_datagram] by auto
qed

text \<open>A header is accepted only with version 4, at least five words, and the checksum
  that belongs to it.\<close>

theorem ipv4_accepts_only_valid:
  assumes "parse_with (ipv4_header_parse old) cs = Inr (h, True)"
  shows "ip_ver h = 4 \<and> 5 \<le> ip_hlen h \<and> ip_cksum h = header_checksum h"
proof -
  obtain p p' where "ipv4_header_parse old p = Inr (h, p')" "\<not> pa_error p'"
    using assms by (auto simp: parse_with_def map_sum_eq_Inr)
  then show ?thesis by (rule ipv4_header_parse_accepts)
qed

theorem ipv4_accepts_only_valid_witness:
  "\<exists>h. parse_with (ipv4_header_parse default_ipv4_header) [Owned (ipv4_header_bytes demo_header)] = Inr (h, True)
    \<and> ip_cksum h = header_checksum h"
proof -
  have "parse_with (ipv4_header_parse default_ipv4_header) [Owned (ipv4_header_bytes demo_header)]
      = Inr (demo_header, True)"
    by code_simp
  then show ?thesis using ipv4_accepts_only_valid by blast
qed

text \<open>Parsing a header never fails otherwise than by the error flag, and two ways of
  cutting the same bytes into chunks give the same header, flag and rest.\<close>

theorem ipv4_chunking_irrelevant:
  assumes "pa_ok p" and "pa_ok q" and "pa_flat p = pa_flat q"
  shows "\<exists>h p' q'. ipv4_header_parse old p = Inr (h, p') \<and> ipv4_header_parse old q = Inr (h, q')
    \<and> pa_flat p' = pa_flat q'"
  using ipv4.chunking_irrelevant [OF assms] by blast

theorem ipv4_chunking_irrelevant_witness:
  "\<exists>p q h p' q'. parser_new [Owned [69, 0]] = Inr p \<and> parser_new [Owned [69], Owned [0]] = Inr q
    \<and> ipv4_header_parse default_ipv4_header p = Inr (h, p') \<and> ipv4_header_parse default_ipv4_header q = Inr (h, q')"
proof -
  obtain p q where "parser_new [Owned [69, 0]] = Inr p" "pa_ok p" "pa_flat p = ([69, 0], False)"
    "parser_new [Owned [69], Owned [0]] = Inr q" "pa_ok q" "pa_flat q = ([69, 0], False)"
    using parser_new_ok [of "[Owned [69, 0]]"] parser_new_ok [of "[Owned [69], Owned [0]]"] by auto
  then show ?thesis using ipv4_chunking_irrelevant [of p q default_ipv4_header] by auto
qed

end
