(* ===== verification/Arp.thy ===== *)
theory Arp
  imports Ethernet Ipv4
begin

text \<open>
  ARP messages: \<open>util/arp_message.hh\<close> and \<open>util/arp_message.cc\<close>.
\<close>

record arp_message =
  arp_hardware_type :: u16
  arp_protocol_type :: u16
  arp_hardware_address_size :: u8
  arp_protocol_address_size :: u8
  arp_opcode :: u16
  arp_sender_ethernet :: ethernet_address
  arp_sender_ip :: u32
  arp_target_ethernet :: ethernet_address
  arp_target_ip :: u32

definition ARP_LENGTH :: nat where "ARP_LENGTH = 28"
definition TYPE_ETHERNET :: u16 where "TYPE_ETHERNET = 1"
definition OPCODE_REQUEST :: u16 where "OPCODE_REQUEST = 1"
definition OPCODE_REPLY :: u16 where "OPCODE_REPLY = 2"

definition default_arp_message :: arp_message where
  "default_arp_message =
     \<lparr>arp_hardware_type = TYPE_ETHERNET, arp_protocol_type = TYPE_IPv4, arp_hardware_address_size = 6,
      arp_protocol_address_size = 4, arp_opcode = 0, arp_sender_ethernet = Eth 0 0 0 0 0 0,
      arp_sender_ip = 0, arp_target_ethernet = Eth 0 0 0 0 0 0, arp_target_ip = 0\<rparr>"

definition supported :: "arp_message \<Rightarrow> bool" where
  "supported m \<longleftrightarrow> arp_hardware_type m = TYPE_ETHERNET \<and> arp_protocol_type m = TYPE_IPv4
     \<and> arp_hardware_address_size m = 6 \<and> arp_protocol_address_size m = 4
     \<and> (arp_opcode m = OPCODE_REQUEST \<or> arp_opcode m = OPCODE_REPLY)"

text \<open>The addresses, read after the check of the first five fields.\<close>

definition arp_parse_addresses :: "arp_message \<Rightarrow> parser \<Rightarrow> (arp_message \<times> parser) result" where
  "arp_parse_addresses m =
     pbind (parse_address (arp_sender_ethernet m)) (\<lambda>sender_ethernet.
     pbind (parse_integer (arp_sender_ip m)) (\<lambda>sender_ip.
     pbind (parse_address (arp_target_ethernet m)) (\<lambda>target_ethernet.
     pbind (parse_integer (arp_target_ip m)) (\<lambda>target_ip.
     preturn (m\<lparr>arp_sender_ethernet := sender_ethernet, arp_sender_ip := sender_ip,
                arp_target_ethernet := target_ethernet, arp_target_ip := target_ip\<rparr>)))))"

definition arp_parse :: "arp_message \<Rightarrow> parser \<Rightarrow> (arp_message \<times> parser) result" where
  "arp_parse m =
     pbind (parse_integer (arp_hardware_type m)) (\<lambda>hardware_type.
     pbind (parse_integer (arp_protocol_type m)) (\<lambda>protocol_type.
     pbind (parse_integer (arp_hardware_address_size m)) (\<lambda>hardware_size.
     pbind (parse_integer (arp_protocol_address_size m)) (\<lambda>protocol_size.
     pbind (parse_integer (arp_opcode m)) (\<lambda>opcode.
       let m = m\<lparr>arp_hardware_type := hardware_type, arp_protocol_type := protocol_type,
                 arp_hardware_address_size := hardware_size, arp_protocol_address_size := protocol_size,
                 arp_opcode := opcode\<rparr>
       in if \<not> supported m then (\<lambda>p. Inr (m, pa_set_error p)) else arp_parse_addresses m)))))"

definition arp_serialize :: "arp_message \<Rightarrow> serializer \<Rightarrow> serializer result" where
  "arp_serialize m s =
     (if \<not> supported m
      then Inl (Runtime_error
        ''ARPMessage: unsupported field combination (must be Ethernet/IP, and request or reply)'')
      else Inr
        (serialize_integer (arp_target_ip m) (serialize_address (arp_target_ethernet m)
        (serialize_integer (arp_sender_ip m) (serialize_address (arp_sender_ethernet m)
        (serialize_integer (arp_opcode m) (serialize_integer (arp_protocol_address_size m)
        (serialize_integer (arp_hardware_address_size m) (serialize_integer (arp_protocol_type m)
        (serialize_integer (arp_hardware_type m) s))))))))))"

definition arp_bytes :: "arp_message \<Rightarrow> bytes" where
  "arp_bytes m =
     be_bytes (arp_hardware_type m) @ be_bytes (arp_protocol_type m) @ be_bytes (arp_hardware_address_size m)
     @ be_bytes (arp_protocol_address_size m) @ be_bytes (arp_opcode m)
     @ address_bytes (arp_sender_ethernet m) @ be_bytes (arp_sender_ip m)
     @ address_bytes (arp_target_ethernet m) @ be_bytes (arp_target_ip m)"

lemma arp_serialize_flat:
  "supported m \<Longrightarrow> \<exists>s'. arp_serialize m s = Inr s' \<and> se_flat s' = se_flat s @ arp_bytes m \<and> (se_solid s \<longrightarrow> se_solid s')"
  by (cases "arp_sender_ethernet m"; cases "arp_target_ethernet m")
    (simp add: arp_serialize_def arp_bytes_def written serialize_address_def se_solid_simps address_bytes_def)

lemma flatly_arp_addresses: "flatly (arp_parse_addresses m)"
  unfolding arp_parse_addresses_def by (intro flat_intros)

lemma flatly_arp [flat_intros]: "flatly (arp_parse m)"
  unfolding arp_parse_def Let_def
  by (intro flatly_bind flatly_integer flatly_if flatly_set_error flatly_arp_addresses)

lemma reads_arp_addresses:
  "reads (arp_parse_addresses m)
     (address_bytes s @ be_bytes si @ address_bytes t @ be_bytes ti)
     (m\<lparr>arp_sender_ethernet := s, arp_sender_ip := si, arp_target_ethernet := t, arp_target_ip := ti\<rparr>)"
  unfolding arp_parse_addresses_def
  by (intro reads_bind [OF reads_address] reads_bind [OF reads_integer(3)] reads_last [OF reads_integer(3)] refl)

lemma reads_arp:
  assumes "supported m"
  shows "reads (arp_parse old) (arp_bytes m) m"
proof -
  let ?m = "old\<lparr>arp_hardware_type := arp_hardware_type m, arp_protocol_type := arp_protocol_type m,
    arp_hardware_address_size := arp_hardware_address_size m,
    arp_protocol_address_size := arp_protocol_address_size m, arp_opcode := arp_opcode m\<rparr>"
  have sup: "supported ?m" using assms by (simp add: supported_def)
  have "?m\<lparr>arp_sender_ethernet := arp_sender_ethernet m, arp_sender_ip := arp_sender_ip m,
      arp_target_ethernet := arp_target_ethernet m, arp_target_ip := arp_target_ip m\<rparr> = m" by simp
  then have rest: "reads (arp_parse_addresses ?m) (address_bytes (arp_sender_ethernet m) @ be_bytes (arp_sender_ip m)
      @ address_bytes (arp_target_ethernet m) @ be_bytes (arp_target_ip m)) m"
    using reads_arp_addresses by metis
  show ?thesis
    unfolding arp_parse_def arp_bytes_def Let_def
    by (intro reads_bind [OF reads_integer(1)] reads_bind [OF reads_integer(2)])
      (simp only: sup not_True_eq_False if_False rest)
qed

interpretation arp: wire_format arp_bytes arp_parse supported
  by unfold_locales (auto intro: reads_arp flat_intros)

lemma length_arp_bytes: "length (arp_bytes m) = ARP_LENGTH"
  by (cases "arp_sender_ethernet m"; cases "arp_target_ethernet m")
    (simp add: arp_bytes_def address_bytes_def ARP_LENGTH_def)

lemma parse_arp:
  assumes "supported m" and "\<forall>c\<in>set cs. is_owned c" and "packed cs" and "chunks cs = arp_bytes m @ padding"
  shows "parse_with (arp_parse old) cs = Inr (m, True)"
  using arp.roundtrip [OF assms, of old] by (auto simp: parse_with_def)

subsection \<open>Properties\<close>

text \<open>A supported message survives the wire, whatever its bytes are cut into and
  whatever follows them, such as the padding of a frame.\<close>

theorem arp_roundtrip:
  assumes "supported m" and "arp_serialize m serializer_new = Inr s"
    and "\<forall>c\<in>set cs. is_owned c" and "packed cs" and "chunks cs = se_flat s @ padding"
  shows "parse_with (arp_parse old) cs = Inr (m, True)"
proof -
  have "chunks cs = arp_bytes m @ padding"
    using assms(2,5) arp_serialize_flat [OF assms(1), of serializer_new] by (auto simp: written)
  then show ?thesis by (rule parse_arp [OF assms(1,3,4)])
qed

theorem arp_roundtrip_witness:
  "parse_with (arp_parse default_arp_message)
     [Owned (arp_bytes (default_arp_message\<lparr>arp_opcode := 1, arp_target_ip := 9\<rparr>)), Owned [0, 0]]
   = Inr (default_arp_message\<lparr>arp_opcode := 1, arp_target_ip := 9\<rparr>, True)"
proof -
  let ?m = "default_arp_message\<lparr>arp_opcode := 1, arp_target_ip := 9\<rparr>"
  have sup: "supported ?m" by (simp add: supported_def default_arp_message_def OPCODE_REQUEST_def)
  obtain s where s: "arp_serialize ?m serializer_new = Inr s" "se_flat s = arp_bytes ?m"
    using arp_serialize_flat [OF sup, of serializer_new] by (auto simp: written)
  let ?cs = "[Owned (arp_bytes ?m), Owned [0, 0]]"
  have "arp_bytes ?m \<noteq> []" using length_arp_bytes [of ?m] by (auto simp: ARP_LENGTH_def)
  then have cs: "\<forall>c\<in>set ?cs. is_owned c" "packed ?cs" "chunks ?cs = se_flat s @ [0, 0]"
    using s(2) by simp_all
  show ?thesis by (rule arp_roundtrip [OF sup s(1) cs])
qed

text \<open>Only supported messages are accepted: parsing succeeds with a message only if it
  is an Ethernet/IPv4 request or reply.\<close>

theorem arp_accepts_only_supported:
  assumes "parse_with (arp_parse old) cs = Inr (m, True)"
  shows "supported m"
proof -
  obtain p p' where run: "arp_parse old p = Inr (m, p')" "\<not> pa_error p'"
    using assms by (auto simp: parse_with_def map_sum_eq_Inr)
  then obtain g q where g: "(if \<not> supported g then (\<lambda>p. Inr (g, pa_set_error p)) else arp_parse_addresses g) q
      = Inr (m, p')"
    unfolding arp_parse_def pbind_def [of "parse_integer _"] Let_def
    by (auto simp only: res_bind_eq_Inr split_paired_Ex prod.case)
  have sup: "supported g" using g run(2) by (auto simp: pa_set_error_def split: if_splits)
  then have "arp_parse_addresses g q = Inr (m, p')" using g by simp
  then have "arp_hardware_type m = arp_hardware_type g" "arp_protocol_type m = arp_protocol_type g"
    "arp_hardware_address_size m = arp_hardware_address_size g"
    "arp_protocol_address_size m = arp_protocol_address_size g" "arp_opcode m = arp_opcode g"
    unfolding arp_parse_addresses_def pbind_def preturn_def by auto
  then show ?thesis using sup by (simp add: supported_def)
qed

theorem arp_accepts_only_supported_witness:
  "\<exists>m. parse_with (arp_parse default_arp_message)
     [Owned (arp_bytes (default_arp_message\<lparr>arp_opcode := 2\<rparr>))] = Inr (m, True) \<and> supported m"
proof -
  have "parse_with (arp_parse default_arp_message) [Owned (arp_bytes (default_arp_message\<lparr>arp_opcode := 2\<rparr>))]
      = Inr (default_arp_message\<lparr>arp_opcode := 2\<rparr>, True)"
    by code_simp
  then show ?thesis using arp_accepts_only_supported by blast
qed

end
