(* ===== verification/Network_Interface.thy ===== *)
theory Network_Interface
  imports Arp Address
begin

text \<open>
  The network interface: \<open>src/network_interface.hh\<close> and \<open>src/network_interface.cc\<close>.

  The output port is an object behind an abstract class, to which the interface only hands
  frames: every operation returns, beside the new state, the frames it transmits, in order.
  The unordered maps are finite mappings; the loops over them erase entries one by one and
  do not depend on the order, so they are filters. A queue is a list, its front first.
  Pushing a datagram on a queue copies it, so that its payload becomes owned.
\<close>

record arp_entry =
  ether_addr :: ethernet_address
  time_created :: u64

record network_interface =
  ni_name :: string
  ethernet_address :: ethernet_address
  ip_address :: address
  datagrams_received :: "ipv4_datagram list"
  datagrams_waiting :: "(u32, ipv4_datagram list) mapping"
  arp_requests_waiting :: "(u32, u64) mapping"
  ip_ether_map :: "(u32, arp_entry) mapping"
  current_time :: u64

text \<open>The constructor: a null port is refused, and the debugging output asks for the text of
  the IP address, which throws for an address that is not of the Internet.\<close>

definition network_interface_new ::
  "(bytes \<Rightarrow> int + string \<times> string) \<Rightarrow> string \<Rightarrow> bool \<Rightarrow> ethernet_address \<Rightarrow> address \<Rightarrow> network_interface result"
where
  "network_interface_new getnameinfo name port_is_null ethernet ip =
     (if port_is_null then Inl (Runtime_error ''OutputPort: returned null pointer'')
      else res_bind (ip_port getnameinfo ip) (\<lambda>_.
        Inr \<lparr>ni_name = name, ethernet_address = ethernet, ip_address = ip, datagrams_received = [],
             datagrams_waiting = Mapping.empty, arp_requests_waiting = Mapping.empty,
             ip_ether_map = Mapping.empty, current_time = 0\<rparr>))"

text \<open>A frame from this interface.\<close>

definition frame_to :: "network_interface \<Rightarrow> ethernet_address \<Rightarrow> u16 \<Rightarrow> bytes ref list \<Rightarrow> ethernet_frame" where
  "frame_to s dst type payload =
     \<lparr>ef_header = \<lparr>eh_dst = dst, eh_src = ethernet_address s, eh_type = type\<rparr>, ef_payload = payload\<rparr>"

definition ipv4_frame :: "network_interface \<Rightarrow> ethernet_address \<Rightarrow> ipv4_datagram \<Rightarrow> ethernet_frame result" where
  "ipv4_frame s dst dgram = map_sum id (frame_to s dst TYPE_IPv4) (serialize_with (ipv4_datagram_serialize dgram))"

definition arp_request :: "network_interface \<Rightarrow> u32 \<Rightarrow> u32 \<Rightarrow> arp_message" where
  "arp_request s our_ip target = default_arp_message\<lparr>arp_opcode := OPCODE_REQUEST,
     arp_sender_ethernet := ethernet_address s, arp_sender_ip := our_ip, arp_target_ip := target\<rparr>"

definition arp_reply :: "network_interface \<Rightarrow> u32 \<Rightarrow> arp_message \<Rightarrow> arp_message" where
  "arp_reply s our_ip msg = default_arp_message\<lparr>arp_opcode := OPCODE_REPLY,
     arp_sender_ethernet := ethernet_address s, arp_sender_ip := our_ip,
     arp_target_ethernet := arp_sender_ethernet msg, arp_target_ip := arp_sender_ip msg\<rparr>"

definition arp_frame :: "network_interface \<Rightarrow> ethernet_address \<Rightarrow> arp_message \<Rightarrow> ethernet_frame result" where
  "arp_frame s dst msg = map_sum id (frame_to s dst TYPE_ARP) (serialize_with (arp_serialize msg))"

definition push_waiting :: "u32 \<Rightarrow> ipv4_datagram \<Rightarrow> network_interface \<Rightarrow> network_interface" where
  "push_waiting ip dgram s = s\<lparr>datagrams_waiting :=
     Mapping.update ip (Mapping.lookup_default [] (datagrams_waiting s) ip @ [clone_datagram dgram]) (datagrams_waiting s)\<rparr>"

definition send_datagram ::
  "network_interface \<Rightarrow> ipv4_datagram \<Rightarrow> address \<Rightarrow> (network_interface \<times> ethernet_frame list) result" where
  "send_datagram s dgram next_hop =
     res_bind (ipv4_numeric next_hop) (\<lambda>ip.
       case Mapping.lookup (ip_ether_map s) ip of
         Some entry \<Rightarrow> res_bind (ipv4_frame s (ether_addr entry) dgram) (\<lambda>frame. Inr (s, [frame]))
       | None \<Rightarrow>
           (case Mapping.lookup (arp_requests_waiting s) ip of
              None \<Rightarrow>
                res_bind (ipv4_numeric (ip_address s)) (\<lambda>our_ip.
                res_bind (arp_frame s ETHERNET_BROADCAST (arp_request s our_ip ip)) (\<lambda>frame.
                Inr (push_waiting ip dgram
                       (s\<lparr>datagrams_waiting := Mapping.update ip [] (datagrams_waiting s),
                          arp_requests_waiting := Mapping.update ip (current_time s) (arp_requests_waiting s)\<rparr>),
                     [frame])))
            | Some _ \<Rightarrow> Inr (push_waiting ip dgram s, [])))"

text \<open>The reply to a request for this interface's IP address.\<close>

definition arp_answer :: "network_interface \<Rightarrow> arp_message \<Rightarrow> ethernet_frame list result" where
  "arp_answer s msg =
     (if arp_opcode msg = OPCODE_REQUEST
      then res_bind (ipv4_numeric (ip_address s)) (\<lambda>our_ip.
        if arp_target_ip msg = our_ip
        then map_sum id (\<lambda>f. [f]) (arp_frame s (arp_sender_ethernet msg) (arp_reply s our_ip msg))
        else Inr [])
      else Inr [])"

text \<open>The loop that empties a queue of waiting datagrams: the frames transmitted, what is still in the
  queue, and the exception that stopped the loop, if one did.\<close>

fun flush_waiting ::
  "network_interface \<Rightarrow> ethernet_address \<Rightarrow> ipv4_datagram list \<Rightarrow> ethernet_frame list \<times> ipv4_datagram list \<times> cpp_error option"
where
  "flush_waiting s dst [] = ([], [], None)"
| "flush_waiting s dst (d # ds) =
     (case ipv4_frame s dst d of
        Inl e \<Rightarrow> ([], d # ds, Some e)
      | Inr f \<Rightarrow> (case flush_waiting s dst ds of (fs, rest, e) \<Rightarrow> (f # fs, rest, e)))"

text \<open>Everything that an ARP message does: the state, the frames transmitted and the exception thrown,
  whose state is that of the moment when it is thrown, with the sender's address learnt, the reply
  and the first datagrams transmitted and the others still queued.\<close>

definition recv_arp_effects ::
  "network_interface \<Rightarrow> arp_message \<Rightarrow> network_interface \<times> ethernet_frame list \<times> cpp_error option" where
  "recv_arp_effects s msg =
     (let entry = \<lparr>ether_addr = arp_sender_ethernet msg, time_created = current_time s\<rparr>;
          this_ip = arp_sender_ip msg;
          s = s\<lparr>ip_ether_map := Mapping.update this_ip entry (ip_ether_map s)\<rparr>
      in case arp_answer s msg of
           Inl e \<Rightarrow> (s, [], Some e)
         | Inr reply \<Rightarrow>
             (case Mapping.lookup (datagrams_waiting s) this_ip of
                None \<Rightarrow> (s, reply, None)
              | Some queue \<Rightarrow>
                  (case flush_waiting s (arp_sender_ethernet msg) queue of
                     (frames, rest, None) \<Rightarrow>
                       (s\<lparr>datagrams_waiting := Mapping.delete this_ip (datagrams_waiting s)\<rparr>, reply @ frames, None)
                   | (frames, rest, Some e) \<Rightarrow>
                       (s\<lparr>datagrams_waiting := Mapping.update this_ip rest (datagrams_waiting s)\<rparr>, reply @ frames, Some e))))"

text \<open>The outcome without what an exception leaves behind, for callers that do not come back to the
  interface after one.\<close>

fun completed :: "'a \<times> 'b \<times> cpp_error option \<Rightarrow> ('a \<times> 'b) result" where
  "completed (s, out, None) = Inr (s, out)"
| "completed (s, out, Some e) = Inl e"

definition recv_arp ::
  "network_interface \<Rightarrow> arp_message \<Rightarrow> (network_interface \<times> ethernet_frame list) result" where
  "recv_arp s msg = completed (recv_arp_effects s msg)"

definition recv_frame ::
  "network_interface \<Rightarrow> ethernet_frame \<Rightarrow> (network_interface \<times> ethernet_frame list) result" where
  "recv_frame s frame =
     (if eh_dst (ef_header frame) \<noteq> ethernet_address s \<and> eh_dst (ef_header frame) \<noteq> ETHERNET_BROADCAST
      then Inr (s, [])
      else if eh_type (ef_header frame) = TYPE_IPv4
      then res_bind (parse_with (ipv4_datagram_parse default_datagram)
             (ef_payload frame)) (\<lambda>(dgram, ok).
           Inr (if ok then s\<lparr>datagrams_received := datagrams_received s @ [clone_datagram dgram]\<rparr> else s, []))
      else if eh_type (ef_header frame) = TYPE_ARP
      then res_bind (parse_with (arp_parse default_arp_message) (ef_payload frame)) (\<lambda>(msg, ok).
           if ok then recv_arp s msg else Inr (s, []))
      else Inr (s, []))"

definition ARP_ENTRY_TTL :: u64 where "ARP_ENTRY_TTL = 30000"
definition ARP_REQUEST_TTL :: u64 where "ARP_REQUEST_TTL = 5000"

definition expired :: "network_interface \<Rightarrow> u32 \<Rightarrow> bool" where
  "expired s ip = (case Mapping.lookup (arp_requests_waiting s) ip of
       None \<Rightarrow> False
     | Some sent \<Rightarrow> current_time s - sent > ARP_REQUEST_TTL)"

definition ni_tick :: "network_interface \<Rightarrow> u64 \<Rightarrow> network_interface" where
  "ni_tick s ms_since_last_tick =
     (let s = s\<lparr>current_time := current_time s + ms_since_last_tick\<rparr>;
          s = s\<lparr>ip_ether_map := Mapping.filter (\<lambda>_ e. \<not> current_time s - time_created e > ARP_ENTRY_TTL) (ip_ether_map s)\<rparr>
      in s\<lparr>datagrams_waiting := Mapping.filter (\<lambda>ip _. \<not> expired s ip) (datagrams_waiting s),
           arp_requests_waiting := Mapping.filter (\<lambda>ip _. \<not> expired s ip) (arp_requests_waiting s)\<rparr>)"

subsection \<open>What a frame carries\<close>

text \<open>A datagram that can be serialized, and the frame that carries it.\<close>

definition sendable :: "ipv4_datagram \<Rightarrow> bool" where
  "sendable d \<longleftrightarrow> ip_ver (dg_header d) = 4"

definition carries :: "network_interface \<Rightarrow> ethernet_address \<Rightarrow> ipv4_datagram \<Rightarrow> ethernet_frame \<Rightarrow> bool" where
  "carries s dst d f \<longleftrightarrow> ipv4_frame s dst d = Inr f"

lemma ipv4_frame_sendable:
  assumes "sendable d"
  shows "\<exists>payload. ipv4_frame s dst d = Inr (frame_to s dst TYPE_IPv4 payload)
    \<and> chunks payload = ipv4_header_bytes (dg_header d) @ chunks (dg_payload d)"
proof -
  obtain t where "ipv4_header_serialize (dg_header d) serializer_new = Inr t"
    "se_flat t = ipv4_header_bytes (dg_header d)"
    using ipv4_header_serialize_flat [of "dg_header d" serializer_new] assms
    by (auto simp: sendable_def written)
  then show ?thesis
    by (simp add: ipv4_frame_def serialize_with_def ipv4_datagram_serialize_def)
      (intro exI conjI, rule refl, simp add: written)
qed

lemma ipv4_frame_unsendable:
  "\<not> sendable d \<Longrightarrow> ipv4_frame s dst d = Inl (Runtime_error ''wrong IP version'')"
  by (simp add: sendable_def ipv4_frame_def serialize_with_def ipv4_datagram_serialize_def ipv4_header_serialize_def)

lemma ipv4_frame_Inr:
  "ipv4_frame s dst d = Inr f \<Longrightarrow> sendable d \<and> ef_header f = \<lparr>eh_dst = dst, eh_src = ethernet_address s, eh_type = TYPE_IPv4\<rparr>
    \<and> chunks (ef_payload f) = ipv4_header_bytes (dg_header d) @ chunks (dg_payload d)"
  using ipv4_frame_sendable [of d s dst] ipv4_frame_unsendable [of d s dst]
  by (cases "sendable d") (auto simp: frame_to_def)

text \<open>A queued datagram is a copy, which makes the same frame.\<close>

lemma ipv4_frame_clone [simp]: "ipv4_frame s dst (clone_datagram d) = ipv4_frame s dst d"
proof -
  have step: "serialize_ref (ref_borrow (ref_copy x)) t = serialize_ref (ref_borrow x) t" for x :: "bytes ref" and t
    by (simp add: ref_borrow_def ref_copy_def)
  have "serialize_refs (clone_refs xs) t = serialize_refs xs t" for xs t
    unfolding serialize_refs_def clone_refs_def by (induction xs arbitrary: t) (simp_all add: step)
  then show ?thesis
    by (simp add: ipv4_frame_def serialize_with_def ipv4_datagram_serialize_def clone_datagram_def cong: if_cong)
      (simp add: comp_def sum.map_comp)
qed

lemma sendable_clone [simp]: "sendable (clone_datagram d) = sendable d"
  by (simp add: sendable_def clone_datagram_def)

lemma arp_frame_supported:
  assumes "supported m"
  shows "\<exists>payload. arp_frame s dst m = Inr (frame_to s dst TYPE_ARP payload) \<and> chunks payload = arp_bytes m"
  using arp_serialize_flat [OF assms, of serializer_new]
  by (auto simp: arp_frame_def serialize_with_def written)

lemma supported_request: "supported (arp_request s ip target)"
  and supported_reply: "supported (arp_reply s ip m)"
  by (simp_all add: supported_def arp_request_def arp_reply_def default_arp_message_def OPCODE_REQUEST_def OPCODE_REPLY_def)

text \<open>The frames for a whole queue, which exist when every datagram can be serialized.\<close>

fun flush_queue ::
  "network_interface \<Rightarrow> ethernet_address \<Rightarrow> ipv4_datagram list \<Rightarrow> ethernet_frame list result" where
  "flush_queue s dst [] = Inr []"
| "flush_queue s dst (d # ds) =
     res_bind (ipv4_frame s dst d) (\<lambda>f. map_sum id (Cons f) (flush_queue s dst ds))"

lemma flush_waiting_queue:
  "flush_queue s dst ds = (case flush_waiting s dst ds of (fs, rest, None) \<Rightarrow> Inr fs | (fs, rest, Some e) \<Rightarrow> Inl e)"
  by (induction ds) (auto split: sum.splits prod.splits option.splits)

text \<open>Where the loop stops: all before has been transmitted, and the rest begins with the datagram that
  cannot be.\<close>

lemma flush_waiting_stops:
  "flush_waiting s dst ds = (fs, rest, e) \<Longrightarrow> \<exists>sent. ds = sent @ rest \<and> list_all2 (carries s dst) sent fs
    \<and> (e = None \<longleftrightarrow> rest = []) \<and> (rest \<noteq> [] \<longrightarrow> \<not> sendable (hd rest))"
proof (induction ds arbitrary: fs rest)
  case (Cons d ds)
  show ?case
  proof (cases "ipv4_frame s dst d")
    case (Inl err)
    then have "\<not> sendable d" using ipv4_frame_sendable [of d s dst] by auto
    with Inl Cons.prems show ?thesis by (intro exI [of _ "[]"]) auto
  next
    case (Inr f)
    then obtain fs' where "flush_waiting s dst ds = (fs', rest, e)" "fs = f # fs'"
      using Cons.prems by (auto split: prod.splits)
    with Cons.IH [of fs' rest] Inr show ?thesis
      by (metis (no_types, lifting) append_Cons carries_def list_all2_Cons)
  qed
qed simp

lemma flush_queue_Inr:
  "flush_queue s dst ds = Inr fs \<Longrightarrow> list_all2 (carries s dst) ds fs"
  by (induction ds arbitrary: fs) (auto simp: map_sum_eq_Inr carries_def)

lemma flush_queue_sendable: "\<forall>d\<in>set ds. sendable d \<Longrightarrow> \<exists>fs. flush_queue s dst ds = Inr fs"
  by (induction ds) (auto dest!: ipv4_frame_sendable [of _ s dst] simp: map_sum_eq_Inr)

subsection \<open>The invariant\<close>

text \<open>How long ago a time was, by the interface's clock.\<close>

definition age :: "network_interface \<Rightarrow> u64 \<Rightarrow> nat" where
  "age s t = unat (current_time s - t)"

definition ni_ok :: "network_interface \<Rightarrow> bool" where
  "ni_ok s \<longleftrightarrow>
     (\<forall>ip q. Mapping.lookup (datagrams_waiting s) ip = Some q \<longrightarrow>
        Mapping.lookup (arp_requests_waiting s) ip \<noteq> None \<and> Mapping.lookup (ip_ether_map s) ip = None)
   \<and> (\<forall>ip t. Mapping.lookup (arp_requests_waiting s) ip = Some t \<longrightarrow> age s t \<le> 5000)
   \<and> (\<forall>ip e. Mapping.lookup (ip_ether_map s) ip = Some e \<longrightarrow> age s (time_created e) \<le> 30000)
   \<and> (\<forall>ip t e. Mapping.lookup (arp_requests_waiting s) ip = Some t \<longrightarrow>
        Mapping.lookup (ip_ether_map s) ip = Some e \<longrightarrow> age s (time_created e) \<le> age s t)"

lemma age_now [simp]: "age s (current_time s) = 0"
  by (simp add: age_def)

lemma ni_ok_new: "network_interface_new g name isnull e a = Inr s \<Longrightarrow> ni_ok s"
  by (auto simp: network_interface_new_def ni_ok_def split: if_splits)

lemma lookup_default_update [simp]:
  "Mapping.lookup_default d (Mapping.update k v m) k' = (if k' = k then v else Mapping.lookup_default d m k')"
  by (simp add: Mapping.lookup_default_def Mapping.lookup_update')

text \<open>The outcomes of \<open>send_datagram\<close>.\<close>

lemma send_datagram_cases:
  assumes "send_datagram s d hop = Inr (s', out)"
  obtains (known) ip e f where "ipv4_numeric hop = Inr ip" "Mapping.lookup (ip_ether_map s) ip = Some e"
      "ipv4_frame s (ether_addr e) d = Inr f" "s' = s" "out = [f]"
    | (asked) ip t where "ipv4_numeric hop = Inr ip" "Mapping.lookup (ip_ether_map s) ip = None"
      "Mapping.lookup (arp_requests_waiting s) ip = Some t" "s' = push_waiting ip d s" "out = []"
    | (fresh) ip our_ip f where "ipv4_numeric hop = Inr ip" "Mapping.lookup (ip_ether_map s) ip = None"
      "Mapping.lookup (arp_requests_waiting s) ip = None" "ipv4_numeric (ip_address s) = Inr our_ip"
      "arp_frame s ETHERNET_BROADCAST (arp_request s our_ip ip) = Inr f" "out = [f]"
      "s' = s\<lparr>datagrams_waiting := Mapping.update ip [clone_datagram d] (datagrams_waiting s),
              arp_requests_waiting := Mapping.update ip (current_time s) (arp_requests_waiting s)\<rparr>"
proof -
  obtain ip where ip: "ipv4_numeric hop = Inr ip"
    using assms by (auto simp: send_datagram_def)
  show thesis
  proof (cases "Mapping.lookup (ip_ether_map s) ip")
    case (Some e)
    with ip assms show thesis by (auto simp: send_datagram_def intro: known)
  next
    case ether: None
    show thesis
    proof (cases "Mapping.lookup (arp_requests_waiting s) ip")
      case (Some t)
      with ip ether assms show thesis by (auto simp: send_datagram_def intro: asked)
    next
      case None
      with ip ether assms show thesis
        by (auto simp: send_datagram_def push_waiting_def Mapping.update_update intro: fresh)
    qed
  qed
qed

lemma ni_ok_asked:
  "ni_ok s \<Longrightarrow> Mapping.lookup (ip_ether_map s) ip = None \<Longrightarrow> Mapping.lookup (arp_requests_waiting s) ip = Some t
    \<Longrightarrow> ni_ok (push_waiting ip d s)"
  unfolding ni_ok_def push_waiting_def age_def
  by (simp add: Mapping.lookup_update')

lemma ni_ok_fresh:
  "ni_ok s \<Longrightarrow> Mapping.lookup (ip_ether_map s) ip = None \<Longrightarrow>
    ni_ok (s\<lparr>datagrams_waiting := Mapping.update ip q (datagrams_waiting s),
             arp_requests_waiting := Mapping.update ip (current_time s) (arp_requests_waiting s)\<rparr>)"
  unfolding ni_ok_def age_def
  by (simp add: Mapping.lookup_update')

lemma ni_ok_send: "ni_ok s \<Longrightarrow> send_datagram s d hop = Inr (s', out) \<Longrightarrow> ni_ok s'"
  by (erule send_datagram_cases) (simp_all add: ni_ok_asked ni_ok_fresh)

text \<open>The state after an ARP message: the sender is known and nothing waits for it.\<close>

definition learnt :: "network_interface \<Rightarrow> arp_message \<Rightarrow> network_interface" where
  "learnt s msg = s\<lparr>ip_ether_map := Mapping.update (arp_sender_ip msg)
        \<lparr>ether_addr = arp_sender_ethernet msg, time_created = current_time s\<rparr> (ip_ether_map s),
      datagrams_waiting := Mapping.delete (arp_sender_ip msg) (datagrams_waiting s)\<rparr>"

lemma frames_address:
  "ethernet_address s' = ethernet_address s \<Longrightarrow> ipv4_frame s' dst d = ipv4_frame s dst d"
  "ethernet_address s' = ethernet_address s \<Longrightarrow> arp_frame s' dst m = arp_frame s dst m"
  "ethernet_address s' = ethernet_address s \<Longrightarrow> arp_reply s' ip m = arp_reply s ip m"
  "ethernet_address s' = ethernet_address s \<Longrightarrow> arp_request s' ip tip = arp_request s ip tip"
  by (simp_all add: ipv4_frame_def arp_frame_def arp_reply_def arp_request_def frame_to_def [abs_def])

lemma flush_waiting_address:
  "ethernet_address s' = ethernet_address s \<Longrightarrow> flush_waiting s' dst ds = flush_waiting s dst ds"
  by (induction ds) (auto simp: frames_address(1) [of s' s] split: sum.splits)

lemma arp_answer_address:
  "ethernet_address s' = ethernet_address s \<Longrightarrow> ip_address s' = ip_address s \<Longrightarrow> arp_answer s' m = arp_answer s m"
  by (simp add: arp_answer_def frames_address [of s' s] cong: if_cong)

lemma delete_unknown: "Mapping.lookup m k = None \<Longrightarrow> Mapping.delete k m = m"
  by (metis Mapping_delete_if_notin_keys domIff keys_dom_lookup)

lemma recv_arp_eq:
  "recv_arp s msg = res_bind (arp_answer s msg) (\<lambda>reply.
     res_bind (flush_queue s (arp_sender_ethernet msg) (Mapping.lookup_default [] (datagrams_waiting s) (arp_sender_ip msg)))
       (\<lambda>frames. Inr (learnt s msg, reply @ frames)))"
proof -
  let ?s = "s\<lparr>ip_ether_map := Mapping.update (arp_sender_ip msg)
    \<lparr>ether_addr = arp_sender_ethernet msg, time_created = current_time s\<rparr> (ip_ether_map s)\<rparr>"
  have "arp_answer ?s msg = arp_answer s msg" by (rule arp_answer_address) simp_all
  moreover have "flush_waiting ?s dst q = flush_waiting s dst q" for dst q by (rule flush_waiting_address) simp
  moreover have "learnt s msg = ?s" if "Mapping.lookup (datagrams_waiting s) (arp_sender_ip msg) = None"
    using that by (simp add: learnt_def delete_unknown)
  ultimately show ?thesis
    by (cases "arp_answer s msg"; cases "Mapping.lookup (datagrams_waiting s) (arp_sender_ip msg)")
      (auto simp: recv_arp_def recv_arp_effects_def Let_def Mapping.lookup_default_def learnt_def flush_waiting_queue
        split: prod.splits option.splits)
qed

text \<open>An exception leaves the sender's address learnt and the datagrams from the bad one on in the queue.\<close>

lemma recv_arp_throws:
  assumes "recv_arp_effects s msg = (s', out, Some e)" and "arp_answer s msg = Inr reply"
  shows "\<exists>sent rest frames. Mapping.lookup_default [] (datagrams_waiting s) (arp_sender_ip msg) = sent @ rest
    \<and> rest \<noteq> [] \<and> \<not> sendable (hd rest) \<and> out = reply @ frames \<and> list_all2 (carries s (arp_sender_ethernet msg)) sent frames
    \<and> Mapping.lookup_default [] (datagrams_waiting s') (arp_sender_ip msg) = rest
    \<and> Mapping.lookup (ip_ether_map s') (arp_sender_ip msg)
        = Some \<lparr>ether_addr = arp_sender_ethernet msg, time_created = current_time s\<rparr>"
proof -
  let ?s = "s\<lparr>ip_ether_map := Mapping.update (arp_sender_ip msg)
    \<lparr>ether_addr = arp_sender_ethernet msg, time_created = current_time s\<rparr> (ip_ether_map s)\<rparr>"
  have answer: "arp_answer ?s msg = Inr reply" using assms(2) arp_answer_address [of ?s s msg] by simp
  obtain queue frames rest where q: "Mapping.lookup (datagrams_waiting s) (arp_sender_ip msg) = Some queue"
    "flush_waiting ?s (arp_sender_ethernet msg) queue = (frames, rest, Some e)" "out = reply @ frames"
    "s' = ?s\<lparr>datagrams_waiting := Mapping.update (arp_sender_ip msg) rest (datagrams_waiting s)\<rparr>"
    using assms(1) answer by (auto simp: recv_arp_effects_def Let_def split: option.splits prod.splits)
  obtain sent where "queue = sent @ rest" "list_all2 (carries ?s (arp_sender_ethernet msg)) sent frames"
    "rest \<noteq> []" "\<not> sendable (hd rest)"
    using flush_waiting_stops [OF q(2)] by auto
  moreover have "carries ?s = carries s"
    using frames_address(1) [of ?s s] by (auto simp: carries_def fun_eq_iff)
  ultimately show ?thesis using q by (auto simp: Mapping.lookup_default_def Mapping.lookup_update')
qed

lemma lookup_delete_eq: "Mapping.lookup (Mapping.delete k m) k' = (if k' = k then None else Mapping.lookup m k')"
  by simp

lemma ni_ok_learnt: "ni_ok s \<Longrightarrow> ni_ok (learnt s msg)"
  unfolding ni_ok_def learnt_def age_def
  by (simp add: Mapping.lookup_update' lookup_delete_eq)

lemma ni_ok_recv_arp: "ni_ok s \<Longrightarrow> recv_arp s msg = Inr (s', out) \<Longrightarrow> ni_ok s'"
  by (auto simp: recv_arp_eq ni_ok_learnt)

text \<open>The outcomes of \<open>recv_frame\<close>.\<close>

lemma recv_frame_cases:
  assumes "recv_frame s frame = Inr (s', out)"
  obtains (ignored) "s' = s" "out = []"
    | (datagram) d where "eh_type (ef_header frame) = TYPE_IPv4"
      "parse_with (ipv4_datagram_parse default_datagram) (ef_payload frame) = Inr (d, True)"
      "s' = s\<lparr>datagrams_received := datagrams_received s @ [clone_datagram d]\<rparr>" "out = []"
    | (arp) msg where "eh_type (ef_header frame) = TYPE_ARP"
      "parse_with (arp_parse default_arp_message) (ef_payload frame) = Inr (msg, True)"
      "recv_arp s msg = Inr (s', out)"
  using assms
  by (auto simp: recv_frame_def split: if_splits prod.splits)

lemma ni_ok_received [simp]: "ni_ok (s\<lparr>datagrams_received := q\<rparr>) = ni_ok s"
  by (simp add: ni_ok_def age_def)

lemma ni_ok_recv: "ni_ok s \<Longrightarrow> recv_frame s frame = Inr (s', out) \<Longrightarrow> ni_ok s'"
  by (erule recv_frame_cases) (simp_all add: ni_ok_recv_arp)

subsection \<open>Time\<close>

lemma unat_plus_64: "unat (a :: u64) + unat b < 2 ^ 64 \<Longrightarrow> unat (a + b) = unat a + unat b"
  by (rule unat_plus_no_overflow) simp

lemma ni_tick_unchanged [simp]:
  "current_time (ni_tick s ms) = current_time s + ms" "ethernet_address (ni_tick s ms) = ethernet_address s"
  "ip_address (ni_tick s ms) = ip_address s" "datagrams_received (ni_tick s ms) = datagrams_received s"
  by (simp_all add: ni_tick_def Let_def)

lemma expired_iff:
  "expired s ip \<longleftrightarrow> (\<exists>t. Mapping.lookup (arp_requests_waiting s) ip = Some t \<and> 5000 < age s t)"
  by (simp add: expired_def age_def ARP_REQUEST_TTL_def word_less_nat_alt split: option.splits)

lemma entry_expired_iff: "current_time s - t > ARP_ENTRY_TTL \<longleftrightarrow> 30000 < age s t"
  by (simp add: age_def ARP_ENTRY_TTL_def word_less_nat_alt)

lemma lookup_tick:
  "Mapping.lookup (ip_ether_map (ni_tick s ms)) ip = (case Mapping.lookup (ip_ether_map s) ip of None \<Rightarrow> None
     | Some e \<Rightarrow> if age (ni_tick s ms) (time_created e) > 30000 then None else Some e)"
  "Mapping.lookup (arp_requests_waiting (ni_tick s ms)) ip = (case Mapping.lookup (arp_requests_waiting s) ip of None \<Rightarrow> None
     | Some t \<Rightarrow> if age (ni_tick s ms) t > 5000 then None else Some t)"
  "Mapping.lookup (datagrams_waiting (ni_tick s ms)) ip = (case Mapping.lookup (datagrams_waiting s) ip of None \<Rightarrow> None
     | Some q \<Rightarrow> (case Mapping.lookup (arp_requests_waiting s) ip of None \<Rightarrow> Some q
         | Some t \<Rightarrow> if age (ni_tick s ms) t > 5000 then None else Some q))"
proof -
  have a: "age (ni_tick s ms) t = age (s\<lparr>current_time := current_time s + ms\<rparr>) t" for t
    by (simp add: age_def)
  show "Mapping.lookup (ip_ether_map (ni_tick s ms)) ip = (case Mapping.lookup (ip_ether_map s) ip of None \<Rightarrow> None
     | Some e \<Rightarrow> if age (ni_tick s ms) (time_created e) > 30000 then None else Some e)"
    unfolding a by (simp add: ni_tick_def Let_def Mapping.lookup_filter age_def ARP_ENTRY_TTL_def word_less_nat_alt split: option.splits)
  show "Mapping.lookup (arp_requests_waiting (ni_tick s ms)) ip = (case Mapping.lookup (arp_requests_waiting s) ip of None \<Rightarrow> None
     | Some t \<Rightarrow> if age (ni_tick s ms) t > 5000 then None else Some t)"
    unfolding a by (simp add: ni_tick_def Let_def Mapping.lookup_filter expired_iff age_def split: option.splits)
  show "Mapping.lookup (datagrams_waiting (ni_tick s ms)) ip = (case Mapping.lookup (datagrams_waiting s) ip of None \<Rightarrow> None
     | Some q \<Rightarrow> (case Mapping.lookup (arp_requests_waiting s) ip of None \<Rightarrow> Some q
         | Some t \<Rightarrow> if age (ni_tick s ms) t > 5000 then None else Some q))"
    unfolding a by (simp add: ni_tick_def Let_def Mapping.lookup_filter expired_iff age_def split: option.splits)
qed

lemma age_tick: "age s t + unat ms < 2 ^ 64 \<Longrightarrow> age (ni_tick s ms) t = age s t + unat ms"
proof -
  have "current_time s + ms - t = (current_time s - t) + ms" by simp
  then show "age s t + unat ms < 2 ^ 64 \<Longrightarrow> age (ni_tick s ms) t = age s t + unat ms"
    unfolding age_def ni_tick_unchanged by (simp only: unat_plus_64)
qed

text \<open>A tick short enough that no age overflows.\<close>

definition sane_tick :: "u64 \<Rightarrow> bool" where
  "sane_tick ms \<longleftrightarrow> unat ms + 30000 < 2 ^ 64"

lemma age_sane_tick: "sane_tick ms \<Longrightarrow> age s t \<le> 30000 \<Longrightarrow> age (ni_tick s ms) t = age s t + unat ms"
  by (rule age_tick) (simp add: sane_tick_def)

lemma ni_okD:
  assumes "ni_ok s"
  shows "Mapping.lookup (datagrams_waiting s) ip = Some q \<Longrightarrow> Mapping.lookup (ip_ether_map s) ip = None"
    "Mapping.lookup (datagrams_waiting s) ip = Some q \<Longrightarrow> Mapping.lookup (arp_requests_waiting s) ip \<noteq> None"
    "Mapping.lookup (arp_requests_waiting s) ip = Some t \<Longrightarrow> age s t \<le> 5000"
    "Mapping.lookup (ip_ether_map s) ip = Some e \<Longrightarrow> age s (time_created e) \<le> 30000"
    "Mapping.lookup (arp_requests_waiting s) ip = Some t \<Longrightarrow> Mapping.lookup (ip_ether_map s) ip = Some e
      \<Longrightarrow> age s (time_created e) \<le> age s t"
  using assms unfolding ni_ok_def by blast+

lemma ni_ok_tick:
  assumes ok: "ni_ok s" and ms: "sane_tick ms"
  shows "ni_ok (ni_tick s ms)"
  unfolding ni_ok_def
proof (intro conjI allI impI)
  fix ip q assume "Mapping.lookup (datagrams_waiting (ni_tick s ms)) ip = Some q"
  then show "Mapping.lookup (arp_requests_waiting (ni_tick s ms)) ip \<noteq> None"
    "Mapping.lookup (ip_ether_map (ni_tick s ms)) ip = None"
    using ni_okD(1,2) [OF ok, of ip q] by (auto simp: lookup_tick split: option.splits if_splits)
next
  fix ip t e
  assume "Mapping.lookup (arp_requests_waiting (ni_tick s ms)) ip = Some t"
    "Mapping.lookup (ip_ether_map (ni_tick s ms)) ip = Some e"
  then have look: "Mapping.lookup (arp_requests_waiting s) ip = Some t" "Mapping.lookup (ip_ether_map s) ip = Some e"
    by (auto simp: lookup_tick split: option.splits if_splits)
  show "age (ni_tick s ms) (time_created e) \<le> age (ni_tick s ms) t"
    using ni_okD(3) [OF ok look(1)] ni_okD(5) [OF ok look] age_sane_tick [OF ms, of s]
    by simp
qed (auto simp: lookup_tick split: option.splits if_splits)

subsection \<open>The abstract view: one neighbour at a time\<close>

text \<open>What the interface knows of the host at an IP address: nothing; that a request is out
  since some time, with the datagrams that wait for the answer; or its Ethernet address and
  since when.\<close>

datatype neighbour =
    Unknown
  | Resolving u64 "ipv4_datagram list"
  | Resolved ethernet_address u64

definition neighbour :: "network_interface \<Rightarrow> u32 \<Rightarrow> neighbour" where
  "neighbour s ip = (case Mapping.lookup (ip_ether_map s) ip of
       Some e \<Rightarrow> Resolved (ether_addr e) (time_created e)
     | None \<Rightarrow> (case Mapping.lookup (arp_requests_waiting s) ip of
           Some t \<Rightarrow> Resolving t (Mapping.lookup_default [] (datagrams_waiting s) ip)
         | None \<Rightarrow> Unknown))"

fun nb_send :: "u64 \<Rightarrow> ipv4_datagram \<Rightarrow> neighbour \<Rightarrow> neighbour" where
  "nb_send now d Unknown = Resolving now [d]"
| "nb_send now d (Resolving t q) = Resolving t (q @ [d])"
| "nb_send now d (Resolved e t) = Resolved e t"

definition nb_learn :: "u64 \<Rightarrow> ethernet_address \<Rightarrow> neighbour \<Rightarrow> neighbour" where
  "nb_learn now e n = Resolved e now"

fun nb_tick :: "u64 \<Rightarrow> neighbour \<Rightarrow> neighbour" where
  "nb_tick now Unknown = Unknown"
| "nb_tick now (Resolving t q) = (if unat (now - t) > 5000 then Unknown else Resolving t q)"
| "nb_tick now (Resolved e t) = (if unat (now - t) > 30000 then Unknown else Resolved e t)"

text \<open>What is transmitted: a question for the address, or datagrams to an Ethernet address.\<close>

datatype action = Ask u32 | Forward ethernet_address ipv4_datagram

fun nb_send_actions :: "u32 \<Rightarrow> ipv4_datagram \<Rightarrow> neighbour \<Rightarrow> action list" where
  "nb_send_actions ip d Unknown = [Ask ip]"
| "nb_send_actions ip d (Resolving t q) = []"
| "nb_send_actions ip d (Resolved e t) = [Forward e d]"

fun nb_learn_actions :: "ethernet_address \<Rightarrow> neighbour \<Rightarrow> action list" where
  "nb_learn_actions e (Resolving t q) = map (Forward e) q"
| "nb_learn_actions e _ = []"

fun performs :: "network_interface \<Rightarrow> action \<Rightarrow> ethernet_frame \<Rightarrow> bool" where
  "performs s (Ask ip) f \<longleftrightarrow>
     (\<exists>our_ip. ipv4_numeric (ip_address s) = Inr our_ip \<and> arp_frame s ETHERNET_BROADCAST (arp_request s our_ip ip) = Inr f)"
| "performs s (Forward e d) f \<longleftrightarrow> carries s e d f"

lemma lookup_default_None: "Mapping.lookup m k = None \<Longrightarrow> Mapping.lookup_default d m k = d"
  by (simp add: Mapping.lookup_default_def)

lemma not_waiting:
  assumes "ni_ok s" and "\<forall>t q. neighbour s ip \<noteq> Resolving t q"
  shows "Mapping.lookup_default [] (datagrams_waiting s) ip = []"
  using assms ni_okD(1,2) [OF assms(1), of ip]
  by (cases "Mapping.lookup (datagrams_waiting s) ip")
    (force simp: neighbour_def Mapping.lookup_default_def split: option.splits)+

lemma lookup_default_delete: "Mapping.lookup_default d (Mapping.delete k m) k' =
   (if k' = k then d else Mapping.lookup_default d m k')"
  by (simp add: Mapping.lookup_default_def lookup_delete_eq)

lemma neighbour_learnt:
  "neighbour (learnt s msg) = (neighbour s)(arp_sender_ip msg := nb_learn (current_time s) (arp_sender_ethernet msg) n)"
  by (rule ext) (simp add: neighbour_def learnt_def nb_learn_def Mapping.lookup_update' lookup_default_delete
      split: option.splits)

lemma send_datagram_returns:
  assumes "ipv4_numeric next_hop = Inr ip" and "ipv4_numeric (ip_address s) = Inr our_ip" and "sendable d"
  shows "\<exists>s' out. send_datagram s d next_hop = Inr (s', out)"
proof (cases "Mapping.lookup (ip_ether_map s) ip")
  case (Some e)
  then show ?thesis
    using assms(1) ipv4_frame_sendable [OF assms(3), of s "ether_addr e"] by (auto simp: send_datagram_def)
next
  case None
  then show ?thesis
    using assms(1,2) arp_frame_supported [OF supported_request, of s ETHERNET_BROADCAST s our_ip ip]
    by (cases "Mapping.lookup (arp_requests_waiting s) ip") (auto simp: send_datagram_def)
qed

text \<open>An interface that has just been made.\<close>

definition fresh_interface :: "ethernet_address \<Rightarrow> u32 \<Rightarrow> network_interface" where
  "fresh_interface e ip = \<lparr>ni_name = ''eth0'', ethernet_address = e, ip_address = ipv4_address ip, datagrams_received = [],
     datagrams_waiting = Mapping.empty, arp_requests_waiting = Mapping.empty,
     ip_ether_map = Mapping.empty, current_time = 0\<rparr>"

lemma fresh_interface_new:
  "network_interface_new (\<lambda>_. Inr (''10.0.0.1'', ''0'')) ''eth0'' False e (ipv4_address ip) = Inr (fresh_interface e ip)"
proof -
  have "stoi ''0'' = Inr 0" by code_simp
  then show ?thesis
    by (simp add: network_interface_new_def fresh_interface_def ip_port_def ss_family_ipv4_address)
qed

lemma fresh_interface_ok [simp]: "ni_ok (fresh_interface e ip)"
  by (rule ni_ok_new [OF fresh_interface_new])

lemma fresh_interface_simps [simp]:
  "ethernet_address (fresh_interface e ip) = e" "ip_address (fresh_interface e ip) = ipv4_address ip"
  "current_time (fresh_interface e ip) = 0" "neighbour (fresh_interface e ip) x = Unknown"
  "datagrams_received (fresh_interface e ip) = []"
  by (simp_all add: fresh_interface_def neighbour_def Mapping.lookup_empty)

definition demo_datagram :: ipv4_datagram where
  "demo_datagram = \<lparr>dg_header = demo_header, dg_payload = [Owned [1, 2, 3, 4]]\<rparr>"

lemma demo_datagram_sendable [simp]: "sendable demo_datagram"
  by (simp add: sendable_def demo_datagram_def demo_header_def default_ipv4_header_def)

lemma demo_send:
  "\<exists>s out. send_datagram (fresh_interface (Eth 2 0 0 0 0 1) 1) demo_datagram (ipv4_address 9) = Inr (s, out)
    \<and> ni_ok s \<and> neighbour s 9 = Resolving 0 [clone_datagram demo_datagram]
    \<and> Mapping.lookup_default [] (datagrams_waiting s) 9 = [clone_datagram demo_datagram] \<and> current_time s = 0"
proof -
  let ?s = "fresh_interface (Eth 2 0 0 0 0 1) 1"
  obtain s out where run: "send_datagram ?s demo_datagram (ipv4_address 9) = Inr (s, out)"
    using send_datagram_returns [of "ipv4_address 9" 9 ?s 1 demo_datagram] by auto
  then have "neighbour s 9 = Resolving 0 [clone_datagram demo_datagram]
    \<and> Mapping.lookup_default [] (datagrams_waiting s) 9 = [clone_datagram demo_datagram] \<and> current_time s = 0"
    by (auto elim!: send_datagram_cases simp: push_waiting_def fresh_interface_def neighbour_def Mapping.lookup_empty)
  with run ni_ok_send [OF fresh_interface_ok run] show ?thesis by blast
qed

lemma demo_send_asks:
  assumes "send_datagram (fresh_interface (Eth 2 0 0 0 0 1) 1) demo_datagram (ipv4_address 9) = Inr (s, out)"
  shows "\<exists>f. f \<in> set out \<and> performs (fresh_interface (Eth 2 0 0 0 0 1) 1) (Ask 9) f"
  using assms by (cases rule: send_datagram_cases) (simp_all add: fresh_interface_def Mapping.lookup_empty)

subsection \<open>Properties: refinement\<close>

text \<open>C3: sending is the abstract step of one neighbour. A datagram for a known host is
  transmitted to it at once; for a host that is being resolved it is queued behind the
  others and nothing is transmitted; for an unknown host one request is broadcast and the
  datagram waits. Every other neighbour is left as it is.\<close>

theorem send_datagram_refines:
  assumes "ni_ok s" and "send_datagram s d next_hop = Inr (s', out)" and "ipv4_numeric next_hop = Inr ip"
  shows "neighbour s' = (neighbour s)(ip := nb_send (current_time s) (clone_datagram d) (neighbour s ip))
    \<and> list_all2 (performs s) (nb_send_actions ip d (neighbour s ip)) out
    \<and> ni_ok s' \<and> datagrams_received s' = datagrams_received s"
proof (intro conjI)
  show "ni_ok s'" by (rule ni_ok_send) (rule assms)+
  have "datagrams_received s' = datagrams_received s
    \<and> neighbour s' = (neighbour s)(ip := nb_send (current_time s) (clone_datagram d) (neighbour s ip))
    \<and> list_all2 (performs s) (nb_send_actions ip d (neighbour s ip)) out"
    using assms(2)
  proof (cases rule: send_datagram_cases)
    case (known ip' e f)
    then show ?thesis using assms(3) by (auto simp: neighbour_def carries_def fun_eq_iff)
  next
    case (asked ip' t)
    then show ?thesis using assms(3)
      by (auto simp: neighbour_def push_waiting_def fun_eq_iff split: option.splits)
  next
    case (fresh ip' our_ip f)
    then show ?thesis using assms(3)
      by (auto simp: neighbour_def fun_eq_iff Mapping.lookup_update' split: option.splits)
  qed
  then show "neighbour s' = (neighbour s)(ip := nb_send (current_time s) (clone_datagram d) (neighbour s ip))"
    "list_all2 (performs s) (nb_send_actions ip d (neighbour s ip)) out"
    "datagrams_received s' = datagrams_received s" by simp_all
qed

theorem send_datagram_refines_witness:
  "\<exists>s' out. send_datagram (fresh_interface (Eth 2 0 0 0 0 1) 1) demo_datagram (ipv4_address 9) = Inr (s', out)
    \<and> neighbour s' 9 = Resolving 0 [clone_datagram demo_datagram] \<and> length out = 1"
proof -
  obtain s' out where run:
    "send_datagram (fresh_interface (Eth 2 0 0 0 0 1) 1) demo_datagram (ipv4_address 9) = Inr (s', out)"
    using demo_send by blast
  from send_datagram_refines [OF fresh_interface_ok run ipv4_numeric_address] run show ?thesis
    by (auto simp: list_all2_Cons1)
qed

text \<open>C4: an ARP message teaches its sender's address: the neighbour is resolved as of now,
  exactly the datagrams that waited for it are transmitted to it, in the order in which they
  came, after a reply if the message was a request for this interface, and nothing waits any
  more. Every other neighbour is left as it is.\<close>

theorem recv_arp_refines:
  assumes "ni_ok s" and "recv_arp s msg = Inr (s', out)"
  shows "neighbour s' = (neighbour s)(arp_sender_ip msg :=
        nb_learn (current_time s) (arp_sender_ethernet msg) (neighbour s (arp_sender_ip msg)))
    \<and> (\<exists>reply frames. out = reply @ frames \<and> arp_answer s msg = Inr reply
      \<and> list_all2 (performs s) (nb_learn_actions (arp_sender_ethernet msg) (neighbour s (arp_sender_ip msg))) frames)
    \<and> ni_ok s'"
proof -
  let ?ip = "arp_sender_ip msg" and ?e = "arp_sender_ethernet msg"
  obtain reply frames where s': "s' = learnt s msg" "out = reply @ frames" "arp_answer s msg = Inr reply"
    "flush_queue s ?e (Mapping.lookup_default [] (datagrams_waiting s) ?ip) = Inr frames"
    using assms(2) by (auto simp: recv_arp_eq)
  have carried: "list_all2 (carries s ?e) (Mapping.lookup_default [] (datagrams_waiting s) ?ip) frames"
    using s'(4) by (rule flush_queue_Inr)
  have forward: "(\<lambda>d. performs s (Forward ?e d)) = carries s ?e" by (simp add: fun_eq_iff)
  have "list_all2 (performs s) (nb_learn_actions ?e (neighbour s ?ip)) frames"
  proof (cases "neighbour s ?ip")
    case (Resolving t q)
    then have "q = Mapping.lookup_default [] (datagrams_waiting s) ?ip"
      by (auto simp: neighbour_def split: option.splits)
    then show ?thesis using carried Resolving by (simp only: nb_learn_actions.simps list.rel_map forward)
  qed (use not_waiting [OF assms(1), of ?ip] carried in simp_all)
  then show ?thesis
    using neighbour_learnt ni_ok_learnt [OF assms(1)] s' by blast
qed

theorem recv_arp_refines_witness:
  "\<exists>s out s' f. send_datagram (fresh_interface (Eth 2 0 0 0 0 1) 1) demo_datagram (ipv4_address 9) = Inr (s, out)
    \<and> recv_arp s (default_arp_message\<lparr>arp_opcode := 2, arp_sender_ethernet := Eth 2 0 0 0 0 9, arp_sender_ip := 9\<rparr>)
        = Inr (s', [f])
    \<and> neighbour s' 9 = Resolved (Eth 2 0 0 0 0 9) 0 \<and> carries s (Eth 2 0 0 0 0 9) (clone_datagram demo_datagram) f"
proof -
  let ?m = "default_arp_message\<lparr>arp_opcode := 2, arp_sender_ethernet := Eth 2 0 0 0 0 9, arp_sender_ip := 9\<rparr>"
  obtain s out where run: "send_datagram (fresh_interface (Eth 2 0 0 0 0 1) 1) demo_datagram (ipv4_address 9) = Inr (s, out)"
    and ok: "ni_ok s" and nb: "neighbour s 9 = Resolving 0 [clone_datagram demo_datagram]"
    and wait: "Mapping.lookup_default [] (datagrams_waiting s) 9 = [clone_datagram demo_datagram]"
    and time: "current_time s = 0"
    using demo_send by blast
  have noreply: "arp_answer s ?m = Inr []" by (simp add: arp_answer_def OPCODE_REQUEST_def)
  obtain s' out' where recv: "recv_arp s ?m = Inr (s', out')"
    using flush_queue_sendable [of "[clone_datagram demo_datagram]" s "Eth 2 0 0 0 0 9"]
    by (auto simp: recv_arp_eq wait noreply)
  have "neighbour s' 9 = Resolved (Eth 2 0 0 0 0 9) 0"
    "list_all2 (performs s) [Forward (Eth 2 0 0 0 0 9) (clone_datagram demo_datagram)] out'"
    using recv_arp_refines [OF ok recv] nb time noreply by (auto simp: nb_learn_def)
  then obtain f where "out' = [f]" "carries s (Eth 2 0 0 0 0 9) (clone_datagram demo_datagram) f"
    by (auto simp: list_all2_Cons1)
  with run recv \<open>neighbour s' 9 = _\<close> show ?thesis by blast
qed

text \<open>C36: time passes for every neighbour on its own: a tick forgets the address of a host
  after more than 30 seconds, and gives up on a request, dropping what waits for it, after
  more than 5 seconds.\<close>

theorem ni_tick_refines:
  assumes "ni_ok s" and "sane_tick ms"
  shows "neighbour (ni_tick s ms) ip = nb_tick (current_time s + ms) (neighbour s ip) \<and> ni_ok (ni_tick s ms)"
proof
  show "ni_ok (ni_tick s ms)" by (rule ni_ok_tick) (rule assms)+
  note age = age_sane_tick [OF assms(2), of s]
  have now: "unat (current_time s + ms - t) = age (ni_tick s ms) t" for t by (simp add: age_def)
  show "neighbour (ni_tick s ms) ip = nb_tick (current_time s + ms) (neighbour s ip)"
  proof (cases "Mapping.lookup (ip_ether_map s) ip")
    case None
    then show ?thesis
      by (cases "Mapping.lookup (arp_requests_waiting s) ip")
        (auto simp: neighbour_def lookup_tick now Mapping.lookup_default_def split: option.splits)
  next
    case (Some e)
    note e = this
    show ?thesis
    proof (cases "Mapping.lookup (arp_requests_waiting s) ip")
      case None
      with e show ?thesis by (simp add: neighbour_def lookup_tick now)
    next
      case (Some t)
      have "age s (time_created e) \<le> age s t" "age s (time_created e) \<le> 30000" "age s t \<le> 5000"
        using ni_okD(3,4,5) [OF assms(1)] Some e by blast+
      then have "age (ni_tick s ms) (time_created e) \<le> age (ni_tick s ms) t" by (simp add: age)
      with e Some show ?thesis by (auto simp: neighbour_def lookup_tick now)
    qed
  qed
qed

theorem ni_tick_refines_witness:
  "\<exists>s out. send_datagram (fresh_interface (Eth 2 0 0 0 0 1) 1) demo_datagram (ipv4_address 9) = Inr (s, out)
    \<and> neighbour (ni_tick s 5000) 9 = Resolving 0 [clone_datagram demo_datagram] \<and> neighbour (ni_tick s 5001) 9 = Unknown"
proof -
  obtain s out where run: "send_datagram (fresh_interface (Eth 2 0 0 0 0 1) 1) demo_datagram (ipv4_address 9) = Inr (s, out)"
    and ok: "ni_ok s" and nb: "neighbour s 9 = Resolving 0 [clone_datagram demo_datagram]" and time: "current_time s = 0"
    using demo_send by blast
  have "sane_tick 5000" "sane_tick 5001" by (simp_all add: sane_tick_def)
  then show ?thesis
    using ni_tick_refines [OF ok, of _ 9] run nb time by (intro exI [of _ s] exI [of _ out]) simp
qed

end
