(* ===== verification/Router.thy ===== *)
theory Router
  imports Network_Interface
begin

text \<open>
  The router: \<open>src/router.hh\<close> and \<open>src/router.cc\<close>. The interfaces are shared objects, so
  they live in a heap and the router holds pointers to them; a pointer is never null
  (\<open>notnull\<close>) and may occur twice. Every operation returns, beside the new heap, the frames
  that each interface has transmitted, in order.
\<close>

unbundle bit_operations_syntax

type_synonym heap = "nat \<Rightarrow> network_interface"
type_synonym transmission = "nat \<times> ethernet_frame list"

record route =
  route_prefix :: u32
  prefix_length :: u8
  next_hop :: "address option"
  interface_num :: nat

record router =
  interfaces :: "nat list"
  routes :: "route list"

definition router_new :: router where
  "router_new = \<lparr>interfaces = [], routes = []\<rparr>"

definition add_interface :: "router \<Rightarrow> nat option \<Rightarrow> (router \<times> nat) result" where
  "add_interface r interface = (case interface of
       None \<Rightarrow> Inl (Runtime_error ''add_interface: returned null pointer'')
     | Some p \<Rightarrow> let r = r\<lparr>interfaces := interfaces r @ [p]\<rparr> in Inr (r, length (interfaces r) - 1))"

definition interface_at :: "router \<Rightarrow> nat \<Rightarrow> nat result" where
  "interface_at r n = (if n < length (interfaces r) then Inr (interfaces r ! n)
     else Inl (Out_of_range ''vector::_M_range_check''))"

definition add_route :: "router \<Rightarrow> u32 \<Rightarrow> u8 \<Rightarrow> address option \<Rightarrow> nat \<Rightarrow> router" where
  "add_route r prefix len hop num = r\<lparr>routes := routes r @
     [\<lparr>route_prefix = prefix, prefix_length = len, next_hop = hop, interface_num = num\<rparr>]\<rparr>"

text \<open>A shift by a negative amount, when the prefix is longer than 32 bits, is undefined.\<close>

definition route_mask :: "u8 \<Rightarrow> u32 result" where
  "route_mask len = (if len = 0 then Inr 0
     else if unat len \<le> 32 then Inr (push_bit (32 - unat len) (NOT 0))
     else Inl (Undefined_behaviour ''shift by a negative amount''))"

text \<open>The search: the routes from index \<open>i\<close> on, the best index and its length so far.\<close>

fun best_route_loop :: "u32 \<Rightarrow> route list \<Rightarrow> int \<Rightarrow> int \<times> int \<Rightarrow> (int \<times> int) result" where
  "best_route_loop dest [] i best = Inr best"
| "best_route_loop dest (route # rs) i (best_index, max_length) =
     res_bind (route_mask (prefix_length route)) (\<lambda>m.
       best_route_loop dest rs (i + 1)
         (if dest AND m = route_prefix route AND m \<and> int (unat (prefix_length route)) > max_length
          then (i, int (unat (prefix_length route))) else (best_index, max_length)))"

definition best_index :: "router \<Rightarrow> u32 \<Rightarrow> int result" where
  "best_index r dest = map_sum id fst (best_route_loop dest (routes r) 0 (-1, -1))"

text \<open>What happens to one datagram that has been taken from a queue.\<close>

definition route_datagram :: "router \<Rightarrow> heap \<Rightarrow> ipv4_datagram \<Rightarrow> (heap \<times> transmission list) result" where
  "route_datagram r heap d =
     (let dest = ip_dst (dg_header d)
      in res_bind (best_index r dest) (\<lambda>best.
         if best = -1 then Inr (heap, [])
         else if ip_ttl (dg_header d) \<le> 1 then Inr (heap, [])
         else
           let h = (dg_header d)\<lparr>ip_ttl := ip_ttl (dg_header d) - 1\<rparr>
           in res_bind (ipv4_compute_checksum h) (\<lambda>h.
              let d = d\<lparr>dg_header := h\<rparr>; best_route = routes r ! nat best
              in res_bind (case next_hop best_route of Some hop \<Rightarrow> Inr hop | None \<Rightarrow> from_ipv4_numeric dest) (\<lambda>next_hop_addr.
                 res_bind (interface_at r (interface_num best_route)) (\<lambda>p.
                 res_bind (send_datagram (heap p) d next_hop_addr) (\<lambda>(s, out).
                 Inr (heap(p := s), [(p, out)])))))))"

text \<open>Taking the front of the queue of an interface; the front is copied.\<close>

definition pop_received :: "heap \<Rightarrow> nat \<Rightarrow> heap" where
  "pop_received heap p = heap(p := (heap p)\<lparr>datagrams_received := tl (datagrams_received (heap p))\<rparr>)"

subsection \<open>The interface that the router relies on\<close>

text \<open>A link: sending does not change what has been received, and returns for a datagram of
  version 4 and an IPv4 next hop.\<close>

locale link_layer =
  fixes send :: "'i \<Rightarrow> ipv4_datagram \<Rightarrow> address \<Rightarrow> ('i \<times> 'f list) result"
    and received :: "'i \<Rightarrow> ipv4_datagram list" and ready :: "'i \<Rightarrow> bool"
  assumes send_received: "send s d hop = Inr (s', out) \<Longrightarrow> received s' = received s"
    and send_ready: "send s d hop = Inr (s', out) \<Longrightarrow> ready s \<Longrightarrow> ready s'"
    and send_returns: "ready s \<Longrightarrow> sendable d \<Longrightarrow> ipv4_numeric hop = Inr ip \<Longrightarrow> \<exists>s' out. send s d hop = Inr (s', out)"
begin

lemma heap_received: "send (heap p) d hop = Inr (s', out) \<Longrightarrow> received ((heap(p := s')) q) = received (heap q)"
  using send_received by simp

lemma heap_ready: "send (heap p) d hop = Inr (s', out) \<Longrightarrow> \<forall>q. ready (heap q) \<Longrightarrow> ready ((heap(p := s')) q)"
  using send_ready by simp

lemma heap_send:
  assumes "\<forall>q. ready (heap q)" "sendable d" "ipv4_numeric hop = Inr ip"
  shows "\<exists>s' out. send (heap p) d hop = Inr (s', out) \<and> (\<forall>q. ready ((heap(p := s')) q))
    \<and> (\<forall>q. received ((heap(p := s')) q) = received (heap q))"
proof -
  obtain s' out where run: "send (heap p) d hop = Inr (s', out)"
    using send_returns [of "heap p" d hop ip] assms by blast
  then show ?thesis using heap_received [of heap p d hop s' out] heap_ready [of heap p d hop s' out] run assms(1) by blast
qed

end

definition ni_ready :: "network_interface \<Rightarrow> bool" where
  "ni_ready s \<longleftrightarrow> ni_ok s \<and> (\<exists>ip. ipv4_numeric (ip_address s) = Inr ip)"

interpretation eth_link: link_layer send_datagram datagrams_received ni_ready
proof
  fix s s' d hop out ip
  { assume run: "send_datagram s d hop = Inr (s', out)"
    then show "datagrams_received s' = datagrams_received s"
      by (rule send_datagram_cases) (simp_all add: push_waiting_def)
    have "ip_address s' = ip_address s"
      using run by (rule send_datagram_cases) (simp_all add: push_waiting_def)
    moreover assume "ni_ready s"
    ultimately show "ni_ready s'" using ni_ok_send [OF _ run] by (simp add: ni_ready_def) }
  assume "ni_ready s" "sendable d" "ipv4_numeric hop = Inr ip"
  then show "\<exists>s' out. send_datagram s d hop = Inr (s', out)"
    using send_datagram_returns by (auto simp: ni_ready_def)
qed

lemma route_datagram_received:
  "route_datagram r heap d = Inr (heap', out) \<Longrightarrow> datagrams_received (heap' q) = datagrams_received (heap q)"
  using eth_link.heap_received [of heap] by (auto simp: route_datagram_def Let_def split: if_splits)

subsection \<open>The loops of \<open>route\<close>\<close>

function drain :: "router \<Rightarrow> heap \<Rightarrow> nat \<Rightarrow> (heap \<times> transmission list) result" where
  "drain r heap p = (case datagrams_received (heap p) of
       [] \<Rightarrow> Inr (heap, [])
     | d # _ \<Rightarrow> res_bind (route_datagram r (pop_received heap p) (clone_datagram d)) (\<lambda>(heap, out).
         map_sum id (apsnd ((@) out)) (drain r heap p)))"
  by pat_completeness auto
termination
proof (relation "measure (\<lambda>(r, heap, p). length (datagrams_received (heap p)))")
  fix r heap p d ds heap' out and x :: "heap \<times> transmission list"
  assume "datagrams_received (heap p) = d # ds"
    and "route_datagram r (pop_received heap p) (clone_datagram d) = Inr x" "(heap', out) = x"
  then have "datagrams_received (heap' p) = ds"
    using route_datagram_received [of r "pop_received heap p" _ heap' out p] by (auto simp: pop_received_def)
  then show "((r, heap', p), r, heap, p) \<in> measure (\<lambda>(r, heap, p). length (datagrams_received (heap p)))"
    using \<open>datagrams_received (heap p) = d # ds\<close> by simp
qed simp

declare drain.simps [simp del]

fun route_interfaces :: "router \<Rightarrow> heap \<Rightarrow> nat list \<Rightarrow> (heap \<times> transmission list) result" where
  "route_interfaces r heap [] = Inr (heap, [])"
| "route_interfaces r heap (p # ps) = res_bind (drain r heap p) (\<lambda>(heap, out).
     map_sum id (apsnd ((@) out)) (route_interfaces r heap ps))"

definition route_all :: "router \<Rightarrow> heap \<Rightarrow> (heap \<times> transmission list) result" where
  "route_all r heap = route_interfaces r heap (interfaces r)"

text \<open>What holds after a call that returns, whatever the table.\<close>

lemma ni_ready_received [simp]: "ni_ready (s\<lparr>datagrams_received := q\<rparr>) = ni_ready s"
  by (simp add: ni_ready_def)

lemma route_datagram_ready:
  "route_datagram r heap d = Inr (heap', out) \<Longrightarrow> \<forall>q. ni_ready (heap q) \<Longrightarrow> \<forall>q. ni_ready (heap' q)"
  using eth_link.heap_ready [of heap] by (auto simp: route_datagram_def Let_def split: if_splits)

lemma drain_keeps:
  "drain r heap p = Inr (heap', out) \<Longrightarrow> \<forall>q. ni_ready (heap q) \<Longrightarrow>
    (\<forall>q. ni_ready (heap' q)) \<and> (\<forall>q. set (datagrams_received (heap' q)) \<subseteq> set (datagrams_received (heap q)))"
proof (induction "length (datagrams_received (heap p))" arbitrary: heap heap' out)
  case 0
  then show ?case by (subst (asm) drain.simps) simp
next
  case (Suc n)
  then obtain d ds where q: "datagrams_received (heap p) = d # ds" by (cases "datagrams_received (heap p)") auto
  obtain heap1 out1 out2 where step: "route_datagram r (pop_received heap p) (clone_datagram d) = Inr (heap1, out1)"
    and rest: "drain r heap1 p = Inr (heap', out2)"
    using Suc.prems(1) q by (subst (asm) drain.simps) (auto simp: map_sum_eq_Inr)
  have rec: "datagrams_received (heap1 x) = (if x = p then ds else datagrams_received (heap x))" for x
    using route_datagram_received [OF step, of x] q by (simp add: pop_received_def)
  have "\<forall>x. ni_ready (pop_received heap p x)" using Suc.prems(2) by (simp add: pop_received_def)
  then have "\<forall>x. ni_ready (heap1 x)" by (rule route_datagram_ready [OF step])
  then have "(\<forall>x. ni_ready (heap' x)) \<and> (\<forall>x. set (datagrams_received (heap' x)) \<subseteq> set (datagrams_received (heap1 x)))"
    using Suc.hyps(1) [of heap1 heap' out2] Suc.hyps(2) rest rec q by simp
  then show ?case using rec q by (auto split: if_splits) (metis set_ConsD subsetD list.set_intros)
qed

lemma route_interfaces_keeps:
  "route_interfaces r heap ps = Inr (heap', out) \<Longrightarrow> \<forall>q. ni_ready (heap q) \<Longrightarrow>
    (\<forall>q. ni_ready (heap' q)) \<and> (\<forall>q. set (datagrams_received (heap' q)) \<subseteq> set (datagrams_received (heap q)))"
proof (induction ps arbitrary: heap heap' out)
  case (Cons p ps)
  obtain heap1 out1 out2 where step: "drain r heap p = Inr (heap1, out1)"
    and rest: "route_interfaces r heap1 ps = Inr (heap', out2)"
    using Cons.prems(1) by (auto simp: map_sum_eq_Inr)
  note keeps = drain_keeps [OF step Cons.prems(2)]
  from Cons.IH [OF rest conjunct1 [OF keeps]] keeps show ?case by blast
qed simp

subsection \<open>Longest prefix match\<close>

text \<open>The reference: a route matches when the destination agrees with its prefix on the high
  bits that count.\<close>

definition matches :: "route \<Rightarrow> u32 \<Rightarrow> bool" where
  "matches route dest \<longleftrightarrow>
     drop_bit (32 - unat (prefix_length route)) dest = drop_bit (32 - unat (prefix_length route)) (route_prefix route)"

definition well_formed :: "route list \<Rightarrow> bool" where
  "well_formed rs \<longleftrightarrow> (\<forall>route\<in>set rs. unat (prefix_length route) \<le> 32)"

lemma drop_bit_32 [simp]: "drop_bit 32 (w :: u32) = 0"
  by (simp add: drop_bit_eq_div word_arith_nat_div unat_less_32)

lemma masked_eq_iff: "a AND push_bit n (NOT 0) = b AND push_bit n (NOT 0) \<longleftrightarrow> drop_bit n a = drop_bit n (b :: u32)"
proof
  assume eq: "a AND push_bit n (NOT 0) = b AND push_bit n (NOT 0)"
  have "drop_bit n (c AND push_bit n (NOT 0)) = drop_bit n c" for c :: u32
    by (rule bit_eqI) (simp add: bit_simps, use bit_imp_le_length in fastforce)
  with eq show "drop_bit n a = drop_bit n b" by metis
next
  assume "drop_bit n a = drop_bit n b"
  then have "bit a (n + i) = bit b (n + i)" for i by (metis bit_drop_bit_eq comp_apply)
  then show "a AND push_bit n (NOT 0) = b AND push_bit n (NOT 0)"
    by (intro bit_eqI) (auto simp: bit_simps not_less, (metis le_Suc_ex)+)
qed

lemma route_mask_matches:
  assumes "unat (prefix_length route) \<le> 32"
  shows "\<exists>m. route_mask (prefix_length route) = Inr m
    \<and> (dest AND m = route_prefix route AND m \<longleftrightarrow> matches route dest)"
proof (cases "prefix_length route = 0")
  case True
  then show ?thesis by (simp add: route_mask_def matches_def)
next
  case False
  then have "route_mask (prefix_length route) = Inr (push_bit (32 - unat (prefix_length route)) (NOT 0))"
    using assms by (simp only: route_mask_def if_False if_True)
  then show ?thesis by (intro exI conjI) (assumption, simp only: matches_def masked_eq_iff)
qed

text \<open>What the loop has found after the first routes: nothing, or the first of the longest
  matches.\<close>

definition best_so_far :: "u32 \<Rightarrow> route list \<Rightarrow> int \<times> int \<Rightarrow> bool" where
  "best_so_far dest rs best \<longleftrightarrow>
     (best = (-1, -1) \<and> (\<forall>route\<in>set rs. \<not> matches route dest))
   \<or> (\<exists>k < length rs. best = (int k, int (unat (prefix_length (rs ! k)))) \<and> matches (rs ! k) dest
        \<and> (\<forall>j < length rs. matches (rs ! j) dest \<longrightarrow> unat (prefix_length (rs ! j)) \<le> unat (prefix_length (rs ! k)))
        \<and> (\<forall>j < k. matches (rs ! j) dest \<longrightarrow> unat (prefix_length (rs ! j)) < unat (prefix_length (rs ! k))))"

lemma best_so_far_snoc:
  assumes "best_so_far dest rs (bi, ml)"
  shows "best_so_far dest (rs @ [route])
    (if matches route dest \<and> int (unat (prefix_length route)) > ml
     then (int (length rs), int (unat (prefix_length route))) else (bi, ml))"
  using assms[unfolded best_so_far_def]
proof (elim disjE exE conjE)
  assume "(bi, ml) = (-1, -1)" "\<forall>route\<in>set rs. \<not> matches route dest"
  moreover have "- 1 < int (unat (prefix_length route))" by (rule less_le_trans [of _ 0]) simp_all
  ultimately show ?thesis
    by (cases "matches route dest")
      (auto simp: best_so_far_def nth_append less_Suc_eq intro!: disjI2 exI [of _ "length rs"])
next
  fix k
  assume k: "k < length rs" "(bi, ml) = (int k, int (unat (prefix_length (rs ! k))))" "matches (rs ! k) dest"
    "\<forall>j<length rs. matches (rs ! j) dest \<longrightarrow> unat (prefix_length (rs ! j)) \<le> unat (prefix_length (rs ! k))"
    "\<forall>j<k. matches (rs ! j) dest \<longrightarrow> unat (prefix_length (rs ! j)) < unat (prefix_length (rs ! k))"
  show ?thesis
  proof (cases "matches route dest \<and> int (unat (prefix_length route)) > ml")
    case True
    then have "unat (prefix_length (rs ! k)) < unat (prefix_length route)"
      using k(2) by (simp only: prod.inject of_nat_less_iff)
    then have "\<forall>j<length rs. matches (rs ! j) dest \<longrightarrow> unat (prefix_length (rs ! j)) < unat (prefix_length route)"
      using k(4) by (meson le_less_trans)
    then show ?thesis using True
      by (auto simp: best_so_far_def nth_append less_Suc_eq intro!: disjI2 exI [of _ "length rs"] less_imp_le)
  next
    case False
    then have "matches route dest \<longrightarrow> unat (prefix_length route) \<le> unat (prefix_length (rs ! k))"
      using k(2) by (auto simp only: prod.inject of_nat_less_iff not_less)
    then show ?thesis
      unfolding best_so_far_def if_not_P [OF False]
      by (intro disjI2 exI [of _ k]) (use k in \<open>auto simp: nth_append less_Suc_eq\<close>)
  qed
qed

lemma best_route_loop_correct:
  assumes "best_so_far dest done best" and "well_formed rs"
  shows "\<exists>best'. best_route_loop dest rs (int (length done)) best = Inr best' \<and> best_so_far dest (done @ rs) best'"
  using assms
proof (induction rs arbitrary: "done" best)
  case (Cons route rs)
  obtain bi ml where best: "best = (bi, ml)" by force
  obtain m where m: "route_mask (prefix_length route) = Inr m"
    "dest AND m = route_prefix route AND m \<longleftrightarrow> matches route dest"
    using route_mask_matches [of route dest] Cons.prems(2) by (auto simp: well_formed_def)
  have "well_formed rs" using Cons.prems(2) by (simp add: well_formed_def)
  from Cons.IH [OF best_so_far_snoc [OF Cons.prems(1) [unfolded best]] this, of route]
  show ?case by (simp add: best m add.commute)
qed simp

lemma best_index_cases:
  assumes "well_formed (routes r)"
  shows "(best_index r dest = Inr (-1) \<and> (\<forall>route\<in>set (routes r). \<not> matches route dest))
   \<or> (\<exists>k < length (routes r). best_index r dest = Inr (int k) \<and> matches (routes r ! k) dest
        \<and> (\<forall>j < length (routes r). matches (routes r ! j) dest \<longrightarrow>
             unat (prefix_length (routes r ! j)) \<le> unat (prefix_length (routes r ! k)))
        \<and> (\<forall>j < k. matches (routes r ! j) dest \<longrightarrow>
             unat (prefix_length (routes r ! j)) < unat (prefix_length (routes r ! k))))"
proof -
  have "best_so_far dest [] (-1, -1)" by (simp add: best_so_far_def)
  from best_route_loop_correct [OF this assms] obtain best where
    "best_route_loop dest (routes r) 0 (-1, -1) = Inr best" "best_so_far dest (routes r) best" by auto
  then show ?thesis by (cases best) (auto simp: best_index_def best_so_far_def)
qed

subsection \<open>One datagram\<close>

definition next_hop_of :: "route \<Rightarrow> u32 \<Rightarrow> address" where
  "next_hop_of route dest = (case next_hop route of Some hop \<Rightarrow> hop | None \<Rightarrow> ipv4_address dest)"

text \<open>The datagram that is passed on.\<close>

definition forwarded :: "ipv4_datagram \<Rightarrow> ipv4_datagram" where
  "forwarded d = (let h = (dg_header d)\<lparr>ip_ttl := ip_ttl (dg_header d) - 1\<rparr>
     in d\<lparr>dg_header := h\<lparr>ip_cksum := header_checksum h\<rparr>\<rparr>)"

lemma header_checksum_cksum [simp]: "header_checksum (h\<lparr>ip_cksum := c\<rparr>) = header_checksum h"
  by (simp add: header_checksum_def)

lemma sendable_forwarded [simp]: "sendable (forwarded d) = sendable d"
  by (simp add: sendable_def forwarded_def Let_def)

lemma route_datagram_forward:
  assumes "best_index r (ip_dst (dg_header d)) = Inr (int k)" and "1 < ip_ttl (dg_header d)" and "sendable d"
  shows "route_datagram r heap d =
     (let route = routes r ! k in res_bind (interface_at r (interface_num route)) (\<lambda>p.
        res_bind (send_datagram (heap p) (forwarded d) (next_hop_of route (ip_dst (dg_header d))))
          (\<lambda>(s, out). Inr (heap(p := s), [(p, out)]))))"
proof -
  let ?h = "(dg_header d)\<lparr>ip_ttl := ip_ttl (dg_header d) - 1\<rparr>"
  have ck: "ipv4_compute_checksum ?h = Inr (?h\<lparr>ip_cksum := header_checksum ?h\<rparr>)"
    by (rule ipv4_compute_checksum_eq) (use assms(3) in \<open>simp add: sendable_def\<close>)
  have ttl: "\<not> ip_ttl (dg_header d) \<le> 1" using assms(2) by simp
  have hop: "(case next_hop route of Some hop \<Rightarrow> Inr hop | None \<Rightarrow> from_ipv4_numeric dest) = Inr (next_hop_of route dest)"
    for route dest by (cases "next_hop route") (simp_all add: next_hop_of_def)
  show ?thesis
    unfolding route_datagram_def Let_def assms(1) res_bind_simps ck hop
    using ttl by (simp add: forwarded_def Let_def)
qed

text \<open>What a router needs of its table: prefixes of at most 32 bits, next hops that are IPv4
  addresses, and interfaces that exist.\<close>

definition router_ok :: "router \<Rightarrow> bool" where
  "router_ok r \<longleftrightarrow> well_formed (routes r)
     \<and> (\<forall>route\<in>set (routes r). interface_num route < length (interfaces r)
          \<and> (\<forall>hop. next_hop route = Some hop \<longrightarrow> (\<exists>ip. ipv4_numeric hop = Inr ip)))"

lemma route_datagram_returns:
  assumes "router_ok r" and "\<forall>p. ni_ready (heap p)" and "sendable d"
  shows "\<exists>heap' out. route_datagram r heap d = Inr (heap', out) \<and> (\<forall>p. ni_ready (heap' p))
    \<and> (\<forall>p. datagrams_received (heap' p) = datagrams_received (heap p))"
proof -
  have wf: "well_formed (routes r)" using assms(1) by (simp add: router_ok_def)
  consider "best_index r (ip_dst (dg_header d)) = Inr (-1)"
    | k where "k < length (routes r)" "best_index r (ip_dst (dg_header d)) = Inr (int k)"
    using best_index_cases [OF wf] by blast
  then show ?thesis
  proof cases
    case 1
    then show ?thesis using assms(2) by (simp add: route_datagram_def)
  next
    case 2
    show ?thesis
    proof (cases "1 < ip_ttl (dg_header d)")
      case False
      then show ?thesis using 2 assms(2) by (simp add: route_datagram_def not_less)
    next
      case True
      let ?route = "routes r ! k"
      have "?route \<in> set (routes r)" using 2(1) by simp
      then have route: "interface_num ?route < length (interfaces r)"
        "\<exists>ip. ipv4_numeric (next_hop_of ?route (ip_dst (dg_header d))) = Inr ip"
        using assms(1) by (auto simp: router_ok_def next_hop_of_def split: option.splits)
      then obtain ip where "ipv4_numeric (next_hop_of ?route (ip_dst (dg_header d))) = Inr ip" by blast
      from eth_link.heap_send [OF assms(2) _ this, of "forwarded d" "interfaces r ! interface_num ?route"] assms(3)
      show ?thesis
        using route(1) by (auto simp: route_datagram_forward [OF 2(2) True assms(3)] Let_def interface_at_def)
    qed
  qed
qed

definition all_sendable :: "heap \<Rightarrow> bool" where
  "all_sendable heap \<longleftrightarrow> (\<forall>p. \<forall>d\<in>set (datagrams_received (heap p)). sendable d)"

lemma drain_returns:
  assumes "router_ok r" and "\<forall>p. ni_ready (heap p)" and "all_sendable heap"
  shows "\<exists>heap' out. drain r heap p = Inr (heap', out) \<and> (\<forall>p. ni_ready (heap' p))
    \<and> (\<forall>q. datagrams_received (heap' q) = (if q = p then [] else datagrams_received (heap q)))"
  using assms
proof (induction "length (datagrams_received (heap p))" arbitrary: heap)
  case 0
  then show ?case by (subst drain.simps) auto
next
  case (Suc n)
  then obtain d ds where q: "datagrams_received (heap p) = d # ds" by (cases "datagrams_received (heap p)") auto
  have popped: "\<forall>x. ni_ready (pop_received heap p x)" "sendable (clone_datagram d)"
    using Suc.prems(2,3) q by (auto simp: pop_received_def all_sendable_def dest: spec [of _ p])
  obtain heap1 out1 where step: "route_datagram r (pop_received heap p) (clone_datagram d) = Inr (heap1, out1)"
    "\<forall>x. ni_ready (heap1 x)" "\<forall>x. datagrams_received (heap1 x) = datagrams_received (pop_received heap p x)"
    using route_datagram_returns [OF assms(1) popped] by blast
  have rec: "datagrams_received (heap1 x) = (if x = p then ds else datagrams_received (heap x))" for x
    using step(3) q by (simp add: pop_received_def)
  have "all_sendable heap1"
    using Suc.prems(3) q unfolding all_sendable_def rec by (auto dest: spec [of _ p])
  then obtain heap2 out2 where "drain r heap1 p = Inr (heap2, out2)" "\<forall>x. ni_ready (heap2 x)"
    "\<forall>x. datagrams_received (heap2 x) = (if x = p then [] else datagrams_received (heap1 x))"
    using Suc.hyps(1) [of heap1] Suc.hyps(2) Suc.prems(1) step(2) rec q by auto
  then show ?case
    using step(1) q rec by (subst drain.simps) auto
qed

lemma route_interfaces_returns:
  assumes "router_ok r" and "\<forall>p. ni_ready (heap p)" and "all_sendable heap"
  shows "\<exists>heap' out. route_interfaces r heap ps = Inr (heap', out) \<and> (\<forall>p. ni_ready (heap' p))
    \<and> (\<forall>q. datagrams_received (heap' q) = (if q \<in> set ps then [] else datagrams_received (heap q)))"
  using assms
proof (induction ps arbitrary: heap)
  case (Cons p ps)
  obtain heap1 out1 where step: "drain r heap p = Inr (heap1, out1)" "\<forall>p. ni_ready (heap1 p)"
    "\<forall>q. datagrams_received (heap1 q) = (if q = p then [] else datagrams_received (heap q))"
    using drain_returns [OF Cons.prems] by blast
  have "all_sendable heap1" using Cons.prems(3) step(3) by (simp add: all_sendable_def)
  from Cons.IH [OF Cons.prems(1) step(2) this] step show ?case by auto
qed simp

lemma forwarded_valid:
  assumes "valid_header (dg_header d)" and "1 < ip_ttl (dg_header d)"
  shows "valid_header (dg_header (forwarded d))"
    and "unat (ip_ttl (dg_header (forwarded d))) + 1 = unat (ip_ttl (dg_header d))"
proof -
  show "valid_header (dg_header (forwarded d))"
    using assms(1) by (simp add: valid_header_def forwarded_def Let_def)
  have "ip_ttl (dg_header d) \<noteq> 0" using assms(2) by auto
  then show "unat (ip_ttl (dg_header (forwarded d))) + 1 = unat (ip_ttl (dg_header d))"
    by (simp add: forwarded_def Let_def unat_minus_one) (metis Suc_pred unat_gt_0)
qed

lemma best_route_loop_undefined:
  "\<not> well_formed rs \<Longrightarrow> best_route_loop dest rs i best = Inl (Undefined_behaviour ''shift by a negative amount'')"
proof (induction rs arbitrary: i best)
  case (Cons route rs)
  obtain bi ml where best: "best = (bi, ml)" by force
  show ?case
  proof (cases "unat (prefix_length route) \<le> 32")
    case True
    then have "\<not> well_formed rs" using Cons.prems by (auto simp: well_formed_def)
    moreover obtain m where "route_mask (prefix_length route) = Inr m" using route_mask_matches [OF True] by blast
    ultimately show ?thesis using Cons.IH by (simp add: best)
  next
    case False
    then have "prefix_length route \<noteq> 0" by auto
    with False show ?thesis by (simp add: best route_mask_def)
  qed
qed (simp add: well_formed_def)

subsection \<open>Properties\<close>

text \<open>A router with a default route, a network and a subnet of it.\<close>

definition demo_router :: router where
  "demo_router = \<lparr>interfaces = [0, 1],
     routes = [\<lparr>route_prefix = 0, prefix_length = 0, next_hop = Some (ipv4_address 0xac100001), interface_num = 0\<rparr>,
               \<lparr>route_prefix = 0x0a000000, prefix_length = 8, next_hop = None, interface_num = 1\<rparr>,
               \<lparr>route_prefix = 0x0a000000, prefix_length = 24, next_hop = None, interface_num = 1\<rparr>,
               \<lparr>route_prefix = 0x0a000000, prefix_length = 24, next_hop = None, interface_num = 0\<rparr>]\<rparr>"

lemma demo_router_ok: "router_ok demo_router" and demo_well_formed: "well_formed (routes demo_router)"
  by (simp_all add: router_ok_def well_formed_def demo_router_def)

text \<open>C2: the route is chosen by longest prefix: the search finds no route exactly when no
  route agrees with the destination on its prefix, and otherwise the first of the matching
  routes with the longest prefix.\<close>

theorem best_index_longest:
  assumes "well_formed (routes r)"
  shows "(best_index r dest = Inr (-1) \<longleftrightarrow> (\<forall>route\<in>set (routes r). \<not> matches route dest))
   \<and> ((\<exists>route\<in>set (routes r). matches route dest) \<longrightarrow>
      (\<exists>k < length (routes r). best_index r dest = Inr (int k) \<and> matches (routes r ! k) dest
        \<and> (\<forall>j < length (routes r). matches (routes r ! j) dest \<longrightarrow>
             unat (prefix_length (routes r ! j)) \<le> unat (prefix_length (routes r ! k))
             \<and> (j < k \<longrightarrow> unat (prefix_length (routes r ! j)) < unat (prefix_length (routes r ! k))))))"
  using best_index_cases [OF assms, of dest]
proof (elim disjE exE conjE)
  fix k
  assume k: "k < length (routes r)" "best_index r dest = Inr (int k)" "matches (routes r ! k) dest"
    "\<forall>j<length (routes r). matches (routes r ! j) dest \<longrightarrow>
       unat (prefix_length (routes r ! j)) \<le> unat (prefix_length (routes r ! k))"
    "\<forall>j<k. matches (routes r ! j) dest \<longrightarrow> unat (prefix_length (routes r ! j)) < unat (prefix_length (routes r ! k))"
  then have "best_index r dest \<noteq> Inr (-1)" by simp
  moreover have "\<exists>route\<in>set (routes r). matches route dest" using k(1,3) nth_mem by blast
  ultimately show ?thesis using k by blast
qed auto

theorem best_index_longest_witness:
  "(best_index demo_router 0x0a000001 = Inr (-1) \<longleftrightarrow> (\<forall>route\<in>set (routes demo_router). \<not> matches route 0x0a000001))
   \<and> best_index demo_router 0x0a000001 = Inr 2"
proof -
  have "best_index demo_router 0x0a000001 = Inr 2" by code_simp
  then show ?thesis using best_index_longest [OF demo_well_formed, of "0x0a000001"] by blast
qed

text \<open>C5: a datagram is dropped when no route matches or its time to live is used up;
  otherwise it goes, with its time to live decreased and its header valid again, out of the
  interface of the longest matching route to that route's next hop, or straight to the
  destination when the route has none.\<close>

theorem route_datagram_correct:
  assumes "router_ok r" and "\<forall>p. ni_ready (heap p)" and "valid_header (dg_header d)"
  defines "dest \<equiv> ip_dst (dg_header d)"
  shows "((\<forall>route\<in>set (routes r). \<not> matches route dest) \<or> ip_ttl (dg_header d) \<le> 1 \<longrightarrow>
      route_datagram r heap d = Inr (heap, []))
    \<and> ((\<exists>route\<in>set (routes r). matches route dest) \<and> 1 < ip_ttl (dg_header d) \<longrightarrow>
      (\<exists>k p s out. best_index r dest = Inr (int k) \<and> interface_at r (interface_num (routes r ! k)) = Inr p
        \<and> send_datagram (heap p) (forwarded d) (next_hop_of (routes r ! k) dest) = Inr (s, out)
        \<and> route_datagram r heap d = Inr (heap(p := s), [(p, out)])
        \<and> valid_header (dg_header (forwarded d))
        \<and> unat (ip_ttl (dg_header (forwarded d))) + 1 = unat (ip_ttl (dg_header d))))"
proof -
  have wf: "well_formed (routes r)" using assms(1) by (simp add: router_ok_def)
  have d: "sendable d" using assms(3) by (simp add: sendable_def valid_header_def)
  note cases = best_index_cases [OF wf, of dest]
  obtain heap' out' where ret: "route_datagram r heap d = Inr (heap', out')"
    using route_datagram_returns [OF assms(1,2) d] by blast
  have drop: "route_datagram r heap d = Inr (heap, [])"
    if "(\<forall>route\<in>set (routes r). \<not> matches route dest) \<or> ip_ttl (dg_header d) \<le> 1"
    using that cases nth_mem by (fastforce simp: route_datagram_def dest_def)
  have "\<exists>k p s out. best_index r dest = Inr (int k) \<and> interface_at r (interface_num (routes r ! k)) = Inr p
        \<and> send_datagram (heap p) (forwarded d) (next_hop_of (routes r ! k) dest) = Inr (s, out)
        \<and> route_datagram r heap d = Inr (heap(p := s), [(p, out)])"
    if m: "\<exists>route\<in>set (routes r). matches route dest" and ttl: "1 < ip_ttl (dg_header d)"
  proof -
    obtain k where k: "best_index r dest = Inr (int k)" using cases m by blast
    note eq = route_datagram_forward [OF k [unfolded dest_def] ttl d, of heap]
    from ret show ?thesis
      unfolding eq Let_def dest_def [symmetric] using k by auto
  qed
  then show ?thesis using drop forwarded_valid [OF assms(3)] by blast
qed

theorem route_datagram_correct_witness:
  "\<exists>s out. route_datagram demo_router (\<lambda>p. fresh_interface (Eth 2 0 0 0 0 1) (of_nat p)) demo_datagram
      = Inr ((\<lambda>p. fresh_interface (Eth 2 0 0 0 0 1) (of_nat p))(1 := s), [(1, out)])"
proof -
  let ?heap = "\<lambda>p. fresh_interface (Eth 2 0 0 0 0 1) (of_nat p)"
  have ready: "\<forall>p. ni_ready (?heap p)" by (simp add: ni_ready_def)
  have h: "valid_header (dg_header demo_datagram)" using demo_header_valid by (simp add: demo_datagram_def)
  have ttl: "1 < ip_ttl (dg_header demo_datagram)" and dst: "ip_dst (dg_header demo_datagram) = 0x0a000002"
    by (simp_all add: demo_datagram_def demo_header_def default_ipv4_header_def DEFAULT_TTL_def)
  have best: "best_index demo_router 0x0a000002 = Inr 2" by code_simp
  have some: "\<exists>route\<in>set (routes demo_router). matches route 0x0a000002"
    by (simp add: demo_router_def matches_def)
  have at: "interface_at demo_router (interface_num (routes demo_router ! 2)) = Inr 1"
    by (simp add: demo_router_def interface_at_def)
  obtain k p s out where k: "best_index demo_router 0x0a000002 = Inr (int k)"
    "interface_at demo_router (interface_num (routes demo_router ! k)) = Inr p"
    "route_datagram demo_router ?heap demo_datagram = Inr (?heap(p := s), [(p, out)])"
    using route_datagram_correct [OF demo_router_ok ready h] ttl some unfolding dst by blast
  have "k = 2" using k(1) best by simp
  then have "p = 1" using k(2) at by simp
  then show ?thesis using k(3) by blast
qed

text \<open>C22: routing comes to an end and empties the queues: with a table in order, interfaces
  that are ready and only datagrams of version 4 received, one call of \<open>route\<close> returns, and
  every interface of the router has passed on or dropped all that it had received.\<close>

theorem route_all_returns:
  assumes "router_ok r" and "\<forall>p. ni_ready (heap p)" and "all_sendable heap"
  shows "\<exists>heap' out. route_all r heap = Inr (heap', out) \<and> (\<forall>p. ni_ready (heap' p))
    \<and> (\<forall>p\<in>set (interfaces r). datagrams_received (heap' p) = [])
    \<and> (\<forall>p. p \<notin> set (interfaces r) \<longrightarrow> datagrams_received (heap' p) = datagrams_received (heap p))"
  using route_interfaces_returns [OF assms, of "interfaces r"] by (auto simp: route_all_def)

theorem route_all_returns_witness:
  "\<exists>heap' out. route_all demo_router (\<lambda>p. (fresh_interface (Eth 2 0 0 0 0 1) (of_nat p))\<lparr>datagrams_received := [demo_datagram]\<rparr>)
      = Inr (heap', out) \<and> datagrams_received (heap' 0) = [] \<and> datagrams_received (heap' 2) = [demo_datagram]"
proof -
  let ?heap = "\<lambda>p :: nat. (fresh_interface (Eth 2 0 0 0 0 1) (of_nat p))\<lparr>datagrams_received := [demo_datagram]\<rparr>"
  have "\<forall>p. ni_ready (?heap p)" "all_sendable ?heap"
    by (simp_all only: ni_ready_received) (simp_all add: ni_ready_def all_sendable_def)
  from route_all_returns [OF demo_router_ok this] show ?thesis by (auto simp: demo_router_def)
qed

text \<open>C37: a route with a prefix of more than 32 bits, which \<open>add_route\<close> accepts, makes every
  datagram that is routed from then on shift by a negative amount.\<close>

theorem long_prefix_undefined:
  assumes "32 < unat len"
  shows "route_datagram (add_route r prefix len hop num) heap d
    = Inl (Undefined_behaviour ''shift by a negative amount'')"
proof -
  have "\<not> well_formed (routes (add_route r prefix len hop num))"
    using assms by (auto simp: well_formed_def add_route_def)
  then show ?thesis by (simp add: route_datagram_def best_index_def best_route_loop_undefined)
qed

theorem long_prefix_undefined_witness:
  "route_datagram (add_route router_new 0 33 None 0) (\<lambda>_. fresh_interface (Eth 2 0 0 0 0 1) 1) demo_datagram
   = Inl (Undefined_behaviour ''shift by a negative amount'')"
  by (rule long_prefix_undefined) simp

end
