(* ===== verification/Wrapping_Integers.thy ===== *)
theory Wrapping_Integers
  imports Prelude
begin

text \<open>
  The 32-bit sequence number of \<open>src/wrapping_integers.hh\<close> and
  \<open>src/wrapping_integers.cc\<close>: \<open>Wrap32\<close>, its \<open>wrap\<close> and \<open>unwrap\<close>, at
  their machine widths. The lemmas show that \<open>unwrap\<close> inverts \<open>wrap\<close> near the
  checkpoint and always picks a candidate closest to it; the locale
  \<open>seqno_codec\<close> is what the TCP receiver and sender rely on.
\<close>

datatype wrap32 = Wrap32 (raw_value: u32)

definition wrap32_plus :: "wrap32 \<Rightarrow> u32 \<Rightarrow> wrap32" where
  "wrap32_plus w n = Wrap32 (raw_value w + n)"

definition wrap32_eq :: "wrap32 \<Rightarrow> wrap32 \<Rightarrow> bool" where
  "wrap32_eq a b = (raw_value a = raw_value b)"

definition wrap :: "u64 \<Rightarrow> wrap32 \<Rightarrow> wrap32" where
  "wrap n zero_point = wrap32_plus zero_point (ucast (n mod 2 ^ 32))"

definition abs_diff64 :: "u64 \<Rightarrow> u64 \<Rightarrow> u64" where
  "abs_diff64 a b = (if a > b then a - b else b - a)"

definition unwrap :: "wrap32 \<Rightarrow> wrap32 \<Rightarrow> u64 \<Rightarrow> u64" where
  "unwrap this zero_point checkpoint =
     (let remainder = raw_value this - raw_value zero_point;
          med = checkpoint div 2 ^ 32 * 2 ^ 32 + ucast remainder;
          low = med - 2 ^ 32;
          high = med + 2 ^ 32;
          diffmed = abs_diff64 med checkpoint;
          difflow = abs_diff64 low checkpoint;
          diffhigh = abs_diff64 high checkpoint;
          unwrapped = (if diffhigh < diffmed then high else med)
      in if med \<ge> 2 ^ 32 \<and> difflow < diffmed \<and> difflow < diffhigh then low else unwrapped)"

subsection \<open>Reading the computation over the natural numbers\<close>

text \<open>The distance of two absolute sequence numbers.\<close>

definition nat_dist :: "nat \<Rightarrow> nat \<Rightarrow> nat" where
  "nat_dist a b = (if a > b then a - b else b - a)"

lemma unat_abs_diff64: "unat (abs_diff64 a b) = nat_dist (unat a) (unat b)"
  by (auto simp: abs_diff64_def nat_dist_def word_less_nat_alt unat_sub word_le_nat_alt)

lemma raw_wrap: "raw_value (wrap n z) = raw_value z + ucast n"
proof -
  have "(ucast (n mod 2 ^ 32) :: u32) = ucast n"
    by (rule word_unat_eq_iff [THEN iffD2])
      (simp add: unat_ucast_mod unat_mod)
  then show ?thesis by (simp add: wrap_def wrap32_plus_def)
qed

lemma wrap_eq_iff:
  "wrap v z = w \<longleftrightarrow> unat v mod 2 ^ 32 = unat (raw_value w - raw_value z)"
proof -
  have "wrap v z = w \<longleftrightarrow> raw_value z + ucast v = raw_value w"
    by (metis raw_wrap wrap32.expand)
  also have "\<dots> \<longleftrightarrow> ucast v = raw_value w - raw_value z"
    by (auto simp: algebra_simps)
  also have "\<dots> \<longleftrightarrow> unat v mod 2 ^ 32 = unat (raw_value w - raw_value z)"
    by (simp add: word_unat_eq_iff unat_ucast_mod)
  finally show ?thesis .
qed

text \<open>The candidate that \<open>unwrap\<close> returns, from the quotient and remainder of the
  checkpoint and the remainder of the sequence number.\<close>

definition unwrap_nat :: "nat \<Rightarrow> nat \<Rightarrow> nat" where
  "unwrap_nat r c =
     (let q = c div 2 ^ 32; s = c mod 2 ^ 32
      in if q + 1 < 2 ^ 32 \<and> r + 2 ^ 31 < s then (q + 1) * 2 ^ 32 + r
         else if 1 \<le> q \<and> s + 2 ^ 31 < r then (q - 1) * 2 ^ 32 + r
         else q * 2 ^ 32 + r)"

lemma wrap_bucket:
  fixes B q r :: nat
  assumes "q < B" and "r < B"
  shows "(q * B + r + B) mod (B * B) = (if q + 1 < B then (q + 1) * B + r else r)"
proof (cases "q + 1 < B")
  case True
  then have "(q + 2) * B \<le> B * B" by (intro mult_right_mono) auto
  then have "q * B + r + B < B * B" using \<open>r < B\<close> by simp
  then show ?thesis using True by simp
next
  case False
  with assms have "q + 1 = B" by simp
  then have "B * B = q * B + B" by (metis add_mult_distrib mult_1)
  then have "q * B + r + B = B * B + r" by (simp only: add.commute add.left_commute)
  moreover have "r < B * B" using assms by (metis le_square less_le_trans)
  ultimately have "(q * B + r + B) mod (B * B) = r" by (simp only: mod_add_self1 mod_less)
  then show ?thesis using False by simp
qed

lemma closer_above:
  assumes "2 \<le> H" "B = 2 * H" "q < B" "r < B" "s < B"
  shows "nat_dist (if q + 1 < B then (q + 1) * B + r else r) (q * B + s) < nat_dist (q * B + r) (q * B + s)
    \<longleftrightarrow> q + 1 < B \<and> r + H < s"
proof (cases "q + 1 < B")
  case True
  define X where "X = q * B"
  have "(q + 1) * B = X + B" by (simp add: X_def)
  with True show ?thesis using assms(1,2,4,5) unfolding nat_dist_def X_def [symmetric] by auto
next
  case False
  define X where "X = q * B"
  from False assms(1-3) have "2 \<le> q" by simp
  then have "2 * B \<le> X" unfolding X_def by (rule mult_right_mono) simp
  with False assms(4,5) show ?thesis unfolding nat_dist_def X_def [symmetric] by auto
qed

lemma closer_below:
  assumes "B = 2 * H" "1 \<le> q" "r < B" "s < B"
  shows "nat_dist (q * B + r - B) (q * B + s) < nat_dist (q * B + r) (q * B + s) \<longleftrightarrow> s + H < r"
proof -
  define X where "X = q * B"
  have "B \<le> X" unfolding X_def using assms(2) by simp
  with assms(1,3,4) show ?thesis unfolding nat_dist_def X_def [symmetric] by auto
qed

lemma unat_unwrap:
  "unat (unwrap w z c) = unwrap_nat (unat (raw_value w - raw_value z)) (unat c)"
proof -
  define B H :: nat where "B = 2 ^ 32" and "H = 2 ^ 31"
  define r where "r = unat (raw_value w - raw_value z)"
  define q where "q = unat c div B"
  define s where "s = unat c mod B"
  define med where "med = c div 2 ^ 32 * 2 ^ 32 + (ucast (raw_value w - raw_value z) :: u64)"
  have BH: "B = 2 * H" "0 < H" "2 ^ 64 = B * B" by (simp_all add: B_def H_def)
  have r: "r < B" and s: "s < B"
    using unat_less_32 [of "raw_value w - raw_value z"] by (simp_all add: r_def s_def B_def)
  have c: "unat c = q * B + s"
    by (simp add: q_def s_def)
  have q: "q < B"
    using unat_less_64 [of c] by (simp add: q_def B_def)
  have med: "unat med = q * B + r"
    using q r by (simp add: med_def unat_word_ariths unat_div unat_ucast_mod q_def r_def B_def)
  have "unat (med + 2 ^ 32) = (q * B + r + B) mod (B * B)"
    by (simp add: unat_word_ariths med) (simp add: B_def)
  then have high: "unat (med + 2 ^ 32) = (if q + 1 < B then (q + 1) * B + r else r)"
    by (simp only: wrap_bucket [OF q r])
  have low: "unat (med - 2 ^ 32) = q * B + r - B" if "1 \<le> q"
    using that by (subst unat_minus_le) (auto simp: word_le_nat_alt med B_def)
  have med_ge: "med \<ge> 2 ^ 32 \<longleftrightarrow> 1 \<le> q"
    using r by (cases q) (simp_all add: word_le_nat_alt med B_def)
  have above: "nat_dist (unat (med + 2 ^ 32)) (unat c) < nat_dist (unat med) (unat c)
      \<longleftrightarrow> q + 1 < B \<and> r + H < s"
    unfolding high med c using closer_above [OF _ _ q r s] by (simp add: B_def H_def)
  have below: "nat_dist (unat (med - 2 ^ 32)) (unat c) < nat_dist (unat med) (unat c)
      \<longleftrightarrow> s + H < r" if "1 \<le> q"
    unfolding low [OF that] med c using closer_below [OF BH(1) that r s] by simp
  have unwrap: "unwrap w z c =
      (if 1 \<le> q \<and> nat_dist (unat (med - 2 ^ 32)) (unat c) < nat_dist (unat med) (unat c)
            \<and> nat_dist (unat (med - 2 ^ 32)) (unat c) < nat_dist (unat (med + 2 ^ 32)) (unat c)
       then med - 2 ^ 32
       else if nat_dist (unat (med + 2 ^ 32)) (unat c) < nat_dist (unat med) (unat c)
       then med + 2 ^ 32 else med)"
    unfolding unwrap_def Let_def word_less_nat_alt unat_abs_diff64 med_def [symmetric] med_ge ..
  have spec: "unwrap_nat r (unat c) =
      (if q + 1 < B \<and> r + H < s then (q + 1) * B + r
       else if 1 \<le> q \<and> s + H < r then q * B + r - B else q * B + r)"
    unfolding unwrap_nat_def Let_def B_def [symmetric] H_def [symmetric] q_def [symmetric] s_def [symmetric]
    by (auto simp: diff_mult_distrib)
  show ?thesis
  proof (cases "1 \<le> q \<and> s + H < r")
    case True
    then have "\<not> (q + 1 < B \<and> r + H < s)" by linarith
    with True above below have "unwrap w z c = med - 2 ^ 32"
      unfolding unwrap by (meson less_le_trans not_less)
    with True low \<open>\<not> (q + 1 < B \<and> r + H < s)\<close> show ?thesis
      unfolding r_def [symmetric] spec by presburger
  next
    case False
    with above below have "unwrap w z c = (if q + 1 < B \<and> r + H < s then med + 2 ^ 32 else med)"
      unfolding unwrap by presburger
    with False high med show ?thesis
      unfolding r_def [symmetric] spec by presburger
  qed
qed

subsection \<open>What the callers rely on\<close>

lemma unwrap_nat_mod: "r < 2 ^ 32 \<Longrightarrow> unwrap_nat r c mod 2 ^ 32 = r"
  unfolding unwrap_nat_def Let_def by (auto simp only: mod_mult_self3 mod_less split: if_splits)

lemma unwrap_nat_closest:
  assumes "v mod 2 ^ 32 = r" and "v < 2 ^ 64"
  shows "nat_dist (unwrap_nat r c) c \<le> nat_dist v c"
proof -
  define B H :: nat where "B = 2 ^ 32" and "H = 2 ^ 31"
  define p q s where "p = v div B" and "q = c div B" and "s = c mod B"
  have B: "B = 2 * H" "0 < H" by (simp_all add: B_def H_def)
  have r: "r < B" and s: "s < B" using assms(1) by (auto simp: s_def B_def)
  have v: "v = p * B + r" and c: "c = q * B + s"
    using assms(1) by (auto simp: p_def q_def s_def B_def)
  have p: "p < B" using assms(2) by (simp add: p_def B_def)
  have spec: "unwrap_nat r c =
      (if q + 1 < B \<and> r + H < s then q * B + B + r
       else if 1 \<le> q \<and> s + H < r then q * B - B + r else q * B + r)"
    unfolding unwrap_nat_def Let_def B_def [symmetric] H_def [symmetric] q_def [symmetric] s_def [symmetric]
    by (auto simp: diff_mult_distrib)
  consider "p = q" | "p < q" | "q < p" by linarith
  then show ?thesis
  proof cases
    case 1
    then show ?thesis
      unfolding spec unfolding v c nat_dist_def using B r s by auto
  next
    case 2
    then have "(p + 1) * B \<le> q * B" by (intro mult_right_mono) auto
    then have "p * B + B \<le> q * B" by simp
    with 2 B r s show ?thesis
      unfolding spec unfolding v c nat_dist_def by auto
  next
    case 3
    then have "(q + 1) * B \<le> p * B" by (intro mult_right_mono) auto
    then have "q * B + B \<le> p * B" by simp
    with 3 p B r s show ?thesis
      unfolding spec unfolding v c nat_dist_def by auto
  qed
qed

lemma wrap_unwrap_id: "wrap (unwrap w z c) z = w"
  using unwrap_nat_mod [of "unat (raw_value w - raw_value z)" "unat c"]
  by (simp add: wrap_eq_iff unat_unwrap unat_less_32 [simplified])

lemma unwrap_closest_id:
  "wrap v z = w \<Longrightarrow> nat_dist (unat (unwrap w z c)) (unat c) \<le> nat_dist (unat v) (unat c)"
  by (simp only: unat_unwrap wrap_eq_iff unwrap_nat_closest [OF _ unat_less_64])

lemma same_residue_near:
  fixes a b c :: nat
  assumes "a mod 2 ^ 32 = b mod 2 ^ 32" "nat_dist a c < 2 ^ 31" "nat_dist b c < 2 ^ 31"
  shows "a = b"
proof -
  have "a < b + 2 ^ 32" "b < a + 2 ^ 32"
    using assms(2,3) by (auto simp: nat_dist_def split: if_splits)
  then have close: "nat_dist a b < 2 ^ 32" by (auto simp: nat_dist_def)
  show ?thesis
  proof (rule ccontr)
    assume "a \<noteq> b"
    then have "2 ^ 32 dvd nat_dist a b" "0 < nat_dist a b"
      using assms(1) mod_eq_dvd_iff_nat [of a b "2 ^ 32"] mod_eq_dvd_iff_nat [of b a "2 ^ 32"]
      by (auto simp: nat_dist_def)
    with close show False by (auto dest: dvd_imp_le)
  qed
qed

lemma unwrap_wrap_near:
  assumes "nat_dist (unat n) (unat c) < 2 ^ 31"
  shows "unwrap (wrap n z) z c = n"
proof -
  let ?u = "unwrap (wrap n z) z c"
  have "nat_dist (unat ?u) (unat c) < 2 ^ 31"
    using unwrap_closest_id [OF refl, of n z c] assms by simp
  moreover have "unat ?u mod 2 ^ 32 = unat n mod 2 ^ 32"
    using wrap_unwrap_id wrap_eq_iff by metis
  ultimately have "unat ?u = unat n"
    using assms same_residue_near by blast
  then show ?thesis by (simp only: word_unat_eq_iff)
qed

text \<open>
  The contract between the sequence-number type and its clients, for one zero point:
  \<open>enc\<close> sends an absolute number to the wire and \<open>dec\<close> reads one back near a
  checkpoint. \<open>near\<close> is half of the 32-bit space in either direction.
\<close>

abbreviation near :: "u64 \<Rightarrow> u64 \<Rightarrow> bool" where
  "near n c \<equiv> nat_dist (unat n) (unat c) < 2 ^ 31"

locale seqno_codec =
  fixes enc :: "u64 \<Rightarrow> 'w" and dec :: "'w \<Rightarrow> u64 \<Rightarrow> u64"
  assumes enc_dec: "enc (dec w c) = w"
    and dec_enc: "near n c \<Longrightarrow> dec (enc n) c = n"
begin

lemma enc_inj_near: "enc a = enc b \<Longrightarrow> near a c \<Longrightarrow> near b c \<Longrightarrow> a = b"
  by (metis dec_enc)

lemma dec_unique: "near (dec w c) c \<Longrightarrow> near n c \<Longrightarrow> enc n = w \<Longrightarrow> dec w c = n"
  by (metis dec_enc)

lemma dec_checkpoint_irrelevant:
  "near n c \<Longrightarrow> near n c' \<Longrightarrow> dec (enc n) c = dec (enc n) c'"
  by (simp add: dec_enc)

end

interpretation w32: seqno_codec "\<lambda>n. wrap n z" "\<lambda>w c. unwrap w z c" for z
  by unfold_locales (simp_all add: wrap_unwrap_id unwrap_wrap_near)

subsection \<open>Properties\<close>

text \<open>C29: \<open>unwrap\<close> returns an absolute sequence number that wraps to the given one,
  and no other number that does so is closer to the checkpoint.\<close>

theorem unwrap_closest:
  "wrap (unwrap w z c) z = w \<and>
   (\<forall>v. wrap v z = w \<longrightarrow> nat_dist (unat (unwrap w z c)) (unat c) \<le> nat_dist (unat v) (unat c))"
  using unwrap_closest_id wrap_unwrap_id by blast

theorem unwrap_closest_witness:
  "wrap (2 ^ 32 + 17) (Wrap32 15) = Wrap32 32 \<and>
   nat_dist (unat (unwrap (Wrap32 32) (Wrap32 15) (2 ^ 32))) (2 ^ 32) \<le> 17"
proof -
  have h: "wrap (2 ^ 32 + 17) (Wrap32 15) = Wrap32 32"
    by (simp add: wrap_def wrap32_plus_def)
  have "nat_dist (unat (unwrap (Wrap32 32) (Wrap32 15) (2 ^ 32))) (unat (2 ^ 32 :: u64))
      \<le> nat_dist (unat (2 ^ 32 + 17 :: u64)) (unat (2 ^ 32 :: u64))"
    using unwrap_closest [of "Wrap32 32" "Wrap32 15" "2 ^ 32"] h by blast
  with h show ?thesis by (simp add: nat_dist_def)
qed

text \<open>Within half of the 32-bit space of the checkpoint, \<open>unwrap\<close> inverts
  \<open>wrap\<close>, for every zero point.\<close>

theorem unwrap_wrap:
  "near n c \<Longrightarrow> unwrap (wrap n z) z c = n"
  by (rule w32.dec_enc)

theorem unwrap_wrap_witness:
  "near (2 ^ 32 + 5) (2 ^ 32 - 10) \<and>
   unwrap (wrap (2 ^ 32 + 5) (Wrap32 4294967295)) (Wrap32 4294967295) (2 ^ 32 - 10) = 2 ^ 32 + 5"
proof -
  have h: "near (2 ^ 32 + 5) (2 ^ 32 - 10)" by (simp add: nat_dist_def)
  show ?thesis using h unwrap_wrap [OF h] by blast
qed

end
