(* ===== verification/Tcp_Messages.thy ===== *)
theory Tcp_Messages
  imports Wrapping_Integers
begin

text \<open>
  The messages between TCP peers, \<open>util/tcp_sender_message.hh\<close> and
  \<open>util/tcp_receiver_message.hh\<close>, and the constants and configuration of
  \<open>util/tcp_config.hh\<close>.
\<close>

record tcp_sender_message =
  sm_seqno :: wrap32
  sm_SYN :: bool
  sm_payload :: bytes
  sm_FIN :: bool
  sm_RST :: bool

definition default_sender_message :: tcp_sender_message where
  "default_sender_message =
     \<lparr>sm_seqno = Wrap32 0, sm_SYN = False, sm_payload = [], sm_FIN = False, sm_RST = False\<rparr>"

definition sequence_length :: "tcp_sender_message \<Rightarrow> u64" where
  "sequence_length m = of_bool (sm_SYN m) + len64 (sm_payload m) + of_bool (sm_FIN m)"

record tcp_receiver_message =
  rm_ackno :: "wrap32 option"
  rm_window_size :: u16
  rm_RST :: bool

definition default_receiver_message :: tcp_receiver_message where
  "default_receiver_message = \<lparr>rm_ackno = None, rm_window_size = 0, rm_RST = False\<rparr>"

definition DEFAULT_CAPACITY :: u64 where "DEFAULT_CAPACITY = 64000"
definition MAX_PAYLOAD_SIZE :: u64 where "MAX_PAYLOAD_SIZE = 1000"
definition TIMEOUT_DFLT :: u16 where "TIMEOUT_DFLT = 1000"
definition MAX_RETX_ATTEMPTS :: u32 where "MAX_RETX_ATTEMPTS = 8"

record tcp_config =
  cfg_rt_timeout :: u16
  cfg_recv_capacity :: u64
  cfg_send_capacity :: u64
  cfg_isn :: wrap32

definition default_tcp_config :: tcp_config where
  "default_tcp_config =
     \<lparr>cfg_rt_timeout = TIMEOUT_DFLT, cfg_recv_capacity = DEFAULT_CAPACITY,
      cfg_send_capacity = DEFAULT_CAPACITY, cfg_isn = Wrap32 137\<rparr>"

text \<open>The length in sequence numbers as a natural number: it agrees with the code's
  64-bit value for every payload that fits in memory.\<close>

definition seq_len :: "tcp_sender_message \<Rightarrow> nat" where
  "seq_len m = of_bool (sm_SYN m) + length (sm_payload m) + of_bool (sm_FIN m)"

lemma sequence_length_seq_len: "sequence_length m = of_nat (seq_len m)"
  by (simp add: sequence_length_def seq_len_def)

end
