(* ===== verification/Tcp_Segment.thy ===== *)
theory Tcp_Segment
  imports Tcp_Messages Checksum
begin

text \<open>
  TCP segments on the wire: \<open>util/tcp_segment.hh\<close>, \<open>util/tcp_segment.cc\<close>,
  \<open>util/udinfo.hh\<close>. The two halves of a message are owned-or-borrowed references. The wire
  has one reset flag, so a segment comes back with the two flags merged.
\<close>

unbundle bit_operations_syntax

record tcp_message =
  tm_sender :: "tcp_sender_message ref"
  tm_receiver :: "tcp_receiver_message ref"

record user_datagram_info =
  ud_src_port :: u16
  ud_dst_port :: u16
  ud_cksum :: u16

record tcp_segment =
  ts_message :: tcp_message
  ts_udinfo :: user_datagram_info

definition TCP_HEADER_LENGTH :: nat where "TCP_HEADER_LENGTH = 20"

definition default_tcp_segment :: tcp_segment where
  "default_tcp_segment =
     \<lparr>ts_message = \<lparr>tm_sender = Owned default_sender_message, tm_receiver = Owned default_receiver_message\<rparr>,
      ts_udinfo = \<lparr>ud_src_port = 0, ud_dst_port = 0, ud_cksum = 0\<rparr>\<rparr>"

text \<open>The end of \<open>parse\<close>: the header length is checked, options are skipped, and the rest
  is the payload.\<close>

definition tcp_parse_payload ::
    "nat \<Rightarrow> tcp_sender_message \<Rightarrow> tcp_receiver_message \<Rightarrow> user_datagram_info \<Rightarrow> parser
     \<Rightarrow> (tcp_segment \<times> parser) result" where
  "tcp_parse_payload data_offset sm rm ud =
     (let seg = (\<lambda>sm. \<lparr>ts_message = \<lparr>tm_sender = Owned sm, tm_receiver = Owned rm\<rparr>, ts_udinfo = ud\<rparr>)
      in if data_offset < TCP_HEADER_LENGTH div 4 then (\<lambda>p. Inr (seg sm, pa_set_error p))
         else pbind (\<lambda>p. map_sum id (Pair ()) (pa_remove_prefix (data_offset * 4 - TCP_HEADER_LENGTH) p)) (\<lambda>_.
              pbind concatenate_all_remaining (\<lambda>payload. preturn (seg (sm\<lparr>sm_payload := payload\<rparr>)))))"

text \<open>The fields. A read that fails leaves its variable as it was, so the second 32-bit
  field starts from the first one and the flags from the data offset.\<close>

definition tcp_parse_fields ::
    "tcp_sender_message \<Rightarrow> tcp_receiver_message \<Rightarrow> user_datagram_info \<Rightarrow> parser
     \<Rightarrow> (tcp_segment \<times> parser) result" where
  "tcp_parse_fields sm rm ud =
     pbind (parse_integer (ud_src_port ud)) (\<lambda>src_port.
     pbind (parse_integer (ud_dst_port ud)) (\<lambda>dst_port.
     pbind (parse_integer (0 :: u32)) (\<lambda>seqno.
     pbind (parse_integer seqno) (\<lambda>ackno.
     pbind (parse_integer (0 :: u8)) (\<lambda>octet.
     pbind (parse_integer octet) (\<lambda>flags.
     pbind (parse_integer (rm_window_size rm)) (\<lambda>window_size.
     pbind (parse_integer (ud_cksum ud)) (\<lambda>cksum.
     pbind (parse_integer (0 :: u16)) (\<lambda>urgent.
       let RST = (flags AND 0x04 \<noteq> 0);
           sm = sm\<lparr>sm_seqno := Wrap32 seqno, sm_RST := RST, sm_SYN := (flags AND 0x02 \<noteq> 0),
                   sm_FIN := (flags AND 0x01 \<noteq> 0)\<rparr>;
           rm = rm\<lparr>rm_ackno := (if flags AND 0x10 = 0 then None else Some (Wrap32 ackno)), rm_RST := RST,
                   rm_window_size := window_size\<rparr>
       in tcp_parse_payload (unat (drop_bit 4 octet)) sm rm
            \<lparr>ud_src_port = src_port, ud_dst_port = dst_port, ud_cksum = cksum\<rparr>)))))))))"

definition tcp_segment_parse :: "u32 \<Rightarrow> tcp_segment \<Rightarrow> parser \<Rightarrow> (tcp_segment \<times> parser) result" where
  "tcp_segment_parse datagram_layer_pseudo_checksum seg p =
     res_bind (pa_buffer p) (\<lambda>views.
       let check = checksum_add_all (checksum_new datagram_layer_pseudo_checksum) views
       in if checksum_value check \<noteq> 0 then Inr (seg, pa_set_error p)
          else res_bind (get_mut (tm_sender (ts_message seg))) (\<lambda>sm.
               res_bind (get_mut (tm_receiver (ts_message seg))) (\<lambda>rm.
               tcp_parse_fields sm rm (ts_udinfo seg) p)))"

definition tcp_flags :: "tcp_message \<Rightarrow> u8" where
  "tcp_flags m =
     (let reset = (sm_RST (ref_get (tm_sender m)) \<or> rm_RST (ref_get (tm_receiver m)))
      in (if rm_ackno (ref_get (tm_receiver m)) \<noteq> None then 0x10 else 0) OR (if reset then 0x04 else 0)
         OR (if sm_SYN (ref_get (tm_sender m)) then 0x02 else 0)
         OR (if sm_FIN (ref_get (tm_sender m)) then 0x01 else 0))"

definition tcp_segment_serialize :: "tcp_segment \<Rightarrow> serializer \<Rightarrow> serializer" where
  "tcp_segment_serialize seg s =
     (let sm = ref_get (tm_sender (ts_message seg)); rm = ref_get (tm_receiver (ts_message seg));
          s = serialize_integer (ud_src_port (ts_udinfo seg)) s;
          s = serialize_integer (ud_dst_port (ts_udinfo seg)) s;
          s = serialize_integer (raw_value (sm_seqno sm)) s;
          s = serialize_integer (raw_value (case rm_ackno rm of Some w \<Rightarrow> w | None \<Rightarrow> Wrap32 0)) s;
          s = serialize_integer (of_nat (TCP_HEADER_LENGTH div 4 * 16) :: u8) s;
          s = serialize_integer (tcp_flags (ts_message seg)) s;
          s = serialize_integer (rm_window_size rm) s;
          s = serialize_integer (ud_cksum (ts_udinfo seg)) s;
          s = serialize_integer (0 :: u16) s
      in serialize_string (sm_payload sm) s)"

definition tcp_compute_checksum :: "u32 \<Rightarrow> tcp_segment \<Rightarrow> tcp_segment" where
  "tcp_compute_checksum datagram_layer_pseudo_checksum seg =
     (let seg = seg\<lparr>ts_udinfo := (ts_udinfo seg)\<lparr>ud_cksum := 0\<rparr>\<rparr>;
          s = tcp_segment_serialize seg serializer_new;
          check = checksum_add_all (checksum_new datagram_layer_pseudo_checksum)
                    (map ref_get (fst (se_finish s)))
      in seg\<lparr>ts_udinfo := (ts_udinfo seg)\<lparr>ud_cksum := checksum_value check\<rparr>\<rparr>)"

subsection \<open>The wire format\<close>

text \<open>The bytes before and after the checksum field.\<close>

definition tcp_pre :: "tcp_segment \<Rightarrow> bytes" where
  "tcp_pre seg =
     (let sm = ref_get (tm_sender (ts_message seg)); rm = ref_get (tm_receiver (ts_message seg))
      in be_bytes (ud_src_port (ts_udinfo seg)) @ be_bytes (ud_dst_port (ts_udinfo seg))
         @ be_bytes (raw_value (sm_seqno sm))
         @ be_bytes (raw_value (case rm_ackno rm of Some w \<Rightarrow> w | None \<Rightarrow> Wrap32 0))
         @ be_bytes (0x50 :: u8) @ be_bytes (tcp_flags (ts_message seg)) @ be_bytes (rm_window_size rm))"

definition tcp_post :: "tcp_segment \<Rightarrow> bytes" where
  "tcp_post seg = be_bytes (0 :: u16) @ sm_payload (ref_get (tm_sender (ts_message seg)))"

lemma tcp_serialize_flat [written]:
  "se_flat (tcp_segment_serialize seg s) = se_flat s @ tcp_pre seg @ be_bytes (ud_cksum (ts_udinfo seg)) @ tcp_post seg"
  by (simp add: tcp_segment_serialize_def tcp_pre_def tcp_post_def Let_def written TCP_HEADER_LENGTH_def)

lemma length_tcp_parts:
  "length (tcp_pre seg) = 16"
  "length (tcp_post seg) = 2 + length (sm_payload (ref_get (tm_sender (ts_message seg))))"
  by (simp_all add: tcp_pre_def tcp_post_def Let_def)

lemma tcp_compute_checksum_eq:
  "tcp_compute_checksum pseudo seg = seg\<lparr>ts_udinfo := (ts_udinfo seg)\<lparr>ud_cksum :=
     checksum_of pseudo (tcp_pre seg @ [0, 0] @ tcp_post seg)\<rparr>\<rparr>"
proof -
  let ?seg = "seg\<lparr>ts_udinfo := (ts_udinfo seg)\<lparr>ud_cksum := 0\<rparr>\<rparr>"
  have "tcp_pre ?seg = tcp_pre seg" "tcp_post ?seg = tcp_post seg"
    by (simp_all add: tcp_pre_def tcp_post_def)
  then have "concat (map ref_get (fst (se_finish (tcp_segment_serialize ?seg serializer_new))))
      = tcp_pre seg @ [0, 0] @ tcp_post seg"
    using se_finish_chunks [of "tcp_segment_serialize ?seg serializer_new"]
    by (simp add: written chunks_def be_bytes_simps)
  then show ?thesis
    by (simp add: tcp_compute_checksum_def Let_def checksum_add_all_concat)
qed

text \<open>The segment as it comes back: owned, with one reset flag.\<close>

definition merge_RST :: "tcp_segment \<Rightarrow> tcp_segment" where
  "merge_RST seg =
     (let sm = ref_get (tm_sender (ts_message seg)); rm = ref_get (tm_receiver (ts_message seg));
          reset = (sm_RST sm \<or> rm_RST rm)
      in \<lparr>ts_message = \<lparr>tm_sender = Owned (sm\<lparr>sm_RST := reset\<rparr>), tm_receiver = Owned (rm\<lparr>rm_RST := reset\<rparr>)\<rparr>,
          ts_udinfo = ts_udinfo seg\<rparr>)"

lemma tcp_flags_bits:
  "tcp_flags m AND 0x10 = 0 \<longleftrightarrow> rm_ackno (ref_get (tm_receiver m)) = None"
  "tcp_flags m AND 0x04 \<noteq> 0 \<longleftrightarrow> sm_RST (ref_get (tm_sender m)) \<or> rm_RST (ref_get (tm_receiver m))"
  "tcp_flags m AND 0x02 \<noteq> 0 \<longleftrightarrow> sm_SYN (ref_get (tm_sender m))"
  "tcp_flags m AND 0x01 \<noteq> 0 \<longleftrightarrow> sm_FIN (ref_get (tm_sender m))"
  unfolding tcp_flags_def Let_def by (auto simp del: One_nat_def)

lemma yields_payload:
  assumes "pa_ok p" "pa_flat p = (bs, False)"
  shows "yields \<lparr>ts_message = \<lparr>tm_sender = Owned (sm\<lparr>sm_payload := bs\<rparr>), tm_receiver = Owned rm\<rparr>, ts_udinfo = ud\<rparr>
    (tcp_parse_payload 5 sm rm ud p)"
proof -
  have "pa_flat p = ([] @ bs, False)" using assms(2) by simp
  then show ?thesis
    by (simp add: tcp_parse_payload_def TCP_HEADER_LENGTH_def)
      (rule yields_bind [OF reads_remove_prefix_0 assms(1)], simp, simp add: yields_concatenate)
qed

lemma yields_fields:
  assumes "pa_ok p"
    and "pa_flat p = (tcp_pre seg @ be_bytes (ud_cksum (ts_udinfo seg)) @ tcp_post seg, False)"
  shows "yields (merge_RST seg) (tcp_parse_fields sm rm ud p)"
proof -
  let ?sm = "ref_get (tm_sender (ts_message seg))" and ?rm = "ref_get (tm_receiver (ts_message seg))"
  let ?RST = "sm_RST ?sm \<or> rm_RST ?rm"
  have ackno: "(if rm_ackno ?rm = None then None
      else Some (Wrap32 (raw_value (case rm_ackno ?rm of Some w \<Rightarrow> w | None \<Rightarrow> Wrap32 0)))) = rm_ackno ?rm"
    by (cases "rm_ackno ?rm") simp_all
  have offset: "unat (drop_bit 4 (0x50 :: u8)) = 5" by simp
  have result: "merge_RST seg = \<lparr>ts_message = \<lparr>tm_sender = Owned (sm\<lparr>sm_seqno := Wrap32 (raw_value (sm_seqno ?sm)),
        sm_RST := ?RST, sm_SYN := sm_SYN ?sm, sm_FIN := sm_FIN ?sm\<rparr>\<lparr>sm_payload := sm_payload ?sm\<rparr>),
      tm_receiver = Owned (rm\<lparr>rm_ackno := rm_ackno ?rm, rm_RST := ?RST, rm_window_size := rm_window_size ?rm\<rparr>)\<rparr>,
      ts_udinfo = \<lparr>ud_src_port = ud_src_port (ts_udinfo seg), ud_dst_port = ud_dst_port (ts_udinfo seg),
        ud_cksum = ud_cksum (ts_udinfo seg)\<rparr>\<rparr>"
    by (simp add: merge_RST_def Let_def)
  have split: "tcp_pre seg @ be_bytes (ud_cksum (ts_udinfo seg)) @ tcp_post seg =
      be_bytes (ud_src_port (ts_udinfo seg)) @ be_bytes (ud_dst_port (ts_udinfo seg)) @
      be_bytes (raw_value (sm_seqno ?sm)) @
      be_bytes (raw_value (case rm_ackno ?rm of Some w \<Rightarrow> w | None \<Rightarrow> Wrap32 0)) @
      be_bytes (0x50 :: u8) @ be_bytes (tcp_flags (ts_message seg)) @ be_bytes (rm_window_size ?rm) @
      be_bytes (ud_cksum (ts_udinfo seg)) @ be_bytes (0 :: u16) @ sm_payload ?sm"
    by (simp add: tcp_pre_def tcp_post_def Let_def)
  note step8 = yields_bind [OF reads_integer(1)] and step16 = yields_bind [OF reads_integer(2)]
    and step32 = yields_bind [OF reads_integer(3)]
  show ?thesis
    unfolding tcp_parse_fields_def Let_def
    by (rule step16, rule assms(1), rule assms(2) [unfolded split], rule step16, assumption, assumption,
        rule step32, assumption, assumption, rule step32, assumption, assumption,
        rule step8, assumption, assumption, rule step8, assumption, assumption,
        rule step16, assumption, assumption, rule step16, assumption, assumption,
        rule step16, assumption, assumption,
        unfold tcp_flags_bits ackno offset result, rule yields_payload)
qed

lemma parse_tcp_segment:
  assumes "unat pseudo \<le> 2 ^ 24"
    and "length (sm_payload (ref_get (tm_sender (ts_message seg)))) \<le> 65515"
    and "\<forall>c\<in>set cs. is_owned c" and "packed cs"
    and "chunks cs = se_flat (tcp_segment_serialize (tcp_compute_checksum pseudo seg) serializer_new)"
  shows "parse_with (tcp_segment_parse pseudo default_tcp_segment) cs
    = Inr (merge_RST (tcp_compute_checksum pseudo seg), True)"
proof -
  let ?seg = "tcp_compute_checksum pseudo seg"
  have same: "tcp_pre ?seg = tcp_pre seg" "tcp_post ?seg = tcp_post seg"
    by (simp_all add: tcp_compute_checksum_eq tcp_pre_def tcp_post_def)
  have bytes: "chunks cs = tcp_pre ?seg @ be_bytes (ud_cksum (ts_udinfo ?seg)) @ tcp_post ?seg"
    using assms(5) by (simp add: written)
  have "ud_cksum (ts_udinfo ?seg) = checksum_of pseudo (tcp_pre seg @ [0, 0] @ tcp_post seg)"
    by (simp add: tcp_compute_checksum_eq)
  then have verifies: "checksum_of pseudo (chunks cs) = 0"
    unfolding bytes same using assms(1,2)
    by (simp only:) (rule checksum_filled_in, simp_all add: length_tcp_parts)
  obtain p where p: "parser_new cs = Inr p" "pa_ok p" "pa_flat p = (chunks cs, False)"
    using parser_new_ok [OF assms(3,4)] by blast
  obtain views where "pa_buffer p = Inr views" "concat views = chunks cs"
    using pa_buffer_ok [OF p(2)] p(3) by auto
  then have "tcp_segment_parse pseudo default_tcp_segment p =
      tcp_parse_fields default_sender_message default_receiver_message
        \<lparr>ud_src_port = 0, ud_dst_port = 0, ud_cksum = 0\<rparr> p"
    using verifies by (simp add: tcp_segment_parse_def checksum_add_all_concat default_tcp_segment_def)
  moreover have "yields (merge_RST ?seg) (tcp_parse_fields default_sender_message default_receiver_message
      \<lparr>ud_src_port = 0, ud_dst_port = 0, ud_cksum = 0\<rparr> p)"
    by (rule yields_fields [OF p(2)]) (simp only: p(3) bytes)
  ultimately show ?thesis using p(1) by (auto simp: parse_with_def yields_def)
qed

text \<open>A segment that is accepted has a checksum that verifies, and its ports are the first two words.\<close>

lemma accepted_checksum:
  assumes "parse_with (tcp_segment_parse pseudo old) cs = Inr (seg, True)"
  shows "checksum_of pseudo (chunks cs) = 0"
proof -
  obtain p q where p: "parser_new cs = Inr p" "tcp_segment_parse pseudo old p = Inr (seg, q)" "\<not> pa_error q"
    using assms by (auto simp: parse_with_def map_sum_eq_Inr)
  obtain views where "pa_buffer p = Inr views" "concat views = chunks cs" using parser_new_buffer [OF p(1)] by blast
  then show ?thesis
    using p(2,3) by (auto simp: tcp_segment_parse_def checksum_add_all_concat Let_def pa_set_error_def split: if_splits)
qed

lemma sticky_fields: "sticky (tcp_parse_payload data_offset sm rm ud)" "sticky (tcp_parse_fields sm rm ud)"
proof -
  show payload: "sticky (tcp_parse_payload data_offset sm rm ud)" for data_offset sm rm ud
    unfolding tcp_parse_payload_def Let_def by (auto intro!: sticky_intros)
  show "sticky (tcp_parse_fields sm rm ud)"
    unfolding tcp_parse_fields_def Let_def by (intro sticky_intros payload)
qed

lemma accepted_ports:
  assumes "parse_with (tcp_segment_parse pseudo default_tcp_segment) cs = Inr (seg, True)" and "packed cs"
  shows "ud_src_port (ts_udinfo seg) = be_word (take 2 (chunks cs))
    \<and> ud_dst_port (ts_udinfo seg) = be_word (take 2 (drop 2 (chunks cs)))"
proof -
  obtain p q where p: "parser_new cs = Inr p" "tcp_segment_parse pseudo default_tcp_segment p = Inr (seg, q)" "\<not> pa_error q"
    using assms(1) by (auto simp: parse_with_def map_sum_eq_Inr)
  have "\<forall>c\<in>set cs. is_owned c" by (rule parser_new_fields(2) [OF p(1)])
  then have ok: "pa_ok p" and rest: "bl_rest (pa_input p) = chunks cs"
    using parser_new_ok [OF _ assms(2)] p(1) by (auto simp: pa_flat_def)
  have fields: "tcp_parse_fields default_sender_message default_receiver_message
      \<lparr>ud_src_port = 0, ud_dst_port = 0, ud_cksum = 0\<rparr> p = Inr (seg, q)"
    using p(2,3) by (auto simp: tcp_segment_parse_def default_tcp_segment_def Let_def pa_set_error_def split: if_splits)
  have "returns (\<lambda>s. ud_src_port (ts_udinfo s) = src \<and> ud_dst_port (ts_udinfo s) = dst)
      (tcp_parse_payload d sm rm \<lparr>ud_src_port = src, ud_dst_port = dst, ud_cksum = c\<rparr>)" for src dst d sm rm c
    unfolding tcp_parse_payload_def Let_def by (auto intro!: returns_bind returns_basic)
  then show ?thesis
    unfolding rest [symmetric]
    by (intro two_integers_succeed [OF fields [unfolded tcp_parse_fields_def Let_def] p(3) ok])
      (intro sticky_intros sticky_fields returns_bind; assumption | rule sticky_fields)+
qed

subsection \<open>Properties\<close>

text \<open>A segment with its checksum computed survives the wire: whatever its bytes are
  cut into, parsing with the same pseudo-header sum accepts it and gives the same segment,
  owned, with the reset flags of the two halves merged.\<close>

theorem tcp_segment_roundtrip:
  assumes "unat pseudo \<le> 2 ^ 24"
    and "length (sm_payload (ref_get (tm_sender (ts_message seg)))) \<le> 65515"
    and "\<forall>c\<in>set cs. is_owned c" and "packed cs"
    and "chunks cs = se_flat (tcp_segment_serialize (tcp_compute_checksum pseudo seg) serializer_new)"
  shows "parse_with (tcp_segment_parse pseudo default_tcp_segment) cs
    = Inr (merge_RST (tcp_compute_checksum pseudo seg), True)"
  by (rule parse_tcp_segment) (rule assms)+

definition demo_segment :: tcp_segment where
  "demo_segment =
     \<lparr>ts_message = \<lparr>tm_sender = Borrowed \<lparr>sm_seqno = Wrap32 7, sm_SYN = True, sm_payload = [1, 2, 3],
        sm_FIN = False, sm_RST = True\<rparr>,
        tm_receiver = Borrowed \<lparr>rm_ackno = Some (Wrap32 9), rm_window_size = 100, rm_RST = False\<rparr>\<rparr>,
      ts_udinfo = \<lparr>ud_src_port = 80, ud_dst_port = 81, ud_cksum = 0\<rparr>\<rparr>"

theorem tcp_segment_roundtrip_witness:
  "parse_with (tcp_segment_parse 6 default_tcp_segment)
     [Owned (se_flat (tcp_segment_serialize (tcp_compute_checksum 6 demo_segment) serializer_new))]
   = Inr (merge_RST (tcp_compute_checksum 6 demo_segment), True)"
proof -
  let ?bs = "se_flat (tcp_segment_serialize (tcp_compute_checksum 6 demo_segment) serializer_new)"
  have small: "unat (6 :: u32) \<le> 2 ^ 24"
    "length (sm_payload (ref_get (tm_sender (ts_message demo_segment)))) \<le> 65515"
    by (simp_all add: demo_segment_def)
  have cs: "\<forall>c\<in>set [Owned ?bs]. is_owned c" "packed [Owned ?bs]" "chunks [Owned ?bs] = ?bs"
    by simp_all
  show ?thesis by (rule tcp_segment_roundtrip [OF small cs])
qed

text \<open>Bytes whose sum with the pseudo-header does not verify are refused, and the
  segment is left as it was.\<close>

theorem tcp_segment_bad_checksum:
  assumes "\<forall>c\<in>set cs. is_owned c" and "packed cs" and "checksum_of pseudo (chunks cs) \<noteq> 0"
  shows "parse_with (tcp_segment_parse pseudo seg) cs = Inr (seg, False)"
proof -
  obtain p where p: "parser_new cs = Inr p" "pa_ok p" "pa_flat p = (chunks cs, False)"
    using parser_new_ok [OF assms(1,2)] by blast
  obtain views where "pa_buffer p = Inr views" "concat views = chunks cs"
    using pa_buffer_ok [OF p(2)] p(3) by auto
  then show ?thesis
    using p(1) assms(3)
    by (simp add: parse_with_def tcp_segment_parse_def checksum_add_all_concat pa_set_error_def)
qed

theorem tcp_segment_bad_checksum_witness:
  "parse_with (tcp_segment_parse 6 demo_segment) [Owned [1, 2], Owned [3]] = Inr (demo_segment, False)"
proof (rule tcp_segment_bad_checksum)
  show "checksum_of 6 (chunks [Owned [1, 2], Owned [3]]) \<noteq> 0" by code_simp
qed simp_all

end
