(* ===== verification/Tcp_Over_Ip.thy ===== *)
theory Tcp_Over_Ip
  imports Tcp_Segment Ipv4 Address
begin

text \<open>
  TCP in IPv4: \<open>util/tcp_over_ip.hh\<close>, \<open>util/tcp_over_ip.cc\<close>, the base class of the
  adapters \<open>util/fd_adapter.hh\<close>, the adapter that drops messages
  \<open>util/lossy_fd_adapter.hh\<close> and the configuration of \<open>util/tcp_config.hh\<close>. The
  resolver of the system (\<open>getnameinfo\<close>, \<open>getaddrinfo\<close>), through which the code reads
  and makes the ports of addresses, is an argument.
\<close>

record fd_adapter_config =
  ac_source :: address
  ac_destination :: address
  ac_loss_rate_dn :: u16
  ac_loss_rate_up :: u16

record fd_adapter =
  ad_cfg :: fd_adapter_config
  ad_listen :: bool

definition set_listening :: "fd_adapter \<Rightarrow> bool \<Rightarrow> fd_adapter" where
  "set_listening ad l = ad\<lparr>ad_listen := l\<rparr>"

type_synonym name_info = "bytes \<Rightarrow> int + string \<times> string"
type_synonym addr_info = "string \<Rightarrow> string \<Rightarrow> int \<times> int \<Rightarrow> int \<times> (bytes \<times> nat) option"

definition adopt_peer ::
  "name_info \<Rightarrow> addr_info \<Rightarrow> fd_adapter \<Rightarrow> ipv4_header \<Rightarrow> u16 \<Rightarrow> fd_adapter result" where
  "adopt_peer gni gai ad h src_port =
     res_bind (port gni (ac_source (ad_cfg ad))) (\<lambda>our_port.
     res_bind (address_of_text gai (inet_ntoa (ip_dst h)) our_port) (\<lambda>source.
     res_bind (address_of_text gai (inet_ntoa (ip_src h)) src_port) (\<lambda>destination.
     Inr (set_listening (ad\<lparr>ad_cfg := (ad_cfg ad)\<lparr>ac_source := source, ac_destination := destination\<rparr>\<rparr>) False))))"

text \<open>The checks on the IPv4 header: a listening adapter takes any address.\<close>

definition for_us :: "fd_adapter \<Rightarrow> ipv4_header \<Rightarrow> bool result" where
  "for_us ad h =
     (if ad_listen ad then Inr True
      else res_bind (ipv4_numeric (ac_source (ad_cfg ad))) (\<lambda>ours.
        if ip_dst h \<noteq> ours then Inr False
        else map_sum id (\<lambda>theirs. ip_src h = theirs) (ipv4_numeric (ac_destination (ad_cfg ad)))))"

text \<open>The checks on the TCP segment.\<close>

definition accept_segment ::
  "name_info \<Rightarrow> addr_info \<Rightarrow> fd_adapter \<Rightarrow> ipv4_header \<Rightarrow> tcp_segment \<Rightarrow> (fd_adapter \<times> tcp_message option) result"
where
  "accept_segment gni gai ad h seg =
     res_bind (port gni (ac_source (ad_cfg ad))) (\<lambda>our_port.
       if ud_dst_port (ts_udinfo seg) \<noteq> our_port then Inr (ad, None)
       else
         let sm = ref_get (tm_sender (ts_message seg));
             finish = (\<lambda>ad. res_bind (port gni (ac_destination (ad_cfg ad))) (\<lambda>their_port.
               Inr (ad, if ud_src_port (ts_udinfo seg) \<noteq> their_port then None else Some (ts_message seg))))
         in if \<not> ad_listen ad then finish ad
            else if sm_SYN sm \<and> \<not> sm_RST sm
            then res_bind (adopt_peer gni gai ad h (ud_src_port (ts_udinfo seg))) finish
            else Inr (ad, None))"

definition unwrap_tcp_in_ip ::
  "name_info \<Rightarrow> addr_info \<Rightarrow> fd_adapter \<Rightarrow> ipv4_datagram \<Rightarrow> (fd_adapter \<times> tcp_message option) result" where
  "unwrap_tcp_in_ip gni gai ad d =
     res_bind (for_us ad (dg_header d)) (\<lambda>ours.
       if \<not> ours then Inr (ad, None)
       else if ip_proto (dg_header d) \<noteq> PROTO_TCP then Inr (ad, None)
       else res_bind (parse_with (tcp_segment_parse (pseudo_checksum (dg_header d)) default_tcp_segment) (dg_payload d))
         (\<lambda>(seg, ok). if \<not> ok then Inr (ad, None) else accept_segment gni gai ad (dg_header d) seg))"

definition wrap_tcp_in_ip :: "name_info \<Rightarrow> fd_adapter \<Rightarrow> tcp_message \<Rightarrow> ipv4_datagram result" where
  "wrap_tcp_in_ip gni ad msg =
     (let payload_size = length (sm_payload (ref_get (tm_sender msg)));
          m = \<lparr>tm_sender = ref_borrow (tm_sender msg), tm_receiver = ref_borrow (tm_receiver msg)\<rparr>
      in res_bind (port gni (ac_source (ad_cfg ad))) (\<lambda>src_port.
         res_bind (port gni (ac_destination (ad_cfg ad))) (\<lambda>dst_port.
         res_bind (ipv4_numeric (ac_source (ad_cfg ad))) (\<lambda>src.
         res_bind (ipv4_numeric (ac_destination (ad_cfg ad))) (\<lambda>dst.
           let h = default_ipv4_header\<lparr>ip_src := src, ip_dst := dst\<rparr>;
               h = h\<lparr>ip_len := of_nat (unat (ip_hlen h) * 4 + 20 + payload_size)\<rparr>;
               seg = \<lparr>ts_message = m, ts_udinfo = \<lparr>ud_src_port = src_port, ud_dst_port = dst_port, ud_cksum = 0\<rparr>\<rparr>;
               seg = tcp_compute_checksum (pseudo_checksum h) seg
           in res_bind (ipv4_compute_checksum h) (\<lambda>h.
              res_bind (serialize_with (\<lambda>s. Inr (tcp_segment_serialize seg s))) (\<lambda>payload.
              Inr \<lparr>dg_header = h, dg_payload = payload\<rparr>)))))))"

text \<open>The lossy adapter, over an underlying adapter of any kind: its random engine is a state
  and a function that draws a number; a message is dropped when the low 16 bits of the number
  are less than the loss rate. Nothing is drawn when the rate is zero.\<close>

record ('g, 'a) lossy_adapter =
  la_rand :: 'g
  la_adapter :: 'a

definition should_drop ::
  "('g \<Rightarrow> nat \<times> 'g) \<Rightarrow> ('a \<Rightarrow> fd_adapter_config) \<Rightarrow> ('g, 'a) lossy_adapter \<Rightarrow> bool \<Rightarrow> bool \<times> ('g, 'a) lossy_adapter"
where
  "should_drop draw config la uplink =
     (let cfg = config (la_adapter la);
          loss = (if uplink then ac_loss_rate_up cfg else ac_loss_rate_dn cfg)
      in if loss = 0 then (False, la)
         else (let (r, rand) = draw (la_rand la) in ((of_nat r :: u16) < loss, la\<lparr>la_rand := rand\<rparr>)))"

definition lossy_read ::
  "('g \<Rightarrow> nat \<times> 'g) \<Rightarrow> ('a \<Rightarrow> fd_adapter_config) \<Rightarrow> ('a \<Rightarrow> ('a \<times> tcp_message option) result)
    \<Rightarrow> ('g, 'a) lossy_adapter \<Rightarrow> (('g, 'a) lossy_adapter \<times> tcp_message option) result" where
  "lossy_read draw config read la =
     res_bind (read (la_adapter la)) (\<lambda>(a, ret).
       let (drop, la) = should_drop draw config (la\<lparr>la_adapter := a\<rparr>) False
       in Inr (la, if drop then None else ret))"

definition lossy_write ::
  "('g \<Rightarrow> nat \<times> 'g) \<Rightarrow> ('a \<Rightarrow> fd_adapter_config) \<Rightarrow> ('a \<Rightarrow> tcp_message \<Rightarrow> ('a \<times> 'out list) result)
    \<Rightarrow> ('g, 'a) lossy_adapter \<Rightarrow> tcp_message \<Rightarrow> (('g, 'a) lossy_adapter \<times> 'out list) result" where
  "lossy_write draw config write la seg =
     (let (drop, la) = should_drop draw config la True
      in if drop then Inr (la, [])
         else res_bind (write (la_adapter la) seg) (\<lambda>(a, out). Inr (la\<lparr>la_adapter := a\<rparr>, out)))"

subsection \<open>What is sent arrives\<close>

lemma pseudo_checksum_small: "unat (pseudo_checksum h) \<le> 2 ^ 24"
proof -
  have hi: "unat (drop_bit 16 w) < 2 ^ 16" for w :: u32
    using unat_less_32 [of w] by (simp add: unat_div drop_bit_eq_div less_mult_imp_div_less)
  have lo: "unat (ucast (x :: u16) :: u32) < 2 ^ 16" for x
    using unat_less_16 [of x] by (simp add: unat_ucast_mod)
  have b: "unat (ucast (x :: u8) :: u32) < 2 ^ 8" for x
    using unat_less_8 [of x] by (simp add: unat_ucast_mod)
  have add: "unat (x + y) \<le> unat x + unat y" for x y :: u32
    by (simp add: unat_word_ariths)
  let ?a = "drop_bit 16 (ip_src h) :: u32" and ?b = "ucast (ucast (ip_src h) :: u16) :: u32"
    and ?c = "drop_bit 16 (ip_dst h) :: u32" and ?d = "ucast (ucast (ip_dst h) :: u16) :: u32"
    and ?e = "ucast (ip_proto h) :: u32" and ?f = "ucast (payload_length h) :: u32"
  have "unat (pseudo_checksum h) \<le> unat ?a + unat ?b + (unat ?c + unat ?d) + unat ?e + unat ?f"
    unfolding pseudo_checksum_def Let_def
    by (meson add add_mono order.trans order_refl)
  then show ?thesis
    using hi [of "ip_src h"] hi [of "ip_dst h"] lo [of "ucast (ip_src h)"] lo [of "ucast (ip_dst h)"]
      b [of "ip_proto h"] lo [of "payload_length h"] by simp
qed

text \<open>The segment and the header that are sent.\<close>

definition sent_segment_of :: "u16 \<Rightarrow> u16 \<Rightarrow> tcp_message \<Rightarrow> tcp_segment" where
  "sent_segment_of src_port dst_port msg =
     \<lparr>ts_message = \<lparr>tm_sender = ref_borrow (tm_sender msg), tm_receiver = ref_borrow (tm_receiver msg)\<rparr>,
      ts_udinfo = \<lparr>ud_src_port = src_port, ud_dst_port = dst_port, ud_cksum = 0\<rparr>\<rparr>"

definition sent_header :: "u32 \<Rightarrow> u32 \<Rightarrow> tcp_message \<Rightarrow> ipv4_header" where
  "sent_header src dst msg =
     (let h = default_ipv4_header\<lparr>ip_src := src, ip_dst := dst,
                ip_len := of_nat (40 + length (sm_payload (ref_get (tm_sender msg))))\<rparr>
      in h\<lparr>ip_cksum := header_checksum h\<rparr>)"

lemma pseudo_checksum_cksum [simp]: "pseudo_checksum (h\<lparr>ip_cksum := c\<rparr>) = pseudo_checksum h"
  by (simp add: pseudo_checksum_def payload_length_def)

lemma wrap_eq:
  assumes "port gni (ac_source (ad_cfg ad)) = Inr sp" and "port gni (ac_destination (ad_cfg ad)) = Inr dp"
    and "ipv4_numeric (ac_source (ad_cfg ad)) = Inr src" and "ipv4_numeric (ac_destination (ad_cfg ad)) = Inr dst"
  shows "\<exists>payload. wrap_tcp_in_ip gni ad msg = Inr \<lparr>dg_header = sent_header src dst msg, dg_payload = payload\<rparr>
    \<and> chunks payload = se_flat (tcp_segment_serialize
        (tcp_compute_checksum (pseudo_checksum (sent_header src dst msg)) (sent_segment_of sp dp msg)) serializer_new)"
proof -
  let ?h = "default_ipv4_header\<lparr>ip_src := src, ip_dst := dst,
      ip_len := of_nat (40 + length (sm_payload (ref_get (tm_sender msg))))\<rparr>"
  have len: "unat (ip_hlen default_ipv4_header) * 4 + 20 + n = 40 + n" for n
    by (simp add: default_ipv4_header_def IPV4_LENGTH_def)
  have ck: "ipv4_compute_checksum ?h = Inr (sent_header src dst msg)"
    unfolding sent_header_def Let_def by (rule ipv4_compute_checksum_eq) (simp add: default_ipv4_header_def)
  have pseudo: "pseudo_checksum (sent_header src dst msg) = pseudo_checksum ?h"
    by (simp add: sent_header_def Let_def)
  define seg where "seg = tcp_compute_checksum (pseudo_checksum ?h) (sent_segment_of sp dp msg)"
  have "wrap_tcp_in_ip gni ad msg = map_sum id (\<lambda>payload. \<lparr>dg_header = sent_header src dst msg, dg_payload = payload\<rparr>)
      (serialize_with (\<lambda>s. Inr (tcp_segment_serialize seg s)))"
    using ck unfolding wrap_tcp_in_ip_def Let_def assms res_bind_simps
    by (simp add: len seg_def sent_segment_of_def serialize_with_def)
  then show ?thesis
    unfolding seg_def pseudo [symmetric] by (simp add: serialize_with_def written)
qed

lemma sent_header_valid:
  "valid_header (sent_header src dst msg)" "ip_src (sent_header src dst msg) = src"
  "ip_dst (sent_header src dst msg) = dst" "ip_proto (sent_header src dst msg) = PROTO_TCP"
  by (simp_all add: sent_header_def Let_def valid_header_def header_checksum_def)
    (simp_all add: default_ipv4_header_def IPV4_LENGTH_def)

lemma len_field: "ip_len (h\<lparr>ip_src := a, ip_dst := b, ip_len := w, ip_cksum := c\<rparr>) = w"
  by simp

lemma sent_header_len:
  assumes "length (sm_payload (ref_get (tm_sender msg))) \<le> 65495"
  shows "unat (ip_len (sent_header src dst msg)) = 40 + length (sm_payload (ref_get (tm_sender msg)))"
proof -
  have "ip_len (sent_header src dst msg) = of_nat (40 + length (sm_payload (ref_get (tm_sender msg))))"
    unfolding sent_header_def Let_def by (rule len_field)
  then show ?thesis using assms by (simp only: unat_of_nat) simp
qed

text \<open>The message as it comes back.\<close>

definition received_message :: "tcp_message \<Rightarrow> tcp_message" where
  "received_message msg =
     (let sm = ref_get (tm_sender msg); rm = ref_get (tm_receiver msg); reset = (sm_RST sm \<or> rm_RST rm)
      in \<lparr>tm_sender = Owned (sm\<lparr>sm_RST := reset\<rparr>), tm_receiver = Owned (rm\<lparr>rm_RST := reset\<rparr>)\<rparr>)"

lemma parse_sent_segment:
  assumes "length (sm_payload (ref_get (tm_sender msg))) \<le> 65495"
    and "\<forall>c\<in>set cs. is_owned c" and "packed cs"
    and "chunks cs = se_flat (tcp_segment_serialize (tcp_compute_checksum pseudo (sent_segment_of sp dp msg)) serializer_new)"
    and "unat pseudo \<le> 2 ^ 24"
  shows "\<exists>ck. parse_with (tcp_segment_parse pseudo default_tcp_segment) cs =
    Inr (\<lparr>ts_message = received_message msg, ts_udinfo = \<lparr>ud_src_port = sp, ud_dst_port = dp, ud_cksum = ck\<rparr>\<rparr>, True)"
proof -
  have "length (sm_payload (ref_get (tm_sender (ts_message (sent_segment_of sp dp msg))))) \<le> 65515"
    using assms(1) by (simp add: sent_segment_of_def)
  from parse_tcp_segment [OF assms(5) this assms(2,3,4)] show ?thesis
    by (simp add: merge_RST_def tcp_compute_checksum_eq sent_segment_of_def received_message_def Let_def)
qed

lemma unwrap_wrapped:
  assumes "port gni (ac_source (ad_cfg a)) = Inr pa" and "ipv4_numeric (ac_source (ad_cfg a)) = Inr ia"
    and "port gni (ac_destination (ad_cfg a)) = Inr pb" and "ipv4_numeric (ac_destination (ad_cfg a)) = Inr ib"
    and "ac_source (ad_cfg b) = ac_destination (ad_cfg a)" and "ac_destination (ad_cfg b) = ac_source (ad_cfg a)"
    and "\<not> ad_listen b" and "length (sm_payload (ref_get (tm_sender msg))) \<le> 65495"
  shows "\<exists>h payload. wrap_tcp_in_ip gni a msg = Inr \<lparr>dg_header = h, dg_payload = payload\<rparr>
    \<and> valid_header h \<and> unat (ip_len h) = 20 + length (chunks payload)
    \<and> (\<forall>cs. chunks cs = chunks payload \<and> (\<forall>c\<in>set cs. is_owned c) \<and> packed cs \<longrightarrow>
         unwrap_tcp_in_ip gni gai b \<lparr>dg_header = h, dg_payload = cs\<rparr> = Inr (b, Some (received_message msg)))"
proof -
  let ?h = "sent_header ia ib msg"
  let ?seg = "tcp_compute_checksum (pseudo_checksum ?h) (sent_segment_of pa pb msg)"
  obtain payload where w: "wrap_tcp_in_ip gni a msg = Inr \<lparr>dg_header = ?h, dg_payload = payload\<rparr>"
    "chunks payload = se_flat (tcp_segment_serialize ?seg serializer_new)"
    using wrap_eq [OF assms(1,3,2,4)] by blast
  have "length (chunks payload) = 20 + length (sm_payload (ref_get (tm_sender msg)))"
    unfolding w(2) by (simp add: written length_tcp_parts tcp_compute_checksum_eq)
      (simp add: sent_segment_of_def tcp_post_def tcp_pre_def Let_def)
  then have len: "unat (ip_len ?h) = 20 + length (chunks payload)"
    using sent_header_len [OF assms(8), of ia ib] by simp
  have "unwrap_tcp_in_ip gni gai b \<lparr>dg_header = ?h, dg_payload = cs\<rparr> = Inr (b, Some (received_message msg))"
    if cs: "chunks cs = chunks payload" "\<forall>c\<in>set cs. is_owned c" "packed cs" for cs
  proof -
    obtain ck where "parse_with (tcp_segment_parse (pseudo_checksum ?h) default_tcp_segment) cs =
        Inr (\<lparr>ts_message = received_message msg, ts_udinfo = \<lparr>ud_src_port = pa, ud_dst_port = pb, ud_cksum = ck\<rparr>\<rparr>, True)"
      using parse_sent_segment [OF assms(8) cs(2,3) _ pseudo_checksum_small] cs(1) w(2) by metis
    then show ?thesis
      using assms by (simp add: unwrap_tcp_in_ip_def for_us_def accept_segment_def sent_header_valid Let_def)
  qed
  with w(1) len sent_header_valid(1) show ?thesis by blast
qed

text \<open>Two ends of a connection: a resolver that answers from the bytes of an address.\<close>

definition demo_getnameinfo :: name_info where
  "demo_getnameinfo bs =
     Inr (inet_ntoa (be_word (take 4 (drop 4 bs))), dec_nat (unat (be_word (take 2 (drop 2 bs)) :: u16)))"

definition demo_address :: "u32 \<Rightarrow> u16 \<Rightarrow> address" where
  "demo_address ip p = \<lparr>ad_size = 16, ad_storage = [2, 0] @ be_bytes p @ be_bytes ip @ replicate 120 0\<rparr>"

lemma demo_address_views:
  "port demo_getnameinfo (demo_address ip p) = Inr p" "ipv4_numeric (demo_address ip p) = Inr ip"
proof -
  have fam: "ss_family (demo_address ip p) = AF_INET"
    by (simp add: ss_family_def demo_address_def AF_INET_def be_word_def)
  have "unat p < 2 ^ 31" using unat_less_16 [of p] by simp
  then show "port demo_getnameinfo (demo_address ip p) = Inr p"
    by (simp add: port_def ip_port_def fam demo_getnameinfo_def)
      (simp add: demo_address_def be_word_bytes_16 stoi_dec_nat)
  show "ipv4_numeric (demo_address ip p) = Inr ip"
    by (simp add: ipv4_numeric_def fam) (simp add: demo_address_def SOCKADDR_IN_SIZE_def be_word_bytes_32)
qed

definition demo_adapter :: "u32 \<Rightarrow> u16 \<Rightarrow> u32 \<Rightarrow> u16 \<Rightarrow> fd_adapter" where
  "demo_adapter ip p ip' p' = \<lparr>ad_cfg = \<lparr>ac_source = demo_address ip p, ac_destination = demo_address ip' p',
     ac_loss_rate_dn = 0, ac_loss_rate_up = 0\<rparr>, ad_listen = False\<rparr>"

lemma demo_adapter_simps [simp]:
  "ac_source (ad_cfg (demo_adapter ip p ip' p')) = demo_address ip p"
  "ac_destination (ad_cfg (demo_adapter ip p ip' p')) = demo_address ip' p'"
  "\<not> ad_listen (demo_adapter ip p ip' p')"
  by (simp_all add: demo_adapter_def)

subsection \<open>Properties\<close>

lemma demo_adapters_agree:
  "port demo_getnameinfo (ac_source (ad_cfg (demo_adapter 1 80 2 90))) = Inr 80"
  "ipv4_numeric (ac_source (ad_cfg (demo_adapter 1 80 2 90))) = Inr 1"
  "port demo_getnameinfo (ac_destination (ad_cfg (demo_adapter 1 80 2 90))) = Inr 90"
  "ipv4_numeric (ac_destination (ad_cfg (demo_adapter 1 80 2 90))) = Inr 2"
  "ac_source (ad_cfg (demo_adapter 2 90 1 80)) = ac_destination (ad_cfg (demo_adapter 1 80 2 90))"
  "ac_destination (ad_cfg (demo_adapter 2 90 1 80)) = ac_source (ad_cfg (demo_adapter 1 80 2 90))"
  by (simp_all add: demo_address_views)

lemma demo_payload_small: "length (sm_payload (ref_get (tm_sender (ts_message demo_segment)))) \<le> 65495"
  by (simp add: demo_segment_def)

text \<open>What one end wraps the other end unwraps: when two adapters have each other as
  source and destination, the datagram that carries a message has a valid header of the right
  length, and from any chunks that hold its payload the other end gets the message, owned and
  with the two reset flags merged, and stays as it was.\<close>

theorem wrap_unwrap:
  assumes "port gni (ac_source (ad_cfg a)) = Inr pa" and "ipv4_numeric (ac_source (ad_cfg a)) = Inr ia"
    and "port gni (ac_destination (ad_cfg a)) = Inr pb" and "ipv4_numeric (ac_destination (ad_cfg a)) = Inr ib"
    and "ac_source (ad_cfg b) = ac_destination (ad_cfg a)" and "ac_destination (ad_cfg b) = ac_source (ad_cfg a)"
    and "\<not> ad_listen b" and "length (sm_payload (ref_get (tm_sender msg))) \<le> 65495"
  shows "\<exists>h payload. wrap_tcp_in_ip gni a msg = Inr \<lparr>dg_header = h, dg_payload = payload\<rparr>
    \<and> valid_header h \<and> unat (ip_len h) = 20 + length (chunks payload)
    \<and> (\<forall>cs. chunks cs = chunks payload \<and> (\<forall>c\<in>set cs. is_owned c) \<and> packed cs \<longrightarrow>
         unwrap_tcp_in_ip gni gai b \<lparr>dg_header = h, dg_payload = cs\<rparr> = Inr (b, Some (received_message msg)))"
  by (rule unwrap_wrapped) (rule assms)+

theorem wrap_unwrap_witness:
  "\<exists>h payload. wrap_tcp_in_ip demo_getnameinfo (demo_adapter 1 80 2 90) (ts_message demo_segment) = Inr \<lparr>dg_header = h, dg_payload = payload\<rparr>
    \<and> unwrap_tcp_in_ip demo_getnameinfo (\<lambda>_ _ _. (1, None)) (demo_adapter 2 90 1 80) \<lparr>dg_header = h, dg_payload = [Owned (chunks payload)]\<rparr>
      = Inr (demo_adapter 2 90 1 80, Some (received_message (ts_message demo_segment)))"
proof -
  obtain h payload where sent: "wrap_tcp_in_ip demo_getnameinfo (demo_adapter 1 80 2 90) (ts_message demo_segment)
      = Inr \<lparr>dg_header = h, dg_payload = payload\<rparr>"
    and got: "\<forall>cs. chunks cs = chunks payload \<and> (\<forall>c\<in>set cs. is_owned c) \<and> packed cs \<longrightarrow>
      unwrap_tcp_in_ip demo_getnameinfo (\<lambda>_ _ _. (1, None)) (demo_adapter 2 90 1 80) \<lparr>dg_header = h, dg_payload = cs\<rparr>
        = Inr (demo_adapter 2 90 1 80, Some (received_message (ts_message demo_segment)))"
    using wrap_unwrap [OF demo_adapters_agree demo_adapter_simps(3) demo_payload_small] by blast
  have "unwrap_tcp_in_ip demo_getnameinfo (\<lambda>_ _ _. (1, None)) (demo_adapter 2 90 1 80)
      \<lparr>dg_header = h, dg_payload = [Owned (chunks payload)]\<rparr>
      = Inr (demo_adapter 2 90 1 80, Some (received_message (ts_message demo_segment)))"
    using got [rule_format, of "[Owned (chunks payload)]"] by (simp add: chunks_def)
  with sent show ?thesis by blast
qed

text \<open>C34: an adapter that is not listening passes a message on only if its bytes are a segment with a
  good checksum, that is, with the pseudo-header they add up to a multiple of \<open>2 ^ 16 - 1\<close> other than
  0, in a TCP datagram from its peer's address and port to its own, the ports being the first two
  16-bit words (for payloads of at most 65535 bytes, as IPv4 has them, none of whose buffers is empty); and a listening adapter only a SYN, whose two ends it takes for its connection from
  then on.\<close>

theorem unwrap_accepts:
  assumes "unwrap_tcp_in_ip gni gai ad d = Inr (ad', Some msg)"
    and "packed (dg_payload d)" and "length (chunks (dg_payload d)) \<le> 65535"
  defines "word_sum \<equiv> unat (pseudo_checksum (dg_header d)) + byte_sum False (chunks (dg_payload d))"
    and "src_port \<equiv> be_word (take 2 (chunks (dg_payload d)))"
    and "dst_port \<equiv> be_word (take 2 (drop 2 (chunks (dg_payload d))))"
  shows "0 < word_sum \<and> word_sum mod 65535 = 0
    \<and> (\<exists>ud. parse_with (tcp_segment_parse (pseudo_checksum (dg_header d)) default_tcp_segment) (dg_payload d)
        = Inr (\<lparr>ts_message = msg, ts_udinfo = ud\<rparr>, True))
    \<and> ip_proto (dg_header d) = PROTO_TCP
    \<and> port gni (ac_source (ad_cfg ad)) = Inr dst_port \<and> port gni (ac_destination (ad_cfg ad')) = Inr src_port
    \<and> (\<not> ad_listen ad \<longrightarrow> ad' = ad \<and> ipv4_numeric (ac_source (ad_cfg ad)) = Inr (ip_dst (dg_header d))
         \<and> ipv4_numeric (ac_destination (ad_cfg ad)) = Inr (ip_src (dg_header d)))
    \<and> (ad_listen ad \<longrightarrow> sm_SYN (ref_get (tm_sender msg)) \<and> \<not> sm_RST (ref_get (tm_sender msg)) \<and> \<not> ad_listen ad'
         \<and> address_of_text gai (inet_ntoa (ip_dst (dg_header d))) dst_port = Inr (ac_source (ad_cfg ad'))
         \<and> address_of_text gai (inet_ntoa (ip_src (dg_header d))) src_port = Inr (ac_destination (ad_cfg ad')))"
proof -
  obtain seg where seg: "for_us ad (dg_header d) = Inr True" "ip_proto (dg_header d) = PROTO_TCP"
    "parse_with (tcp_segment_parse (pseudo_checksum (dg_header d)) default_tcp_segment) (dg_payload d) = Inr (seg, True)"
    "accept_segment gni gai ad (dg_header d) seg = Inr (ad', Some msg)"
    using assms(1) by (auto simp: unwrap_tcp_in_ip_def split: if_splits prod.splits)
  have word_sum: "0 < word_sum \<and> word_sum mod 65535 = 0"
    using accepted_checksum [OF seg(3)] checksum_is_zero [OF pseudo_checksum_small assms(3)] by (simp add: word_sum_def)
  have ports: "ud_src_port (ts_udinfo seg) = src_port" "ud_dst_port (ts_udinfo seg) = dst_port"
    using accepted_ports [OF seg(3) assms(2)] by (simp_all add: src_port_def dst_port_def)
  have msg: "ts_message seg = msg"
    using seg(4) by (auto simp: accept_segment_def Let_def split: if_splits)
  then have parsed: "\<exists>ud. parse_with (tcp_segment_parse (pseudo_checksum (dg_header d)) default_tcp_segment) (dg_payload d)
      = Inr (\<lparr>ts_message = msg, ts_udinfo = ud\<rparr>, True)"
    using seg(3) by (cases seg) auto
  show ?thesis
  proof (cases "ad_listen ad")
    case True
    with seg(4) have "port gni (ac_source (ad_cfg ad)) = Inr dst_port" "port gni (ac_destination (ad_cfg ad')) = Inr src_port"
      "sm_SYN (ref_get (tm_sender msg)) \<and> \<not> sm_RST (ref_get (tm_sender msg)) \<and> \<not> ad_listen ad'"
      "address_of_text gai (inet_ntoa (ip_dst (dg_header d))) dst_port = Inr (ac_source (ad_cfg ad'))"
      "address_of_text gai (inet_ntoa (ip_src (dg_header d))) src_port = Inr (ac_destination (ad_cfg ad'))"
      using msg ports by (auto simp: accept_segment_def adopt_peer_def set_listening_def Let_def split: if_splits)
    with True word_sum parsed seg(2) show ?thesis by blast
  next
    case False
    with seg(1,4) have "port gni (ac_source (ad_cfg ad)) = Inr dst_port" "port gni (ac_destination (ad_cfg ad')) = Inr src_port"
      "ad' = ad" "ipv4_numeric (ac_source (ad_cfg ad)) = Inr (ip_dst (dg_header d))"
      "ipv4_numeric (ac_destination (ad_cfg ad)) = Inr (ip_src (dg_header d))"
      using ports by (auto simp: accept_segment_def for_us_def map_sum_eq_Inr Let_def split: if_splits)
    with False word_sum parsed seg(2) show ?thesis by blast
  qed
qed

theorem unwrap_accepts_witness:
  "\<exists>d. unwrap_tcp_in_ip demo_getnameinfo (\<lambda>_ _ _. (1, None)) (demo_adapter 2 90 1 80) d
      = Inr (demo_adapter 2 90 1 80, Some (received_message (ts_message demo_segment)))
    \<and> ip_proto (dg_header d) = PROTO_TCP \<and> ipv4_numeric (demo_address 1 80) = Inr (ip_src (dg_header d))
    \<and> (unat (pseudo_checksum (dg_header d)) + byte_sum False (chunks (dg_payload d))) mod 65535 = 0"
proof -
  obtain h payload where len: "unat (ip_len h) = 20 + length (chunks payload)"
    and got: "\<forall>cs. chunks cs = chunks payload \<and> (\<forall>c\<in>set cs. is_owned c) \<and> packed cs \<longrightarrow>
      unwrap_tcp_in_ip demo_getnameinfo (\<lambda>_ _ _. (1, None)) (demo_adapter 2 90 1 80) \<lparr>dg_header = h, dg_payload = cs\<rparr>
        = Inr (demo_adapter 2 90 1 80, Some (received_message (ts_message demo_segment)))"
    using unwrap_wrapped [OF demo_adapters_agree demo_adapter_simps(3) demo_payload_small] by blast
  let ?d = "\<lparr>dg_header = h, dg_payload = [Owned (chunks payload)]\<rparr>"
  have run: "unwrap_tcp_in_ip demo_getnameinfo (\<lambda>_ _ _. (1, None)) (demo_adapter 2 90 1 80) ?d
      = Inr (demo_adapter 2 90 1 80, Some (received_message (ts_message demo_segment)))"
    using got [rule_format, of "[Owned (chunks payload)]"] by (simp add: chunks_def)
  have fits: "packed (dg_payload ?d)" "length (chunks (dg_payload ?d)) \<le> 65535"
    using len unat_less_16 [of "ip_len h"] by (simp_all add: chunks_def)
  have "ip_proto (dg_header ?d) = PROTO_TCP"
    "ipv4_numeric (ac_destination (ad_cfg (demo_adapter 2 90 1 80))) = Inr (ip_src (dg_header ?d))"
    "(unat (pseudo_checksum (dg_header ?d)) + byte_sum False (chunks (dg_payload ?d))) mod 65535 = 0"
    using unwrap_accepts [OF run fits] demo_adapter_simps(3) by blast+
  with run show ?thesis by (intro exI [of _ ?d]) simp
qed

end
