(* ===== verification/Tun_Adapter.thy ===== *)
theory Tun_Adapter
  imports Tcp_Over_Ip File_Descriptor
begin

text \<open>
  The adapter between TCP messages and a TUN device: \<open>util/tuntap_adapter.cc\<close> and the
  constructor of \<open>util/tun.cc\<close>. It joins the descriptor of \<open>File_Descriptor\<close> with the
  conversions of \<open>Tcp_Over_Ip\<close>; the theorem follows a message from one adapter's write,
  over the device, to the other adapter's read.
\<close>

subsection \<open>The device\<close>

definition IFF_TUN :: int where "IFF_TUN = 1"
definition IFF_TAP :: int where "IFF_TAP = 2"
definition IFF_NO_PI :: int where "IFF_NO_PI = 4096"
definition IFNAMSIZ :: nat where "IFNAMSIZ = 16"

text \<open>\<open>strncpy\<close> into a zeroed array of \<open>IFNAMSIZ\<close> bytes, of which the last stays zero.\<close>

definition ifr_name :: "bytes \<Rightarrow> bytes" where
  "ifr_name devname = resize IFNAMSIZ (takeWhile (\<lambda>c. c \<noteq> 0) (take (IFNAMSIZ - 1) devname))"

definition tuntap_new ::
  "'k syscalls \<Rightarrow> ('k \<Rightarrow> int \<times> 'k) \<Rightarrow> (int \<Rightarrow> bytes \<Rightarrow> int \<Rightarrow> 'k \<Rightarrow> int \<times> 'k) \<Rightarrow> bytes \<Rightarrow> bool
    \<Rightarrow> ('k, file_descriptor) sys" where
  "tuntap_new sys open_clonedev ioctl_TUNSETIFF devname is_tun =
     io_bind (call open_clonedev) (\<lambda>r.
     io_bind (check_system_call sys ''open'' r) (\<lambda>n.
     io_bind (fd_new sys n) (\<lambda>fd.
     io_cleanup
       (io_bind (fd_num fd) (\<lambda>n.
        io_bind (call (ioctl_TUNSETIFF n (ifr_name devname) ((if is_tun then IFF_TUN else IFF_TAP) OR IFF_NO_PI))) (\<lambda>r.
        io_bind (check_system_call sys ''ioctl'' r) (\<lambda>_. io_return fd))))
       (\<lambda>w. case fd of Some a \<Rightarrow> fdw_destroy sys a w | None \<Rightarrow> w))))"

subsection \<open>The adapter\<close>

record tun_adapter =
  ta_base :: fd_adapter
  ta_tun :: file_descriptor

definition tun_read ::
  "'k syscalls \<Rightarrow> name_info \<Rightarrow> addr_info \<Rightarrow> tun_adapter \<Rightarrow> ('k, tun_adapter \<times> tcp_message option) sys" where
  "tun_read sys gni gai ta =
     io_bind (read_scattered sys (ta_tun ta) [resize IPV4_LENGTH [], resize TCP_HEADER_LENGTH [], []]) (\<lambda>strs.
     io_bind (io_lift (parse_with (ipv4_datagram_parse default_datagram) (map Owned strs))) (\<lambda>(ip_dgram, ok).
       if ok
       then io_bind (io_lift (unwrap_tcp_in_ip gni gai (ta_base ta) ip_dgram)) (\<lambda>(base, msg).
            io_return (ta\<lparr>ta_base := base\<rparr>, msg))
       else io_return (ta, None)))"

definition tun_write :: "'k syscalls \<Rightarrow> name_info \<Rightarrow> tun_adapter \<Rightarrow> tcp_message \<Rightarrow> ('k, unit) sys" where
  "tun_write sys gni ta seg =
     io_bind (io_lift (wrap_tcp_in_ip gni (ta_base ta) seg)) (\<lambda>d.
     io_bind (io_lift (serialize_with (ipv4_datagram_serialize d))) (\<lambda>bufs.
     io_bind (write_gathered sys (ta_tun ta) (map ref_get bufs)) (\<lambda>_. io_return ())))"

subsection \<open>From one adapter to the other\<close>

lemma packed_cut_into: "\<forall>n\<in>set ns. 0 < n \<Longrightarrow> packed (map Owned (cut_into ns data))"
proof (induction ns data rule: cut_into.induct)
  case (2 n ns data)
  then show ?case by (auto simp: cut_nothing chunks_def)
qed simp

lemma chunks_owned [simp]: "chunks (map Owned xs) = concat xs"
  by (induction xs) (simp_all add: chunks_def)

lemma serialized_datagram:
  assumes "valid_header (dg_header d)"
  shows "\<exists>bufs. serialize_with (ipv4_datagram_serialize d) = Inr bufs
    \<and> concat (map ref_get bufs) = ipv4_header_bytes (dg_header d) @ chunks (dg_payload d)
    \<and> (\<forall>b\<in>set (map ref_get bufs). b \<noteq> [])"
proof -
  have ver: "ip_ver (dg_header d) = 4" using assms by (simp add: valid_header_def)
  obtain s where s: "ipv4_header_serialize (dg_header d) serializer_new = Inr s"
    "se_flat s = ipv4_header_bytes (dg_header d)"
    using ipv4_header_serialize_flat [OF ver, of serializer_new] by (auto simp: written)
  have "se_solid s"
    using s(1) ver by (auto simp: ipv4_header_serialize_def se_solid_simps)
  then have solid: "se_solid (se_flush (serialize_refs (dg_payload d) s))"
    by (intro se_solid_simps(2) se_solid_refs)
  let ?bufs = "fst (se_finish (serialize_refs (dg_payload d) s))"
  have "serialize_with (ipv4_datagram_serialize d) = Inr ?bufs"
    using s(1) by (simp add: serialize_with_def ipv4_datagram_serialize_def)
  moreover have "chunks ?bufs = ipv4_header_bytes (dg_header d) @ chunks (dg_payload d)"
    using s(2) by (simp add: written)
  moreover have "\<forall>b\<in>set ?bufs. ref_get b \<noteq> []"
    using solid by (simp add: se_solid_def se_finish_def Let_def)
  ultimately show ?thesis by (auto simp: chunks_def)
qed

lemma write_gathered_once:
  assumes "bufs \<noteq> []" and "\<forall>b\<in>set bufs. b \<noteq> []"
    and "sys_writev sys (fw_fd (w_fds w a)) bufs (w_kernel w) = (int (length (concat bufs)), k)"
  shows "\<exists>w'. write_gathered sys (Some a) bufs w = (Inr (length (concat bufs)), w') \<and> w_kernel w' = k"
  using assms(3) to_iovecs_eq [OF assms(1,2)] assms(1,2)
  by (auto simp: write_gathered_def write_iovecs_def io_bind_def call_def check_fd_system_call_def
      fdw_check_system_call_def length_concat)

text \<open>A datagram that the device hands over is read in three pieces, whose first two are the
  headers, and is unwrapped.\<close>

lemma tun_read_datagram:
  assumes "valid_header h" and "unat (ip_len h) = 20 + length bs" and "length bs \<le> 20 + kReadBufferSize"
    and "sys_readv sys (fw_fd (w_fds w a)) [20, 20, kReadBufferSize] (w_kernel w)
      = ((int (20 + length bs), ipv4_header_bytes h @ bs), k)"
    and "\<And>cs. chunks cs = bs \<Longrightarrow> \<forall>c\<in>set cs. is_owned c \<Longrightarrow> packed cs \<Longrightarrow>
      unwrap_tcp_in_ip gni gai (ta_base ta) \<lparr>dg_header = h, dg_payload = cs\<rparr> = Inr (base, msg)"
    and "ta_tun ta = Some a"
  shows "\<exists>w'. tun_read sys gni gai ta w = (Inr (ta\<lparr>ta_base := base\<rparr>, msg), w') \<and> w_kernel w' = k"
proof -
  let ?data = "ipv4_header_bytes h @ bs"
  let ?ns = "[20, 20, kReadBufferSize]"
  let ?bufs = "[replicate 20 0, replicate 20 0, []] :: bytes list"
  let ?bufs' = "butlast ?bufs @ [replicate kReadBufferSize 0] :: bytes list"
  have len: "length ?data = 20 + length bs" by (simp add: length_ipv4_header_bytes)
  have sizes: "map length ?bufs' = ?ns" by simp
  have answer: "sys_readv sys (fw_fd (w_fds w a)) (map length ?bufs') (w_kernel w) = ((int (length ?data), ?data), k)"
    using assms(4) unfolding sizes len .
  have fits: "length ?data \<le> sum_list (map length ?bufs')"
    unfolding sizes len using assms(3) by simp
  from read_scattered_eq [of ?bufs ?bufs', OF _ _ _ answer fits] obtain w' where
    r: "read_scattered sys (Some a) ?bufs w = (Inr (cut_into ?ns ?data), w')" "w_kernel w' = k"
    unfolding sizes by auto
  have cs: "\<forall>c\<in>set (map Owned (cut_into ?ns ?data)). is_owned c" "packed (map Owned (cut_into ?ns ?data))"
    "chunks (map Owned (cut_into ?ns ?data)) = ?data"
    using concat_cut_into [OF fits] unfolding sizes
    by (simp_all add: packed_cut_into kReadBufferSize_def del: cut_into.simps)
  obtain payload where parsed: "parse_with (ipv4_datagram_parse default_datagram) (map Owned (cut_into ?ns ?data))
      = Inr (\<lparr>dg_header = h, dg_payload = payload\<rparr>, True)"
    and payload: "chunks payload = bs" "\<forall>x\<in>set payload. is_owned x" "packed payload"
    using parse_datagram_packed [OF assms(1,2) cs] by blast
  have "[resize IPV4_LENGTH [], resize TCP_HEADER_LENGTH [], []] = ?bufs"
    by (simp add: resize_def IPV4_LENGTH_def TCP_HEADER_LENGTH_def)
  then have "tun_read sys gni gai ta w = (Inr (ta\<lparr>ta_base := base\<rparr>, msg), w')"
    using r(1) parsed assms(5) [OF payload] assms(6)
    by (simp add: tun_read_def io_bind_def del: cut_into.simps)
  with r(2) show ?thesis by blast
qed

subsection \<open>Properties\<close>

text \<open>C10: when two adapters have each other as source and destination, writing a message is one
  write of a whole datagram to the device, and when the other device then hands over these
  bytes, however they were carried there, reading gives the message back.\<close>

theorem tun_carries_message:
  assumes "port gni (ac_source (ad_cfg (ta_base a))) = Inr pa" and "ipv4_numeric (ac_source (ad_cfg (ta_base a))) = Inr ia"
    and "port gni (ac_destination (ad_cfg (ta_base a))) = Inr pb" and "ipv4_numeric (ac_destination (ad_cfg (ta_base a))) = Inr ib"
    and "ac_source (ad_cfg (ta_base b)) = ac_destination (ad_cfg (ta_base a))"
    and "ac_destination (ad_cfg (ta_base b)) = ac_source (ad_cfg (ta_base a))"
    and "\<not> ad_listen (ta_base b)" and "length (sm_payload (ref_get (tm_sender msg))) \<le> kReadBufferSize"
    and "ta_tun a = Some fa" and "ta_tun b = Some fb"
    and "\<And>n bufs k. sys_writev sys n bufs k = (int (length (concat bufs)), put n (concat bufs) k)"
  shows "\<exists>wire. length wire = 40 + length (sm_payload (ref_get (tm_sender msg)))
    \<and> (\<exists>w'. tun_write sys gni a msg w = (Inr (), w')
      \<and> w_kernel w' = put (fw_fd (w_fds w fa)) wire (w_kernel w))
    \<and> (\<forall>v k. sys_readv sys (fw_fd (w_fds v fb)) [20, 20, kReadBufferSize] (w_kernel v) = ((int (length wire), wire), k) \<longrightarrow>
        (\<exists>v'. tun_read sys gni gai b v = (Inr (b, Some (received_message msg)), v') \<and> w_kernel v' = k))"
proof -
  have max: "length (sm_payload (ref_get (tm_sender msg))) \<le> 65495" using assms(8) by (simp add: kReadBufferSize_def)
  from unwrap_wrapped [OF assms(1-7) max, of gai] obtain h payload where
    sent: "wrap_tcp_in_ip gni (ta_base a) msg = Inr \<lparr>dg_header = h, dg_payload = payload\<rparr>"
      "valid_header h" "unat (ip_len h) = 20 + length (chunks payload)"
    and got: "\<And>cs. chunks cs = chunks payload \<Longrightarrow> \<forall>c\<in>set cs. is_owned c \<Longrightarrow> packed cs \<Longrightarrow>
      unwrap_tcp_in_ip gni gai (ta_base b) \<lparr>dg_header = h, dg_payload = cs\<rparr> = Inr (ta_base b, Some (received_message msg))"
    by blast
  have "h = sent_header ia ib msg" using wrap_eq [OF assms(1,3,2,4), of msg] sent(1) by auto
  then have size: "length (chunks payload) = 20 + length (sm_payload (ref_get (tm_sender msg)))"
    using sent(3) sent_header_len [OF max] by simp
  then have small: "length (chunks payload) \<le> 20 + kReadBufferSize" using assms(8) by simp
  let ?wire = "ipv4_header_bytes h @ chunks payload"
  obtain bufs where bufs: "serialize_with (ipv4_datagram_serialize \<lparr>dg_header = h, dg_payload = payload\<rparr>) = Inr bufs"
    "concat (map ref_get bufs) = ?wire" "\<forall>b\<in>set (map ref_get bufs). b \<noteq> []"
    using serialized_datagram [of "\<lparr>dg_header = h, dg_payload = payload\<rparr>"] sent(2) by auto
  have ne: "map ref_get bufs \<noteq> []" using bufs(2) length_ipv4_header_bytes [of h] by auto
  from write_gathered_once [OF ne bufs(3), of sys w fa] assms(11) bufs(2) obtain w' where
    "write_gathered sys (Some fa) (map ref_get bufs) w = (Inr (length ?wire), w')"
    "w_kernel w' = put (fw_fd (w_fds w fa)) ?wire (w_kernel w)" by auto
  then have "tun_write sys gni a msg w = (Inr (), w') \<and> w_kernel w' = put (fw_fd (w_fds w fa)) ?wire (w_kernel w)"
    using sent(1) bufs(1) assms(9) by (simp add: tun_write_def io_bind_def)
  moreover have "\<exists>v'. tun_read sys gni gai b v = (Inr (b, Some (received_message msg)), v') \<and> w_kernel v' = k"
    if "sys_readv sys (fw_fd (w_fds v fb)) [20, 20, kReadBufferSize] (w_kernel v) = ((int (length ?wire), ?wire), k)" for v k
  proof -
    have "length ?wire = 20 + length (chunks payload)" by (simp add: length_ipv4_header_bytes)
    with that have answer: "sys_readv sys (fw_fd (w_fds v fb)) [20, 20, kReadBufferSize] (w_kernel v)
      = ((int (20 + length (chunks payload)), ?wire), k)" by simp
    show ?thesis
      using tun_read_datagram [OF sent(2,3) small answer got assms(10)] by simp
  qed
  moreover have "length ?wire = 40 + length (sm_payload (ref_get (tm_sender msg)))"
    using size by (simp add: length_ipv4_header_bytes)
  ultimately show ?thesis by blast
qed

theorem tun_carries_message_witness:
  "\<exists>w' v v'. tun_write demo_sys demo_getnameinfo \<lparr>ta_base = demo_adapter 1 80 2 90, ta_tun = Some 0\<rparr>
      (ts_message demo_segment) (demo_world []) = (Inr (), w')
    \<and> w_kernel v = w_kernel w'
    \<and> tun_read demo_sys demo_getnameinfo (\<lambda>_ _ _. (1, None)) \<lparr>ta_base = demo_adapter 2 90 1 80, ta_tun = Some 0\<rparr> v
      = (Inr (\<lparr>ta_base = demo_adapter 2 90 1 80, ta_tun = Some 0\<rparr>, Some (received_message (ts_message demo_segment))), v')"
proof -
  let ?a = "\<lparr>ta_base = demo_adapter 1 80 2 90, ta_tun = Some 0\<rparr>"
  let ?b = "\<lparr>ta_base = demo_adapter 2 90 1 80, ta_tun = Some 0\<rparr>"
  let ?put = "\<lambda>fd bs k. k(fd := k fd @ bs)"
  have payload: "length (sm_payload (ref_get (tm_sender (ts_message demo_segment)))) = 3"
    by (simp add: demo_segment_def)
  have base: "ta_base ?a = demo_adapter 1 80 2 90" "ta_base ?b = demo_adapter 2 90 1 80" "ta_tun ?a = Some 0" "ta_tun ?b = Some 0"
    by simp_all
  have small: "length (sm_payload (ref_get (tm_sender (ts_message demo_segment)))) \<le> kReadBufferSize"
    using payload by (simp add: kReadBufferSize_def)
  have device: "sys_writev demo_sys n bufs k = (int (length (concat bufs)), ?put n (concat bufs) k)" for n bufs k
    by (simp add: demo_sys_def)
  obtain wire w' where w: "length wire = 43" "tun_write demo_sys demo_getnameinfo ?a (ts_message demo_segment) (demo_world []) = (Inr (), w')"
      "w_kernel w' = ?put 3 wire (w_kernel (demo_world []))"
    and r: "\<forall>v k. sys_readv demo_sys (fw_fd (w_fds v 0)) [20, 20, kReadBufferSize] (w_kernel v) = ((int (length wire), wire), k) \<longrightarrow>
        (\<exists>v'. tun_read demo_sys demo_getnameinfo (\<lambda>_ _ _. (1, None)) ?b v = (Inr (?b, Some (received_message (ts_message demo_segment))), v')
          \<and> w_kernel v' = k)"
    using tun_carries_message [of demo_getnameinfo ?a 80 1 90 2 ?b "ts_message demo_segment" 0 0 demo_sys ?put
        "demo_world []" "\<lambda>_ _ _. (1, None)", unfolded base, OF demo_adapters_agree demo_adapter_simps(3) small refl refl device]
      payload by (auto simp: demo_world_def)
  have "sys_readv demo_sys (fw_fd (w_fds (demo_world wire) 0)) [20, 20, kReadBufferSize] (w_kernel (demo_world wire))
      = ((int (length wire), wire), (\<lambda>_. []))"
    using w(1) by (auto simp: demo_sys_def demo_world_def kReadBufferSize_def)
  with r obtain v' where "tun_read demo_sys demo_getnameinfo (\<lambda>_ _ _. (1, None)) ?b (demo_world wire)
      = (Inr (?b, Some (received_message (ts_message demo_segment))), v')" by blast
  moreover have "w_kernel (demo_world wire) = w_kernel w'" using w(3) by (auto simp: demo_world_def)
  ultimately show ?thesis using w(2) by blast
qed

end
