(* ===== verification/Program.thy ===== *)
theory Program
  imports Stream_Copy Router Tun_Adapter
begin

text \<open>
  What the programs under \<open>apps/\<close> share: how \<open>main\<close> ends, and the random octets of an Ethernet
  address. The arguments of a program are strings, the first of which is its name, and the local
  variables of its functions are kept beside the kernel, as in \<open>Captured\<close>. What a program prints
  is left out, but not that making the text to print may throw.
\<close>

text \<open>How a program ends: \<open>main\<close> returns a status, or the program is aborted. A program that has
  run into undefined behaviour may do anything, and one that is cut off has not ended.\<close>

datatype ending = Returns int | Aborts | Anything | Runs_on

definition EXIT_SUCCESS :: int where "EXIT_SUCCESS = 0"
definition EXIT_FAILURE :: int where "EXIT_FAILURE = 1"

text \<open>\<open>main\<close> catches what the program throws. The program's result is whether it came to its
  end.\<close>

fun main_ending :: "bool result \<Rightarrow> ending" where
  "main_ending (Inr True) = Returns EXIT_SUCCESS"
| "main_ending (Inr False) = Runs_on"
| "main_ending (Inl (Undefined_behaviour what)) = Anything"
| "main_ending (Inl e) = Returns EXIT_FAILURE"

text \<open>\<open>random_device()()\<close> is a number of 32 bits that the system draws; an octet keeps its low
  bits.\<close>

fun random_octets :: "('k \<Rightarrow> u32 \<times> 'k) \<Rightarrow> nat \<Rightarrow> 'k \<Rightarrow> bytes \<times> 'k" where
  "random_octets draw 0 k = ([], k)"
| "random_octets draw (Suc n) k =
     (let (r, k) = draw k; (bs, k) = random_octets draw n k in (ucast r # bs, k))"

lemma length_random_octets: "length (fst (random_octets draw n k)) = n"
  by (induction n arbitrary: k) (simp_all add: case_prod_beta Let_def)

text \<open>The random engine is seeded with 1024 numbers; what the standard library makes of them is an
  argument.\<close>

definition get_random_engine :: "('k \<Rightarrow> u32 \<times> 'k) \<Rightarrow> (u32 list \<Rightarrow> 'g) \<Rightarrow> 'k \<Rightarrow> 'g \<times> 'k" where
  "get_random_engine draw seed k =
     (let (seed_data, k) = (((\<lambda>(xs, k). let (x, k) = draw k in (xs @ [x], k)) ^^ 1024) ([], k)) in (seed seed_data, k))"

text \<open>The debug output goes to a handler with an argument, which can be set; the default handler prints
  on \<open>cerr\<close>, and resetting the handler leaves the argument.\<close>

record ('a, 'k) debugging =
  debug_handler :: "'a option \<Rightarrow> string \<Rightarrow> 'k \<Rightarrow> 'k"
  debug_arg :: "'a option"

definition default_debug_handler :: "(string \<Rightarrow> 'k \<Rightarrow> 'k) \<Rightarrow> 'a option \<Rightarrow> string \<Rightarrow> 'k \<Rightarrow> 'k" where
  "default_debug_handler cerr arg message = cerr (''DEBUG: '' @ message @ [CHR 0x0A])"

definition debug_str :: "('a, 'k) debugging \<Rightarrow> string \<Rightarrow> 'k \<Rightarrow> 'k" where
  "debug_str d message = debug_handler d (debug_arg d) message"

definition set_debug_handler :: "('a option \<Rightarrow> string \<Rightarrow> 'k \<Rightarrow> 'k) \<Rightarrow> 'a option \<Rightarrow> ('a, 'k) debugging \<Rightarrow> ('a, 'k) debugging" where
  "set_debug_handler handler arg d = d\<lparr>debug_handler := handler, debug_arg := arg\<rparr>"

definition reset_debug_handler :: "(string \<Rightarrow> 'k \<Rightarrow> 'k) \<Rightarrow> ('a, 'k) debugging \<Rightarrow> ('a, 'k) debugging" where
  "reset_debug_handler cerr d = d\<lparr>debug_handler := default_debug_handler cerr\<rparr>"

text \<open>The system that a program runs on: the calls on descriptors, sockets and \<open>poll\<close>, the two
  resolvers, the steady clock, whose count of nanoseconds is a signed number of 64 bits, and the
  random device.\<close>

record 'k system =
  sy_calls :: "'k syscalls"
  sy_sockets :: "'k socket_calls"
  sy_poll :: "'k poll_calls"
  sy_names :: name_info
  sy_addrs :: addr_info
  sy_clock :: "'k \<Rightarrow> int \<times> 'k"
  sy_random :: "'k \<Rightarrow> u32 \<times> 'k"

definition system_timestamp_ms :: "'k system \<Rightarrow> 'k \<Rightarrow> u64 \<times> 'k" where
  "system_timestamp_ms sy k = (let (count, k) = sy_clock sy k in (word_of_int (sgn count * (\<bar>count\<bar> div 1000000)), k))"

text \<open>As many buffers as an arriving datagram is to be cut into.\<close>

definition resize_buffers :: "nat \<Rightarrow> bytes list \<Rightarrow> bytes list" where
  "resize_buffers n bufs = take n bufs @ replicate (n - length bufs) []"

text \<open>The bytes of a frame, as they are handed to a socket.\<close>

definition frame_buffers :: "ethernet_frame \<Rightarrow> bytes list" where
  "frame_buffers x = map ref_get (fst (se_finish (ethernet_frame_serialize x serializer_new)))"

subsection \<open>What an operation does to the local variables\<close>

text \<open>When the variables satisfy the first predicate before the operation, they and its result satisfy
  the second after it, or they satisfy the third after it has thrown.\<close>

definition ensures ::
  "('m \<Rightarrow> bool) \<Rightarrow> (('m \<times> 'k) state, 'a) io \<Rightarrow> ('a \<Rightarrow> 'm \<Rightarrow> bool) \<Rightarrow> ('m \<Rightarrow> bool) \<Rightarrow> bool" where
  "ensures P m Q E \<longleftrightarrow> (\<forall>s. P (locals s) \<longrightarrow>
     (case m s of (Inl _, s') \<Rightarrow> E (locals s') | (Inr x, s') \<Rightarrow> Q x (locals s')))"

lemma ensuresD:
  assumes "ensures P m Q E" and "m s = (r, s')" and "P (locals s)"
  shows "case r of Inl _ \<Rightarrow> E (locals s') | Inr x \<Rightarrow> Q x (locals s')"
proof -
  have "case m s of (Inl _, s') \<Rightarrow> E (locals s') | (Inr x, s') \<Rightarrow> Q x (locals s')"
    by (rule assms(1) [unfolded ensures_def, THEN spec, THEN mp, OF assms(3)])
  then show ?thesis unfolding assms(2) prod.case .
qed

lemma ensures_bind:
  fixes m :: "(('m \<times> 'k) state, 'a) io"
  assumes "ensures P m R E" and "\<And>x. ensures (R x) (f x) Q E"
  shows "ensures P (io_bind m f) Q E"
  unfolding ensures_def
proof (intro allI impI)
  fix s :: "('m \<times> 'k) state" assume "P (locals s)"
  moreover obtain x s1 where x: "m s = (x, s1)" by (rule prod.exhaust)
  ultimately have s1: "case x of Inl _ \<Rightarrow> E (locals s1) | Inr x \<Rightarrow> R x (locals s1)" using ensuresD [OF assms(1) x] by blast
  show "case io_bind m f s of (Inl _, s') \<Rightarrow> E (locals s') | (Inr x, s') \<Rightarrow> Q x (locals s')"
  proof (cases x)
    case (Inl e) with x s1 show ?thesis by (simp add: io_bind_eq)
  next
    case (Inr y)
    have "io_bind m f s = f y s1" by (simp add: io_bind_def x Inr)
    with s1 Inr assms(2) [of y] show ?thesis by (cases s1) (simp add: ensures_def)
  qed
qed

lemma ensures_weaken:
  fixes m :: "(('m \<times> 'k) state, 'a) io"
  assumes "ensures P' m Q' E'" and "\<And>l. P l \<Longrightarrow> P' l" and "\<And>x l. Q' x l \<Longrightarrow> Q x l" and "\<And>l. E' l \<Longrightarrow> E l"
  shows "ensures P m Q E"
  unfolding ensures_def
proof (intro allI impI)
  fix s :: "('m \<times> 'k) state" assume P: "P (locals s)"
  obtain r s' where r: "m s = (r, s')" by (rule prod.exhaust)
  show "case m s of (Inl _, s') \<Rightarrow> E (locals s') | (Inr x, s') \<Rightarrow> Q x (locals s')"
    using ensuresD [OF assms(1) r assms(2) [OF P]] assms(3,4) by (cases r) (simp_all add: r)
qed

lemma ensures_return: "(\<And>l. P l \<Longrightarrow> Q x l) \<Longrightarrow> ensures P (io_return x) Q E"
  by (simp add: ensures_def)

lemma ensures_throw: "(\<And>l. P l \<Longrightarrow> E l) \<Longrightarrow> ensures P (io_throw e) Q E"
  by (simp add: ensures_def)

lemma ensures_lift:
  "(\<And>l e. P l \<Longrightarrow> r = Inl e \<Longrightarrow> E l) \<Longrightarrow> (\<And>l x. P l \<Longrightarrow> r = Inr x \<Longrightarrow> Q x l) \<Longrightarrow> ensures P (io_lift r) Q E"
  by (cases r) (simp_all add: ensures_def)

lemma ensures_set: "(\<And>l. P l \<Longrightarrow> Q () (f l)) \<Longrightarrow> ensures P (set_locals f) Q E"
  by (simp add: ensures_def set_locals_eq) (simp add: locals_def)

lemma ensures_ex:
  fixes m :: "(('m \<times> 'k) state, 'a) io"
  assumes "\<And>n. R n \<Longrightarrow> ensures (P n) m Q E"
  shows "ensures (\<lambda>l. \<exists>n. P n l \<and> R n) m Q E"
  unfolding ensures_def
proof (intro allI impI, elim exE conjE)
  fix s :: "('m \<times> 'k) state" and n assume P: "P n (locals s)" and "R n"
  show "case m s of (Inl _, s') \<Rightarrow> E (locals s') | (Inr x, s') \<Rightarrow> Q x (locals s')"
    by (rule assms [OF \<open>R n\<close>, unfolded ensures_def, THEN spec, THEN mp, OF P])
qed

text \<open>After a look at the state the variables are known.\<close>

lemma ensures_ask:
  "(\<And>s. P (locals s) \<Longrightarrow> ensures (\<lambda>l. l = locals s) (f (g s)) Q E) \<Longrightarrow> ensures P (io_bind (io_ask g) f) Q E"
  by (simp add: ensures_def)

lemma ensures_if: "(b \<Longrightarrow> ensures P m Q E) \<Longrightarrow> (\<not> b \<Longrightarrow> ensures P m' Q E) \<Longrightarrow> ensures P (if b then m else m') Q E"
  by simp

text \<open>The operations on descriptors and sockets are not concerned with the variables.\<close>

definition keeps_locals :: "('m \<times> 'k, 'a) sys \<Rightarrow> bool" where
  "keeps_locals m \<longleftrightarrow> (\<forall>w. fst (w_kernel (snd (m w))) = fst (w_kernel w))"

lemma ensures_fds:
  fixes m :: "('m \<times> 'k, 'a) sys"
  assumes "keeps_locals m" and "\<And>l. P l \<Longrightarrow> E l" and "\<And>x l w w'. P l \<Longrightarrow> m w = (Inr x, w') \<Longrightarrow> Q x l"
  shows "ensures P (on_fds m) Q E"
  unfolding ensures_def
proof (intro allI impI)
  fix s :: "('m \<times> 'k) state" assume P: "P (locals s)"
  obtain x w' where x: "m (snd s) = (x, w')" by (rule prod.exhaust)
  have "fst (w_kernel w') = fst (w_kernel (snd s))" using assms(1) x unfolding keeps_locals_def by (metis snd_conv)
  with P assms(2,3) x show "case on_fds m s of (Inl _, s') \<Rightarrow> E (locals s') | (Inr x, s') \<Rightarrow> Q x (locals s')"
    by (cases x) (simp_all add: on_fds_def locals_def)
qed

text \<open>An invariant of the variables.\<close>

definition preserves :: "('m \<Rightarrow> bool) \<Rightarrow> (('m \<times> 'k) state, 'a) io \<Rightarrow> bool" where
  "preserves I m \<longleftrightarrow> ensures I m (\<lambda>_. I) I"

lemma preservesD: "preserves I m \<Longrightarrow> m s = (r, s') \<Longrightarrow> I (locals s) \<Longrightarrow> I (locals s')"
  unfolding preserves_def using ensuresD [of I m "\<lambda>_. I" I s r s'] by (cases r) simp_all

lemma preserves_bind: "preserves I m \<Longrightarrow> (\<And>x. preserves I (f x)) \<Longrightarrow> preserves I (io_bind m f)"
  unfolding preserves_def by (rule ensures_bind)

lemma preserves_basic:
  "preserves I (io_return x)" "preserves I (io_throw e)" "preserves I (io_lift r)" "preserves I (io_ask g)"
  unfolding preserves_def ensures_def by (cases r) simp_all

lemma preserves_if: "preserves I m \<Longrightarrow> preserves I m' \<Longrightarrow> preserves I (if b then m else m')"
  by simp

lemma preserves_set: "(\<And>l. I l \<Longrightarrow> I (f l)) \<Longrightarrow> preserves I (set_locals f)"
  unfolding preserves_def by (rule ensures_set)

lemma preserves_fds: "keeps_locals m \<Longrightarrow> preserves I (on_fds m)"
  unfolding preserves_def by (rule ensures_fds) simp_all

lemma preserves_loop: "(\<And>s. locals (snd (m s)) = locals s) \<Longrightarrow> preserves I m"
  unfolding preserves_def ensures_def by (auto split: sum.splits prod.splits) (metis snd_conv)+

lemmas preserves_intros = preserves_basic preserves_bind preserves_if preserves_fds

text \<open>The variables are changed by what was computed from them.\<close>

lemma preserves_update:
  fixes rest :: "'b \<Rightarrow> (('m \<times> 'k) state, 'c) io"
  assumes "\<And>l y. I l \<Longrightarrow> g l = Inr y \<Longrightarrow> I (u y l)" and "\<And>y. preserves I (rest y)"
  shows "preserves I (io_bind (io_ask (\<lambda>s. g (locals s))) (\<lambda>r. io_bind (io_lift r) (\<lambda>y. io_bind (set_locals (u y)) (\<lambda>_. rest y))))"
  unfolding preserves_def
proof (rule ensures_ask)
  fix s :: "('m \<times> 'k) state" assume I: "I (locals s)"
  have lift: "ensures (\<lambda>l. l = locals s) (io_lift (g (locals s))) (\<lambda>y l. I l \<and> g l = Inr y) I"
    by (rule ensures_lift) (simp_all add: I)
  have set: "ensures (\<lambda>l. I l \<and> g l = Inr y) (set_locals (u y)) (\<lambda>_. I) I" for y
    by (rule ensures_set) (simp add: assms(1))
  show "ensures (\<lambda>l. l = locals s) (io_bind (io_lift (g (locals s))) (\<lambda>y. io_bind (set_locals (u y)) (\<lambda>_. rest y))) (\<lambda>_. I) I"
    by (rule ensures_bind [OF lift ensures_bind [OF set assms(2) [unfolded preserves_def]]])
qed

lemma keeps_locals_bind:
  assumes "keeps_locals m" and "\<And>x. keeps_locals (f x)"
  shows "keeps_locals (io_bind m f)"
  unfolding keeps_locals_def
proof
  fix w
  obtain x w1 where x: "m w = (x, w1)" by (rule prod.exhaust)
  have w1: "fst (w_kernel w1) = fst (w_kernel w)" using assms(1) x unfolding keeps_locals_def by (metis snd_conv)
  show "fst (w_kernel (snd (io_bind m f w))) = fst (w_kernel w)"
  proof (cases x)
    case (Inl e) with x w1 show ?thesis by (simp add: io_bind_eq)
  next
    case (Inr y)
    have "io_bind m f w = f y w1" by (simp add: io_bind_def x Inr)
    with assms(2) [of y] w1 show ?thesis by (simp add: keeps_locals_def)
  qed
qed

lemma keeps_locals_basic:
  "keeps_locals (io_return x)" "keeps_locals (io_throw e)" "keeps_locals (io_lift r)" "keeps_locals (io_ask g)"
  "keeps_locals (deref fd)" "keeps_locals (check_system_call sys what n)" "keeps_locals (call (beside f))"
  "keeps_locals (io_update (set_fd a h))" "keeps_locals (check_fd_system_call sys fd what n)"
  by (auto simp: keeps_locals_def deref_def check_system_call_def call_def beside_def set_fd_def
      check_fd_system_call_def fdw_check_system_call_def Let_def split: option.splits prod.splits)

lemmas keeps_locals_intros = keeps_locals_basic keeps_locals_bind

lemma keeps_locals_fd_new: "keeps_locals (fd_new (sys_beside sys) n)"
proof -
  have "keeps_locals (fdw_new (sys_beside sys) n)"
    unfolding fdw_new_def sys_beside_def by (simp del: io_simps) (auto intro!: keeps_locals_intros)
  then show ?thesis
    unfolding fd_new_def by (rule keeps_locals_bind) (simp add: keeps_locals_def set_fd_def)
qed

lemma keeps_locals_sockets:
  "keeps_locals (socket_new (sys_beside sys) (socket_beside so) d t p)"
  "keeps_locals (bind_socket (sys_beside sys) (socket_beside so) fd a)"
  "keeps_locals (recv_scattered (sys_beside sys) (socket_beside so) fd bufs)"
  "keeps_locals (send_gathered (sys_beside sys) (socket_beside so) fd bufs dest)"
  unfolding socket_new_def bind_socket_def recv_scattered_def send_gathered_def send_iovecs_def fd_num_def
    register_read_def register_write_def Let_def socket_beside_def
  by (auto simp del: io_simps intro!: keeps_locals_intros keeps_locals_fd_new split: prod.splits)

lemma keeps_locals_udp_socket: "keeps_locals (udp_socket (sys_beside sys) (socket_beside so))"
  by (simp add: udp_socket_def datagram_socket_def keeps_locals_sockets)

lemma udp_socket_some: "udp_socket sys so w = (Inr fd, w') \<Longrightarrow> fd \<noteq> None"
  by (auto simp: udp_socket_def datagram_socket_def socket_new_def fd_new_def io_bind_Inr)

subsection \<open>A quiet system\<close>

text \<open>A system that resolves every name to 10.0.0.1, whose sockets are descriptor 3, and on which
  nothing happens and no time passes.\<close>

definition quiet_system :: "nat system" where
  "quiet_system = \<lparr>
     sy_calls = \<lparr>sys_errno = (\<lambda>_. 0), sys_read = (\<lambda>_ _ k. ((0, []), k)), sys_readv = (\<lambda>_ _ k. ((0, []), k)),
       sys_write = (\<lambda>_ _ k. (0, k)), sys_writev = (\<lambda>_ _ k. (0, k)), sys_getfl = (\<lambda>_ k. (0, k)),
       sys_setfl = (\<lambda>_ _ k. (0, k)), sys_close = (\<lambda>_ k. (0, k))\<rparr>,
     sy_sockets = \<lparr>so_socket = (\<lambda>_ _ _ k. (3, k)), so_getsockopt = (\<lambda>_ _ _ k. ((0, 0, 4), k)),
       so_setsockopt = (\<lambda>_ _ _ _ k. (0, k)), so_getsockname = (\<lambda>_ k. ((0, [], 0), k)),
       so_getpeername = (\<lambda>_ k. ((0, [], 0), k)), so_bind = (\<lambda>_ _ _ k. (0, k)), so_connect = (\<lambda>_ _ _ k. (0, k)),
       so_shutdown = (\<lambda>_ _ k. (0, k)), so_recvfrom = (\<lambda>_ _ _ k. ((0, [], [], 0), k)),
       so_recvmsg = (\<lambda>_ _ _ k. ((0, [], [], 0, 0), k)), so_sendto = (\<lambda>_ bs _ k. (int (length bs), k)),
       so_sendmsg = (\<lambda>_ bufs _ k. (int (length (concat bufs)), k)), so_listen = (\<lambda>_ _ k. (0, k)),
       so_accept = (\<lambda>_ k. (3, k))\<rparr>,
     sy_poll = \<lparr>sys_poll = (\<lambda>_ _ k. ((0, []), k)), sys_so_error = (\<lambda>_ k. ((0, 0, 4), k))\<rparr>,
     sy_names = (\<lambda>_. Inr (''10.0.0.1'', ''0'')),
     sy_addrs = (\<lambda>_ _ _. (0, Some ([2, 0, 0, 0, 10, 0, 0, 1] @ replicate 8 0, 16))),
     sy_clock = (\<lambda>k. (5000000, k)), sy_random = (\<lambda>k. (of_nat k, k))\<rparr>"

definition idle_world :: "nat world" where
  "idle_world = \<lparr>w_fds = (\<lambda>_. \<lparr>fw_fd = 0, fw_eof = False, fw_closed = False, fw_non_blocking = False,
     fw_read_count = 0, fw_write_count = 0\<rparr>), w_allocated = 0, w_kernel = 0\<rparr>"

lemma quiet_address: "address_resolve (sy_addrs quiet_system) node service hints = Inr (ipv4_address 0x0a000001)"
proof -
  have "be_bytes (0x0a000001 :: u32) = [10, 0, 0, 1]" by code_simp
  then show ?thesis
    by (simp add: address_resolve_def quiet_system_def address_new_def ipv4_address_def SOCKADDR_STORAGE_SIZE_def
        replicate_add [symmetric])
qed

lemma quiet_names: "ip_port (sy_names quiet_system) (ipv4_address ip) = Inr (''10.0.0.1'', 0)"
proof -
  have "stoi ''0'' = Inr 0" by code_simp
  then show ?thesis by (simp add: ip_port_def ss_family_ipv4_address) (simp add: quiet_system_def)
qed

lemma quiet_call:
  assumes "keeps_locals m" and "\<And>w. isl (fst (m w)) = False"
  obtains x s' where "on_fds m s = (Inr x, s')" and "locals s' = locals s" and "fst s' = fst s"
proof -
  obtain x w' where m: "m (snd s) = (x, w')" by (rule prod.exhaust)
  then obtain y where "x = Inr y" using assms(2) [of "snd s"] by (cases x) auto
  moreover have "fst (w_kernel w') = fst (w_kernel (snd s))" using assms(1) m unfolding keeps_locals_def by (metis snd_conv)
  ultimately show thesis using m that [of y "(fst s, w')"] by (simp add: on_fds_def locals_def)
qed

lemma quiet_udp_socket: "isl (fst (udp_socket (sys_beside (sy_calls quiet_system)) (socket_beside (sy_sockets quiet_system)) w)) = False"
  by (simp add: udp_socket_def datagram_socket_def socket_new_def fd_new_def fdw_new_def check_system_call_def io_bind_def
      call_def beside_def quiet_system_def sys_beside_def socket_beside_def)

lemma quiet_bind: "isl (fst (bind_socket (sys_beside (sy_calls quiet_system)) (socket_beside (sy_sockets quiet_system)) (Some fd) a w)) = False"
  by (simp add: bind_socket_def fd_num_def deref_def check_system_call_def io_bind_def call_def beside_def quiet_system_def
      sys_beside_def socket_beside_def)

end
