(* ===== verification/Summary.thy ===== *)
theory Summary
  imports Arp Tcp_Segment Ipv4 Text
begin

text \<open>
  The human-readable forms of the packets: the \<open>to_string\<close> functions of ARP messages,
  IPv4 headers and TCP segments, and \<open>pretty_print\<close> and \<open>summary\<close> of
  \<open>util/helpers.cc\<close>. The lemmas bound what \<open>pretty_print\<close> writes and say when it
  cuts, and what the summary of a frame off the wire shows.
\<close>

text \<open>\<open>isprint\<close> in the C locale.\<close>

definition isprint :: "u8 \<Rightarrow> bool" where
  "isprint ch \<longleftrightarrow> 32 \<le> ch \<and> ch < 127"

text \<open>One turn of the loop of \<open>pretty_print\<close>: the byte itself, or its escape in hexadecimal.\<close>

definition pretty_byte :: "u8 \<Rightarrow> string" where
  "pretty_byte ch =
     (if isprint ch \<and> ch \<noteq> 34 then [char_of (unat ch)] else CHR 0x5C # CHR ''x'' # hex2 ch)"

fun pretty_loop :: "nat \<Rightarrow> bytes \<Rightarrow> string \<Rightarrow> string \<times> bool" where
  "pretty_loop max_length [] ss = (ss, False)"
| "pretty_loop max_length (ch # str) ss =
     (if length ss \<ge> max_length then (ss, True) else pretty_loop max_length str (ss @ pretty_byte ch))"

definition pretty_print :: "bytes \<Rightarrow> nat \<Rightarrow> string" where
  "pretty_print str max_length =
     (let (ret, truncated) = pretty_loop max_length str []
      in if truncated
         then if length ret \<ge> 3 then take (length ret - 3) ret @ ''...'' else ret @ ''...''
         else ret)"

definition arp_to_string :: "arp_message \<Rightarrow> string" where
  "arp_to_string m =
     ''opcode='' @ (if arp_opcode m = OPCODE_REPLY then ''REPLY''
                    else if arp_opcode m = OPCODE_REQUEST then ''REQUEST'' else ''(unknown type)'')
     @ '', sender='' @ eth_to_string (arp_sender_ethernet m) @ ''/'' @ inet_ntoa (arp_sender_ip m)
     @ '', target='' @ eth_to_string (arp_target_ethernet m) @ ''/'' @ inet_ntoa (arp_target_ip m)"

text \<open>The version is written while the stream is still in hexadecimal mode.\<close>

definition ipv4_header_to_string :: "ipv4_header \<Rightarrow> string" where
  "ipv4_header_to_string h =
     ''IPv'' @ hex_nat (unat (ip_ver h)) @ '' len='' @ dec_nat (unat (ip_len h))
     @ '' proto='' @ dec_nat (unat (ip_proto h)) @ '' ttl='' @ dec_nat (unat (ip_ttl h))
     @ '' src='' @ inet_ntoa (ip_src h) @ '' dst='' @ inet_ntoa (ip_dst h)"

definition tcp_segment_to_string :: "tcp_segment \<Rightarrow> string" where
  "tcp_segment_to_string seg =
     (let sm = ref_get (tm_sender (ts_message seg)); rm = ref_get (tm_receiver (ts_message seg))
      in ''TCP'' @ '' seqno='' @ dec_nat (unat (raw_value (sm_seqno sm)))
         @ (if sm_SYN sm then '' +SYN'' else [])
         @ (if sm_payload sm \<noteq> []
            then '' payload='' @ [CHR 0x22] @ pretty_print (sm_payload sm) 32 @ [CHR 0x22] else [])
         @ (if sm_FIN sm then '' +FIN'' else [])
         @ (if sm_RST sm \<or> rm_RST rm then '' +RST'' else [])
         @ (case rm_ackno rm of None \<Rightarrow> []
            | Some ackno \<Rightarrow> '' ACK<'' @ dec_nat (unat (raw_value ackno)) @ ''>'')
         @ '' winsize='' @ dec_nat (unat (rm_window_size rm))
         @ '' src='' @ dec_nat (unat (ud_src_port (ts_udinfo seg)))
         @ '' dst='' @ dec_nat (unat (ud_dst_port (ts_udinfo seg))))"

definition summary :: "ethernet_frame \<Rightarrow> string result" where
  "summary frame =
     (let out = ethernet_header_to_string (ef_header frame) @ '' payload: ''
      in if eh_type (ef_header frame) = TYPE_IPv4
         then map_sum id (\<lambda>(dgram, ok).
                if ok
                then out @ ipv4_header_to_string (dg_header dgram) @ '' payload=''
                     @ ([CHR 0x22] @ pretty_print (concat_refs (dg_payload dgram)) 32 @ [CHR 0x22])
                else out @ ''bad IPv4 datagram'')
              (parse_with (ipv4_datagram_parse default_datagram) (ef_payload (clone_frame frame)))
         else if eh_type (ef_header frame) = TYPE_ARP
         then map_sum id (\<lambda>(arp, ok). if ok then out @ arp_to_string arp else out @ ''bad ARP message'')
              (parse_with (arp_parse default_arp_message) (ef_payload (clone_frame frame)))
         else Inr (out @ ''unknown frame type''))"

subsection \<open>What pretty-print writes\<close>

definition escaped :: "bytes \<Rightarrow> string" where
  "escaped str = concat (map pretty_byte str)"

definition shows_plainly :: "char \<Rightarrow> bool" where
  "shows_plainly c \<longleftrightarrow> 32 \<le> (of_char c :: nat) \<and> (of_char c :: nat) < 127 \<and> c \<noteq> CHR 0x22"

lemma escaped_simps [simp]:
  "escaped [] = []" "escaped (ch # str) = pretty_byte ch @ escaped str" "escaped (s @ t) = escaped s @ escaped t"
  by (simp_all add: escaped_def)

lemma length_pretty_byte: "1 \<le> length (pretty_byte ch)" "length (pretty_byte ch) \<le> 4"
  by (simp_all add: pretty_byte_def hex2_eq)

lemma pretty_loop_whole:
  "length (ss @ escaped (butlast str)) < max_length \<or> str = [] \<Longrightarrow> pretty_loop max_length str ss = (ss @ escaped str, False)"
proof (induction max_length str ss rule: pretty_loop.induct)
  case (2 max_length ch str ss)
  then show ?case by (cases "str = []") auto
qed simp

text \<open>Where the loop stops early, it has written the least prefix that reaches the limit.\<close>

lemma pretty_loop_cut:
  assumes "length (ss @ escaped (butlast str)) \<ge> max_length" and "str \<noteq> []"
  shows "\<exists>n < length str. pretty_loop max_length str ss = (ss @ escaped (take n str), True)
    \<and> length (ss @ escaped (take n str)) \<ge> max_length
    \<and> (n > 0 \<longrightarrow> length (ss @ escaped (take (n - 1) str)) < max_length)"
  using assms
proof (induction max_length str ss rule: pretty_loop.induct)
  case (2 max_length ch str ss)
  show ?case
  proof (cases "length ss \<ge> max_length")
    case True then show ?thesis by (intro exI [of _ 0]) simp
  next
    case False
    with 2(2) have ne: "str \<noteq> []" by auto
    with 2 False obtain n where n: "n < length str"
      "pretty_loop max_length str (ss @ pretty_byte ch) = (ss @ pretty_byte ch @ escaped (take n str), True)"
      "length (ss @ pretty_byte ch @ escaped (take n str)) \<ge> max_length"
      "n > 0 \<longrightarrow> length (ss @ pretty_byte ch @ escaped (take (n - 1) str)) < max_length"
      by auto
    with False show ?thesis
      by (intro exI [of _ "Suc n"]) (auto simp: take_Cons' not_le)
  qed
qed simp

lemma printable_hex_digit: "n < 16 \<Longrightarrow> shows_plainly (hex_digit n)"
proof -
  have "\<forall>n\<in>{0..<16}. shows_plainly (hex_digit n)" by code_simp
  then show "n < 16 \<Longrightarrow> shows_plainly (hex_digit n)" by simp
qed

lemma escaped_plain: "c \<in> set (escaped str) \<Longrightarrow> shows_plainly c"
proof (induction str)
  case (Cons ch str)
  have digits: "unat ch div 16 < 16" "unat ch mod 16 < 16"
    using unat_less_8 [of ch] by (simp_all add: less_mult_imp_div_less)
  have "shows_plainly c" if "c \<in> set (pretty_byte ch)"
  proof (cases "isprint ch \<and> ch \<noteq> 34")
    case True
    then have n: "32 \<le> unat ch" "unat ch < 127" "unat ch \<noteq> 34"
      by (auto simp: isprint_def word_le_nat_alt word_less_nat_alt word_unat_eq_iff)
    with that True have c: "c = char_of (unat ch)" by (simp add: pretty_byte_def)
    then have "(of_char c :: nat) = unat ch" using n by (simp add: of_char_mod_256)
    moreover from this n have "c \<noteq> CHR 0x22" by auto
    ultimately show ?thesis using n by (simp add: shows_plainly_def)
  next
    case False
    have "shows_plainly (CHR 0x5C)" "shows_plainly (CHR ''x'')" by code_simp+
    with False that digits show ?thesis by (auto simp: pretty_byte_def hex2_eq printable_hex_digit)
  qed
  with Cons show ?case by auto
qed simp

lemma dots_plain: "c \<in> set ''...'' \<Longrightarrow> shows_plainly c"
  by (auto simp: shows_plainly_def)

lemma length_cut:
  assumes "n > 0 \<longrightarrow> length (escaped (take (n - 1) str)) < m" and "n < length str" and "m \<le> length (escaped (take n str))"
  shows "length (escaped (take n str)) \<le> m + 3" and "length (escaped (take n str)) < 3 \<Longrightarrow> length (escaped (take n str)) \<le> m"
proof -
  have "length (escaped (take n str)) = length (escaped (take (n - 1) str)) + length (pretty_byte (str ! (n - 1)))" if "n > 0"
    using that assms(2) take_Suc_conv_app_nth [of "n - 1" str] by simp
  moreover have "length (pretty_byte (str ! (n - 1))) = 1 \<or> length (pretty_byte (str ! (n - 1))) = 4"
    by (simp add: pretty_byte_def hex2_eq)
  ultimately have "length (escaped (take n str)) \<le> m + 3 \<and> (length (escaped (take n str)) < 3 \<longrightarrow> length (escaped (take n str)) \<le> m)"
    using assms(1,3) by (cases "n = 0") auto
  then show "length (escaped (take n str)) \<le> m + 3"
    and "length (escaped (take n str)) < 3 \<Longrightarrow> length (escaped (take n str)) \<le> m" by simp_all
qed

lemma pretty_print_cut:
  assumes "length (escaped (butlast str)) \<ge> max_length" and "str \<noteq> []"
  shows "\<exists>n kept. n < length str \<and> pretty_print str max_length = take kept (escaped (take n str)) @ ''...''
    \<and> kept \<le> length (escaped (take n str)) \<and> kept \<le> max_length \<and> max_length \<le> kept + 3"
proof -
  from pretty_loop_cut [of max_length "[]" str] assms obtain n where
    n: "n < length str" "pretty_loop max_length str [] = (escaped (take n str), True)"
      "length (escaped (take n str)) \<ge> max_length" "n > 0 \<longrightarrow> length (escaped (take (n - 1) str)) < max_length"
    by auto
  show ?thesis
  proof (cases "length (escaped (take n str)) \<ge> 3")
    case True
    with n length_cut(1) [OF n(4,1,3)] show ?thesis
      by (intro exI [of _ n] exI [of _ "length (escaped (take n str)) - 3"]) (simp add: pretty_print_def)
  next
    case False
    with n length_cut(2) [OF n(4,1,3)] show ?thesis
      by (intro exI [of _ n] exI [of _ "length (escaped (take n str))"]) (simp add: pretty_print_def)
  qed
qed

subsection \<open>Properties\<close>

text \<open>\<open>pretty_print\<close> writes the whole escaped text when it reaches its limit with the last
  byte at the earliest, and otherwise a part of it, shortened to make room, and three dots; the
  result is at most three characters over the limit, and is plain printable text without quotes.\<close>

theorem pretty_print_correct:
  "(if str = [] \<or> length (escaped (butlast str)) < max_length
    then pretty_print str max_length = escaped str
    else \<exists>kept rest. escaped str = kept @ rest \<and> pretty_print str max_length = kept @ ''...'' \<and> max_length \<le> length kept + 3)
   \<and> length (pretty_print str max_length) \<le> max_length + 3
   \<and> list_all shows_plainly (pretty_print str max_length)"
proof (cases "str = [] \<or> length (escaped (butlast str)) < max_length")
  case True
  then have whole: "pretty_print str max_length = escaped str"
    using pretty_loop_whole [of "[]" str max_length] by (auto simp: pretty_print_def)
  have "length (escaped str) \<le> max_length + 3"
  proof (cases str rule: rev_cases)
    case (snoc xs x)
    then show ?thesis using True length_pretty_byte(2) [of x] by simp
  qed simp
  with True whole show ?thesis using escaped_plain by (simp add: list_all_iff)
next
  case False
  then obtain n kept where n: "n < length str" "pretty_print str max_length = take kept (escaped (take n str)) @ ''...''"
    "kept \<le> length (escaped (take n str))" "kept \<le> max_length" "max_length \<le> kept + 3"
    using pretty_print_cut [of max_length str] by auto
  have "escaped str = escaped (take n str) @ escaped (drop n str)"
    by (metis append_take_drop_id escaped_simps(3))
  then have "escaped str = take kept (escaped (take n str)) @ (drop kept (escaped (take n str)) @ escaped (drop n str))"
    by simp
  moreover have "max_length \<le> length (take kept (escaped (take n str))) + 3" using n(3,5) by simp
  moreover have "list_all shows_plainly (pretty_print str max_length)"
    using n(2) escaped_plain dots_plain by (auto simp: list_all_iff dest: in_set_takeD)
  ultimately show ?thesis using n False by auto
qed

text \<open>The summary of a frame that carries a valid datagram shows the header and the payload,
  that of a frame that carries a supported ARP message shows the message, and a frame of any
  other type is reported as such.\<close>

theorem summary_shows_packet:
  assumes "packed (ef_payload f)"
  shows "(eh_type (ef_header f) = TYPE_IPv4 \<and> valid_header h \<and> unat (ip_len h) = 20 + length bs
      \<and> chunks (ef_payload f) = ipv4_header_bytes h @ bs \<longrightarrow>
        summary f = Inr (ethernet_header_to_string (ef_header f) @ '' payload: '' @ ipv4_header_to_string h
          @ '' payload='' @ [CHR 0x22] @ pretty_print bs 32 @ [CHR 0x22]))
    \<and> (eh_type (ef_header f) = TYPE_ARP \<and> supported m \<and> chunks (ef_payload f) = arp_bytes m @ padding \<longrightarrow>
        summary f = Inr (ethernet_header_to_string (ef_header f) @ '' payload: '' @ arp_to_string m))
    \<and> (eh_type (ef_header f) \<noteq> TYPE_IPv4 \<and> eh_type (ef_header f) \<noteq> TYPE_ARP \<longrightarrow>
        summary f = Inr (ethernet_header_to_string (ef_header f) @ '' payload: unknown frame type''))"
proof -
  have ne: "TYPE_ARP \<noteq> TYPE_IPv4" by (simp add: TYPE_ARP_def TYPE_IPv4_def)
  let ?cs = "clone_refs (ef_payload f)"
  have cs: "\<forall>c\<in>set ?cs. is_owned c" "packed ?cs" "chunks ?cs = chunks (ef_payload f)"
    using assms by (simp_all add: clone_refs_owned packed_clone chunks_clone)
  have "\<exists>payload. parse_with (ipv4_datagram_parse default_datagram) ?cs = Inr (\<lparr>dg_header = h, dg_payload = payload\<rparr>, True)
      \<and> concat_refs payload = bs"
    if "valid_header h" "unat (ip_len h) = 20 + length bs" "chunks (ef_payload f) = ipv4_header_bytes h @ bs"
    using parse_datagram [OF that(1,2) cs(1,2), of default_datagram] cs(3) that(3)
    by (auto simp: chunks_def concat_refs_def)
  moreover have "parse_with (arp_parse default_arp_message) ?cs = Inr (m, True)"
    if "supported m" "chunks (ef_payload f) = arp_bytes m @ padding"
    using parse_arp [OF that(1) cs(1,2)] cs(3) that(2) by simp
  ultimately show ?thesis
    using ne by (auto simp: summary_def Let_def clone_frame_def)
qed

theorem summary_shows_packet_witness:
  "summary \<lparr>ef_header = \<lparr>eh_dst = ETHERNET_BROADCAST, eh_src = Eth 2 0 0 0 0 1, eh_type = TYPE_IPv4\<rparr>,
      ef_payload = [Borrowed (ipv4_header_bytes demo_header @ [65]), Owned [34, 66, 7]]\<rparr>
   = Inr (''dst=ff:ff:ff:ff:ff:ff src=02:00:00:00:00:01 type=IPv4 payload: IPv4 len=24 proto=6 ttl=128''
      @ '' src=10.0.0.1 dst=10.0.0.2 payload='' @ [CHR 0x22, CHR ''A'', CHR 0x5C] @ ''x22B'' @ [CHR 0x5C] @ ''x07'' @ [CHR 0x22])"
proof -
  let ?eh = "\<lparr>eh_dst = ETHERNET_BROADCAST, eh_src = Eth 2 0 0 0 0 1, eh_type = TYPE_IPv4\<rparr>"
  let ?f = "\<lparr>ef_header = ?eh, ef_payload = [Borrowed (ipv4_header_bytes demo_header @ [65]), Owned [34, 66, 7]]\<rparr>"
  have header: "valid_header demo_header" "unat (ip_len demo_header) = 20 + length [65, 34, 66, 7 :: u8]" by code_simp+
  have wire: "packed (ef_payload ?f)" "chunks (ef_payload ?f) = ipv4_header_bytes demo_header @ [65, 34, 66, 7]"
    by (simp_all add: ipv4_header_bytes_def be_bytes_simps)
  have header_text: "ipv4_header_to_string demo_header = ''IPv4 len=24 proto=6 ttl=128 src=10.0.0.1 dst=10.0.0.2''"
    by (simp add: ipv4_header_to_string_def demo_header_def default_ipv4_header_def DEFAULT_TTL_def
      PROTO_TCP_def inet_ntoa_def dec_nat.simps dec_digit_def hex_nat.simps hex_digit_def)
  have payload_text: "pretty_print [65, 34, 66, 7] 32 = [CHR ''A'', CHR 0x5C] @ ''x22B'' @ [CHR 0x5C] @ ''x07''"
    by code_simp
  have eth_text: "ethernet_header_to_string ?eh = ''dst=ff:ff:ff:ff:ff:ff src=02:00:00:00:00:01 type=IPv4''"
    by code_simp
  have "summary ?f = Inr (ethernet_header_to_string ?eh @ '' payload: '' @ ipv4_header_to_string demo_header
        @ '' payload='' @ [CHR 0x22] @ pretty_print [65, 34, 66, 7] 32 @ [CHR 0x22])"
    using summary_shows_packet [OF wire(1), of demo_header "[65, 34, 66, 7]", THEN conjunct1] header wire(2) by simp
  then show ?thesis unfolding header_text payload_text eth_text by simp
qed

end
