(* ===== verification/Lan.thy ===== *)
theory Lan
  imports Network_Interface
begin

text \<open>
  Runs of a network interface (\<open>src/network_interface.cc\<close>) and the exchange between two
  interfaces on one Ethernet: request, reply, delivery. A frame on the wire arrives with the
  same header and the same payload bytes, in chunks of its own.
\<close>

subsection \<open>Runs\<close>

datatype ni_event = Send ipv4_datagram address | Receive ethernet_frame | Elapse u64

fun ni_do :: "network_interface \<Rightarrow> ni_event \<Rightarrow> (network_interface \<times> ethernet_frame list) result" where
  "ni_do s (Send d next_hop) = send_datagram s d next_hop"
| "ni_do s (Receive f) = recv_frame s f"
| "ni_do s (Elapse ms) = Inr (ni_tick s ms, [])"

fun ni_exec :: "network_interface \<Rightarrow> ni_event list \<Rightarrow> (network_interface \<times> ethernet_frame list) result" where
  "ni_exec s [] = Inr (s, [])"
| "ni_exec s (ev # evs) = res_bind (ni_do s ev) (\<lambda>(s, out). map_sum id (apsnd ((@) out)) (ni_exec s evs))"

text \<open>The milliseconds that pass.\<close>

fun elapsed :: "ni_event list \<Rightarrow> nat" where
  "elapsed [] = 0"
| "elapsed (Elapse ms # evs) = unat ms + elapsed evs"
| "elapsed (_ # evs) = elapsed evs"

lemma send_datagram_addresses [frames]:
  "send_datagram s d hop = Inr (s', out) \<Longrightarrow> ethernet_address s' = ethernet_address s \<and> ip_address s' = ip_address s"
  by (erule send_datagram_cases) (simp_all add: push_waiting_def)

lemma recv_frame_addresses [frames]:
  "recv_frame s f = Inr (s', out) \<Longrightarrow> ethernet_address s' = ethernet_address s \<and> ip_address s' = ip_address s"
  by (erule recv_frame_cases) (auto simp: recv_arp_eq learnt_def)

lemma ni_do_addresses [frames]:
  "ni_do s ev = Inr (s', out) \<Longrightarrow> ethernet_address s' = ethernet_address s \<and> ip_address s' = ip_address s"
  by (cases ev) (auto dest: frames)

lemma ni_ok_do: "ni_ok s \<Longrightarrow> ni_do s ev = Inr (s', out) \<Longrightarrow> (\<forall>ms. ev = Elapse ms \<longrightarrow> sane_tick ms) \<Longrightarrow> ni_ok s'"
  by (cases ev) (auto intro: ni_ok_send ni_ok_recv ni_ok_tick)

text \<open>What an interface puts on the wire: datagrams, and ARP messages about itself.\<close>

definition own_arp :: "network_interface \<Rightarrow> ethernet_address \<Rightarrow> arp_message \<Rightarrow> ethernet_frame \<Rightarrow> bool" where
  "own_arp s dst m f \<longleftrightarrow> arp_frame s dst m = Inr f \<and> supported m \<and> arp_sender_ethernet m = ethernet_address s
     \<and> ipv4_numeric (ip_address s) = Inr (arp_sender_ip m)"

definition well_sent :: "network_interface \<Rightarrow> ethernet_frame \<Rightarrow> bool" where
  "well_sent s f \<longleftrightarrow> (\<exists>dst d. carries s dst d f) \<or> (\<exists>dst m. own_arp s dst m f)"

lemma well_sentI: "carries s dst d f \<Longrightarrow> well_sent s f" "own_arp s dst m f \<Longrightarrow> well_sent s f"
  by (auto simp: well_sent_def)

lemma well_sent_address:
  assumes "ethernet_address s' = ethernet_address s \<and> ip_address s' = ip_address s" and "well_sent s f"
  shows "well_sent s' f"
  using assms frames_address(1,2) [of s' s] by (simp add: well_sent_def carries_def own_arp_def)

lemma well_sent_carried: "list_all2 (carries s dst) ds fs \<Longrightarrow> f \<in> set fs \<Longrightarrow> well_sent s f"
  by (auto simp: list_all2_conv_all_nth in_set_conv_nth intro: well_sentI(1))

lemma own_arp_request: "arp_frame s dst (arp_request s our_ip ip) = Inr f \<Longrightarrow> ipv4_numeric (ip_address s) = Inr our_ip
    \<Longrightarrow> own_arp s dst (arp_request s our_ip ip) f"
  using supported_request by (simp add: own_arp_def) (simp add: arp_request_def)

lemma own_arp_reply: "arp_frame s dst (arp_reply s our_ip m) = Inr f \<Longrightarrow> ipv4_numeric (ip_address s) = Inr our_ip
    \<Longrightarrow> own_arp s dst (arp_reply s our_ip m) f"
  using supported_reply by (simp add: own_arp_def) (simp add: arp_reply_def)

lemma arp_answer_well_sent:
  "arp_answer s m = Inr reply \<Longrightarrow> f \<in> set reply \<Longrightarrow> \<exists>our_ip. own_arp s (arp_sender_ethernet m) (arp_reply s our_ip m) f"
  by (auto simp: arp_answer_def map_sum_eq_Inr split: if_splits intro!: exI own_arp_reply)

lemma ni_do_well_sent:
  assumes "ni_do s ev = Inr (s', out)" and "f \<in> set out"
  shows "well_sent s f"
proof (cases ev)
  case (Send d hop)
  with assms(1) have "send_datagram s d hop = Inr (s', out)" by simp
  then show ?thesis
    by (rule send_datagram_cases) (use assms(2) in \<open>auto simp: carries_def intro: well_sentI(1) well_sentI(2) [OF own_arp_request]\<close>)
next
  case (Receive g)
  with assms(1) have "recv_frame s g = Inr (s', out)" by simp
  then show ?thesis
    by (rule recv_frame_cases)
      (use assms(2) in \<open>auto simp: recv_arp_eq dest!: arp_answer_well_sent flush_queue_Inr
         intro: well_sent_carried well_sentI(2)\<close>)
qed (use assms in simp)

inductive ni_step :: "network_interface \<Rightarrow> ethernet_frame list \<Rightarrow> network_interface \<Rightarrow> bool" where
  send: "send_datagram s d next_hop = Inr (s', out) \<Longrightarrow> ni_step s out s'"
| receive: "recv_frame s f = Inr (s', out) \<Longrightarrow> ni_step s out s'"
| elapse: "sane_tick ms \<Longrightarrow> ni_step s [] (ni_tick s ms)"

inductive_simps ni_step_iff: "ni_step s out s'"

lemma ni_step_do: "ni_step s out s' \<Longrightarrow> \<exists>ev. ni_do s ev = Inr (s', out) \<and> (\<forall>ms. ev = Elapse ms \<longrightarrow> sane_tick ms)"
  unfolding ni_step_iff by (metis ni_do.simps ni_event.distinct(4,6) ni_event.inject(3))

interpretation ni: step_invariant ni_step ni_ok well_sent
proof
  fix s s' :: network_interface and out x
  assume step: "ni_step s out s'"
  then obtain ev where ev: "ni_do s ev = Inr (s', out)" "\<forall>ms. ev = Elapse ms \<longrightarrow> sane_tick ms"
    using ni_step_do by blast
  note same = ni_do_addresses [OF ev(1)]
  { assume "ni_ok s" then show "ni_ok s'" using ni_ok_do ev by blast }
  { assume "x \<in> set out" then show "well_sent s' x"
      using ni_do_well_sent [OF ev(1)] well_sent_address [OF same] by blast }
  { assume "well_sent s x" then show "well_sent s' x" using well_sent_address [OF same] by blast }
qed

subsection \<open>Requests\<close>

lemma arp_frame_Inr:
  "arp_frame s dst m = Inr f \<Longrightarrow> supported m \<and> eh_type (ef_header f) = TYPE_ARP \<and> chunks (ef_payload f) = arp_bytes m"
  using arp_frame_supported [of m s dst]
  by (cases "supported m") (auto simp: frame_to_def arp_frame_def serialize_with_def arp_serialize_def)

lemma arp_frame_inj: "arp_frame s dst m = Inr f \<Longrightarrow> arp_frame s' dst' m' = Inr f \<Longrightarrow> m = m'"
  using arp_frame_Inr [of s dst m f] arp_frame_Inr [of s' dst' m' f] arp.put_prefix_free [of m m' "[]" "[]"]
  by simp

lemma arp_message_fields [simp]:
  "arp_opcode (arp_request s our_ip ip) = OPCODE_REQUEST" "arp_opcode (arp_reply s our_ip m) = OPCODE_REPLY"
  "arp_target_ip (arp_request s our_ip ip) = ip" "arp_target_ip (arp_reply s our_ip m) = arp_sender_ip m"
  "arp_sender_ip (arp_request s our_ip ip) = our_ip" "arp_sender_ip (arp_reply s our_ip m) = our_ip"
  "arp_sender_ethernet (arp_request s our_ip ip) = ethernet_address s"
  "arp_sender_ethernet (arp_reply s our_ip m) = ethernet_address s"
  by (simp_all add: arp_request_def arp_reply_def)

lemma not_request:
  "carries s dst d f \<Longrightarrow> \<not> performs s' (Ask ip) f"
  "own_arp s dst (arp_reply s our_ip m) f \<Longrightarrow> \<not> performs s' (Ask ip) f"
proof -
  assume "carries s dst d f"
  then show "\<not> performs s' (Ask ip) f"
    using ipv4_frame_Inr [of s dst d f] arp_frame_Inr [of s' ETHERNET_BROADCAST _ f]
    by (auto simp: carries_def TYPE_IPv4_def TYPE_ARP_def)
next
  assume "own_arp s dst (arp_reply s our_ip m) f"
  then have "arp_frame s' ETHERNET_BROADCAST (arp_request s' ip' ip) \<noteq> Inr f" for ip'
    using arp_frame_inj [of s dst "arp_reply s our_ip m" f s' ETHERNET_BROADCAST "arp_request s' ip' ip"]
      arp_message_fields(1) [of s' ip' ip] arp_message_fields(2) [of s our_ip m]
    by (auto simp: own_arp_def OPCODE_REPLY_def OPCODE_REQUEST_def simp del: arp_message_fields)
  then show "\<not> performs s' (Ask ip) f" by simp
qed

text \<open>A request is the only frame of its operation, is sent only when none is outstanding, and is logged
  with the time at which it is sent.\<close>

lemma ni_do_asks:
  assumes "ni_do s ev = Inr (s', out)" and "f \<in> set out" and "performs s (Ask ip) f"
  shows "Mapping.lookup (arp_requests_waiting s) ip = None \<and> out = [f]
    \<and> Mapping.lookup (arp_requests_waiting s') ip = Some (current_time s')"
proof (cases ev)
  case (Send d hop)
  with assms(1) have "send_datagram s d hop = Inr (s', out)" by simp
  then show ?thesis
  proof (cases rule: send_datagram_cases)
    case (known ip' e g)
    then show ?thesis using assms(2,3) not_request(1) [of s _ d f s ip] by (auto simp: carries_def)
  next
    case (fresh ip' our_ip g)
    then have f: "out = [f]" "f = g" using assms(2) by auto
    then obtain our where "arp_frame s ETHERNET_BROADCAST (arp_request s our ip) = Inr g"
      using assms(3) by auto
    from arp_frame_inj [OF this fresh(5)] have "arp_request s our ip = arp_request s our_ip ip'" .
    then have "ip = ip'" by (metis arp_message_fields(3))
    then show ?thesis using f(1) fresh(3,7) by simp
  qed (use assms(2) in simp)
next
  case (Receive g)
  with assms(1) have "recv_frame s g = Inr (s', out)" by simp
  then show ?thesis
  proof (cases rule: recv_frame_cases)
    case (arp m)
    then obtain reply frames dst q where "out = reply @ frames" "arp_answer s m = Inr reply"
      "list_all2 (carries s dst) q frames"
      by (auto simp: recv_arp_eq dest!: flush_queue_Inr)
    then consider "f \<in> set reply" | "f \<in> set frames" using assms(2) by auto
    then have "\<not> performs s (Ask ip) f"
    proof cases
      case 1
      then show ?thesis using arp_answer_well_sent [of s m reply f] not_request(2) \<open>arp_answer s m = Inr reply\<close> by blast
    next
      case 2
      then obtain d where "carries s dst d f"
        using \<open>list_all2 _ q frames\<close> by (auto simp: list_all2_conv_all_nth in_set_conv_nth)
      then show ?thesis by (rule not_request(1))
    qed
    then show ?thesis using assms(3) by blast
  qed (use assms(2) in simp_all)
qed (use assms in simp)

lemma ni_do_keeps_request:
  assumes "ni_do s ev = Inr (s', out)" and "Mapping.lookup (arp_requests_waiting s) ip = Some t"
    and "age s t + elapsed [ev] \<le> 5000"
  shows "Mapping.lookup (arp_requests_waiting s') ip = Some t \<and> age s' t = age s t + elapsed [ev]"
proof (cases ev)
  case (Send d hop)
  with assms(1) have "send_datagram s d hop = Inr (s', out)" by simp
  then show ?thesis
    by (rule send_datagram_cases)
      (use assms(2) Send in \<open>auto simp: push_waiting_def age_def Mapping.lookup_update'\<close>)
next
  case (Receive g)
  with assms(1) have "recv_frame s g = Inr (s', out)" by simp
  then show ?thesis
    by (rule recv_frame_cases) (use assms(2) Receive in \<open>auto simp: recv_arp_eq learnt_def age_def\<close>)
next
  case (Elapse ms)
  then show ?thesis using assms by (auto simp: lookup_tick age_tick)
qed

lemma elapsed_Cons: "elapsed (ev # evs) = elapsed [ev] + elapsed evs"
  by (cases ev) simp_all

lemma performs_address:
  assumes "ethernet_address s' = ethernet_address s \<and> ip_address s' = ip_address s"
  shows "performs s' a f = performs s a f"
  using assms frames_address [of s' s] by (cases a) (simp_all add: carries_def)

text \<open>While a request is outstanding no other is sent.\<close>

lemma none_while_outstanding:
  assumes "Mapping.lookup (arp_requests_waiting s) ip = Some t" and "age s t + elapsed evs \<le> 5000"
    and "ni_exec s evs = Inr (s', out)"
  shows "\<forall>f\<in>set out. \<not> performs s (Ask ip) f"
  using assms
proof (induction evs arbitrary: s out)
  case (Cons ev evs)
  then obtain s1 out1 out2 where do: "ni_do s ev = Inr (s1, out1)" and rest: "ni_exec s1 evs = Inr (s', out2)"
    and out: "out = out1 @ out2"
    by (auto simp: map_sum_eq_Inr)
  have el: "age s t + elapsed [ev] \<le> 5000" using Cons.prems(2) elapsed_Cons [of ev evs] by simp
  note next1 = ni_do_keeps_request [OF do Cons.prems(1) el]
  have "\<not> performs s1 (Ask ip) f" if "f \<in> set out2" for f
    using Cons.IH [of s1 out2] next1 rest Cons.prems(2) elapsed_Cons [of ev evs] that by simp
  then have "\<not> performs s (Ask ip) f" if "f \<in> set out2" for f
    using that performs_address [OF ni_do_addresses [OF do], of "Ask ip" f] by metis
  moreover have "\<not> performs s (Ask ip) f" if "f \<in> set out1" for f
    using ni_do_asks [OF do that, of ip] Cons.prems(1) by auto
  ultimately show ?case by (auto simp only: out set_append)
qed simp

subsection \<open>Properties\<close>

text \<open>C28: in every run of an interface from its construction, whatever arrives, the tables
  stay consistent: datagrams wait only for hosts that have been asked for and are not known,
  no entry outlives its time, and everything transmitted is a datagram in an IPv4 frame or a
  well-formed ARP message about the interface itself, from its own Ethernet address.\<close>

theorem ni_run_invariant:
  assumes "network_interface_new getnameinfo name port_is_null e a = Inr s" and "runs ni_step s log s'"
  shows "ni_ok s' \<and> (\<forall>f\<in>set log. well_sent s' f)"
  using ni.run_inv [OF assms(2)] ni.run_outputs [OF assms(2)] ni_ok_new [OF assms(1)] by blast

theorem ni_run_invariant_witness:
  "\<exists>log s'. runs ni_step (fresh_interface (Eth 2 0 0 0 0 1) 1) log s' \<and> ni_ok s'
    \<and> neighbour s' 9 = Resolving 0 [clone_datagram demo_datagram]"
proof -
  obtain s out where run: "send_datagram (fresh_interface (Eth 2 0 0 0 0 1) 1) demo_datagram (ipv4_address 9) = Inr (s, out)"
    and nb: "neighbour s 9 = Resolving 0 [clone_datagram demo_datagram]"
    using demo_send by blast
  have "runs ni_step (fresh_interface (Eth 2 0 0 0 0 1) 1) ([] @ out) s"
    using run by (blast intro: runs.step runs.start ni_step.send)
  from ni_run_invariant [OF fresh_interface_new this] this nb show ?thesis by auto
qed

text \<open>C27: requests are rate limited: an operation that transmits a request for an IP address transmits
  this request alone, and however the interface is used after it, for 5 seconds no other request for
  the address is transmitted.\<close>

theorem arp_rate_limited:
  assumes "ni_do s ev = Inr (s1, out1)" and "f \<in> set out1" and "performs s (Ask ip) f"
    and "ni_exec s1 evs = Inr (s', out)" and "elapsed evs \<le> 5000"
  shows "out1 = [f] \<and> (\<forall>g\<in>set out. \<not> performs s (Ask ip) g)"
proof -
  note asked = ni_do_asks [OF assms(1-3)]
  then have "\<forall>g\<in>set out. \<not> performs s1 (Ask ip) g"
    using none_while_outstanding [of s1 ip "current_time s1" evs] assms(4,5) by simp
  moreover have "performs s1 (Ask ip) g = performs s (Ask ip) g" for g
    by (rule performs_address [OF ni_do_addresses [OF assms(1)]])
  ultimately show ?thesis using asked by blast
qed

text \<open>The interface asks, and is given a second datagram after three seconds, and two seconds pass.\<close>

theorem arp_rate_limited_witness:
  "\<exists>s request s' out'. ni_do (fresh_interface (Eth 2 0 0 0 0 1) 1) (Send demo_datagram (ipv4_address 9)) = Inr (s, [request])
    \<and> ni_exec s [Elapse 3000, Send demo_datagram (ipv4_address 9), Elapse 2000] = Inr (s', out')
    \<and> (\<forall>f\<in>set out'. \<not> performs (fresh_interface (Eth 2 0 0 0 0 1) 1) (Ask 9) f)"
proof -
  let ?s = "fresh_interface (Eth 2 0 0 0 0 1) 1"
  obtain s out where run: "send_datagram ?s demo_datagram (ipv4_address 9) = Inr (s, out)"
    using demo_send by blast
  then have do: "ni_do ?s (Send demo_datagram (ipv4_address 9)) = Inr (s, out)" by simp
  obtain f where f: "f \<in> set out" "performs ?s (Ask 9) f"
    using demo_send_asks [OF run] by blast
  have "ip_address (ni_tick s 3000) = ipv4_address 1"
    using send_datagram_addresses [OF run] by simp
  then obtain s1 out1 where "send_datagram (ni_tick s 3000) demo_datagram (ipv4_address 9) = Inr (s1, out1)"
    using send_datagram_returns [of "ipv4_address 9" 9 "ni_tick s 3000" 1 demo_datagram] by auto
  then have exec: "ni_exec s [Elapse 3000, Send demo_datagram (ipv4_address 9), Elapse 2000] = Inr (ni_tick s1 2000, out1)"
    by simp
  have "elapsed [Elapse 3000, Send demo_datagram (ipv4_address 9), Elapse 2000] \<le> 5000" by simp
  from arp_rate_limited [OF do f exec this] do exec show ?thesis by blast
qed

subsection \<open>Two interfaces on one Ethernet\<close>

definition arrives :: "ethernet_frame \<Rightarrow> ethernet_frame \<Rightarrow> bool" where
  "arrives f f' \<longleftrightarrow> ef_header f' = ef_header f \<and> chunks (ef_payload f') = chunks (ef_payload f)
     \<and> (\<forall>c\<in>set (ef_payload f'). is_owned c) \<and> packed (ef_payload f')"

lemma neighbour_learnt_sender:
  "arp_sender_ip m = ip \<Longrightarrow> neighbour (learnt s m) ip = Resolved (arp_sender_ethernet m) (current_time s)"
  using neighbour_learnt [of s m Unknown] by (auto simp: nb_learn_def)

lemma recv_arp_frame:
  assumes "arp_frame s dst m = Inr f" and "arrives f f'"
    and "dst = ethernet_address t \<or> dst = ETHERNET_BROADCAST"
  shows "recv_frame t f' = recv_arp t m"
proof -
  have f: "supported m" "ef_header f = \<lparr>eh_dst = dst, eh_src = ethernet_address s, eh_type = TYPE_ARP\<rparr>"
    "chunks (ef_payload f) = arp_bytes m"
    using arp_frame_Inr [OF assms(1)] assms(1) by (auto simp: arp_frame_def frame_to_def map_sum_eq_Inr)
  have "parse_with (arp_parse default_arp_message) (ef_payload f') = Inr (m, True)"
    using assms(2) f(1,3) by (intro parse_arp [where padding = "[]"]) (simp_all add: arrives_def)
  moreover have "ef_header f' = \<lparr>eh_dst = dst, eh_src = ethernet_address s, eh_type = TYPE_ARP\<rparr>"
    using assms(2) f(2) by (simp add: arrives_def)
  ultimately show ?thesis
    using assms(3) by (auto simp: recv_frame_def TYPE_ARP_def TYPE_IPv4_def)
qed

lemma recv_ipv4_frame:
  assumes "carries s dst d f" and "arrives f f'" and "dst = ethernet_address t"
    and "valid_header (dg_header d)" and "unat (ip_len (dg_header d)) = 20 + length (chunks (dg_payload d))"
  shows "\<exists>payload. recv_frame t f' = Inr (t\<lparr>datagrams_received := datagrams_received t @ [\<lparr>dg_header = dg_header d, dg_payload = payload\<rparr>]\<rparr>, [])
    \<and> chunks payload = chunks (dg_payload d)"
proof -
  have f: "ef_header f' = \<lparr>eh_dst = dst, eh_src = ethernet_address s, eh_type = TYPE_IPv4\<rparr>"
    "chunks (ef_payload f') = ipv4_header_bytes (dg_header d) @ chunks (dg_payload d)"
    using ipv4_frame_Inr [of s dst d f] assms(1,2) by (auto simp: carries_def arrives_def)
  from parse_datagram [OF assms(4,5) _ _ f(2), of default_datagram] assms(2) obtain payload where
    "parse_with (ipv4_datagram_parse default_datagram) (ef_payload f') = Inr (\<lparr>dg_header = dg_header d, dg_payload = payload\<rparr>, True)"
    "chunks payload = chunks (dg_payload d)"
    by (auto simp: arrives_def)
  with f(1) assms(3) show ?thesis
    by (intro exI [of _ "clone_refs payload"]) (simp add: recv_frame_def clone_datagram_def chunks_clone)
qed

text \<open>C9: a datagram sent to a host on the same Ethernet whose address is not known reaches
  it: the sender broadcasts a request, the host answers it, and learns the sender's address,
  the answer makes the sender transmit the datagram, and the host receives it with its
  header and payload.\<close>

theorem lan_delivery:
  assumes "ni_ok a" and "ni_ok b" and "ip_address a = ipv4_address ip_a" and "ip_address b = ipv4_address ip_b"
    and "neighbour a ip_b = Unknown" and "\<forall>t q. neighbour b ip_a \<noteq> Resolving t q"
    and "valid_header (dg_header d)" and "unat (ip_len (dg_header d)) = 20 + length (chunks (dg_payload d))"
  shows "\<exists>a1 request. send_datagram a d (ipv4_address ip_b) = Inr (a1, [request])
    \<and> (\<forall>request'. arrives request request' \<longrightarrow>
        (\<exists>b1 reply. recv_frame b request' = Inr (b1, [reply])
          \<and> neighbour b1 ip_a = Resolved (ethernet_address a) (current_time b)
          \<and> (\<forall>reply'. arrives reply reply' \<longrightarrow>
              (\<exists>a2 frame. recv_frame a1 reply' = Inr (a2, [frame])
                \<and> neighbour a2 ip_b = Resolved (ethernet_address b) (current_time a)
                \<and> (\<forall>frame'. arrives frame frame' \<longrightarrow>
                    (\<exists>b2 payload. recv_frame b1 frame' = Inr (b2, [])
                      \<and> datagrams_received b2 = datagrams_received b @ [\<lparr>dg_header = dg_header d, dg_payload = payload\<rparr>]
                      \<and> chunks payload = chunks (dg_payload d)))))))"
proof -
  have d: "sendable d" using assms(7) by (simp add: sendable_def valid_header_def)
  have look: "Mapping.lookup (ip_ether_map a) ip_b = None" "Mapping.lookup (arp_requests_waiting a) ip_b = None"
    using assms(5) by (auto simp: neighbour_def split: option.splits)
  let ?q = "arp_request a ip_a ip_b"
  obtain f where f: "arp_frame a ETHERNET_BROADCAST ?q = Inr f"
    using arp_frame_supported [OF supported_request] by blast
  define a1 where "a1 = push_waiting ip_b d (a\<lparr>datagrams_waiting := Mapping.update ip_b [] (datagrams_waiting a),
    arp_requests_waiting := Mapping.update ip_b (current_time a) (arp_requests_waiting a)\<rparr>)"
  have send: "send_datagram a d (ipv4_address ip_b) = Inr (a1, [f])"
    using look f assms(3) by (simp add: send_datagram_def a1_def)
  have a1: "ethernet_address a1 = ethernet_address a" "current_time a1 = current_time a"
    "Mapping.lookup_default [] (datagrams_waiting a1) ip_b = [clone_datagram d]"
    by (simp_all add: a1_def push_waiting_def)
  let ?r = "arp_reply b ip_b ?q"
  obtain g where g: "arp_frame b (ethernet_address a) ?r = Inr g"
    using arp_frame_supported [OF supported_reply] by blast
  have answer: "arp_answer b ?q = Inr [g]"
    using g assms(4) by (simp add: arp_answer_def)
  have idle: "Mapping.lookup_default [] (datagrams_waiting b) ip_a = []"
    by (rule not_waiting) (rule assms)+
  have recv1: "recv_arp b ?q = Inr (learnt b ?q, [g])"
    by (simp add: recv_arp_eq answer idle)
  obtain h where h: "ipv4_frame a (ethernet_address b) d = Inr h" using ipv4_frame_sendable [OF d] by blast
  have h1: "ipv4_frame a1 (ethernet_address b) d = Inr h" using h frames_address(1) [OF a1(1)] by simp
  have recv2: "recv_arp a1 ?r = Inr (learnt a1 ?r, [h])"
    by (simp add: recv_arp_eq arp_answer_def OPCODE_REPLY_def OPCODE_REQUEST_def a1(3) h1)
  have arrive1: "recv_frame b f' = Inr (learnt b ?q, [g])" if "arrives f f'" for f'
    using recv_arp_frame [OF f that, of b] recv1 by simp
  have arrive2: "recv_frame a1 g' = Inr (learnt a1 ?r, [h])" if "arrives g g'" for g'
    using recv_arp_frame [OF g that, of a1] recv2 a1(1) by simp
  have arrive3: "\<exists>b2 payload. recv_frame (learnt b ?q) h' = Inr (b2, [])
      \<and> datagrams_received b2 = datagrams_received b @ [\<lparr>dg_header = dg_header d, dg_payload = payload\<rparr>]
      \<and> chunks payload = chunks (dg_payload d)" if h': "arrives h h'" for h'
    using recv_ipv4_frame [OF _ h' _ assms(7,8), of a "ethernet_address b" "learnt b ?q"] h
    by (fastforce simp: carries_def learnt_def)
  have known: "neighbour (learnt b ?q) ip_a = Resolved (ethernet_address a) (current_time b)"
    "neighbour (learnt a1 ?r) ip_b = Resolved (ethernet_address b) (current_time a)"
    by (simp_all add: neighbour_learnt_sender a1(2))
  show ?thesis
    by (rule exI [of _ a1], rule exI [of _ f], intro conjI allI impI send,
        rule exI [of _ "learnt b ?q"], rule exI [of _ g], intro conjI allI impI arrive1 known, assumption,
        rule exI [of _ "learnt a1 ?r"], rule exI [of _ h], intro conjI allI impI arrive2 arrive3 known)
qed

text \<open>A cleanly cut datagram of 24 bytes, there and back.\<close>

theorem lan_delivery_witness:
  "\<exists>a1 request. send_datagram (fresh_interface (Eth 2 0 0 0 0 1) 1) demo_datagram (ipv4_address 9) = Inr (a1, [request])
    \<and> (\<exists>b1 reply. recv_frame (fresh_interface (Eth 2 0 0 0 0 9) 9)
          (request\<lparr>ef_payload := [Owned (chunks (ef_payload request))]\<rparr>) = Inr (b1, [reply])
        \<and> neighbour b1 1 = Resolved (Eth 2 0 0 0 0 1) 0)"
proof -
  have d: "valid_header (dg_header demo_datagram)"
    "unat (ip_len (dg_header demo_datagram)) = 20 + length (chunks (dg_payload demo_datagram))"
    using demo_header_valid by (simp_all add: demo_datagram_def) (simp add: demo_header_def)
  have idle: "\<forall>t q. neighbour (fresh_interface (Eth 2 0 0 0 0 9) 9) 1 \<noteq> Resolving t q" by simp
  have arr: "arrives f (f\<lparr>ef_payload := [Owned (chunks (ef_payload f))]\<rparr>)" for f
    by (simp add: arrives_def)
  from lan_delivery [OF fresh_interface_ok [of "Eth 2 0 0 0 0 1" 1] fresh_interface_ok [of "Eth 2 0 0 0 0 9" 9]
      fresh_interface_simps(2) fresh_interface_simps(2) fresh_interface_simps(4) idle d]
  show ?thesis using arr by (metis fresh_interface_simps(1,3))
qed



end
