(* ===== verification/Fun_Router.thy ===== *)
theory Fun_Router
  imports Program Summary Lan
begin

text \<open>
  The router program, \<open>apps/fun_router.cc\<close>: interfaces and routes are made from the command line,
  every interface sends and receives Ethernet frames inside user datagrams, and a loop hands the
  frames that arrive to the interfaces, tells them the time, and lets the router forward.

  The interfaces are objects in a heap, as in \<open>Router\<close>; they are allocated one after the other, so
  that the port of the interface at address \<open>p\<close> is the \<open>p\<close>-th. An operation of an interface gives the
  frames that it transmits, which are then sent in this order; where the operation throws, the
  frames it had transmitted before are lost in the model, and the program ends. The arguments of a
  call are evaluated from left to right. A configuration is shorter than \<open>2\<^sup>3\<^sup>2\<close>, so that
  the counters of \<open>split_config\<close> do not wrap. The loop gets a number of rounds; what is shown holds
  for every number.
\<close>

subsection \<open>Ports\<close>

definition random_router_ethernet_address :: "('k \<Rightarrow> u32 \<times> 'k) \<Rightarrow> 'k \<Rightarrow> ethernet_address \<times> 'k" where
  "random_router_ethernet_address draw k =
     (let (addr, k) = random_octets draw 6 k in (Eth 0x02 0 0 (addr ! 3) (addr ! 4) (addr ! 5), k))"

record udp_port =
  up_socket :: file_descriptor
  up_physical_dest :: address

record fun_router =
  fu_router :: router
  fu_ports :: "udp_port list"
  fu_interfaces :: "nat list"
  fu_heap :: heap
  fu_incoming :: "bytes list"

type_synonym 'k fu_state = "(fun_router \<times> 'k) state"

text \<open>What the heap holds where no interface has been made is never looked at.\<close>

definition fun_router_new :: fun_router where
  "fun_router_new = \<lparr>fu_router = router_new, fu_ports = [], fu_interfaces = [],
     fu_heap = (\<lambda>_. fresh_interface (Eth 0 0 0 0 0 0) 0), fu_incoming = []\<rparr>"

fun port_transmit :: "'k system \<Rightarrow> udp_port \<Rightarrow> ethernet_frame list \<Rightarrow> ('k fu_state, unit) io" where
  "port_transmit sy pt [] = io_return ()"
| "port_transmit sy pt (x # xs) =
     io_bind (on_fds (send_gathered (sys_beside (sy_calls sy)) (socket_beside (sy_sockets sy)) (up_socket pt)
       (frame_buffers x) (Some (up_physical_dest pt)))) (\<lambda>_. port_transmit sy pt xs)"

fun transmit_all :: "'k system \<Rightarrow> transmission list \<Rightarrow> ('k fu_state, unit) io" where
  "transmit_all sy [] = io_return ()"
| "transmit_all sy ((p, frames) # ts) =
     io_bind (io_ask (\<lambda>s. fu_ports (locals s) ! p)) (\<lambda>port.
     io_bind (port_transmit sy port frames) (\<lambda>_. transmit_all sy ts))"

subsection \<open>The configuration\<close>

function split_loop :: "string \<Rightarrow> nat \<Rightarrow> nat \<Rightarrow> string list \<Rightarrow> string list" where
  "split_loop str i field_start ret =
     (if i < length str
      then if str ! i = CHR '':''
           then split_loop str (i + 1) (i + 1) (ret @ [take (i - field_start) (drop field_start str)])
           else split_loop str (i + 1) field_start ret
      else ret @ [drop field_start str])"
  by pat_completeness auto
termination by (relation "measure (\<lambda>(str, i, field_start, ret). length str - i)") auto

declare split_loop.simps [simp del]

definition split_config :: "string \<Rightarrow> string list" where
  "split_config str = split_loop str 0 0 []"

definition unparsed :: "string \<Rightarrow> cpp_error" where
  "unparsed config = Runtime_error (''could not parse config '' @ [CHR 0x22] @ config @ [CHR 0x22])"

definition add_port :: "'k system \<Rightarrow> string \<Rightarrow> string \<Rightarrow> string \<Rightarrow> ('k fu_state, unit) io" where
  "add_port sy physical_local_port physical_dest_addr physical_dest_port =
     io_bind (io_lift (address_of_name (sy_addrs sy) physical_dest_addr physical_dest_port)) (\<lambda>dest.
     io_bind (on_fds (udp_socket (sys_beside (sy_calls sy)) (socket_beside (sy_sockets sy)))) (\<lambda>sock.
     io_bind (set_locals (\<lambda>f. f\<lparr>fu_ports := fu_ports f @ [\<lparr>up_socket = sock, up_physical_dest = dest\<rparr>]\<rparr>)) (\<lambda>_.
     io_bind (io_lift (address_of_name (sy_addrs sy) ''0'' physical_local_port)) (\<lambda>local.
     on_fds (bind_socket (sys_beside (sy_calls sy)) (socket_beside (sy_sockets sy)) sock local)))))"

definition make_interface :: "'k system \<Rightarrow> string \<Rightarrow> string \<Rightarrow> ('k fu_state, unit) io" where
  "make_interface sy name virtual_addr =
     io_bind (on_fds (call (beside (random_router_ethernet_address (sy_random sy))))) (\<lambda>ethernet.
     io_bind (io_lift (address_of_text (sy_addrs sy) virtual_addr 0)) (\<lambda>address.
     io_bind (io_lift (network_interface_new (sy_names sy) name False ethernet address)) (\<lambda>n.
     io_bind (set_locals (\<lambda>f. let p = length (fu_interfaces f)
       in f\<lparr>fu_interfaces := fu_interfaces f @ [p], fu_heap := (fu_heap f)(p := n)\<rparr>)) (\<lambda>_.
     io_bind (io_ask (\<lambda>s. add_interface (fu_router (locals s)) (Some (last (fu_interfaces (locals s)))))) (\<lambda>added.
     io_bind (io_lift added) (\<lambda>(router, _). set_locals (\<lambda>f. f\<lparr>fu_router := router\<rparr>)))))))"

text \<open>A configuration is applied with the interfaces' indices by name, which it may extend.\<close>

type_synonym indices = "string \<rightharpoonup> nat"

definition configure_interface :: "'k system \<Rightarrow> indices \<Rightarrow> string \<Rightarrow> string list \<Rightarrow> ('k fu_state, indices) io" where
  "configure_interface sy iface_name_to_idx config pieces =
     (if length pieces \<noteq> 6 then io_throw (unparsed config)
      else if iface_name_to_idx (pieces ! 1) \<noteq> None
      then io_throw (Runtime_error (''duplicate interface name: '' @ pieces ! 1))
      else io_bind (io_ask (\<lambda>s. length (fu_interfaces (locals s)))) (\<lambda>index.
           io_bind (add_port sy (pieces ! 3) (pieces ! 4) (pieces ! 5)) (\<lambda>_.
           io_bind (make_interface sy (pieces ! 1) (pieces ! 2)) (\<lambda>_.
           io_return (iface_name_to_idx(pieces ! 1 \<mapsto> index))))))"

definition configure_route :: "'k system \<Rightarrow> indices \<Rightarrow> string \<Rightarrow> string list \<Rightarrow> ('k fu_state, indices) io" where
  "configure_route sy iface_name_to_idx config pieces =
     (if length pieces \<noteq> 4 \<and> length pieces \<noteq> 5 then io_throw (unparsed config)
      else io_bind (if length pieces = 5
                    then io_bind (io_lift (address_of_text (sy_addrs sy) (pieces ! 4) 0)) (\<lambda>a. io_return (Some a))
                    else io_return None) (\<lambda>next_hop.
           case iface_name_to_idx (pieces ! 3) of
             None \<Rightarrow> io_throw (Runtime_error (''interface not found: '' @ pieces ! 3))
           | Some index \<Rightarrow>
               io_bind (io_lift (res_bind (address_of_text (sy_addrs sy) (pieces ! 1) 0) ipv4_numeric)) (\<lambda>prefix_addr.
               io_bind (io_lift (stoi (pieces ! 2))) (\<lambda>prefix_len.
               io_bind (set_locals (\<lambda>f. f\<lparr>fu_router :=
                 add_route (fu_router f) prefix_addr (word_of_int prefix_len) next_hop index\<rparr>)) (\<lambda>_.
               io_return iface_name_to_idx)))))"

fun configs_loop :: "'k system \<Rightarrow> indices \<Rightarrow> string list \<Rightarrow> ('k fu_state, unit) io" where
  "configs_loop sy iface_name_to_idx [] = io_return ()"
| "configs_loop sy iface_name_to_idx (config # configs) =
     (let pieces = split_config config
      in io_bind (if hd pieces = ''interface'' then configure_interface sy iface_name_to_idx config pieces
                  else if hd pieces = ''route'' then configure_route sy iface_name_to_idx config pieces
                  else io_throw (unparsed config)) (\<lambda>iface_name_to_idx.
         configs_loop sy iface_name_to_idx configs))"

definition apply_configs :: "'k system \<Rightarrow> string list \<Rightarrow> ('k fu_state, unit) io" where
  "apply_configs sy args =
     (if length args < 2 then io_throw (Runtime_error ''empty router configuration'')
      else configs_loop sy Map.empty (drop 1 args))"

subsection \<open>The loop\<close>

text \<open>A user datagram arrives: buffers for the header and for the rest, the frame in them, and
  the interface that it is for.\<close>

definition datagram_callback :: "'k system \<Rightarrow> nat \<Rightarrow> ('k fu_state, unit) io" where
  "datagram_callback sy i =
     io_bind (set_locals (\<lambda>f. let bufs = resize_buffers 2 (fu_incoming f)
       in f\<lparr>fu_incoming := bufs[0 := resize ETHERNET_LENGTH (bufs ! 0)]\<rparr>)) (\<lambda>_.
     io_bind (io_ask (\<lambda>s. (fu_ports (locals s) ! i, fu_interfaces (locals s) ! i, fu_incoming (locals s)))) (\<lambda>(port, p, bufs).
     io_bind (on_fds (recv_scattered (sys_beside (sy_calls sy)) (socket_beside (sy_sockets sy)) (up_socket port) bufs))
       (\<lambda>(incoming_address, bufs).
     io_bind (set_locals (\<lambda>f. f\<lparr>fu_incoming := []\<rparr>)) (\<lambda>_.
     io_bind (io_lift (parse_with (ethernet_frame_parse default_ethernet_frame) (map Owned bufs))) (\<lambda>(frame, ok).
       if \<not> ok then io_bind (io_lift (address_to_string (sy_names sy) incoming_address)) (\<lambda>_. io_return ())
       else io_bind (io_lift (summary frame)) (\<lambda>_.
            io_bind (io_ask (\<lambda>s. recv_frame (fu_heap (locals s) p) frame)) (\<lambda>received.
            io_bind (io_lift received) (\<lambda>(n, frames).
            io_bind (set_locals (\<lambda>f. f\<lparr>fu_heap := (fu_heap f)(p := n)\<rparr>)) (\<lambda>_.
            port_transmit sy port frames)))))))))"

text \<open>A rule has no conditions and nothing to do when it is cancelled or its descriptor fails.\<close>

definition router_closures :: "'k system \<Rightarrow> (fun_router \<times> 'k) closures" where
  "router_closures sy =
     \<lparr>cl_interest = (\<lambda>_. io_return True), cl_callback = datagram_callback sy,
      cl_cancel = (\<lambda>_. io_return ()), cl_error = (\<lambda>_. io_return ())\<rparr>"

fun add_port_rules :: "nat \<Rightarrow> nat \<Rightarrow> udp_port list \<Rightarrow> ('k fu_state, unit) io" where
  "add_port_rules category_id i [] = io_return ()"
| "add_port_rules category_id i (pt # ports) =
     io_bind (add_fd_rule category_id (up_socket pt) In i) (\<lambda>_. add_port_rules category_id (Suc i) ports)"

definition tick_interfaces :: "u64 \<Rightarrow> fun_router \<Rightarrow> fun_router" where
  "tick_interfaces ms f = f\<lparr>fu_heap := fold (\<lambda>p heap. heap(p := ni_tick (heap p) ms)) (fu_interfaces f) (fu_heap f)\<rparr>"

text \<open>What follows an event, with the time of the last tick.\<close>

definition after_event :: "'k system \<Rightarrow> u64 \<Rightarrow> ('k fu_state, u64) io" where
  "after_event sy last_tick =
     io_bind (on_fds (call (beside (system_timestamp_ms sy)))) (\<lambda>new_tick.
     io_bind (if new_tick > last_tick then set_locals (tick_interfaces ((new_tick - last_tick) * 5)) else io_return ()) (\<lambda>_.
     io_bind (io_ask (\<lambda>s. route_all (fu_router (locals s)) (fu_heap (locals s)))) (\<lambda>routed.
     io_bind (io_lift routed) (\<lambda>(heap, out).
     io_bind (set_locals (\<lambda>f. f\<lparr>fu_heap := heap\<rparr>)) (\<lambda>_.
     io_bind (transmit_all sy out) (\<lambda>_. io_return new_tick))))))"

fun router_loop :: "'k system \<Rightarrow> nat \<Rightarrow> u64 \<Rightarrow> 'k fu_state \<Rightarrow> (bool result \<times> 'k fu_state) option" where
  "router_loop sy 0 last_tick s = Some (Inr False, s)"
| "router_loop sy (Suc rounds) last_tick s =
     (case wait_next_event (sys_beside (sy_calls sy)) (poll_beside (sy_poll sy)) (router_closures sy) 100 s of
        None \<Rightarrow> None
      | Some (Inl e, s) \<Rightarrow> Some (Inl e, s)
      | Some (Inr r, s) \<Rightarrow>
          if r = Exit then Some (Inr True, s)
          else (case after_event sy last_tick s of
                  (Inl e, s) \<Rightarrow> Some (Inl e, s)
                | (Inr last_tick, s) \<Rightarrow> router_loop sy rounds last_tick s))"

definition router_setup :: "'k system \<Rightarrow> string list \<Rightarrow> ('k fu_state, u64) io" where
  "router_setup sy args =
     io_bind (apply_configs sy args) (\<lambda>_.
     io_bind (io_ask locals) (\<lambda>f.
       if length (fu_ports f) \<noteq> length (fu_interfaces f)
       then io_throw (Runtime_error ''internal error: #ports != #interfaces'')
       else io_bind (add_category ''incoming user datagram'') (\<lambda>category_id.
            io_bind (add_port_rules category_id 0 (fu_ports f)) (\<lambda>_.
            on_fds (call (beside (system_timestamp_ms sy)))))))"

definition program_body :: "'k system \<Rightarrow> string list \<Rightarrow> nat \<Rightarrow> 'k fu_state \<Rightarrow> (bool result \<times> 'k fu_state) option" where
  "program_body sy args rounds s =
     (case router_setup sy args s of
        (Inl e, s) \<Rightarrow> Some (Inl e, s)
      | (Inr last_tick, s) \<Rightarrow> router_loop sy rounds last_tick s)"

text \<open>The destructors: a port that no interface holds goes first, the others with the router.\<close>

definition router_destroy :: "'k system \<Rightarrow> 'k fu_state \<Rightarrow> 'k fu_state" where
  "router_destroy sy s =
     (let f = locals s; held = take (length (fu_interfaces f)) (fu_ports f); others = drop (length (fu_interfaces f)) (fu_ports f)
      in (fst s, fold (\<lambda>port w. case up_socket port of None \<Rightarrow> w | Some a \<Rightarrow> fdw_destroy (sys_beside (sy_calls sy)) a w)
            (others @ held) (snd s)))"

definition fun_router_main :: "'k system \<Rightarrow> string list \<Rightarrow> nat \<Rightarrow> 'k world \<Rightarrow> (ending \<times> 'k fu_state) option" where
  "fun_router_main sy args rounds w =
     (if args = [] then Some (Aborts, with_locals fun_router_new w)
      else map_option (\<lambda>(r, s). (main_ending r, if r = Inr False then s else router_destroy sy s))
             (program_body sy args rounds (with_locals fun_router_new w)))"

subsection \<open>Splitting\<close>

text \<open>The reference: the string cut at its colons, given the piece that has been begun.\<close>

fun cut_at_colons :: "string \<Rightarrow> string \<Rightarrow> string list" where
  "cut_at_colons cur [] = [cur]"
| "cut_at_colons cur (c # cs) = (if c = CHR '':'' then cur # cut_at_colons [] cs else cut_at_colons (cur @ [c]) cs)"

fun join_colons :: "string list \<Rightarrow> string" where
  "join_colons [] = []"
| "join_colons [x] = x"
| "join_colons (x # y # zs) = x @ '':'' @ join_colons (y # zs)"

lemma split_loop_eq:
  "field_start \<le> i \<Longrightarrow> i \<le> length str \<Longrightarrow>
    split_loop str i field_start ret = ret @ cut_at_colons (take (i - field_start) (drop field_start str)) (drop i str)"
proof (induction str i field_start ret rule: split_loop.induct)
  case (1 str i field_start ret)
  show ?case
  proof (cases "i < length str")
    case True
    then have rest: "drop i str = str ! i # drop (Suc i) str" by (simp add: Cons_nth_drop_Suc)
    have cur: "take (Suc i - field_start) (drop field_start str) = take (i - field_start) (drop field_start str) @ [str ! i]"
      using 1(3,4) True by (simp add: Suc_diff_le take_Suc_conv_app_nth)
    show ?thesis
      using 1(1,2) 1(3) True by (subst split_loop.simps) (simp add: rest cur)
  qed (use 1(3,4) in \<open>subst split_loop.simps; simp\<close>)
qed

lemma split_config_eq: "split_config str = cut_at_colons [] str"
  using split_loop_eq [of 0 0 str "[]"] by (simp add: split_config_def)

lemma cut_at_colons_ne: "cut_at_colons cur cs \<noteq> []"
  by (induction cur cs rule: cut_at_colons.induct) simp_all

lemma join_colons_Cons: "xs \<noteq> [] \<Longrightarrow> join_colons (x # xs) = x @ '':'' @ join_colons xs"
  by (cases xs) simp_all

lemma join_cut: "join_colons (cut_at_colons cur cs) = cur @ cs"
  by (induction cur cs rule: cut_at_colons.induct) (simp_all add: join_colons_Cons cut_at_colons_ne)

lemma cut_no_colon: "CHR '':'' \<notin> set cur \<Longrightarrow> x \<in> set (cut_at_colons cur cs) \<Longrightarrow> CHR '':'' \<notin> set x"
  by (induction cur cs arbitrary: x rule: cut_at_colons.induct) (auto split: if_splits)

lemma cut_plain: "CHR '':'' \<notin> set xs \<Longrightarrow> cut_at_colons cur (xs @ cs) = cut_at_colons (cur @ xs) cs"
  by (induction xs arbitrary: cur) auto

lemma cut_join: "ps \<noteq> [] \<Longrightarrow> \<forall>p\<in>set ps. CHR '':'' \<notin> set p \<Longrightarrow> cut_at_colons [] (join_colons ps) = ps"
proof (induction ps rule: join_colons.induct)
  case (2 x)
  then show ?case using cut_plain [of x "[]" "[]"] by simp
qed (simp_all add: cut_plain)

subsection \<open>The invariant\<close>

text \<open>What is relied on: a resolver asked for IPv4 addresses gives such, and the steady clock counts
  up from a moment in the past.\<close>

definition resolves_ipv4 :: "addr_info \<Rightarrow> bool" where
  "resolves_ipv4 gai \<longleftrightarrow> (\<forall>node service flags addr len. gai node service (flags, uint AF_INET) = (0, Some (addr, len))
     \<longrightarrow> len = SOCKADDR_IN_SIZE \<and> length addr = len \<and> take 2 addr = [2, 0])"

definition counts_up :: "('k \<Rightarrow> int \<times> 'k) \<Rightarrow> bool" where
  "counts_up clock \<longleftrightarrow> (\<forall>k. 0 \<le> fst (clock k) \<and> fst (clock k) < 2 ^ 63)"

text \<open>The interfaces are allocated in order and the router has them all, every one with a port;
  one port may lack its interface while that is being made. The routes name interfaces that exist,
  and their next hops are IPv4 addresses.\<close>

definition fu_ok :: "fun_router \<Rightarrow> bool" where
  "fu_ok f \<longleftrightarrow> fu_interfaces f = [0..<length (fu_interfaces f)] \<and> interfaces (fu_router f) = fu_interfaces f
     \<and> length (fu_interfaces f) \<le> length (fu_ports f) \<and> length (fu_ports f) \<le> Suc (length (fu_interfaces f))
     \<and> (\<forall>pt\<in>set (fu_ports f). up_socket pt \<noteq> None)
     \<and> (\<forall>route\<in>set (routes (fu_router f)). interface_num route < length (fu_interfaces f)
          \<and> (\<forall>hop. next_hop route = Some hop \<longrightarrow> (\<exists>ip. ipv4_numeric hop = Inr ip)))
     \<and> (\<forall>p. ni_ready (fu_heap f p)) \<and> all_sendable (fu_heap f)"

text \<open>So many interfaces and ports.\<close>

definition sized :: "nat \<Rightarrow> nat \<Rightarrow> fun_router \<Rightarrow> bool" where
  "sized n m f \<longleftrightarrow> fu_ok f \<and> length (fu_interfaces f) = n \<and> length (fu_ports f) = m"

lemma resolved_ipv4:
  assumes "resolves_ipv4 gai" and "address_resolve gai node service (flags, uint AF_INET) = Inr a"
  shows "\<exists>ip. ipv4_numeric a = Inr ip"
proof -
  obtain addr len where r: "gai node service (flags, uint AF_INET) = (0, Some (addr, len))" "address_new addr len = Inr a"
    using assms(2) by (auto simp: address_resolve_def Let_def split: prod.splits if_splits option.splits)
  have "len = SOCKADDR_IN_SIZE" "length addr = len" "take 2 addr = [2, 0]"
    using assms(1) r(1) unfolding resolves_ipv4_def by blast+
  then show ?thesis
    using r(2) by (auto simp: address_new_def ipv4_numeric_def ss_family_def SOCKADDR_IN_SIZE_def
        SOCKADDR_STORAGE_SIZE_def AF_INET_def be_word_def split: if_splits)
qed

lemma address_ipv4: "resolves_ipv4 gai \<Longrightarrow> address_of_text gai ip p = Inr a \<Longrightarrow> \<exists>ip. ipv4_numeric a = Inr ip"
  unfolding address_of_text_def by (rule resolved_ipv4)

lemma ni_ready_new:
  assumes "network_interface_new gni name False e a = Inr n" and "ipv4_numeric a = Inr ip"
  shows "ni_ready n \<and> datagrams_received n = []"
  using ni_ok_new [OF assms(1)] assms by (auto simp: network_interface_new_def ni_ready_def)

subsection \<open>Making interfaces and routes\<close>

lemma sizedD: "sized n m f \<Longrightarrow> fu_ok f"
  by (simp add: sized_def)

lemma sized_port:
  "sized n n f \<Longrightarrow> up_socket pt \<noteq> None \<Longrightarrow> sized n (Suc n) (f\<lparr>fu_ports := fu_ports f @ [pt]\<rparr>)"
  by (auto simp: sized_def fu_ok_def)

lemma sized_interface:
  assumes "sized n (Suc n) f" and "ni_ready x" and "datagrams_received x = []"
  shows "sized (Suc n) (Suc n) (f\<lparr>fu_interfaces := fu_interfaces f @ [n], fu_heap := (fu_heap f)(n := x),
    fu_router := (fu_router f)\<lparr>interfaces := interfaces (fu_router f) @ [n]\<rparr>\<rparr>)"
proof -
  have "all_sendable (fu_heap f)" "fu_interfaces f = [0..<n]" using assms(1) by (auto simp: sized_def fu_ok_def)
  then have "all_sendable ((fu_heap f)(n := x))" "fu_interfaces f @ [n] = [0..<Suc n]"
    using assms(3) by (simp_all add: all_sendable_def)
  then show ?thesis using assms(1,2) by (auto simp: sized_def fu_ok_def less_Suc_eq)
qed

lemma sized_route:
  assumes "sized n n f" and "index < n" and "\<And>hop. nh = Some hop \<Longrightarrow> \<exists>ip. ipv4_numeric hop = Inr ip"
  shows "sized n n (f\<lparr>fu_router := add_route (fu_router f) prefix len nh index\<rparr>)"
  using assms by (auto simp: sized_def fu_ok_def add_route_def)

lemma sized_incoming: "sized n m (f\<lparr>fu_incoming := bufs\<rparr>) = sized n m f"
  by (simp add: sized_def fu_ok_def)

text \<open>An operation that is not concerned with the variables.\<close>

lemma ensures_same: "keeps_locals m \<Longrightarrow> ensures (sized n k) (on_fds m) (\<lambda>_. sized n k) fu_ok"
  by (rule ensures_fds) (auto dest: sizedD)

lemma ensures_lift_same: "ensures (sized n k) (io_lift r) (\<lambda>x f. sized n k f \<and> r = Inr x) fu_ok"
  by (rule ensures_lift) (auto dest: sizedD)

lemma ensures_bind_same:
  "ensures (sized n k) m (\<lambda>_. sized n k) E \<Longrightarrow> (\<And>x. ensures (sized n k) (f x) Q E) \<Longrightarrow> ensures (sized n k) (io_bind m f) Q E"
  by (rule ensures_bind)

lemma ensures_bind_lift:
  assumes "\<And>x. r = Inr x \<Longrightarrow> ensures (sized n k) (f x) Q fu_ok"
  shows "ensures (sized n k) (io_bind (io_lift r) f) Q fu_ok"
proof (cases r)
  case (Inl e) then show ?thesis by (auto simp: ensures_def dest: sizedD)
next
  case (Inr x)
  have "io_bind (io_lift r) f = f x" by (rule ext) (simp add: Inr)
  with assms [OF Inr] show ?thesis by simp
qed

lemma add_port_ensures:
  "ensures (sized n n) (add_port sy local_port dest_addr dest_port) (\<lambda>_. sized n (Suc n)) fu_ok"
  unfolding add_port_def
proof (rule ensures_bind_lift)
  fix dest
  let ?sys = "sys_beside (sy_calls sy)" and ?so = "socket_beside (sy_sockets sy)"
  have sock: "ensures (sized n n) (on_fds (udp_socket ?sys ?so)) (\<lambda>sock f. sized n n f \<and> sock \<noteq> None) fu_ok"
    by (rule ensures_fds [OF keeps_locals_udp_socket]) (auto dest: sizedD udp_socket_some)
  have port: "ensures (\<lambda>f. sized n n f \<and> sock \<noteq> None)
      (set_locals (\<lambda>f. f\<lparr>fu_ports := fu_ports f @ [\<lparr>up_socket = sock, up_physical_dest = dest\<rparr>]\<rparr>)) (\<lambda>_. sized n (Suc n)) fu_ok" for sock
    by (rule ensures_set) (simp add: sized_port)
  show "ensures (sized n n)
      (io_bind (on_fds (udp_socket ?sys ?so)) (\<lambda>sock.
       io_bind (set_locals (\<lambda>f. f\<lparr>fu_ports := fu_ports f @ [\<lparr>up_socket = sock, up_physical_dest = dest\<rparr>]\<rparr>)) (\<lambda>_.
       io_bind (io_lift (address_of_name (sy_addrs sy) ''0'' local_port)) (\<lambda>local.
       on_fds (bind_socket ?sys ?so sock local))))) (\<lambda>_. sized n (Suc n)) fu_ok"
    by (rule ensures_bind [OF sock], rule ensures_bind [OF port], rule ensures_bind_lift,
        rule ensures_same [OF keeps_locals_sockets(2)])
qed

lemma make_interface_ensures:
  assumes "resolves_ipv4 (sy_addrs sy)"
  shows "ensures (sized n (Suc n)) (make_interface sy name virtual_addr) (\<lambda>_. sized (Suc n) (Suc n)) fu_ok"
  unfolding make_interface_def
proof (rule ensures_bind_same [OF ensures_same [OF keeps_locals_basic(7)]], rule ensures_bind_lift, rule ensures_bind_lift)
  fix ethernet address x
  assume "address_of_text (sy_addrs sy) virtual_addr 0 = Inr address"
    and x: "network_interface_new (sy_names sy) name False ethernet address = Inr x"
  then have x: "ni_ready x" "datagrams_received x = []"
    using address_ipv4 [OF assms] ni_ready_new [OF x] by blast+
  let ?upd = "\<lambda>f. let p = length (fu_interfaces f) in f\<lparr>fu_interfaces := fu_interfaces f @ [p], fu_heap := (fu_heap f)(p := x)\<rparr>"
  have set: "ensures (sized n (Suc n)) (set_locals ?upd) (\<lambda>_ f'. \<exists>f. sized n (Suc n) f \<and> f' = ?upd f) fu_ok"
    by (rule ensures_set) auto
  let ?rest = "\<lambda>added. io_bind (io_lift added) (\<lambda>(router, _ :: nat). set_locals (\<lambda>f. f\<lparr>fu_router := router\<rparr>))"
  have ask: "ensures (\<lambda>f'. \<exists>f. sized n (Suc n) f \<and> f' = ?upd f)
      (io_bind (io_ask (\<lambda>s. add_interface (fu_router (locals s)) (Some (last (fu_interfaces (locals s)))))) ?rest)
      (\<lambda>_. sized (Suc n) (Suc n)) fu_ok"
  proof (rule ensures_ask, elim exE conjE)
    fix s f assume f: "sized n (Suc n) f" "locals s = ?upd f"
    let ?router = "(fu_router f)\<lparr>interfaces := interfaces (fu_router f) @ [n]\<rparr>"
    have n: "length (fu_interfaces f) = n" using f(1) by (simp add: sized_def)
    have added: "add_interface (fu_router (locals s)) (Some (last (fu_interfaces (locals s)))) = Inr (?router, length (interfaces (fu_router f)))"
      unfolding f(2) by (simp add: add_interface_def Let_def n)
    have rest: "?rest (Inr (?router, length (interfaces (fu_router f)))) = set_locals (\<lambda>f. f\<lparr>fu_router := ?router\<rparr>)"
      by (rule ext) simp
    have "sized (Suc n) (Suc n) ((?upd f)\<lparr>fu_router := ?router\<rparr>)"
      using sized_interface [OF f(1) x] by (simp add: n Let_def)
    then show "ensures (\<lambda>l. l = locals s)
        (?rest (add_interface (fu_router (locals s)) (Some (last (fu_interfaces (locals s)))))) (\<lambda>_. sized (Suc n) (Suc n)) fu_ok"
      unfolding added rest by (intro ensures_set) (simp add: f(2))
  qed
  show "ensures (sized n (Suc n)) (io_bind (set_locals ?upd) (\<lambda>_.
      io_bind (io_ask (\<lambda>s. add_interface (fu_router (locals s)) (Some (last (fu_interfaces (locals s)))))) ?rest))
      (\<lambda>_. sized (Suc n) (Suc n)) fu_ok"
    by (rule ensures_bind [OF set ask])
qed

text \<open>The names that have been given indices stand for interfaces.\<close>

definition indexed :: "nat \<Rightarrow> indices \<Rightarrow> bool" where
  "indexed n iface_name_to_idx \<longleftrightarrow> (\<forall>index\<in>ran iface_name_to_idx. index < n)"

definition configured :: "indices \<Rightarrow> fun_router \<Rightarrow> bool" where
  "configured iface_name_to_idx f \<longleftrightarrow> (\<exists>n. sized n n f \<and> indexed n iface_name_to_idx)"

lemma configure_interface_ensures:
  assumes "resolves_ipv4 (sy_addrs sy)" and "indexed n names"
  shows "ensures (sized n n) (configure_interface sy names config pieces) configured fu_ok"
proof -
  let ?run = "\<lambda>index. io_bind (add_port sy (pieces ! 3) (pieces ! 4) (pieces ! 5)) (\<lambda>_.
    io_bind (make_interface sy (pieces ! 1) (pieces ! 2)) (\<lambda>_. io_return (names(pieces ! 1 \<mapsto> index))))"
  have "indexed (Suc n) (names(pieces ! 1 \<mapsto> n))"
    using assms(2) by (auto simp: indexed_def ran_def split: if_splits intro: less_SucI)
  then have ret: "ensures (sized (Suc n) (Suc n)) (io_return (names(pieces ! 1 \<mapsto> n))) configured fu_ok"
    by (intro ensures_return) (auto simp: configured_def)
  have "ensures (sized n n) (?run n) configured fu_ok"
    by (intro ensures_bind [OF add_port_ensures] ensures_bind [OF make_interface_ensures [OF assms(1)]] ret)
  note run = this
  have "ensures (\<lambda>l. l = locals s) (?run (length (fu_interfaces (locals s)))) configured fu_ok"
    if "sized n n (locals s)" for s :: "'a fu_state"
  proof -
    have n: "length (fu_interfaces (locals s)) = n" using that by (simp add: sized_def)
    show ?thesis unfolding n by (rule ensures_weaken [OF run]) (use that in simp_all)
  qed
  then show ?thesis
    unfolding configure_interface_def by (intro ensures_if ensures_throw ensures_ask) (simp_all add: sizedD)
qed

lemma configure_route_ensures:
  assumes "resolves_ipv4 (sy_addrs sy)" and "indexed n names"
  shows "ensures (sized n n) (configure_route sy names config pieces) configured fu_ok"
proof -
  let ?hop = "\<lambda>nh f. sized n n f \<and> (\<forall>hop. nh = Some hop \<longrightarrow> (\<exists>ip. ipv4_numeric hop = Inr ip))"
  have hop: "ensures (sized n n)
      (if length pieces = 5 then io_bind (io_lift (address_of_text (sy_addrs sy) (pieces ! 4) 0)) (\<lambda>a. io_return (Some a))
       else io_return None) ?hop fu_ok"
    by (intro ensures_if ensures_bind_lift ensures_return) (use address_ipv4 [OF assms(1)] in auto)
  have add: "ensures (?hop nh) (set_locals (\<lambda>f. f\<lparr>fu_router := add_route (fu_router f) prefix len nh index\<rparr>))
      (\<lambda>_. sized n n) fu_ok" if "names name = Some index" for nh prefix len name index
    by (rule ensures_set) (use that assms(2) in \<open>auto simp: indexed_def ran_def intro!: sized_route\<close>)
  have ret: "ensures (sized n n) (io_return names) configured fu_ok"
    using assms(2) by (intro ensures_return) (auto simp: configured_def)
  have lift: "ensures (?hop nh) (io_lift r) (\<lambda>_. ?hop nh) fu_ok" for nh :: "address option" and r :: "'c result"
    by (rule ensures_lift) (auto dest: sizedD)
  have "ensures (?hop nh) (case names (pieces ! 3) of
        None \<Rightarrow> io_throw (Runtime_error (''interface not found: '' @ pieces ! 3))
      | Some index \<Rightarrow>
          io_bind (io_lift (res_bind (address_of_text (sy_addrs sy) (pieces ! 1) 0) ipv4_numeric)) (\<lambda>prefix_addr.
          io_bind (io_lift (stoi (pieces ! 2))) (\<lambda>prefix_len.
          io_bind (set_locals (\<lambda>f. f\<lparr>fu_router :=
            add_route (fu_router f) prefix_addr (word_of_int prefix_len) nh index\<rparr>)) (\<lambda>_.
          io_return names)))) configured fu_ok" for nh
  proof (cases "names (pieces ! 3)")
    case None
    then show ?thesis by (auto intro!: ensures_throw dest: sizedD)
  next
    case (Some index)
    show ?thesis
      unfolding Some option.case
      by (intro ensures_bind [OF lift] ensures_bind [OF add [OF Some]] ret)
  qed
  then show ?thesis
    unfolding configure_route_def by (intro ensures_if ensures_throw ensures_bind [OF hop]) (auto dest: sizedD)
qed

lemma configs_loop_ensures:
  assumes "resolves_ipv4 (sy_addrs sy)"
  shows "ensures (configured names) (configs_loop sy names configs) (\<lambda>_ f. \<exists>n. sized n n f) fu_ok"
proof (induction configs arbitrary: names)
  case Nil
  show ?case unfolding configs_loop.simps by (rule ensures_return) (auto simp: configured_def)
next
  case (Cons config configs)
  have one: "ensures (configured names)
      (if hd (split_config config) = ''interface'' then configure_interface sy names config (split_config config)
       else if hd (split_config config) = ''route'' then configure_route sy names config (split_config config)
       else io_throw (unparsed config)) configured fu_ok" (is "ensures _ ?m _ _")
  proof -
    have "ensures (sized n n) ?m configured fu_ok" if "indexed n names" for n
      using configure_interface_ensures [OF assms that] configure_route_ensures [OF assms that]
      by (intro ensures_if ensures_throw) (auto dest: sizedD)
    then show ?thesis
      unfolding configured_def [abs_def] by (rule ensures_ex)
  qed
  show ?case
    unfolding configs_loop.simps Let_def by (rule ensures_bind [OF one Cons.IH])
qed

lemma fun_router_new_ok: "sized 0 0 fun_router_new"
  by (simp add: sized_def fu_ok_def fun_router_new_def router_new_def all_sendable_def ni_ready_def)

lemma apply_configs_ensures:
  assumes "resolves_ipv4 (sy_addrs sy)"
  shows "ensures (\<lambda>f. f = fun_router_new) (apply_configs sy args) (\<lambda>_ f. \<exists>n. sized n n f) fu_ok"
proof -
  have "configured Map.empty fun_router_new"
    using fun_router_new_ok by (auto simp: configured_def indexed_def)
  then have "ensures (\<lambda>f. f = fun_router_new) (configs_loop sy Map.empty configs) (\<lambda>_ f. \<exists>n. sized n n f) fu_ok" for configs
    by (intro ensures_weaken [OF configs_loop_ensures [OF assms]]) auto
  then show ?thesis
    unfolding apply_configs_def by (intro ensures_if ensures_throw) (use sizedD [OF fun_router_new_ok] in auto)
qed

subsection \<open>The running router\<close>

text \<open>The table and the ports stay as they were set up.\<close>

definition running :: "fun_router \<Rightarrow> fun_router \<Rightarrow> bool" where
  "running f0 f \<longleftrightarrow> fu_ok f \<and> fu_router f = fu_router f0 \<and> fu_ports f = fu_ports f0 \<and> fu_interfaces f = fu_interfaces f0"

lemma running_update:
  assumes "running f0 f" and "\<forall>p. ni_ready (heap p)" and "all_sendable heap"
  shows "running f0 (f\<lparr>fu_heap := heap\<rparr>)" and "running f0 (f\<lparr>fu_incoming := bufs\<rparr>)"
  using assms by (auto simp: running_def fu_ok_def)

lemma running_heap: "running f0 f \<Longrightarrow> (\<forall>p. ni_ready (fu_heap f p)) \<and> all_sendable (fu_heap f)"
  by (simp add: running_def fu_ok_def)

lemma recv_frame_ready:
  assumes "recv_frame s frame = Inr (s', out)" and "ni_ready s" and "\<forall>d\<in>set (datagrams_received s). sendable d"
  shows "ni_ready s'" and "\<forall>d\<in>set (datagrams_received s'). sendable d"
proof -
  show "ni_ready s'"
    using ni_ok_recv [OF _ assms(1)] recv_frame_addresses [OF assms(1)] assms(2) by (simp add: ni_ready_def)
  have "datagrams_received (learnt s msg) = datagrams_received s" for msg by (simp add: learnt_def)
  then show "\<forall>d\<in>set (datagrams_received s'). sendable d"
    using assms(1,3) by (rule_tac recv_frame_cases [OF assms(1)])
      (auto simp: recv_arp_eq sendable_def clone_datagram_def dest: parsed_datagram_version)
qed

lemma ni_ready_tick: "sane_tick ms \<Longrightarrow> ni_ready s \<Longrightarrow> ni_ready (ni_tick s ms)"
  using ni_ok_tick by (simp add: ni_ready_def ni_tick_def Let_def)

lemma port_transmit_preserves: "preserves I (port_transmit sy pt frames)"
  by (induction frames) (auto simp del: io_simps intro!: preserves_intros keeps_locals_sockets)

lemma transmit_all_preserves: "preserves I (transmit_all sy ts)"
proof (induction ts)
  case (Cons t ts)
  obtain p frames where t: "t = (p, frames)" by (rule prod.exhaust)
  show ?case
    unfolding t transmit_all.simps by (intro preserves_intros port_transmit_preserves Cons.IH)
qed (unfold transmit_all.simps, rule preserves_basic)

lemma datagram_callback_preserves: "preserves (running f0) (datagram_callback sy i)"
proof -
  have incoming: "preserves (running f0) (set_locals (\<lambda>f. f\<lparr>fu_incoming := bufs f\<rparr>))" for bufs
    by (rule preserves_set) (auto dest: running_heap intro!: running_update(2))
  have first: "preserves (running f0) (set_locals (\<lambda>f. let bufs = resize_buffers 2 (fu_incoming f)
       in f\<lparr>fu_incoming := bufs[0 := resize ETHERNET_LENGTH (bufs ! 0)]\<rparr>))"
    unfolding Let_def by (rule incoming)
  have frame: "preserves (running f0)
      (io_bind (io_ask (\<lambda>s. recv_frame (fu_heap (locals s) p) frame)) (\<lambda>received.
       io_bind (io_lift received) (\<lambda>x.
       io_bind (set_locals ((\<lambda>(n, _). \<lambda>f. f\<lparr>fu_heap := (fu_heap f)(p := n)\<rparr>) x)) (\<lambda>_. (\<lambda>(_, frames). port_transmit sy pt frames) x))))"
    for p frame pt
  proof (rule preserves_update)
    fix l y assume run: "running f0 l" and y: "recv_frame (fu_heap l p) frame = Inr y"
    obtain n frames where n: "y = (n, frames)" by (rule prod.exhaust)
    have heap: "\<forall>p. ni_ready (fu_heap l p)" "all_sendable (fu_heap l)" using running_heap [OF run] by simp_all
    then have "ni_ready n" "\<forall>d\<in>set (datagrams_received n). sendable d"
      using recv_frame_ready [OF y [unfolded n]] by (simp_all add: all_sendable_def)
    with heap have "\<forall>q. ni_ready (((fu_heap l)(p := n)) q)" "all_sendable ((fu_heap l)(p := n))"
      by (simp_all add: all_sendable_def)
    with run show "running f0 ((case y of (n, _) \<Rightarrow> \<lambda>f. f\<lparr>fu_heap := (fu_heap f)(p := n)\<rparr>) l)"
      unfolding n by (simp add: running_update(1))
  qed (simp add: port_transmit_preserves split: prod.split)
  show ?thesis
    unfolding datagram_callback_def
    apply (rule preserves_bind [OF first])
    apply (rule preserves_bind [OF preserves_basic(4)])
    apply (simp only: split_beta)
    apply (rule preserves_bind [OF preserves_fds [OF keeps_locals_sockets(3)]])
    apply (simp only: split_beta)
    apply (rule preserves_bind [OF incoming])
    apply (rule preserves_bind [OF preserves_basic(3)])
    apply (simp only: split_beta)
    apply (rule preserves_if)
     apply (intro preserves_intros)
    apply (rule preserves_bind [OF preserves_basic(3)])
    using frame apply (simp only: case_prod_beta')
    done
qed

text \<open>What follows an event.\<close>

lemma tick_running:
  assumes "running f0 f" and "sane_tick ms"
  shows "running f0 (tick_interfaces ms f)"
proof -
  have "(\<forall>p. ni_ready (fold (\<lambda>p heap. heap(p := ni_tick (heap p) ms)) ps heap p))
      \<and> all_sendable (fold (\<lambda>p heap. heap(p := ni_tick (heap p) ms)) ps heap)"
    if "\<forall>p. ni_ready (heap p)" "all_sendable heap" for ps and heap :: heap
    using that
  proof (induction ps arbitrary: heap)
    case (Cons p ps)
    have "\<forall>q. ni_ready ((heap(p := ni_tick (heap p) ms)) q)" using Cons.prems(1) ni_ready_tick [OF assms(2)] by simp
    moreover have "all_sendable (heap(p := ni_tick (heap p) ms))"
      using Cons.prems(2) by (simp add: all_sendable_def ni_tick_def Let_def)
    ultimately show ?case unfolding fold_simps by (rule Cons.IH)
  qed simp
  then show ?thesis
    using running_heap [OF assms(1)] running_update(1) [OF assms(1)] by (simp add: tick_interfaces_def)
qed

lemma timestamp_bound:
  assumes "counts_up (sy_clock sy)"
  shows "unat (fst (system_timestamp_ms sy k)) < 2 ^ 44"
proof -
  obtain c k' where c: "sy_clock sy k = (c, k')" by (rule prod.exhaust)
  then have bounds: "0 \<le> c" "c < 2 ^ 63" using assms unfolding counts_up_def by (metis fst_conv)+
  have ms: "0 \<le> c div 1000000" "c div 1000000 < 2 ^ 44" using bounds by auto
  have "sgn c * (\<bar>c\<bar> div 1000000) = c div 1000000" using bounds by (cases "c = 0") simp_all
  then have "fst (system_timestamp_ms sy k) = word_of_int (c div 1000000)" by (simp only: system_timestamp_ms_def c Let_def case_prod_conv fst_conv)
  then have "uint (fst (system_timestamp_ms sy k)) = c div 1000000" using ms by (simp add: uint_word_of_int)
  with ms show ?thesis by (simp flip: nat_uint_eq add: nat_less_iff)
qed

lemma elapsed_sane:
  assumes "unat (new :: u64) < 2 ^ 44" and "previous < new"
  shows "sane_tick ((new - previous) * 5)"
proof -
  have "unat (new - previous) \<le> unat new" using assms(2) by (simp add: unat_sub less_imp_le)
  then have "unat ((new - previous) * 5) < 5 * 2 ^ 44"
    using assms(1) by (subst unat_mult_lem [THEN iffD1]) simp_all
  then show ?thesis by (simp add: sane_tick_def)
qed

lemma route_running:
  assumes "running f0 f" and "route_all (fu_router f) (fu_heap f) = Inr (heap, out)"
  shows "running f0 (f\<lparr>fu_heap := heap\<rparr>)"
proof -
  note heap = running_heap [OF assms(1)]
  have "(\<forall>q. ni_ready (heap q)) \<and> (\<forall>q. set (datagrams_received (heap q)) \<subseteq> set (datagrams_received (fu_heap f q)))"
    using route_interfaces_keeps [OF assms(2) [unfolded route_all_def]] heap by blast
  moreover from this heap have "all_sendable heap" unfolding all_sendable_def by blast
  ultimately show ?thesis by (intro running_update(1) [OF assms(1)]) simp_all
qed

lemma after_event_preserves:
  assumes "counts_up (sy_clock sy)"
  shows "preserves (running f0) (after_event sy last_tick)"
proof -
  have route: "preserves (running f0)
      (io_bind (io_ask (\<lambda>s. (\<lambda>f. route_all (fu_router f) (fu_heap f)) (locals s))) (\<lambda>routed.
       io_bind (io_lift routed) (\<lambda>x.
       io_bind (set_locals ((\<lambda>(heap, _) f. f\<lparr>fu_heap := heap\<rparr>) x)) (\<lambda>_.
       (\<lambda>(_, out). io_bind (transmit_all sy out) (\<lambda>_. io_return new_tick)) x))))" for new_tick
    by (rule preserves_update)
      (auto simp del: io_simps intro!: route_running preserves_intros transmit_all_preserves split: prod.splits)
  let ?tick = "\<lambda>new_tick. if new_tick > last_tick then set_locals (tick_interfaces ((new_tick - last_tick) * 5)) else io_return ()"
  let ?stamp = "on_fds (call (beside (system_timestamp_ms sy)))"
  have stamp: "ensures (running f0) ?stamp (\<lambda>t f. running f0 f \<and> unat t < 2 ^ 44) (running f0)"
    using timestamp_bound [OF assms]
    by (intro ensures_fds [OF keeps_locals_basic(7)]) (auto simp: call_def beside_def Let_def split: prod.splits, metis fst_conv)
  have tick: "ensures (\<lambda>f. running f0 f \<and> unat t < 2 ^ 44) (?tick t) (\<lambda>_. running f0) (running f0)" for t
    by (intro ensures_if ensures_set ensures_return tick_running elapsed_sane) simp_all
  show ?thesis
    unfolding preserves_def after_event_def
    using route unfolding preserves_def
    by (intro ensures_bind [OF stamp] ensures_bind [OF tick]) (simp only: case_prod_beta')
qed

subsection \<open>The program\<close>

lemma running_kernel: "running f0 (fst (w_kernel w)) \<Longrightarrow> fst k = fst (w_kernel w) \<Longrightarrow> running f0 (fst (w_kernel (w\<lparr>w_kernel := k\<rparr>)))"
  by simp

lemma port_transmit_rules: "leaves_rules (port_transmit sy pt frames)"
  by (induction frames) (auto simp del: io_simps intro!: rules_intros)

lemma datagram_callback_rules: "leaves_rules (datagram_callback sy i)"
  unfolding datagram_callback_def
  by (auto simp only: case_prod_beta' intro!: rules_intros port_transmit_rules)

lemma after_event_rules: "leaves_rules (after_event sy last_tick)"
proof -
  have "leaves_rules (transmit_all sy ts)" for ts
  proof (induction ts)
    case (Cons t ts)
    obtain p frames where t: "t = (p, frames)" by (rule prod.exhaust)
    show ?case unfolding t transmit_all.simps by (intro rules_intros port_transmit_rules Cons.IH)
  qed (unfold transmit_all.simps, rule rules_intros)
  then show ?thesis
    unfolding after_event_def by (auto simp only: case_prod_beta' intro!: rules_intros)
qed

interpretation routing: loop_client "poll_beside (sy_poll sy)" "router_closures sy"
  "\<lambda>w. running f0 (fst (w_kernel w))" "\<lambda>_ _. True"
  for sy :: "'k system" and f0
proof
  fix c and s s' :: "'k fu_state" and q :: "unit result"
  show "running f0 (fst (w_kernel (snd s'))) \<and> fst s' = fst s"
    if "cl_callback (router_closures sy) c s = (q, s')" and "running f0 (fst (w_kernel (snd s)))"
    using that preservesD [OF datagram_callback_preserves [of f0 sy c]] leaves_rulesD [OF datagram_callback_rules]
    by (simp add: router_closures_def locals_def)
qed (auto simp: router_closures_def poll_beside_def beside_def split: prod.splits)

lemma router_round_returns: "\<exists>r s'. wait_next_event sys pc (router_closures sy) t s = Some (r, s')"
  by (rule round_returns) (simp_all add: adds_no_rules_def router_closures_def)

lemma router_loop_running:
  assumes "counts_up (sy_clock sy)" and "running f0 (locals s)" and "distinct_codes C (fst s)"
  shows "\<exists>r s'. router_loop sy rounds last_tick s = Some (r, s') \<and> running f0 (locals s') \<and> distinct_codes C (fst s')"
  using assms(2,3)
proof (induction rounds arbitrary: s last_tick)
  case (Suc rounds)
  let ?round = "wait_next_event (sys_beside (sy_calls sy)) (poll_beside (sy_poll sy)) (router_closures sy) 100 s"
  obtain r s1 where r: "?round = Some (r, s1)"
    using router_round_returns by blast
  have s1: "running f0 (locals s1)" "distinct_codes C (fst s1)"
    using routing.round_keeps [OF r] Suc.prems by (simp_all add: locals_def)
  show ?case
  proof (cases "\<exists>result. r = Inr result \<and> result \<noteq> Exit")
    case False
    with r s1 show ?thesis by (cases r) auto
  next
    case True
    obtain x s2 where x: "after_event sy last_tick s1 = (x, s2)" by (rule prod.exhaust)
    have "running f0 (locals s2)" by (rule preservesD [OF after_event_preserves [OF assms(1)] x s1(1)])
    moreover have "fst s2 = fst s1" by (rule leaves_rulesD [OF after_event_rules x])
    ultimately show ?thesis using True r x s1 Suc.IH [of s2] by (cases x; cases s2) auto
  qed
qed simp

lemma apply_configs_rules: "leaves_rules (apply_configs sy args)"
proof -
  have "leaves_rules (add_port sy a b c)" for a b c
    unfolding add_port_def by (intro rules_intros)
  moreover have "leaves_rules (make_interface sy a b)" for a b
    unfolding make_interface_def by (auto simp only: case_prod_beta' intro!: rules_intros)
  ultimately have "leaves_rules (configure_interface sy names config pieces)" for names config pieces
    unfolding configure_interface_def by (intro rules_intros)
  moreover have "leaves_rules (configure_route sy names config pieces)" for names config pieces
    unfolding configure_route_def by (intro rules_intros) (auto simp del: io_simps intro!: rules_intros split: option.splits)
  ultimately have "leaves_rules (configs_loop sy names configs)" for names configs
  proof (induction configs arbitrary: names)
    case (Cons config configs)
    show ?case unfolding configs_loop.simps Let_def by (intro rules_intros Cons)
  qed (unfold configs_loop.simps, rule rules_intros)
  then show ?thesis unfolding apply_configs_def by (intro rules_intros)
qed

lemma add_port_rules_codes:
  "add_port_rules category_id i pts s = (Inr (), s') \<Longrightarrow>
    codes (fst s') = codes (fst s) @ [i..<i + length pts] \<and> locals s' = locals s"
proof (induction pts arbitrary: i s)
  case (Cons pt pts)
  obtain x s1 where x: "add_fd_rule category_id (up_socket pt) In i s = (x, s1)" by (rule prod.exhaust)
  then obtain serial where serial: "x = Inr serial" using Cons.prems by (cases x) (auto simp: io_bind_eq)
  then have "codes (fst s1) = codes (fst s) @ [i]" "locals s1 = locals s"
    using x by (auto simp: add_fd_rule_def codes_def locals_def Let_def split: if_splits)
  moreover have "add_port_rules category_id (Suc i) pts s1 = (Inr (), s')"
    using Cons.prems x serial by (simp add: io_bind_eq)
  note Cons.IH [OF this]
  moreover have "[i..<i + length (pt # pts)] = i # [Suc i..<Suc i + length pts]"
    by (subst upt_conv_Cons) simp_all
  ultimately show ?case by (simp del: upt_Suc)
qed simp

text \<open>After the set-up there is a port and a rule for every interface.\<close>

definition balanced :: "fun_router \<Rightarrow> bool" where
  "balanced f \<longleftrightarrow> fu_ok f \<and> length (fu_ports f) = length (fu_interfaces f)"

lemma add_port_rules_preserves: "preserves I (add_port_rules category_id i pts)"
proof (induction pts arbitrary: i)
  case (Cons pt pts)
  have "preserves I (add_fd_rule category_id (up_socket pt) In i)"
    by (rule preserves_loop) (simp add: add_fd_rule_def locals_def Let_def)
  then show ?case unfolding add_port_rules.simps by (intro preserves_bind Cons.IH)
qed (unfold add_port_rules.simps, rule preserves_basic)

lemma router_setup_ensures:
  assumes "resolves_ipv4 (sy_addrs sy)"
  shows "ensures (\<lambda>f. f = fun_router_new) (router_setup sy args) (\<lambda>_. balanced) fu_ok"
proof -
  have category: "preserves I (add_category name)" for I name
    by (rule preserves_loop) (simp add: add_category_def locals_def)
  have rest: "preserves balanced (io_bind (add_category ''incoming user datagram'') (\<lambda>category_id.
      io_bind (add_port_rules category_id 0 ports) (\<lambda>_. on_fds (call (beside (system_timestamp_ms sy))))))" for ports
    by (intro preserves_intros category add_port_rules_preserves keeps_locals_basic)
  have "ensures (\<lambda>f. \<exists>n. sized n n f) (io_bind (io_ask locals) (\<lambda>f.
       if length (fu_ports f) \<noteq> length (fu_interfaces f)
       then io_throw (Runtime_error ''internal error: #ports != #interfaces'')
       else io_bind (add_category ''incoming user datagram'') (\<lambda>category_id.
            io_bind (add_port_rules category_id 0 (fu_ports f)) (\<lambda>_.
            on_fds (call (beside (system_timestamp_ms sy))))))) (\<lambda>_. balanced) fu_ok"
  proof (rule ensures_ask, elim exE)
    fix s :: "'a fu_state" and n assume n: "sized n n (locals s)"
    then have len: "length (fu_ports (locals s)) = length (fu_interfaces (locals s))" "balanced (locals s)"
      by (simp_all add: sized_def balanced_def)
    show "ensures (\<lambda>l. l = locals s) (if length (fu_ports (locals s)) \<noteq> length (fu_interfaces (locals s))
       then io_throw (Runtime_error ''internal error: #ports != #interfaces'')
       else io_bind (add_category ''incoming user datagram'') (\<lambda>category_id.
            io_bind (add_port_rules category_id 0 (fu_ports (locals s))) (\<lambda>_.
            on_fds (call (beside (system_timestamp_ms sy)))))) (\<lambda>_. balanced) fu_ok"
      unfolding len(1)
      using ensures_weaken [OF rest [unfolded preserves_def], of "\<lambda>l. l = locals s" "\<lambda>_. balanced" fu_ok] len(2)
      by (simp add: balanced_def)
  qed
  then show ?thesis unfolding router_setup_def by (rule ensures_bind [OF apply_configs_ensures [OF assms]])
qed

lemma router_setup_codes:
  assumes "router_setup sy args s = (Inr t, s')" and "codes (fst s) = []"
  shows "codes (fst s') = [0..<length (fu_ports (locals s'))]"
proof -
  obtain s1 category_id s2 s3 where s1: "apply_configs sy args s = (Inr (), s1)"
    and s2: "add_category ''incoming user datagram'' s1 = (Inr category_id, s2)"
    and s3: "add_port_rules category_id 0 (fu_ports (locals s1)) s2 = (Inr (), s3)"
    and s': "on_fds (call (beside (system_timestamp_ms sy))) s3 = (Inr t, s')"
    using assms(1) by (auto simp: router_setup_def io_bind_Inr split: if_splits)
  have "codes (fst s1) = []" using leaves_rulesD [OF apply_configs_rules s1] assms(2) by simp
  then have "codes (fst s2) = []" "locals s2 = locals s1"
    using s2 by (auto simp: add_category_def codes_def locals_def split: if_splits)
  moreover have "fst s' = fst s3" "locals s' = locals s3"
    using s' by (auto simp: on_fds_def call_def beside_def locals_def split: prod.splits)
  ultimately show ?thesis using add_port_rules_codes [OF s3] by simp
qed

lemma router_route_returns:
  assumes "fu_ok f" and "well_formed (routes (fu_router f))"
  shows "\<exists>heap out. route_all (fu_router f) (fu_heap f) = Inr (heap, out)"
proof -
  have "router_ok (fu_router f)" using assms by (auto simp: router_ok_def fu_ok_def)
  then show ?thesis
    using route_interfaces_returns [of "fu_router f" "fu_heap f" "interfaces (fu_router f)"] assms(1)
    by (auto simp: fu_ok_def route_all_def)
qed

subsection \<open>Properties\<close>

text \<open>A configuration is split at its colons and nowhere else: the pieces have none, joined by
  colons they are the configuration again, and they are the only pieces of which this holds.\<close>

theorem split_config_correct:
  "split_config str \<noteq> [] \<and> join_colons (split_config str) = str \<and> (\<forall>p\<in>set (split_config str). CHR '':'' \<notin> set p)
   \<and> (\<forall>ps. ps \<noteq> [] \<longrightarrow> (\<forall>p\<in>set ps. CHR '':'' \<notin> set p) \<longrightarrow> join_colons ps = str \<longrightarrow> ps = split_config str)"
  using cut_join cut_no_colon [of "[]"] by (auto simp: split_config_eq cut_at_colons_ne join_cut)

theorem split_config_correct_witness:
  "[''route'', ''10.0.0.0'', ''8'', ''eth0''] = split_config ''route:10.0.0.0:8:eth0''"
proof -
  let ?ps = "[''route'', ''10.0.0.0'', ''8'', ''eth0'']"
  have "\<forall>p\<in>set ?ps. CHR '':'' \<notin> set p" "join_colons ?ps = ''route:10.0.0.0:8:eth0''" by code_simp+
  then show ?thesis using split_config_correct [of "''route:10.0.0.0:8:eth0''"] by blast
qed

text \<open>C15: whatever the arguments, the program comes to the end of every number of rounds or stops
  before with an exception, and its state is well formed then: the router has exactly the
  interfaces that were made, every one with an open port, and at most one port more, whose interface
  could not be made when the set-up threw; a route names an interface that exists
  and has an IPv4 next hop, and the interfaces' tables are consistent and hold datagrams of version
  4 only. After a set-up that did not throw there are exactly as many ports as interfaces and one rule
  for each, and from then on the table, the interfaces and the ports never change, and the rules that
  are left are among those, at most one for an interface; and if no prefix is longer than 32
  bits, routing never throws.\<close>

theorem fun_router_well_formed:
  assumes "resolves_ipv4 (sy_addrs sy)" and "counts_up (sy_clock sy)"
  shows "\<exists>r s'. program_body sy args rounds (with_locals fun_router_new w) = Some (r, s') \<and> fu_ok (locals s')
    \<and> (\<forall>e s1. router_setup sy args (with_locals fun_router_new w) = (Inl e, s1) \<longrightarrow> r = Inl e \<and> s' = s1)
    \<and> (\<forall>t s1. router_setup sy args (with_locals fun_router_new w) = (Inr t, s1) \<longrightarrow>
         fu_router (locals s') = fu_router (locals s1) \<and> fu_ports (locals s') = fu_ports (locals s1)
         \<and> fu_interfaces (locals s') = fu_interfaces (locals s1)
         \<and> length (fu_ports (locals s')) = length (fu_interfaces (locals s'))
         \<and> codes (fst s1) = [0..<length (fu_interfaces (locals s1))]
         \<and> distinct (codes (fst s')) \<and> set (codes (fst s')) \<subseteq> set (codes (fst s1))
         \<and> (well_formed (routes (fu_router (locals s'))) \<longrightarrow>
              (\<exists>heap out. route_all (fu_router (locals s')) (fu_heap (locals s')) = Inr (heap, out))))"
proof -
  let ?s = "with_locals fun_router_new w"
  have new: "locals ?s = fun_router_new" "codes (fst ?s) = []"
    by (simp_all add: with_locals_def locals_def codes_def event_loop_new_def)
  obtain x s1 where x: "router_setup sy args ?s = (x, s1)" by (rule prod.exhaust)
  note made = ensuresD [OF router_setup_ensures [OF assms(1)] x new(1)]
  show ?thesis
  proof (cases x)
    case (Inl e)
    with x made show ?thesis by (simp add: program_body_def)
  next
    case (Inr t)
    then have bal: "balanced (locals s1)" and codes: "codes (fst s1) = [0..<length (fu_interfaces (locals s1))]"
      using made router_setup_codes [OF x [unfolded Inr] new(2)] by (simp_all add: balanced_def)
    have "running (locals s1) (locals s1)" using bal by (simp add: running_def balanced_def)
    moreover have "distinct_codes (set (codes (fst s1))) (fst s1)" by (simp add: distinct_codes_codes codes)
    ultimately obtain r s' where r: "router_loop sy rounds t s1 = Some (r, s')" "running (locals s1) (locals s')"
      "distinct_codes (set (codes (fst s1))) (fst s')"
      using router_loop_running [OF assms(2)] by blast
    have prog: "program_body sy args rounds ?s = Some (r, s')" using x Inr r(1) by (simp add: program_body_def)
    have same: "fu_ok (locals s')" "fu_router (locals s') = fu_router (locals s1)" "fu_ports (locals s') = fu_ports (locals s1)"
      "fu_interfaces (locals s') = fu_interfaces (locals s1)" "length (fu_ports (locals s')) = length (fu_interfaces (locals s'))"
      using r(2) bal by (simp_all add: running_def balanced_def)
    have rules: "distinct (codes (fst s'))" "set (codes (fst s')) \<subseteq> set (codes (fst s1))"
      using r(3) by (simp_all add: distinct_codes_codes)
    have routes: "\<exists>heap out. route_all (fu_router (locals s')) (fu_heap (locals s')) = Inr (heap, out)"
      if "well_formed (routes (fu_router (locals s')))" using router_route_returns [OF same(1) that] .
    have only: "s2 = s1" if "router_setup sy args ?s = (Inr t', s2)" for t' s2 using that x by simp
    have none: "router_setup sy args ?s \<noteq> (Inl e, s2)" for e s2 using x Inr by simp
    show ?thesis
    proof (intro exI [of _ r] exI [of _ s'] conjI allI impI)
      fix t' s2 assume "router_setup sy args ?s = (Inr t', s2)"
      note s2 = only [OF this]
      show "fu_router (locals s') = fu_router (locals s2)" "fu_ports (locals s') = fu_ports (locals s2)"
        "fu_interfaces (locals s') = fu_interfaces (locals s2)" using same(2-4) s2 by simp_all
      show "codes (fst s2) = [0..<length (fu_interfaces (locals s2))]" "set (codes (fst s')) \<subseteq> set (codes (fst s2))"
        using codes rules(2) s2 by simp_all
    qed (use prog same(1,5) rules(1) routes none in simp_all)
  qed
qed

definition demo_args :: "string list" where
  "demo_args = [''fun_router'', ''interface:eth0:10.0.0.1:9001:localhost:9002'', ''route:10.0.0.0:8:eth0'',
     ''route:0.0.0.0:0:eth0:10.0.0.254'']"

lemma quiet_system_ok: "resolves_ipv4 (sy_addrs quiet_system)" "counts_up (sy_clock quiet_system)"
  by (simp_all add: quiet_system_def resolves_ipv4_def counts_up_def SOCKADDR_IN_SIZE_def)

text \<open>What the steps of the configuration do on a quiet system.\<close>

lemma configure_rules: "leaves_rules (add_port sy a b c)" "leaves_rules (make_interface sy a b)"
  unfolding add_port_def make_interface_def by (auto simp only: case_prod_beta' intro!: rules_intros)

lemma quiet_add_port:
  "\<exists>pt s'. add_port quiet_system a b c s = (Inr (), s') \<and> locals s' = (locals s)\<lparr>fu_ports := fu_ports (locals s) @ [pt]\<rparr>"
proof -
  obtain sock s1 where s1: "on_fds (udp_socket (sys_beside (sy_calls quiet_system)) (socket_beside (sy_sockets quiet_system))) s = (Inr sock, s1)"
    "locals s1 = locals s"
    using quiet_call [OF keeps_locals_udp_socket quiet_udp_socket, of s] by blast
  then obtain w' where "udp_socket (sys_beside (sy_calls quiet_system)) (socket_beside (sy_sockets quiet_system)) (snd s) = (Inr sock, w')"
    by (auto simp: on_fds_def split: prod.splits)
  from udp_socket_some [OF this] obtain fd where fd: "sock = Some fd" by auto
  let ?pt = "\<lparr>up_socket = sock, up_physical_dest = ipv4_address 0x0a000001\<rparr>"
  obtain s2 where s2: "set_locals (\<lambda>f. f\<lparr>fu_ports := fu_ports f @ [?pt]\<rparr>) s1 = (Inr (), s2)"
    "locals s2 = (locals s)\<lparr>fu_ports := fu_ports (locals s) @ [?pt]\<rparr>"
    using s1(2) by (simp add: set_locals_eq) (simp add: locals_def)
  obtain s3 where "on_fds (bind_socket (sys_beside (sy_calls quiet_system)) (socket_beside (sy_sockets quiet_system)) (Some fd) (ipv4_address 0x0a000001)) s2 = (Inr (), s3)"
    "locals s3 = locals s2"
    by (rule quiet_call [OF keeps_locals_sockets(2) quiet_bind [where fd = fd and a = "ipv4_address 0x0a000001"], where s = s2])
      (use that in auto)
  then show ?thesis
    using s1(1) s2 by (auto simp: add_port_def address_of_name_def quiet_address io_bind_eq fd)
qed

lemma quiet_make_interface:
  "\<exists>heap s'. make_interface quiet_system a b s = (Inr (), s') \<and> locals s' = (let f = locals s; p = length (fu_interfaces f)
     in f\<lparr>fu_interfaces := fu_interfaces f @ [p], fu_heap := heap, fu_router := (fu_router f)\<lparr>interfaces := interfaces (fu_router f) @ [p]\<rparr>\<rparr>)"
proof -
  obtain eth s1 where s1: "on_fds (call (beside (random_router_ethernet_address (sy_random quiet_system)))) s = (Inr eth, s1)"
    "locals s1 = locals s"
    by (cases "random_router_ethernet_address (sy_random quiet_system) (snd (w_kernel (snd s)))")
      (auto simp: on_fds_def call_def beside_def locals_def)
  then show ?thesis
    by (auto simp: make_interface_def address_of_text_def quiet_address network_interface_new_def quiet_names io_bind_eq
        set_locals_eq locals_updated add_interface_def Let_def io_bind_def)
qed

lemma quiet_setup:
  assumes "locals s = fun_router_new" and "el_rule_categories (fst s) = []"
  shows "\<exists>t s'. router_setup quiet_system demo_args s = (Inr t, s')
    \<and> map prefix_length (routes (fu_router (locals s'))) = [8, 0] \<and> length (fu_ports (locals s')) = 1"
proof -
  obtain pt s1 where s1: "add_port quiet_system ''9001'' ''localhost'' ''9002'' s = (Inr (), s1)"
    "locals s1 = fun_router_new\<lparr>fu_ports := [pt]\<rparr>"
    using quiet_add_port [of "''9001''" "''localhost''" "''9002''" s] by (auto simp: assms(1) fun_router_new_def)
  obtain heap s2 where s2: "make_interface quiet_system ''eth0'' ''10.0.0.1'' s1 = (Inr (), s2)"
    "locals s2 = \<lparr>fu_router = \<lparr>interfaces = [0], routes = []\<rparr>, fu_ports = [pt], fu_interfaces = [0], fu_heap = heap, fu_incoming = []\<rparr>"
    using quiet_make_interface [of "''eth0''" "''10.0.0.1''" s1]
    by (auto simp: s1(2) Let_def fun_router_new_def router_new_def)
  have rules: "fst s2 = fst s"
    using leaves_rulesD [OF configure_rules(1) s1(1)] leaves_rulesD [OF configure_rules(2) s2(1)] by simp
  have splits: "split_config ''interface:eth0:10.0.0.1:9001:localhost:9002'' = [''interface'', ''eth0'', ''10.0.0.1'', ''9001'', ''localhost'', ''9002'']"
    "split_config ''route:10.0.0.0:8:eth0'' = [''route'', ''10.0.0.0'', ''8'', ''eth0'']"
    "split_config ''route:0.0.0.0:0:eth0:10.0.0.254'' = [''route'', ''0.0.0.0'', ''0'', ''eth0'', ''10.0.0.254'']"
    "stoi ''8'' = Inr 8" "stoi ''0'' = Inr 0"
    by code_simp+
  have binds: "io_bind (add_port quiet_system ''9001'' ''localhost'' ''9002'') f s = f () s1"
    "io_bind (make_interface quiet_system ''eth0'' ''10.0.0.1'') g s1 = g () s2" for f :: "_ \<Rightarrow> (nat fu_state, indices) io" and g :: "_ \<Rightarrow> (nat fu_state, indices) io"
    by (simp_all add: io_bind_def s1(1) s2(1))
  have first: "configure_interface quiet_system Map.empty c [''interface'', ''eth0'', ''10.0.0.1'', ''9001'', ''localhost'', ''9002''] s
      = (Inr [''eth0'' \<mapsto> 0], s2)" for c
    by (simp add: configure_interface_def binds assms(1), simp add: fun_router_new_def)
  have rest: "\<exists>s3. configs_loop quiet_system [''eth0'' \<mapsto> 0] [''route:10.0.0.0:8:eth0'', ''route:0.0.0.0:0:eth0:10.0.0.254''] s2 = (Inr (), s3)
    \<and> fst s3 = fst s \<and> map prefix_length (routes (fu_router (locals s3))) = [8, 0] \<and> fu_ports (locals s3) = [pt] \<and> fu_interfaces (locals s3) = [0]"
    by (simp add: splits configure_route_def address_of_text_def quiet_address set_locals_eq locals_updated s2(2) add_route_def rules io_bind_def)
  then obtain s3 where s3: "apply_configs quiet_system demo_args s = (Inr (), s3)" "fst s3 = fst s"
    "map prefix_length (routes (fu_router (locals s3))) = [8, 0]" "fu_ports (locals s3) = [pt]" "fu_interfaces (locals s3) = [0]"
    by (auto simp: apply_configs_def demo_args_def splits io_bind_def first)
  obtain e w where e: "s3 = (e, w)" by (rule prod.exhaust)
  show ?thesis
    using s3 assms(2) by (simp add: router_setup_def e io_bind_def add_category_def categories_capacity_def add_fd_rule_def Let_def on_fds_def call_def beside_def locals_def split: prod.split)
qed
theorem fun_router_well_formed_witness:
  "\<exists>r s' heap out. program_body quiet_system demo_args 2 (with_locals fun_router_new idle_world) = Some (r, s')
    \<and> fu_ok (locals s') \<and> map prefix_length (routes (fu_router (locals s'))) = [8, 0] \<and> length (fu_interfaces (locals s')) = 1
    \<and> route_all (fu_router (locals s')) (fu_heap (locals s')) = Inr (heap, out)"
proof -
  have "locals (with_locals fun_router_new idle_world) = fun_router_new"
    "el_rule_categories (fst (with_locals fun_router_new idle_world)) = []"
    by (simp_all add: with_locals_def locals_def event_loop_new_def)
  then obtain t s1 where s1: "router_setup quiet_system demo_args (with_locals fun_router_new idle_world) = (Inr t, s1)"
    and table: "map prefix_length (routes (fu_router (locals s1))) = [8, 0]" "length (fu_ports (locals s1)) = 1"
    using quiet_setup [of "with_locals fun_router_new idle_world"] by auto
  from table have "well_formed (routes (fu_router (locals s1)))" by (auto simp: well_formed_def)
  moreover obtain r s' where prog: "program_body quiet_system demo_args 2 (with_locals fun_router_new idle_world) = Some (r, s')" "fu_ok (locals s')"
    and kept: "router_setup quiet_system demo_args (with_locals fun_router_new idle_world) = (Inr t, s1) \<longrightarrow>
         fu_router (locals s') = fu_router (locals s1) \<and> fu_ports (locals s') = fu_ports (locals s1)
         \<and> fu_interfaces (locals s') = fu_interfaces (locals s1)
         \<and> length (fu_ports (locals s')) = length (fu_interfaces (locals s'))
         \<and> codes (fst s1) = [0..<length (fu_interfaces (locals s1))]
         \<and> distinct (codes (fst s')) \<and> set (codes (fst s')) \<subseteq> set (codes (fst s1))
         \<and> (well_formed (routes (fu_router (locals s'))) \<longrightarrow>
              (\<exists>heap out. route_all (fu_router (locals s')) (fu_heap (locals s')) = Inr (heap, out)))"
    using fun_router_well_formed [OF quiet_system_ok, of demo_args 2 idle_world] by blast
  ultimately show ?thesis using s1 table by auto
qed

end
