(* ===== verification/Tcp_Sender.thy ===== *)
theory Tcp_Sender
  imports Tcp_Messages Byte_Stream
begin

text \<open>
  The TCP sender of \<open>src/tcp_sender.hh\<close> and \<open>src/tcp_sender.cc\<close>. The callback
  \<open>transmit\<close> is modelled by the list of the messages it is called with, in order. An
  operation that dereferences an empty optional or takes the front of an empty queue is
  an error value. The member \<open>abs_ackno_\<close> has no initialiser in the class, so its first
  value is an argument of the constructor.
\<close>

record tcp_sender =
  snd_input :: byte_stream
  snd_isn :: wrap32
  snd_initial_RTO_ms :: u64
  snd_outstanding :: "tcp_sender_message list"
  snd_RTO :: u64
  snd_timer_time :: u64
  snd_timer_on :: bool
  snd_abs_seqno :: u64
  snd_abs_ackno :: u64
  snd_consecutive_retransmissions :: u64
  snd_window_size :: u64
  snd_FINsent :: bool

definition tcp_sender_new :: "byte_stream \<Rightarrow> wrap32 \<Rightarrow> u64 \<Rightarrow> u64 \<Rightarrow> tcp_sender" where
  "tcp_sender_new input isn initial_RTO_ms uninitialised =
     \<lparr>snd_input = input, snd_isn = isn, snd_initial_RTO_ms = initial_RTO_ms,
      snd_outstanding = [], snd_RTO = initial_RTO_ms, snd_timer_time = 0, snd_timer_on = False,
      snd_abs_seqno = 0, snd_abs_ackno = uninitialised, snd_consecutive_retransmissions = 0,
      snd_window_size = 1, snd_FINsent = False\<rparr>"

fun count_seqnos :: "u64 \<Rightarrow> tcp_sender_message list \<Rightarrow> u64" where
  "count_seqnos total_seqnos [] = total_seqnos"
| "count_seqnos total_seqnos (m # temp) = count_seqnos (total_seqnos + sequence_length m) temp"

definition sequence_numbers_in_flight :: "tcp_sender \<Rightarrow> u64" where
  "sequence_numbers_in_flight s = count_seqnos 0 (snd_outstanding s)"

definition consecutive_retransmissions :: "tcp_sender \<Rightarrow> u64" where
  "consecutive_retransmissions s = snd_consecutive_retransmissions s"

text \<open>The window as \<open>push\<close> computes it at the top of its loop.\<close>

definition remaining_window :: "tcp_sender \<Rightarrow> u64" where
  "remaining_window s =
     (if snd_window_size s = 0 \<and> sequence_numbers_in_flight s = 0 then 1
      else if sequence_numbers_in_flight s < snd_window_size s
      then snd_window_size s - sequence_numbers_in_flight s
      else 0)"

text \<open>One turn of the loop of \<open>push\<close> up to the call of \<open>transmit\<close>: \<open>None\<close> when the
  function returns, otherwise the message and \<open>is_last_msg\<close>.\<close>

definition push_turn ::
    "tcp_sender \<Rightarrow> (tcp_sender \<times> (tcp_sender_message \<times> bool) option) result" where
  "push_turn s =
     (let remaining_window_size = remaining_window s
      in if remaining_window_size = 0 then Inr (s, None)
         else if snd_FINsent s then Inr (s, None)
         else
           let syn = (snd_abs_seqno s = 0);
               remaining_window_size = remaining_window_size - of_bool syn;
               rst = has_error (snd_input s);
               num_bytes_to_read = min (bytes_buffered (snd_input s)) remaining_window_size;
               is_last_msg = (num_bytes_to_read < MAX_PAYLOAD_SIZE);
               len = (if num_bytes_to_read < MAX_PAYLOAD_SIZE then num_bytes_to_read
                      else MAX_PAYLOAD_SIZE)
           in res_bind (read_stream (snd_input s) len) (\<lambda>(input, payload).
                let remaining_window_size = max 0 (remaining_window_size - len);
                    fin = (is_finished input \<and> remaining_window_size > 0);
                    s = s\<lparr>snd_input := input, snd_FINsent := (snd_FINsent s \<or> fin)\<rparr>;
                    msg = \<lparr>sm_seqno = wrap (snd_abs_seqno s) (snd_isn s), sm_SYN = syn,
                           sm_payload = payload, sm_FIN = fin, sm_RST = rst\<rparr>
                in if sequence_length msg = 0 then Inr (s, None)
                   else Inr (s, Some (msg, is_last_msg))))"

text \<open>What the loop body does after the call of \<open>transmit\<close>.\<close>

definition record_sent :: "tcp_sender \<Rightarrow> tcp_sender_message \<Rightarrow> tcp_sender" where
  "record_sent s msg =
     (let s = s\<lparr>snd_outstanding := snd_outstanding s @ [msg],
                snd_abs_seqno := snd_abs_seqno s + sequence_length msg\<rparr>
      in if \<not> snd_timer_on s then s\<lparr>snd_timer_on := True, snd_timer_time := 0\<rparr> else s)"

lemma read_loop_no_growth:
  "read_loop r n out = Inr (r', out') \<Longrightarrow> length (bs_buffer r') \<le> length (bs_buffer r)"
proof (induction r n out rule: read_loop.induct)
  case (1 r n out)
  show ?case
  proof (cases "bytes_buffered r \<noteq> 0 \<and> len64 out < n \<and> reader_peek r \<noteq> []")
    case True
    let ?view = "take (unat (n - len64 out)) (reader_peek r)"
    from True 1(2) have "read_loop (reader_pop r (len64 ?view)) n (out @ ?view) = Inr (r', out')"
      by (simp add: read_loop.simps [of r n out] Let_def)
    then have "length (bs_buffer r') \<le> length (bs_buffer (reader_pop r (len64 ?view)))"
      using "1.IH" True by blast
    then show ?thesis by (simp add: reader_pop_def)
  next
    case False
    with 1(2) show ?thesis
      by (auto simp: read_loop.simps [of r n out] Let_def split: if_splits)
  qed
qed

lemma read_loop_shrinks:
  assumes "read_loop r n out = Inr (r', out')" "bytes_buffered r \<noteq> 0" "len64 out < n"
  shows "length (bs_buffer r') < length (bs_buffer r)"
proof -
  let ?view = "take (unat (n - len64 out)) (bs_buffer r)"
  have ne: "bs_buffer r \<noteq> []"
    using assms by (auto simp: read_loop.simps [of r n out] reader_peek_def Let_def)
  with assms have "read_loop (reader_pop r (len64 ?view)) n (out @ ?view) = Inr (r', out')"
    by (simp add: read_loop.simps [of r n out] reader_peek_def Let_def)
  then have "length (bs_buffer r') \<le> length (bs_buffer (reader_pop r (len64 ?view)))"
    by (rule read_loop_no_growth)
  also have "\<dots> = length (bs_buffer r) - length ?view"
    using unat_len64_le [of ?view "n - len64 out"] by (simp add: reader_pop_def)
  also have "\<dots> < length (bs_buffer r)"
  proof -
    have "n - len64 out \<noteq> 0" using assms(3) by auto
    then have "0 < length ?view" using ne by (simp add: unat_gt_0)
    then show ?thesis using ne by (intro diff_less) simp_all
  qed
  finally show ?thesis .
qed

lemma push_turn_shrinks:
  assumes "push_turn s = Inr (s', Some (msg, False))"
  shows "length (bs_buffer (snd_input s')) < length (bs_buffer (snd_input s))"
proof -
  from assms obtain n input payload where
    "MAX_PAYLOAD_SIZE \<le> min (bytes_buffered (snd_input s)) n"
    and read: "read_stream (snd_input s) MAX_PAYLOAD_SIZE = Inr (input, payload)"
    and "snd_input s' = input"
    unfolding push_turn_def Let_def
    by (auto split: if_splits simp: not_less)
  moreover from this have "bytes_buffered (snd_input s) \<noteq> 0"
    by (auto simp: MAX_PAYLOAD_SIZE_def)
  ultimately show ?thesis
    using read_loop_shrinks [OF read [unfolded read_stream_def]]
    by (simp add: MAX_PAYLOAD_SIZE_def)
qed

function sender_push :: "tcp_sender \<Rightarrow> (tcp_sender \<times> tcp_sender_message list) result" where
  "sender_push s =
     res_bind (push_turn s) (\<lambda>(s, turn).
       case turn of
         None \<Rightarrow> Inr (s, [])
       | Some (msg, is_last_msg) \<Rightarrow>
           (let s = record_sent s msg
            in if is_last_msg then Inr (s, [msg])
               else res_bind (sender_push s) (\<lambda>(s, msgs). Inr (s, msg # msgs))))"
  by pat_completeness auto
termination
proof (relation "measure (\<lambda>s. length (bs_buffer (snd_input s)))", goal_cases)
  case 1
  show ?case by simp
next
  case (2 s r s' turn m msg is_last s'')
  then have "push_turn s = Inr (s', Some (msg, False))" by auto
  from push_turn_shrinks [OF this] 2 show ?case
    by (simp add: record_sent_def Let_def)
qed

declare sender_push.simps [simp del]

definition make_empty_message :: "tcp_sender \<Rightarrow> tcp_sender_message" where
  "make_empty_message s =
     \<lparr>sm_seqno = wrap (snd_abs_seqno s) (snd_isn s), sm_SYN = False, sm_payload = [], sm_FIN = False,
      sm_RST = has_error (snd_input s)\<rparr>"

text \<open>The loop of \<open>receive\<close> that removes acknowledged segments.\<close>

fun pop_acked :: "wrap32 \<Rightarrow> u64 \<Rightarrow> u64 \<Rightarrow> tcp_sender_message list \<Rightarrow> tcp_sender_message list" where
  "pop_acked isn checkpoint msg_abs_ackno [] = []"
| "pop_acked isn checkpoint msg_abs_ackno (m # outstanding) =
     (if count_seqnos 0 (m # outstanding) > 0
      then let outstanding_msg_start = unwrap (sm_seqno m) isn checkpoint;
               outstanding_msg_end = outstanding_msg_start + sequence_length m
           in if msg_abs_ackno \<ge> outstanding_msg_end
              then pop_acked isn checkpoint msg_abs_ackno outstanding
              else m # outstanding
      else m # outstanding)"

definition sender_receive :: "tcp_sender \<Rightarrow> tcp_receiver_message \<Rightarrow> tcp_sender result" where
  "sender_receive s msg =
     (let s = (if rm_RST msg then s\<lparr>snd_input := set_error (snd_input s)\<rparr> else s);
          s = s\<lparr>snd_window_size := ucast (rm_window_size msg)\<rparr>
      in case rm_ackno msg of
           None \<Rightarrow> Inl (Undefined_behaviour ''TCPSender::receive: dereference of empty ackno'')
         | Some ackno \<Rightarrow>
             (let checkpoint = bytes_popped (snd_input s);
                  msg_abs_ackno = unwrap ackno (snd_isn s) checkpoint
              in if msg_abs_ackno > snd_abs_ackno s + sequence_numbers_in_flight s then Inr s
                 else
                   let s = (if msg_abs_ackno > snd_abs_ackno s
                            then s\<lparr>snd_RTO := snd_initial_RTO_ms s, snd_timer_time := 0,
                                   snd_abs_ackno := msg_abs_ackno,
                                   snd_consecutive_retransmissions := 0,
                                   snd_outstanding :=
                                     pop_acked (snd_isn s) checkpoint msg_abs_ackno (snd_outstanding s)\<rparr>
                            else s)
                   in Inr (if sequence_numbers_in_flight s = 0 then s\<lparr>snd_timer_on := False\<rparr> else s)))"

definition sender_tick :: "tcp_sender \<Rightarrow> u64 \<Rightarrow> (tcp_sender \<times> tcp_sender_message list) result" where
  "sender_tick s ms_since_last_tick =
     (if \<not> snd_timer_on s then Inr (s, [])
      else
        let s = s\<lparr>snd_timer_time := snd_timer_time s + ms_since_last_tick\<rparr>
        in if snd_timer_time s \<ge> snd_RTO s
           then (case snd_outstanding s of
                   [] \<Rightarrow> Inl (Undefined_behaviour ''TCPSender::tick: front of empty queue'')
                 | m # _ \<Rightarrow>
                     (let s = (if snd_window_size s > 0
                               then s\<lparr>snd_consecutive_retransmissions := snd_consecutive_retransmissions s + 1,
                                      snd_RTO := snd_RTO s * 2\<rparr>
                               else s)
                      in Inr (s\<lparr>snd_timer_time := 0\<rparr>, [m])))
           else Inr (s, []))"

text \<open>The application's side of the outbound stream.\<close>

definition sender_write :: "tcp_sender \<Rightarrow> bytes \<Rightarrow> tcp_sender" where
  "sender_write s data = s\<lparr>snd_input := writer_push (snd_input s) data\<rparr>"

definition sender_close :: "tcp_sender \<Rightarrow> tcp_sender" where
  "sender_close s = s\<lparr>snd_input := writer_close (snd_input s)\<rparr>"

subsection \<open>The invariant\<close>

definition flight_of :: "tcp_sender_message list \<Rightarrow> nat" where
  "flight_of ms = sum_list (map seq_len ms)"

lemma flight_of_simps [simp]:
  "flight_of [] = 0" "flight_of (m # ms) = seq_len m + flight_of ms"
  "flight_of (ms @ ms') = flight_of ms + flight_of ms'"
  by (simp_all add: flight_of_def)

lemma count_seqnos_eq: "count_seqnos t ms = t + of_nat (flight_of ms)"
  by (induction t ms rule: count_seqnos.induct) (simp_all add: sequence_length_seq_len)

lemma sequence_numbers_in_flight_eq:
  "sequence_numbers_in_flight s = of_nat (flight_of (snd_outstanding s))"
  by (simp add: sequence_numbers_in_flight_def count_seqnos_eq)

text \<open>The segment at absolute sequence number \<open>a\<close> of a sender of the byte string
  \<open>S\<close>: the SYN has number 0 and the byte at stream index \<open>i\<close> has number \<open>i + 1\<close>.\<close>

definition seg_at :: "bytes \<Rightarrow> wrap32 \<Rightarrow> nat \<Rightarrow> tcp_sender_message \<Rightarrow> bool" where
  "seg_at S isn a m \<longleftrightarrow>
     sm_SYN m = (a = 0) \<and> sm_seqno m = wrap (of_nat a) isn
     \<and> a - 1 + length (sm_payload m) \<le> length S
     \<and> sm_payload m = take (length (sm_payload m)) (drop (a - 1) S)
     \<and> (sm_FIN m \<longrightarrow> a - 1 + length (sm_payload m) = length S)
     \<and> length (sm_payload m) \<le> 1000 \<and> 0 < seq_len m"

fun chain :: "bytes \<Rightarrow> wrap32 \<Rightarrow> nat \<Rightarrow> tcp_sender_message list \<Rightarrow> bool" where
  "chain S isn a [] = True"
| "chain S isn a (m # ms) = (seg_at S isn a m \<and> chain S isn (a + seq_len m) ms)"

lemma chain_append:
  "chain S isn a (ms @ ms') = (chain S isn a ms \<and> chain S isn (a + flight_of ms) ms')"
  by (induction ms arbitrary: a) (simp_all add: add.assoc)

lemma chain_flight_0: "chain S isn a ms \<Longrightarrow> flight_of ms = 0 \<longleftrightarrow> ms = []"
  by (cases ms) (auto simp: seg_at_def)

definition stream_ok :: "bytes \<Rightarrow> byte_stream \<Rightarrow> bool" where
  "stream_ok S bs \<longleftrightarrow> bs_ok bs \<and> length S < 2 ^ 63
     \<and> unat (bs_total_pushed bs) = unat (bs_total_popped bs) + length (bs_buffer bs)
     \<and> unat (bs_total_pushed bs) \<le> length S
     \<and> bs_buffer bs = take (length (bs_buffer bs)) (drop (unat (bs_total_popped bs)) S)
     \<and> (bs_stream_closed bs \<longrightarrow> unat (bs_total_pushed bs) = length S)"

abbreviation flight :: "tcp_sender \<Rightarrow> nat" where
  "flight s \<equiv> flight_of (snd_outstanding s)"

abbreviation popped :: "tcp_sender \<Rightarrow> nat" where
  "popped s \<equiv> unat (bs_total_popped (snd_input s))"

text \<open>The first of the segments from \<open>a\<close> on ends after \<open>n\<close>.\<close>

definition ahead :: "nat \<Rightarrow> nat \<Rightarrow> tcp_sender_message list \<Rightarrow> bool" where
  "ahead n a ms = (case ms of [] \<Rightarrow> True | m # _ \<Rightarrow> n < a + seq_len m)"

lemma ahead_Nil [simp]: "ahead n a []"
  by (simp add: ahead_def)

definition snd_ok :: "bytes \<Rightarrow> tcp_sender \<Rightarrow> bool" where
  "snd_ok S s \<longleftrightarrow> stream_ok S (snd_input s)
     \<and> (snd_abs_seqno s = 0 \<and> popped s = 0 \<and> \<not> snd_FINsent s
        \<or> unat (snd_abs_seqno s) = 1 + popped s + of_bool (snd_FINsent s))
     \<and> (snd_FINsent s \<longrightarrow> bs_stream_closed (snd_input s) \<and> popped s = length S)
     \<and> flight s \<le> unat (snd_abs_seqno s)
     \<and> chain S (snd_isn s) (unat (snd_abs_seqno s) - flight s) (snd_outstanding s)
     \<and> unat (snd_abs_seqno s) - flight s \<le> unat (snd_abs_ackno s)
     \<and> unat (snd_abs_ackno s) \<le> unat (snd_abs_seqno s)
     \<and> ahead (unat (snd_abs_ackno s)) (unat (snd_abs_seqno s) - flight s) (snd_outstanding s)
     \<and> flight s \<le> 65535 \<and> unat (snd_window_size s) \<le> 65535
     \<and> snd_timer_on s = (snd_outstanding s \<noteq> [])"

lemma stream_ok_new: "length S < 2 ^ 63 \<Longrightarrow> stream_ok S (byte_stream_new c)"
  by (simp add: stream_ok_def) (simp add: byte_stream_new_def)

lemma snd_ok_new:
  "length S < 2 ^ 63 \<Longrightarrow> snd_ok S (tcp_sender_new (byte_stream_new c) isn rto 0)"
  using stream_ok_new by (simp add: snd_ok_def tcp_sender_new_def) (simp add: byte_stream_new_def)

lemma unat_flight: "snd_ok S s \<Longrightarrow> unat (sequence_numbers_in_flight s) = flight s"
  unfolding sequence_numbers_in_flight_eq by (rule unat_of_nat_64) (simp add: snd_ok_def)

text \<open>The window as a natural number.\<close>

definition open_window :: "tcp_sender \<Rightarrow> nat" where
  "open_window s =
     (if snd_window_size s = 0 \<and> flight s = 0 then 1 else unat (snd_window_size s) - flight s)"

lemma unat_remaining_window:
  assumes "snd_ok S s"
  shows "unat (remaining_window s) = open_window s"
proof -
  note f = unat_flight [OF assms]
  then have "sequence_numbers_in_flight s = 0 \<longleftrightarrow> flight s = 0"
    by (metis unat_eq_zero)
  with f show ?thesis
    by (auto simp: remaining_window_def open_window_def word_less_nat_alt unat_sub word_le_nat_alt)
qed

subsection \<open>One turn of push\<close>

text \<open>The segment that a turn makes, over the natural numbers.\<close>

definition turn_room :: "tcp_sender \<Rightarrow> nat" where
  "turn_room s = open_window s - of_bool (snd_abs_seqno s = 0)"

definition turn_len :: "tcp_sender \<Rightarrow> nat" where
  "turn_len s = min (min (length (bs_buffer (snd_input s))) (turn_room s)) 1000"

definition turn_fin :: "tcp_sender \<Rightarrow> bool" where
  "turn_fin s \<longleftrightarrow> bs_stream_closed (snd_input s) \<and> length (bs_buffer (snd_input s)) = turn_len s
     \<and> turn_len s < turn_room s"

definition turn_msg :: "tcp_sender \<Rightarrow> tcp_sender_message" where
  "turn_msg s =
     \<lparr>sm_seqno = wrap (snd_abs_seqno s) (snd_isn s), sm_SYN = (snd_abs_seqno s = 0),
      sm_payload = take (turn_len s) (bs_buffer (snd_input s)), sm_FIN = turn_fin s,
      sm_RST = has_error (snd_input s)\<rparr>"

definition turn_state :: "tcp_sender \<Rightarrow> tcp_sender" where
  "turn_state s = s\<lparr>snd_input := reader_pop (snd_input s) (of_nat (turn_len s)),
                    snd_FINsent := turn_fin s\<rparr>"

lemma turn_state_fields [frames]:
  "snd_isn (turn_state s) = snd_isn s" "snd_abs_seqno (turn_state s) = snd_abs_seqno s"
  "snd_outstanding (turn_state s) = snd_outstanding s" "snd_timer_on (turn_state s) = snd_timer_on s"
  "snd_window_size (turn_state s) = snd_window_size s" "snd_abs_ackno (turn_state s) = snd_abs_ackno s"
  by (simp_all add: turn_state_def)

definition stopped :: "tcp_sender \<Rightarrow> bool" where
  "stopped s \<longleftrightarrow> open_window s = 0 \<or> snd_FINsent s"

lemma turn_len_le: "turn_len s \<le> length (bs_buffer (snd_input s))" "turn_len s \<le> turn_room s"
  "turn_len s \<le> 1000"
  by (simp_all add: turn_len_def)

lemma unat_turn_len: "unat (of_nat (turn_len s) :: u64) = turn_len s"
  using turn_len_le(3) [of s] by (intro unat_of_nat_64) simp

lemma length_turn_payload: "length (sm_payload (turn_msg s)) = turn_len s"
  using turn_len_le(1) by (simp add: turn_msg_def)

lemma seq_len_turn: "seq_len (turn_msg s) = of_bool (snd_abs_seqno s = 0) + turn_len s + of_bool (turn_fin s)"
  using length_turn_payload [of s] by (simp add: seq_len_def) (simp add: turn_msg_def)

lemma snd_ok_input: "snd_ok S s \<Longrightarrow> bs_ok (snd_input s)"
  by (simp add: snd_ok_def stream_ok_def)

lemma bs_ok_turn: "snd_ok S s \<Longrightarrow> bs_ok (reader_pop (snd_input s) (of_nat (turn_len s)))"
  using turn_len_le(1) by (intro bs_ok_pop snd_ok_input) (simp_all add: unat_turn_len)

lemma sequence_length_eq_0:
  "seq_len m < 2 ^ 64 \<Longrightarrow> sequence_length m = 0 \<longleftrightarrow> seq_len m = 0"
  unfolding sequence_length_seq_len by (metis unat_0 unat_eq_zero unat_of_nat_64 of_nat_0)

lemma max_0_word: "max 0 w = (w :: 'a::len word)"
  by (simp add: max_def)

lemma push_turn_stopped:
  "snd_ok S s \<Longrightarrow> stopped s \<Longrightarrow> push_turn s = Inr (s, None)"
proof -
  assume ok: "snd_ok S s" and "stopped s"
  then have "remaining_window s = 0 \<or> snd_FINsent s"
    using unat_remaining_window [OF ok] unfolding stopped_def by (metis unat_eq_zero)
  then show ?thesis
    by (elim disjE) (simp_all only: push_turn_def Let_def if_True if_cancel refl)
qed

lemma push_turn_eq:
  assumes ok: "snd_ok S s" and go: "\<not> stopped s"
  shows "push_turn s =
    (if seq_len (turn_msg s) = 0 then Inr (s, None)
     else Inr (turn_state s, Some (turn_msg s, min (length (bs_buffer (snd_input s))) (turn_room s) < 1000)))"
proof -
  let ?B = "bytes_buffered (snd_input s)" and ?R = "remaining_window s - of_bool (snd_abs_seqno s = 0)"
  let ?len = "if min ?B ?R < MAX_PAYLOAD_SIZE then min ?B ?R else MAX_PAYLOAD_SIZE"
  let ?n = "of_nat (turn_len s) :: u64"
  have open0: "remaining_window s \<noteq> 0"
    using go unat_remaining_window [OF ok] by (auto simp: stopped_def)
  have not_fin: "\<not> snd_FINsent s" using go by (simp add: stopped_def)
  have B: "unat ?B = length (bs_buffer (snd_input s))"
    by (rule unat_bytes_buffered [OF snd_ok_input [OF ok]])
  have R: "unat ?R = turn_room s"
    using unat_minus_of_bool [OF open0] unat_remaining_window [OF ok] by (simp add: turn_room_def)
  have m: "unat (min ?B ?R) = min (length (bs_buffer (snd_input s))) (turn_room s)"
    unfolding unat_min B R ..
  have last: "min ?B ?R < MAX_PAYLOAD_SIZE \<longleftrightarrow> min (length (bs_buffer (snd_input s))) (turn_room s) < 1000"
    unfolding word_less_nat_alt m by (simp add: MAX_PAYLOAD_SIZE_def)
  have cut: "(if x < 1000 then x else 1000) = min x 1000" for x :: nat
    by (simp add: min_def)
  have max_payload: "unat MAX_PAYLOAD_SIZE = 1000" by (simp add: MAX_PAYLOAD_SIZE_def)
  have "unat ?len = turn_len s"
    unfolding if_distrib [of unat] m last turn_len_def max_payload by (rule cut)
  then have len: "?len = ?n" unfolding word_unat_eq_iff unat_turn_len .
  have "?n \<le> ?B"
    unfolding word_le_nat_alt unat_turn_len B by (rule turn_len_le)
  then have "min ?n ?B = ?n" by (rule min.absorb1)
  then have read: "read_stream (snd_input s) ?n =
      Inr (reader_pop (snd_input s) ?n, take (turn_len s) (bs_buffer (snd_input s)))"
    using read_stream_spec [OF snd_ok_input [OF ok], of ?n] by (simp add: reader_peek_def unat_turn_len)
  have "?n \<le> ?R"
    unfolding word_le_nat_alt unat_turn_len R by (rule turn_len_le)
  then have "unat (?R - ?n) = turn_room s - turn_len s"
    by (simp only: unat_minus_le R unat_turn_len)
  then have more: "0 < max 0 (?R - ?n) \<longleftrightarrow> turn_len s < turn_room s"
    unfolding word_less_nat_alt max_0_word by simp
  have "is_finished (reader_pop (snd_input s) ?n) \<longleftrightarrow>
      bs_stream_closed (snd_input s) \<and> length (bs_buffer (snd_input s)) = turn_len s"
    using turn_len_le(1) [of s] is_finished_iff [OF bs_ok_turn [OF ok]]
    by (auto simp: reader_pop_def unat_turn_len)
  with more have fin: "(is_finished (reader_pop (snd_input s) ?n) \<and> 0 < max 0 (?R - ?n)) = turn_fin s"
    by (auto simp: turn_fin_def)
  have state: "s\<lparr>snd_input := reader_pop (snd_input s) ?n, snd_FINsent := snd_FINsent s \<or> turn_fin s\<rparr> = turn_state s"
    using not_fin by (simp add: turn_state_def)
  have "seq_len (turn_msg s) \<le> 1002"
    using turn_len_le(3) [of s] by (simp add: seq_len_turn)
  then have empty: "sequence_length (turn_msg s) = 0 \<longleftrightarrow> seq_len (turn_msg s) = 0"
    by (intro sequence_length_eq_0) simp
  have same: "turn_state s = s" if "seq_len (turn_msg s) = 0"
    using that not_fin unfolding seq_len_turn by (cases s) (auto simp: turn_state_def)
  show ?thesis
    unfolding push_turn_def Let_def len
    unfolding read res_bind_simps prod.case fin state last
    unfolding turn_state_fields turn_msg_def [symmetric]
    using open0 not_fin empty same by auto
qed

subsection \<open>The loop of push\<close>

lemma open_window_le: "snd_ok S s \<Longrightarrow> open_window s + flight s \<le> 65535"
  by (auto simp: snd_ok_def open_window_def)

lemma record_sent_fields [simp, frames]:
  "snd_input (record_sent s m) = snd_input s" "snd_isn (record_sent s m) = snd_isn s"
  "snd_outstanding (record_sent s m) = snd_outstanding s @ [m]"
  "snd_abs_seqno (record_sent s m) = snd_abs_seqno s + sequence_length m"
  "snd_abs_ackno (record_sent s m) = snd_abs_ackno s"
  "snd_window_size (record_sent s m) = snd_window_size s"
  "snd_FINsent (record_sent s m) = snd_FINsent s" "snd_timer_on (record_sent s m)"
  "snd_RTO (record_sent s m) = snd_RTO s"
  "snd_consecutive_retransmissions (record_sent s m) = snd_consecutive_retransmissions s"
  by (simp_all add: record_sent_def Let_def)

lemma snd_ok_position:
  assumes "snd_ok S s" "\<not> snd_FINsent s"
  shows "unat (snd_abs_seqno s) - 1 = popped s" "unat (snd_abs_seqno s) = of_bool (snd_abs_seqno s \<noteq> 0) + popped s"
  using assms by (auto simp: snd_ok_def)

lemma stream_ok_pop:
  assumes ok: "stream_ok S bs" and n: "n \<le> length (bs_buffer bs)"
  shows "stream_ok S (reader_pop bs (of_nat n)) \<and>
    unat (bs_total_popped (reader_pop bs (of_nat n))) = unat (bs_total_popped bs) + n"
proof -
  have total: "unat (bs_total_popped bs) + length (bs_buffer bs) \<le> length S" "length S < 2 ^ 63"
    and buf: "bs_buffer bs = take (length (bs_buffer bs)) (drop (unat (bs_total_popped bs)) S)"
    using ok unfolding stream_ok_def by auto
  have un: "unat (of_nat n :: u64) = n" using n total by (intro unat_of_nat_64) simp
  have pop: "unat (bs_total_popped bs + of_nat n) = unat (bs_total_popped bs) + n"
    using n total un by (subst unat_plus_no_overflow) simp_all
  have "drop n (bs_buffer bs) = drop n (take (length (bs_buffer bs)) (drop (unat (bs_total_popped bs)) S))"
    using buf by simp
  also have "\<dots> = take (length (bs_buffer bs) - n) (drop (unat (bs_total_popped bs) + n) S)"
    by (simp add: drop_take add.commute)
  finally have rest: "drop n (bs_buffer bs) =
      take (length (bs_buffer bs) - n) (drop (unat (bs_total_popped bs) + n) S)" .
  have "bs_ok (reader_pop bs (of_nat n))"
    using ok n un by (intro bs_ok_pop) (simp_all add: stream_ok_def)
  moreover have "min (length S - (unat (bs_total_popped bs) + n)) (length (bs_buffer bs) - n)
      = length (bs_buffer bs) - n"
    using n total by (intro min_absorb2) simp
  moreover have "bs_stream_closed bs \<Longrightarrow> unat (bs_total_popped bs) + length (bs_buffer bs) = length S"
    using ok by (simp add: stream_ok_def)
  ultimately show ?thesis
    using ok n rest by (simp add: stream_ok_def reader_pop_def un pop)
qed

lemma turn_seg_at:
  assumes ok: "snd_ok S s" and go: "\<not> stopped s" and pos: "0 < seq_len (turn_msg s)"
  shows "seg_at S (snd_isn s) (unat (snd_abs_seqno s)) (turn_msg s)"
proof -
  have nf: "\<not> snd_FINsent s" using go by (simp add: stopped_def)
  note at = snd_ok_position(1) [OF ok nf]
  have st: "stream_ok S (snd_input s)" using ok by (simp add: snd_ok_def)
  have buf: "bs_buffer (snd_input s) = take (length (bs_buffer (snd_input s))) (drop (popped s) S)"
    and total: "popped s + length (bs_buffer (snd_input s)) \<le> length S"
    and closed: "bs_stream_closed (snd_input s) \<Longrightarrow> popped s + length (bs_buffer (snd_input s)) = length S"
    using st unfolding stream_ok_def by auto
  have "sm_payload (turn_msg s) = take (turn_len s) (take (length (bs_buffer (snd_input s))) (drop (popped s) S))"
    using buf by (simp add: turn_msg_def)
  then have "sm_payload (turn_msg s) = take (turn_len s) (drop (popped s) S)"
    using turn_len_le(1) [of s] by (simp add: min_absorb1)
  moreover have "sm_FIN (turn_msg s) \<Longrightarrow> popped s + turn_len s = length S"
    using closed by (simp add: turn_msg_def turn_fin_def)
  moreover have "sm_SYN (turn_msg s) = (unat (snd_abs_seqno s) = 0)"
    "sm_seqno (turn_msg s) = wrap (of_nat (unat (snd_abs_seqno s))) (snd_isn s)"
    by (simp_all add: turn_msg_def unat_eq_zero)
  ultimately show ?thesis
    using pos turn_len_le [of s] total unfolding seg_at_def length_turn_payload at by auto
qed

lemma turn_fits: "\<not> stopped s \<Longrightarrow> seq_len (turn_msg s) \<le> open_window s"
  unfolding seq_len_turn stopped_def using turn_len_le(2) [of s]
  by (cases "snd_abs_seqno s = 0") (auto simp: turn_room_def turn_fin_def)

lemma snd_ok_turn:
  assumes ok: "snd_ok S s" and go: "\<not> stopped s" and pos: "0 < seq_len (turn_msg s)"
  defines "s' \<equiv> record_sent (turn_state s) (turn_msg s)"
  shows "snd_ok S s'" and "unat (snd_abs_seqno s') = unat (snd_abs_seqno s) + seq_len (turn_msg s)"
    and "open_window s' = open_window s - seq_len (turn_msg s)"
proof -
  have nf: "\<not> snd_FINsent s" using go by (simp add: stopped_def)
  note at = snd_ok_position [OF ok nf]
  have st: "stream_ok S (snd_input s)" using ok by (simp add: snd_ok_def)
  have S: "popped s \<le> length S" "length S < 2 ^ 63" using st by (auto simp: stream_ok_def)
  have k: "seq_len (turn_msg s) \<le> 1002" using turn_len_le(3) [of s] by (simp add: seq_len_turn)
  have seq: "unat (sequence_length (turn_msg s)) = seq_len (turn_msg s)"
    unfolding sequence_length_seq_len using k by (intro unat_of_nat_64) simp
  show seqno: "unat (snd_abs_seqno s') = unat (snd_abs_seqno s) + seq_len (turn_msg s)"
    unfolding s'_def record_sent_fields turn_state_fields
    using S at(2) k seq by (subst unat_plus_no_overflow) auto
  have fl: "flight s' = flight s + seq_len (turn_msg s)"
    by (simp add: s'_def turn_state_fields)
  show "open_window s' = open_window s - seq_len (turn_msg s)"
    using turn_fits [OF go] pos fl unfolding open_window_def
    by (auto simp: s'_def turn_state_fields split: if_splits)
  note pop = stream_ok_pop [OF st turn_len_le(1)]
  have "unat (snd_abs_seqno s') = 1 + popped s' + of_bool (snd_FINsent s')"
    using pop at(2) unfolding seqno seq_len_turn
    by (simp add: s'_def turn_state_def)
  moreover have "turn_fin s \<Longrightarrow> bs_stream_closed (snd_input s) \<and> popped s + turn_len s = length S"
    using st by (simp add: turn_fin_def stream_ok_def)
  moreover have "chain S (snd_isn s) (unat (snd_abs_seqno s) - flight s) (snd_outstanding s @ [turn_msg s])"
    using ok turn_seg_at [OF ok go pos] by (simp add: chain_append snd_ok_def)
  moreover have "ahead (unat (snd_abs_ackno s)) (unat (snd_abs_seqno s) - flight s)
      (snd_outstanding s @ [turn_msg s])"
    using ok pos by (cases "snd_outstanding s") (auto simp: snd_ok_def ahead_def)
  moreover have "flight s' \<le> 65535"
    using fl turn_fits [OF go] open_window_le [OF ok] by simp
  ultimately show "snd_ok S s'"
    using ok pop seqno fl unfolding snd_ok_def
    by (simp add: s'_def turn_state_fields) (simp add: turn_state_def reader_pop_def)
qed

text \<open>What is left when \<open>push\<close> returns: the window is full, or everything written has
  been sent, the FIN included once the stream is closed.\<close>

definition drained :: "tcp_sender \<Rightarrow> bool" where
  "drained s \<longleftrightarrow> open_window s = 0 \<or> snd_FINsent s
     \<or> bs_buffer (snd_input s) = [] \<and> \<not> bs_stream_closed (snd_input s) \<and> snd_abs_seqno s \<noteq> 0"

lemma drained_empty_turn:
  "\<not> stopped s \<Longrightarrow> seq_len (turn_msg s) = 0 \<Longrightarrow> drained s"
  by (auto simp: seq_len_turn drained_def stopped_def turn_fin_def turn_len_def turn_room_def min_def
      split: if_splits)

lemma drained_last_turn:
  assumes ok: "snd_ok S s" and go: "\<not> stopped s" and pos: "0 < seq_len (turn_msg s)"
    and last: "min (length (bs_buffer (snd_input s))) (turn_room s) < 1000"
  shows "drained (record_sent (turn_state s) (turn_msg s))"
proof -
  let ?s = "record_sent (turn_state s) (turn_msg s)"
  note t = snd_ok_turn [OF ok go pos]
  have seqno: "snd_abs_seqno ?s \<noteq> 0" using t(2) pos by auto
  have len: "turn_len s = min (length (bs_buffer (snd_input s))) (turn_room s)"
    using last by (simp add: turn_len_def)
  show ?thesis
  proof (cases "turn_room s \<le> length (bs_buffer (snd_input s))")
    case True
    then have "open_window ?s = 0"
      using len unfolding t(3) seq_len_turn turn_room_def by simp
    then show ?thesis by (simp add: drained_def)
  next
    case False
    then have "bs_buffer (snd_input ?s) = []" "snd_FINsent ?s = bs_stream_closed (snd_input ?s)"
      using len unat_turn_len [of s] by (simp_all add: turn_state_def reader_pop_def turn_fin_def)
    with seqno show ?thesis by (simp add: drained_def)
  qed
qed

text \<open>The effect of \<open>push\<close> as one relation between the states and the messages.\<close>

definition pushes :: "bytes \<Rightarrow> tcp_sender \<Rightarrow> tcp_sender \<Rightarrow> tcp_sender_message list \<Rightarrow> bool" where
  "pushes S s s' msgs \<longleftrightarrow> snd_ok S s'
     \<and> snd_outstanding s' = snd_outstanding s @ msgs
     \<and> chain S (snd_isn s) (unat (snd_abs_seqno s)) msgs
     \<and> unat (snd_abs_seqno s') = unat (snd_abs_seqno s) + flight_of msgs
     \<and> flight_of msgs \<le> open_window s
     \<and> snd_isn s' = snd_isn s \<and> snd_abs_ackno s' = snd_abs_ackno s
     \<and> snd_window_size s' = snd_window_size s"

lemma pushes_refl: "snd_ok S s \<Longrightarrow> pushes S s s []"
  by (simp add: pushes_def)

lemma pushes_turn:
  assumes "snd_ok S s" "\<not> stopped s" "0 < seq_len (turn_msg s)"
    and "pushes S (record_sent (turn_state s) (turn_msg s)) s' msgs"
  shows "pushes S s s' (turn_msg s # msgs)"
  using assms snd_ok_turn [OF assms(1-3)] turn_seg_at [OF assms(1-3)] turn_fits [OF assms(2)]
  unfolding pushes_def by (auto simp: turn_state_fields)

lemma sender_push_pushes:
  "snd_ok S s \<Longrightarrow> \<exists>s' msgs. sender_push s = Inr (s', msgs) \<and> pushes S s s' msgs \<and> drained s'"
proof (induction s rule: sender_push.induct)
  case (1 s)
  show ?case
  proof (cases "stopped s")
    case True
    then show ?thesis
      using pushes_refl [OF "1.prems"] push_turn_stopped [OF "1.prems" True]
      by (auto simp: sender_push.simps [of s] stopped_def drained_def)
  next
    case go: False
    note turn = push_turn_eq [OF "1.prems" go]
    show ?thesis
    proof (cases "seq_len (turn_msg s) = 0")
      case True
      with turn have "push_turn s = Inr (s, None)" by simp
      then show ?thesis
        using pushes_refl [OF "1.prems"] drained_empty_turn [OF go True]
        by (auto simp: sender_push.simps [of s])
    next
      case False
      then have pos: "0 < seq_len (turn_msg s)" by simp
      let ?s = "record_sent (turn_state s) (turn_msg s)"
      let ?last = "min (length (bs_buffer (snd_input s))) (turn_room s) < 1000"
      have turn: "push_turn s = Inr (turn_state s, Some (turn_msg s, ?last))"
        using turn False by simp
      show ?thesis
      proof (cases ?last)
        case True
        then have "sender_push s = Inr (?s, [turn_msg s])"
          using turn by (simp add: sender_push.simps [of s])
        moreover have "pushes S s ?s [turn_msg s]"
          by (rule pushes_turn [OF "1.prems" go pos pushes_refl [OF snd_ok_turn(1) [OF "1.prems" go pos]]])
        ultimately show ?thesis using drained_last_turn [OF "1.prems" go pos True] by blast
      next
        case False
        obtain s' msgs where rec: "sender_push ?s = Inr (s', msgs)" "pushes S ?s s' msgs" "drained s'"
          using "1.IH" [OF turn refl refl refl refl False snd_ok_turn(1) [OF "1.prems" go pos]] by blast
        then have "sender_push s = Inr (s', turn_msg s # msgs)"
          using turn False by (simp add: sender_push.simps [of s])
        with rec pushes_turn [OF "1.prems" go pos] show ?thesis by blast
      qed
    qed
  qed
qed

subsection \<open>Acknowledgments\<close>

text \<open>What stays outstanding of a list of consecutive segments, the first one at
  \<open>a\<close>, when everything below \<open>n\<close> is acknowledged.\<close>

fun unacked :: "nat \<Rightarrow> nat \<Rightarrow> tcp_sender_message list \<Rightarrow> tcp_sender_message list" where
  "unacked a n [] = []"
| "unacked a n (m # ms) = (if a + seq_len m \<le> n then unacked (a + seq_len m) n ms else m # ms)"

lemma unacked_suffix: "\<exists>acked. ms = acked @ unacked a n ms \<and> (a \<le> n \<longrightarrow> a + flight_of acked \<le> n)"
proof (induction a n ms rule: unacked.induct)
  case (2 a n m ms)
  show ?case
  proof (cases "a + seq_len m \<le> n")
    case True
    with 2 obtain acked where "ms = acked @ unacked (a + seq_len m) n ms"
      "a + seq_len m + flight_of acked \<le> n" by blast
    with True show ?thesis by (intro exI [of _ "m # acked"]) simp
  qed simp
qed simp

lemma unacked_ahead:
  "ms = acked @ unacked a n ms \<Longrightarrow> ahead n (a + flight_of acked) (unacked a n ms)"
proof (induction a n ms arbitrary: acked rule: unacked.induct)
  case (2 a n m ms)
  show ?case
  proof (cases "a + seq_len m \<le> n")
    case True
    obtain acked' where acked': "ms = acked' @ unacked (a + seq_len m) n ms"
      using unacked_suffix by blast
    with True 2(2) have "acked @ unacked (a + seq_len m) n ms = (m # acked') @ unacked (a + seq_len m) n ms"
      by simp
    then have "acked = m # acked'" by (rule append_same_eq [THEN iffD1])
    with True 2(1) [OF True acked'] show ?thesis by (simp add: add.assoc)
  next
    case False
    with 2(2) have "acked = []" by simp
    with False show ?thesis by (simp add: ahead_def)
  qed
qed simp

lemma unacked_idem: "ahead n a ms \<Longrightarrow> n' \<le> n \<Longrightarrow> unacked a n' ms = ms"
  by (cases ms) (auto simp: ahead_def)

lemma unacked_none: "n < a \<Longrightarrow> unacked a n ms = ms"
  by (cases ms) simp_all

lemma unacked_all: "a + flight_of ms \<le> n \<Longrightarrow> unacked a n ms = []"
  by (induction a n ms rule: unacked.induct) auto

lemma pop_acked_unacked:
  assumes "chain S isn a ms" and "a + flight_of ms < 2 ^ 64" and "flight_of ms < 2 ^ 64"
    and "\<And>b. a \<le> b \<Longrightarrow> b \<le> a + flight_of ms \<Longrightarrow> nat_dist b (unat c) < 2 ^ 31"
    and "unat n' = n"
  shows "pop_acked isn c n' ms = unacked a n ms"
  using assms
proof (induction ms arbitrary: a)
  case (Cons m ms)
  have seg: "seg_at S isn a m" using Cons.prems(1) by simp
  then have seqno: "sm_seqno m = wrap (of_nat a) isn" and pos: "0 < seq_len m"
    by (simp_all add: seg_at_def)
  have a: "unat (of_nat a :: u64) = a" using Cons.prems(2) by (intro unat_of_nat_64) simp
  have "near (of_nat a) c" using Cons.prems(4) [of a] a by simp
  then have start: "unwrap (sm_seqno m) isn c = of_nat a"
    unfolding seqno by (rule w32.dec_enc)
  have sum: "(of_nat a :: u64) + sequence_length m = of_nat (a + seq_len m)"
    by (simp add: sequence_length_seq_len)
  have "unat (of_nat (a + seq_len m) :: u64) = a + seq_len m"
    using Cons.prems(2) by (intro unat_of_nat_64) simp
  then have le: "of_nat a + sequence_length m \<le> n' \<longleftrightarrow> a + seq_len m \<le> n"
    unfolding sum word_le_nat_alt using Cons.prems(5) by simp
  have "unat (count_seqnos 0 (m # ms)) = flight_of (m # ms)"
    unfolding count_seqnos_eq using Cons.prems(3) by (simp only: add_0 unat_of_nat_64)
  then have cnt: "count_seqnos 0 (m # ms) > 0" using pos by (simp add: word_less_nat_alt)
  have "pop_acked isn c n' ms = unacked (a + seq_len m) n ms" if "a + seq_len m \<le> n"
    using Cons.prems by (intro Cons.IH) (auto simp: add.assoc)
  then show ?case using cnt by (simp add: Let_def start le del: count_seqnos.simps)
qed simp

text \<open>Where the outstanding segments start.\<close>

abbreviation snd_una :: "tcp_sender \<Rightarrow> nat" where
  "snd_una s \<equiv> unat (snd_abs_seqno s) - flight s"

lemma snd_ok_bounds:
  assumes "snd_ok S s"
  shows "popped s \<le> unat (snd_abs_seqno s)" "unat (snd_abs_seqno s) \<le> popped s + 2"
    "popped s \<le> length S" "length S < 2 ^ 63" "snd_una s + flight s = unat (snd_abs_seqno s)"
    "flight s \<le> 65535" "snd_una s \<le> unat (snd_abs_ackno s)"
    "unat (snd_abs_ackno s) \<le> unat (snd_abs_seqno s)"
proof -
  have st: "stream_ok S (snd_input s)"
    and pos: "snd_abs_seqno s = 0 \<and> popped s = 0 \<and> \<not> snd_FINsent s
        \<or> unat (snd_abs_seqno s) = 1 + popped s + of_bool (snd_FINsent s)"
    and fl: "flight s \<le> unat (snd_abs_seqno s)"
    and rest: "flight s \<le> 65535" "snd_una s \<le> unat (snd_abs_ackno s)"
    "unat (snd_abs_ackno s) \<le> unat (snd_abs_seqno s)"
    using assms unfolding snd_ok_def by blast+
  from pos show "popped s \<le> unat (snd_abs_seqno s)" "unat (snd_abs_seqno s) \<le> popped s + 2"
    by (elim disjE; simp)+
  show "popped s \<le> length S" "length S < 2 ^ 63"
    using st unfolding stream_ok_def by linarith+
  show "snd_una s + flight s = unat (snd_abs_seqno s)" using fl by simp
  show "flight s \<le> 65535" "snd_una s \<le> unat (snd_abs_ackno s)"
    "unat (snd_abs_ackno s) \<le> unat (snd_abs_seqno s)"
    by (fact rest)+
qed

lemma ackno_covers:
  "snd_ok S s \<Longrightarrow> n \<le> unat (snd_abs_seqno s) \<Longrightarrow> n \<le> unat (snd_abs_ackno s) + flight s"
  using snd_ok_bounds(5,7) [of S s] by linarith

lemma snd_ok_near:
  assumes "snd_ok S s" "snd_una s \<le> b" "b \<le> unat (snd_abs_seqno s)"
  shows "nat_dist b (popped s) < 2 ^ 31"
proof -
  have "b \<le> popped s + 2" "popped s \<le> b + 65535"
    using snd_ok_bounds(1,2,5,6) [OF assms(1)] assms(2,3) by linarith+
  then show ?thesis by (simp add: nat_dist_def) linarith
qed

text \<open>The reset flag and the window are taken over before the acknowledgment is looked at.\<close>

definition noted :: "tcp_sender \<Rightarrow> tcp_receiver_message \<Rightarrow> tcp_sender" where
  "noted s msg = s\<lparr>snd_input := (if rm_RST msg then set_error (snd_input s) else snd_input s),
                   snd_window_size := ucast (rm_window_size msg)\<rparr>"

lemma noted_eq:
  "(if rm_RST msg then s\<lparr>snd_input := set_error (snd_input s)\<rparr> else s)
    \<lparr>snd_window_size := ucast (rm_window_size msg)\<rparr> = noted s msg"
  by (cases s) (simp add: noted_def)

lemma noted_fields [frames]:
  "snd_isn (noted s msg) = snd_isn s" "bytes_popped (snd_input (noted s msg)) = bytes_popped (snd_input s)"
  "snd_abs_ackno (noted s msg) = snd_abs_ackno s"
  "sequence_numbers_in_flight (noted s msg) = sequence_numbers_in_flight s"
  "snd_outstanding (noted s msg) = snd_outstanding s" "snd_abs_seqno (noted s msg) = snd_abs_seqno s"
  "snd_timer_on (noted s msg) = snd_timer_on s" "snd_FINsent (noted s msg) = snd_FINsent s"
  "snd_initial_RTO_ms (noted s msg) = snd_initial_RTO_ms s" "snd_RTO (noted s msg) = snd_RTO s"
  "snd_consecutive_retransmissions (noted s msg) = snd_consecutive_retransmissions s"
  "snd_window_size (noted s msg) = ucast (rm_window_size msg)"
  by (simp_all add: noted_def bytes_popped_def set_error_def sequence_numbers_in_flight_def)

lemma noted_input [frames]:
  "snd_input (noted s msg) = (if rm_RST msg then set_error (snd_input s) else snd_input s)"
  by (simp add: noted_def)

text \<open>The state after an acknowledgment of everything below \<open>n\<close>.\<close>

definition ack_state :: "tcp_sender \<Rightarrow> tcp_receiver_message \<Rightarrow> nat \<Rightarrow> tcp_sender" where
  "ack_state s msg n =
     (let s = noted s msg;
          s = (if n > unat (snd_abs_ackno s)
               then s\<lparr>snd_RTO := snd_initial_RTO_ms s, snd_timer_time := 0,
                      snd_abs_ackno := of_nat n, snd_consecutive_retransmissions := 0,
                      snd_outstanding := unacked (snd_una s) n (snd_outstanding s)\<rparr>
               else s)
      in s\<lparr>snd_timer_on := (snd_outstanding s \<noteq> [])\<rparr>)"

lemma flight_suffix:
  assumes "snd_ok S s"
  shows "flight_of (unacked a n (snd_outstanding s)) \<le> flight s"
proof -
  obtain acked where "snd_outstanding s = acked @ unacked a n (snd_outstanding s)"
    using unacked_suffix by blast
  then have "flight s = flight_of (acked @ unacked a n (snd_outstanding s))" by simp
  then show ?thesis by simp
qed

lemma in_flight_0:
  assumes "chain S isn a ms" "flight_of ms \<le> 65535"
  shows "(of_nat (flight_of ms) :: u64) = 0 \<longleftrightarrow> ms = []"
proof -
  have "unat (of_nat (flight_of ms) :: u64) = flight_of ms"
    using assms(2) by (intro unat_of_nat_64) simp
  then show ?thesis using chain_flight_0 [OF assms(1)] by (metis unat_eq_zero of_nat_0)
qed

lemma chain_unacked:
  assumes "snd_ok S s"
  shows "\<exists>b. b + flight_of (unacked (snd_una s) n (snd_outstanding s)) = unat (snd_abs_seqno s)
    \<and> chain S (snd_isn s) b (unacked (snd_una s) n (snd_outstanding s))
    \<and> ahead n b (unacked (snd_una s) n (snd_outstanding s))
    \<and> (snd_una s \<le> n \<longrightarrow> b \<le> n) \<and> (n < snd_una s \<longrightarrow> b = snd_una s)"
proof -
  obtain acked where acked: "snd_outstanding s = acked @ unacked (snd_una s) n (snd_outstanding s)"
    and le: "snd_una s \<le> n \<longrightarrow> snd_una s + flight_of acked \<le> n"
    using unacked_suffix by blast
  have "chain S (snd_isn s) (snd_una s) (acked @ unacked (snd_una s) n (snd_outstanding s))"
    using assms acked by (simp add: snd_ok_def)
  then have "chain S (snd_isn s) (snd_una s + flight_of acked) (unacked (snd_una s) n (snd_outstanding s))"
    unfolding chain_append by blast
  moreover have "flight s = flight_of acked + flight_of (unacked (snd_una s) n (snd_outstanding s))"
    using acked flight_of_simps(3) by metis
  moreover have "n < snd_una s \<Longrightarrow> flight_of acked = 0"
  proof -
    assume "n < snd_una s"
    then have "unacked (snd_una s) n (snd_outstanding s) = snd_outstanding s"
      by (rule unacked_none)
    with acked show ?thesis by (metis append_self_conv2 flight_of_simps(1))
  qed
  ultimately show ?thesis
    using unacked_ahead [OF acked] le snd_ok_bounds(5) [OF assms]
    by (intro exI [of _ "snd_una s + flight_of acked"]) auto
qed

lemma stop_timer_eq:
  assumes "z \<longleftrightarrow> snd_outstanding t = []" and "snd_outstanding t \<noteq> [] \<Longrightarrow> snd_timer_on t"
  shows "(if z then t\<lparr>snd_timer_on := False\<rparr> else t) = t\<lparr>snd_timer_on := (snd_outstanding t \<noteq> [])\<rparr>"
  using assms by (cases t) auto

lemma sender_receive_ack:
  assumes ok: "snd_ok S s" and ack: "rm_ackno msg = Some (wrap (of_nat n) (snd_isn s))"
    and n: "n \<le> unat (snd_abs_ackno s) + flight s" "nat_dist n (popped s) < 2 ^ 31"
  shows "sender_receive s msg = Inr (ack_state s msg n)"
proof -
  note b = snd_ok_bounds [OF ok]
  have un: "unat (of_nat n :: u64) = n"
    using n(1) b by (intro unat_of_nat_64) simp
  have "near (of_nat n) (bytes_popped (snd_input s))"
    using n(2) un by (simp add: bytes_popped_def)
  then have dec: "unwrap (wrap (of_nat n) (snd_isn s)) (snd_isn s) (bytes_popped (snd_input s)) = of_nat n"
    by (rule w32.dec_enc)
  have fl: "unat (sequence_numbers_in_flight s) = flight s" by (rule unat_flight [OF ok])
  have "unat (snd_abs_ackno s + sequence_numbers_in_flight s) = unat (snd_abs_ackno s) + flight s"
    using b fl by (subst unat_plus_no_overflow) simp_all
  then have in_range: "\<not> of_nat n > snd_abs_ackno s + sequence_numbers_in_flight s"
    unfolding word_less_nat_alt un using n(1) b by linarith
  have new: "of_nat n > snd_abs_ackno s \<longleftrightarrow> n > unat (snd_abs_ackno s)"
    unfolding word_less_nat_alt un ..
  have chain: "chain S (snd_isn s) (snd_una s) (snd_outstanding s)"
    using ok by (simp add: snd_ok_def)
  have pop: "pop_acked (snd_isn s) (bytes_popped (snd_input s)) (of_nat n) (snd_outstanding s)
      = unacked (snd_una s) n (snd_outstanding s)"
  proof (rule pop_acked_unacked [OF chain _ _ _ un])
    show "snd_una s + flight s < 2 ^ 64" "flight s < 2 ^ 64"
      using b unat_less_64 [of "snd_abs_seqno s"] by linarith+
    show "nat_dist i (unat (bytes_popped (snd_input s))) < 2 ^ 31"
      if "snd_una s \<le> i" "i \<le> snd_una s + flight s" for i
      using snd_ok_near [OF ok] that b(5) by (simp add: bytes_popped_def)
  qed
  obtain c where "chain S (snd_isn s) c (unacked (snd_una s) n (snd_outstanding s))"
    using chain_unacked [OF ok] by blast
  then have off: "(of_nat (flight_of (unacked (snd_una s) n (snd_outstanding s))) :: u64) = 0
      \<longleftrightarrow> unacked (snd_una s) n (snd_outstanding s) = []"
    by (rule in_flight_0) (use flight_suffix [OF ok] b(6) le_trans in blast)
  have off': "(of_nat (flight s) :: u64) = 0 \<longleftrightarrow> snd_outstanding s = []"
    by (rule in_flight_0 [OF chain b(6)])
  have timer: "snd_timer_on s = (snd_outstanding s \<noteq> [])" using ok by (simp add: snd_ok_def)
  show ?thesis
    unfolding sender_receive_def ack_state_def noted_eq ack option.case Let_def
      noted_fields dec new pop sequence_numbers_in_flight_eq
      if_not_P [OF in_range [unfolded sequence_numbers_in_flight_eq]]
  proof (intro arg_cong [of _ _ Inr] stop_timer_eq, goal_cases)
    case 1
    show ?case using off off' noted_fields(5) by (simp only: split: if_split) simp
  next
    case 2
    moreover have "unacked (snd_una s) n (snd_outstanding s) \<noteq> [] \<Longrightarrow> snd_outstanding s \<noteq> []"
      by auto
    ultimately show ?case using timer by (auto simp: noted_fields split: if_splits)
  qed
qed

lemma ack_state_fields [simp, frames]:
  "snd_isn (ack_state s msg n) = snd_isn s" "snd_abs_seqno (ack_state s msg n) = snd_abs_seqno s"
  "snd_FINsent (ack_state s msg n) = snd_FINsent s"
  "snd_input (ack_state s msg n) = (if rm_RST msg then set_error (snd_input s) else snd_input s)"
  "snd_window_size (ack_state s msg n) = ucast (rm_window_size msg)"
  "snd_timer_on (ack_state s msg n) = (snd_outstanding (ack_state s msg n) \<noteq> [])"
  "snd_initial_RTO_ms (ack_state s msg n) = snd_initial_RTO_ms s"
  by (simp_all add: ack_state_def Let_def noted_fields noted_input)

lemma ack_state_outstanding:
  assumes "snd_ok S s"
  shows "snd_outstanding (ack_state s msg n) = unacked (snd_una s) n (snd_outstanding s)"
proof (cases "n > unat (snd_abs_ackno s)")
  case False
  have ah: "ahead (unat (snd_abs_ackno s)) (snd_una s) (snd_outstanding s)"
    using assms by (simp add: snd_ok_def)
  then have "unacked (snd_una s) n (snd_outstanding s) = snd_outstanding s"
    using False by (intro unacked_idem [OF ah]) (simp add: not_less)
  with False show ?thesis by (simp add: ack_state_def Let_def noted_fields)
qed (simp add: ack_state_def Let_def noted_fields)

lemma ack_state_ackno:
  assumes "n \<le> unat (snd_abs_seqno s)"
  shows "unat (snd_abs_ackno (ack_state s msg n)) = max n (unat (snd_abs_ackno s))"
proof -
  have "unat (of_nat n :: u64) = n"
    using assms unat_less_64 [of "snd_abs_seqno s"] by (intro unat_of_nat_64) linarith
  then show ?thesis by (simp add: ack_state_def Let_def noted_fields)
qed

lemma stream_ok_set_error [simp]: "stream_ok S (set_error bs) = stream_ok S bs"
  by (simp add: stream_ok_def) (simp add: set_error_def)

lemma snd_ok_ack_state:
  assumes ok: "snd_ok S s" and n: "n \<le> unat (snd_abs_seqno s)"
  shows "snd_ok S (ack_state s msg n)"
proof -
  let ?t = "ack_state s msg n"
  let ?un = "unacked (snd_una s) n (snd_outstanding s)"
  obtain b where b: "b + flight_of ?un = unat (snd_abs_seqno s)" "chain S (snd_isn s) b ?un"
    "ahead n b ?un" "snd_una s \<le> n \<longrightarrow> b \<le> n" "n < snd_una s \<longrightarrow> b = snd_una s"
    using chain_unacked [OF ok] by blast
  note out = ack_state_outstanding [OF ok, of msg n] and ackno = ack_state_ackno [OF n, of msg]
  have una: "unat (snd_abs_seqno s) - flight_of ?un = b" using b(1) by simp
  have le: "b \<le> max n (unat (snd_abs_ackno s))"
    using b(4,5) snd_ok_bounds(7) [OF ok] by (cases "snd_una s \<le> n") auto
  have front: "ahead (max n (unat (snd_abs_ackno s))) b ?un"
  proof (cases "n > unat (snd_abs_ackno s)")
    case True
    then show ?thesis using b(3) by (simp add: max_def)
  next
    case False
    have ah: "ahead (unat (snd_abs_ackno s)) (snd_una s) (snd_outstanding s)"
      using ok by (simp add: snd_ok_def)
    then have "?un = snd_outstanding s" using False by (intro unacked_idem [OF ah]) (simp add: not_less)
    moreover from this have "b = snd_una s" using b(1) by simp
    ultimately show ?thesis using ah False by (simp add: max_def)
  qed
  have "popped ?t = popped s" "stream_ok S (snd_input ?t)"
    "bs_stream_closed (snd_input ?t) = bs_stream_closed (snd_input s)"
    using ok by (simp_all add: snd_ok_def set_error_def [THEN arg_cong [of _ _ bs_total_popped]]
        set_error_def [THEN arg_cong [of _ _ bs_stream_closed]])
  moreover have "unat (snd_window_size ?t) \<le> 65535"
    using unat_less_16 [of "rm_window_size msg"] by (simp add: unat_ucast_mod)
  moreover have "flight ?t \<le> 65535"
    using flight_suffix [OF ok] snd_ok_bounds(6) [OF ok] le_trans unfolding out by blast
  moreover have "flight ?t \<le> unat (snd_abs_seqno ?t)" using b(1) out by simp
  moreover have "unat (snd_abs_ackno ?t) \<le> unat (snd_abs_seqno ?t)"
    using n snd_ok_bounds(8) [OF ok] ackno by simp
  ultimately show ?thesis
    using ok b(2) le front unfolding snd_ok_def ackno out by (simp add: una out)
qed

subsection \<open>The timer and the application\<close>

lemma tick_off: "\<not> snd_timer_on s \<Longrightarrow> sender_tick s ms = Inr (s, [])"
  by (simp add: sender_tick_def)

lemma tick_before_expiry:
  "snd_timer_on s \<Longrightarrow> snd_timer_time s + ms < snd_RTO s \<Longrightarrow>
   sender_tick s ms = Inr (s\<lparr>snd_timer_time := snd_timer_time s + ms\<rparr>, [])"
  by (simp only: sender_tick_def Let_def tcp_sender.simps not_le [symmetric] if_False not_True_eq_False) simp

lemma tick_expiry:
  "snd_timer_on s \<Longrightarrow> snd_RTO s \<le> snd_timer_time s + ms \<Longrightarrow> snd_outstanding s = m # rest \<Longrightarrow>
   sender_tick s ms = Inr (s\<lparr>snd_timer_time := 0,
     snd_consecutive_retransmissions := snd_consecutive_retransmissions s + of_bool (snd_window_size s > 0),
     snd_RTO := (if snd_window_size s > 0 then snd_RTO s * 2 else snd_RTO s)\<rparr>, [m])"
  by (simp add: sender_tick_def Let_def)

lemma snd_ok_timer_fields [simp]:
  "snd_ok S (s\<lparr>snd_timer_time := t\<rparr>) = snd_ok S s"
  "snd_ok S (s\<lparr>snd_timer_time := t, snd_consecutive_retransmissions := c, snd_RTO := r\<rparr>) = snd_ok S s"
  by (simp_all add: snd_ok_def open_window_def)

lemma sender_tick_total:
  assumes ok: "snd_ok S s"
  shows "\<exists>s' msgs. sender_tick s ms = Inr (s', msgs) \<and> snd_ok S s' \<and> set msgs \<subseteq> set (snd_outstanding s)
    \<and> snd_outstanding s' = snd_outstanding s \<and> snd_abs_seqno s' = snd_abs_seqno s \<and> snd_isn s' = snd_isn s
    \<and> snd_input s' = snd_input s \<and> snd_FINsent s' = snd_FINsent s \<and> snd_abs_ackno s' = snd_abs_ackno s"
proof (cases "snd_timer_on s")
  case False
  with ok show ?thesis by (simp add: tick_off)
next
  case on: True
  show ?thesis
  proof (cases "snd_timer_time s + ms < snd_RTO s")
    case True
    with on ok show ?thesis by (simp add: tick_before_expiry)
  next
    case False
    from on ok obtain m rest where "snd_outstanding s = m # rest"
      by (cases "snd_outstanding s") (auto simp: snd_ok_def)
    with tick_expiry [OF on _ this] False ok show ?thesis by (simp add: not_less)
  qed
qed

lemma take_min_length: "take (min (length xs) n) xs = take n xs"
  by (simp add: min_def)

lemma stream_ok_write:
  assumes ok: "stream_ok S bs"
    and next_bytes: "drop (unat (bs_total_pushed bs)) S = take (room bs) data @ rest"
  shows "stream_ok S (writer_push bs data)"
proof -
  let ?new = "take (room bs) data" and ?P = "unat (bs_total_pushed bs)" and ?O = "unat (bs_total_popped bs)"
  have bs: "bs_ok bs" and S: "length S < 2 ^ 63"
    and P: "?P = ?O + length (bs_buffer bs)" "?P \<le> length S"
    and buf: "bs_buffer bs = take (length (bs_buffer bs)) (drop ?O S)"
    and closed: "bs_stream_closed bs \<Longrightarrow> ?P = length S"
    using ok unfolding stream_ok_def by auto
  have len: "?P + length ?new \<le> length S"
    using arg_cong [OF next_bytes, of length] P(2) unfolding length_append length_drop by linarith
  have n: "unat (len64 ?new) = length ?new" using len S by (intro unat_len64) simp
  have total: "unat (bs_total_pushed (writer_push bs data)) = ?P + length ?new"
    unfolding writer_push_total [OF bs] using len S n by (subst unat_plus_no_overflow) simp_all
  have "take (length ?new) (drop ?P S) = ?new" unfolding next_bytes by (simp add: take_min_length)
  moreover have "take (length (bs_buffer bs) + length ?new) (drop ?O S)
      = take (length (bs_buffer bs)) (drop ?O S) @ take (length ?new) (drop ?P S)"
    unfolding P(1) take_add by (simp add: add.commute)
  ultimately have "bs_buffer bs @ ?new = take (length (bs_buffer bs @ ?new)) (drop ?O S)"
    using buf by simp
  moreover have "bs_stream_closed bs \<Longrightarrow> ?P + length ?new = length S"
    using closed len by linarith
  ultimately show ?thesis
    using bs S P len unfolding stream_ok_def total
    by (simp only: bs_ok_push writer_push_fields writer_push_buffer length_append)
      (simp add: take_min_length)
qed

lemma stream_ok_close:
  "stream_ok S bs \<Longrightarrow> unat (bs_total_pushed bs) = length S \<Longrightarrow> stream_ok S (writer_close bs)"
  by (simp add: stream_ok_def) (simp add: writer_close_def)

lemma snd_ok_write:
  "snd_ok S s \<Longrightarrow> drop (unat (bs_total_pushed (snd_input s))) S = take (room (snd_input s)) data @ rest \<Longrightarrow>
   snd_ok S (sender_write s data)"
  by (simp add: snd_ok_def sender_write_def stream_ok_write)

lemma snd_ok_close:
  "snd_ok S s \<Longrightarrow> unat (bs_total_pushed (snd_input s)) = length S \<Longrightarrow> snd_ok S (sender_close s)"
  by (auto simp: snd_ok_def sender_close_def stream_ok_close) (simp_all add: writer_close_def)

subsection \<open>The sender as a state machine\<close>

text \<open>The steps of a sender of the byte string \<open>S\<close>: the application writes the next
  bytes of \<open>S\<close> (as many as fit) or closes the stream after the last one, the sender
  pushes, time passes, and an acknowledgment arrives that is for at most what was sent.\<close>

inductive snd_step :: "bytes \<Rightarrow> tcp_sender \<Rightarrow> tcp_sender_message list \<Rightarrow> tcp_sender \<Rightarrow> bool" for S where
  app_write: "drop (unat (bs_total_pushed (snd_input s))) S = take (room (snd_input s)) data @ rest \<Longrightarrow>
    snd_step S s [] (sender_write s data)"
| app_close: "unat (bs_total_pushed (snd_input s)) = length S \<Longrightarrow> snd_step S s [] (sender_close s)"
| push: "sender_push s = Inr (s', msgs) \<Longrightarrow> snd_step S s msgs s'"
| tick: "sender_tick s ms = Inr (s', msgs) \<Longrightarrow> snd_step S s msgs s'"
| ack: "rm_ackno msg = Some (wrap (of_nat n) (snd_isn s)) \<Longrightarrow> n \<le> unat (snd_abs_seqno s) \<Longrightarrow>
    nat_dist n (popped s) < 2 ^ 31 \<Longrightarrow> sender_receive s msg = Inr s' \<Longrightarrow> snd_step S s [] s'"

text \<open>A message sent at some point: a segment of \<open>S\<close> below the next sequence number.\<close>

definition sent_segment :: "bytes \<Rightarrow> tcp_sender \<Rightarrow> tcp_sender_message \<Rightarrow> bool" where
  "sent_segment S s m \<longleftrightarrow> (\<exists>a. seg_at S (snd_isn s) a m \<and> a + seq_len m \<le> unat (snd_abs_seqno s))
     \<and> (sm_FIN m \<longrightarrow> snd_FINsent s)"

lemma chain_member:
  "chain S isn a ms \<Longrightarrow> m \<in> set ms \<Longrightarrow> \<exists>b. seg_at S isn b m \<and> b + seq_len m \<le> a + flight_of ms"
proof (induction ms arbitrary: a)
  case (Cons m' ms)
  show ?case
  proof (cases "m = m'")
    case True
    with Cons.prems show ?thesis by (intro exI [of _ a]) simp
  next
    case False
    with Cons.prems have "chain S isn (a + seq_len m') ms" "m \<in> set ms" by simp_all
    from Cons.IH [OF this] show ?thesis by (auto simp: add.assoc)
  qed
qed simp

text \<open>A segment with the FIN flag ends the sequence space, so it was sent only if
  \<open>FINsent\<close> holds.\<close>

lemma FINsent_iff:
  assumes "snd_ok S s"
  shows "snd_FINsent s \<longleftrightarrow> length S + 2 \<le> unat (snd_abs_seqno s)"
proof -
  have pos: "snd_abs_seqno s = 0 \<and> popped s = 0 \<and> \<not> snd_FINsent s
      \<or> unat (snd_abs_seqno s) = 1 + popped s + of_bool (snd_FINsent s)"
    and fin: "snd_FINsent s \<longrightarrow> popped s = length S"
    using assms unfolding snd_ok_def by blast+
  from pos show ?thesis
    using fin snd_ok_bounds(3) [OF assms] by (cases "snd_FINsent s") auto
qed

lemma fin_sent:
  assumes ok: "snd_ok S s" and seg: "seg_at S isn a m" and le: "a + seq_len m \<le> unat (snd_abs_seqno s)"
    and fin: "sm_FIN m"
  shows "snd_FINsent s"
proof -
  have "a - 1 + length (sm_payload m) = length S" "sm_SYN m = (a = 0)"
    using seg fin by (simp_all add: seg_at_def)
  then have "length S + 2 \<le> a + seq_len m"
    using fin by (cases "a = 0") (auto simp: seq_len_def)
  then show ?thesis using le FINsent_iff [OF ok] by simp
qed

lemma outstanding_sent:
  assumes "snd_ok S s" "m \<in> set (snd_outstanding s)"
  shows "sent_segment S s m"
proof -
  have "chain S (snd_isn s) (snd_una s) (snd_outstanding s)" using assms(1) by (simp add: snd_ok_def)
  from chain_member [OF this assms(2)] obtain b where
    "seg_at S (snd_isn s) b m" "b + seq_len m \<le> snd_una s + flight s" by blast
  then show ?thesis
    using fin_sent [OF assms(1)] snd_ok_bounds(5) [OF assms(1)] unfolding sent_segment_def by metis
qed

lemma snd_step_ok:
  assumes "snd_step S s msgs s'" and "snd_ok S s"
  shows "snd_ok S s' \<and> snd_isn s' = snd_isn s \<and> unat (snd_abs_seqno s) \<le> unat (snd_abs_seqno s')
    \<and> (snd_FINsent s \<longrightarrow> snd_FINsent s') \<and> (\<forall>m\<in>set msgs. sent_segment S s' m)"
  using assms
proof (induction rule: snd_step.induct)
  case (app_write s data rest)
  then show ?case using snd_ok_write by (simp add: sender_write_def)
next
  case (app_close s)
  then show ?case using snd_ok_close by (simp add: sender_close_def)
next
  case (push s s' msgs)
  then have p: "pushes S s s' msgs" using sender_push_pushes by fastforce
  then have ok: "snd_ok S s'" and out: "snd_outstanding s' = snd_outstanding s @ msgs"
    by (simp_all add: pushes_def)
  have "\<forall>m\<in>set msgs. sent_segment S s' m" using outstanding_sent [OF ok] out by auto
  moreover have "snd_FINsent s \<longrightarrow> snd_FINsent s'"
    using p FINsent_iff [OF ok] FINsent_iff [OF push(2)] by (simp add: pushes_def)
  ultimately show ?case using p by (simp add: pushes_def)
next
  case (tick s ms s' msgs)
  then have t: "snd_ok S s'" "set msgs \<subseteq> set (snd_outstanding s')"
    "snd_abs_seqno s' = snd_abs_seqno s" "snd_isn s' = snd_isn s" "snd_FINsent s' = snd_FINsent s"
    using sender_tick_total [of S s ms] by auto
  then show ?case using outstanding_sent by auto
next
  case (ack msg n s s')
  then have "s' = ack_state s msg n"
    using sender_receive_ack [of S s msg n] ackno_covers [of S s n] by simp
  then show ?case using snd_ok_ack_state [OF ack(5,2)] by simp
qed

lemma sent_segment_mono:
  assumes "sent_segment S s m" "snd_isn s' = snd_isn s" "unat (snd_abs_seqno s) \<le> unat (snd_abs_seqno s')"
    "snd_FINsent s \<longrightarrow> snd_FINsent s'"
  shows "sent_segment S s' m"
  using assms unfolding sent_segment_def by (metis le_trans)

interpretation snd: step_invariant "snd_step S" "\<lambda>s. snd_ok S s \<and> snd_isn s = isn" "sent_segment S"
  for S isn
proof
  fix s msgs s' m
  assume step: "snd_step S s msgs s'" and inv: "snd_ok S s \<and> snd_isn s = isn"
  note ok = snd_step_ok [OF step inv [THEN conjunct1]]
  show "snd_ok S s' \<and> snd_isn s' = isn" using ok inv by simp
  show "m \<in> set msgs \<Longrightarrow> sent_segment S s' m" using ok by simp
  show "sent_segment S s m \<Longrightarrow> sent_segment S s' m" using ok by (auto intro: sent_segment_mono)
qed

subsection \<open>Properties\<close>

text \<open>C6: \<open>push\<close> on a consistent sender always returns: it sends consecutive segments of
  the stream from the next sequence number on, records them as outstanding, never sends
  more than the window allows, and stops only when the window is full or everything
  written has been sent.\<close>

theorem sender_push_correct:
  assumes "snd_ok S s"
  shows "\<exists>s' msgs. sender_push s = Inr (s', msgs) \<and> snd_ok S s' \<and> drained s'
    \<and> chain S (snd_isn s) (unat (snd_abs_seqno s)) msgs
    \<and> snd_outstanding s' = snd_outstanding s @ msgs
    \<and> unat (snd_abs_seqno s') = unat (snd_abs_seqno s) + flight_of msgs
    \<and> flight s' \<le> max (flight s) (max 1 (unat (snd_window_size s)))"
proof -
  obtain s' msgs where p: "sender_push s = Inr (s', msgs)" "pushes S s s' msgs" "drained s'"
    using sender_push_pushes [OF assms] by blast
  have "flight s' = flight s + flight_of msgs" "flight_of msgs \<le> open_window s"
    using p(2) by (simp_all add: pushes_def)
  moreover have "flight s + open_window s \<le> max (flight s) (max 1 (unat (snd_window_size s)))"
    by (auto simp: open_window_def)
  ultimately have "flight s' \<le> max (flight s) (max 1 (unat (snd_window_size s)))" by linarith
  with p show ?thesis by (auto simp: pushes_def)
qed

theorem sender_push_correct_witness:
  "\<exists>s'. sender_push (tcp_sender_new (byte_stream_new 10) (Wrap32 5) 100 0) = Inr (s',
     [\<lparr>sm_seqno = Wrap32 5, sm_SYN = True, sm_payload = [], sm_FIN = False, sm_RST = False\<rparr>])
     \<and> drained s' \<and> flight s' \<le> 1"
proof -
  let ?s = "tcp_sender_new (byte_stream_new 10) (Wrap32 5) 100 0"
  have ok: "snd_ok [] ?s" by (rule snd_ok_new) simp
  have "map_sum id snd (sender_push ?s) =
      Inr [\<lparr>sm_seqno = Wrap32 5, sm_SYN = True, sm_payload = [], sm_FIN = False, sm_RST = False\<rparr>]"
    by code_simp
  with sender_push_correct [OF ok] show ?thesis by (auto simp: tcp_sender_new_def)
qed

text \<open>C7: an acknowledgment of everything below \<open>n\<close>, at most what was sent, is always
  processed: exactly the segments that end at or below \<open>n\<close> leave the queue, the window
  is taken over, new data resets the backoff, the timer runs exactly while something is
  outstanding, and the sender stays consistent.\<close>

theorem sender_receive_correct:
  assumes "snd_ok S s" and "rm_ackno msg = Some (wrap (of_nat n) (snd_isn s))"
    and "n \<le> unat (snd_abs_seqno s)" and "nat_dist n (popped s) < 2 ^ 31"
  shows "\<exists>s'. sender_receive s msg = Inr s' \<and> snd_ok S s'
    \<and> snd_outstanding s' = unacked (snd_una s) n (snd_outstanding s)
    \<and> unat (snd_abs_ackno s') = max n (unat (snd_abs_ackno s))
    \<and> unat (snd_window_size s') = unat (rm_window_size msg)
    \<and> snd_timer_on s' = (snd_outstanding s' \<noteq> [])
    \<and> (if n > unat (snd_abs_ackno s)
       then snd_RTO s' = snd_initial_RTO_ms s \<and> snd_consecutive_retransmissions s' = 0 \<and> snd_timer_time s' = 0
       else snd_RTO s' = snd_RTO s
         \<and> snd_consecutive_retransmissions s' = snd_consecutive_retransmissions s)"
proof -
  have "unat (snd_window_size (ack_state s msg n)) = unat (rm_window_size msg)"
    using unat_less_16 [of "rm_window_size msg"] by (simp add: unat_ucast_mod)
  moreover have "if n > unat (snd_abs_ackno s)
       then snd_RTO (ack_state s msg n) = snd_initial_RTO_ms s
         \<and> snd_consecutive_retransmissions (ack_state s msg n) = 0 \<and> snd_timer_time (ack_state s msg n) = 0
       else snd_RTO (ack_state s msg n) = snd_RTO s
         \<and> snd_consecutive_retransmissions (ack_state s msg n) = snd_consecutive_retransmissions s"
    by (simp add: ack_state_def Let_def noted_fields)
  ultimately show ?thesis
    using sender_receive_ack [OF assms(1,2) ackno_covers [OF assms(1,3)] assms(4)] snd_ok_ack_state [OF assms(1,3)]
      ack_state_outstanding [OF assms(1)] ack_state_ackno [OF assms(3)]
      ack_state_fields(6) by blast
qed

text \<open>A sender that has written the given bytes and pushed twice, before and after the
  acknowledgment of its SYN.\<close>

definition demo_sender :: "bytes \<Rightarrow> u64 \<Rightarrow> tcp_sender result" where
  "demo_sender data uninitialised =
     res_bind (sender_push (tcp_sender_new (byte_stream_new 100) (Wrap32 5) 100 uninitialised)) (\<lambda>(s, _).
     res_bind (sender_receive s \<lparr>rm_ackno = Some (Wrap32 6), rm_window_size = 10, rm_RST = False\<rparr>) (\<lambda>s.
     map_sum id fst (sender_push (sender_write s data))))"

theorem sender_receive_correct_witness:
  "\<exists>s'. sender_receive (tcp_sender_new (byte_stream_new 10) (Wrap32 5) 100 0)
      \<lparr>rm_ackno = Some (Wrap32 5), rm_window_size = 7, rm_RST = False\<rparr> = Inr s'
    \<and> unat (snd_window_size s') = 7 \<and> \<not> snd_timer_on s'"
proof -
  let ?s = "tcp_sender_new (byte_stream_new 10) (Wrap32 5) 100 0"
  let ?m = "\<lparr>rm_ackno = Some (Wrap32 5), rm_window_size = 7, rm_RST = False\<rparr>"
  have ok: "snd_ok [] ?s" by (rule snd_ok_new) simp
  have ack: "rm_ackno ?m = Some (wrap (of_nat 0) (snd_isn ?s))"
    by (simp add: tcp_sender_new_def wrap_def wrap32_plus_def)
  have near: "nat_dist 0 (popped ?s) < 2 ^ 31" "0 \<le> unat (snd_abs_seqno ?s)"
    by (simp_all add: tcp_sender_new_def byte_stream_new_def nat_dist_def)
  show ?thesis
    using sender_receive_correct [OF ok ack near(2,1)] by (auto simp: tcp_sender_new_def)
qed

text \<open>Timeouts in a row: ticks of exactly the current timeout.\<close>

fun timeouts :: "nat \<Rightarrow> tcp_sender \<Rightarrow> (tcp_sender \<times> tcp_sender_message list) result" where
  "timeouts 0 s = Inr (s, [])"
| "timeouts (Suc k) s = res_bind (sender_tick s (snd_RTO s)) (\<lambda>(s, out).
     map_sum id (apsnd ((@) out)) (timeouts k s))"

text \<open>A run of \<open>k\<close> timeouts in a row with an open window, nothing being
  acknowledged in between, retransmits the first outstanding segment each time, doubles
  the timeout each time, and counts the retransmissions.\<close>

theorem sender_backoff:
  assumes "snd_ok S s" and "snd_outstanding s = m # rest" and "snd_window_size s > 0"
    and "snd_timer_time s = 0"
  shows "\<exists>s'. timeouts k s = Inr (s', replicate k m) \<and> snd_ok S s'
    \<and> snd_RTO s' = snd_RTO s * 2 ^ k
    \<and> snd_consecutive_retransmissions s' = snd_consecutive_retransmissions s + of_nat k
    \<and> snd_outstanding s' = snd_outstanding s"
  using assms
proof (induction k arbitrary: s)
  case (Suc k)
  have on: "snd_timer_on s" using Suc.prems(1,2) by (simp add: snd_ok_def)
  let ?s = "s\<lparr>snd_timer_time := 0,
     snd_consecutive_retransmissions := snd_consecutive_retransmissions s + 1, snd_RTO := snd_RTO s * 2\<rparr>"
  have tick: "sender_tick s (snd_RTO s) = Inr (?s, [m])"
    using tick_expiry [OF on _ Suc.prems(2), of "snd_RTO s"] Suc.prems(3,4) by simp
  have "snd_ok S ?s" using Suc.prems(1) by simp
  from Suc.IH [OF this] obtain s' where "timeouts k ?s = Inr (s', replicate k m)" "snd_ok S s'"
    "snd_RTO s' = snd_RTO ?s * 2 ^ k"
    "snd_consecutive_retransmissions s' = snd_consecutive_retransmissions ?s + of_nat k"
    "snd_outstanding s' = snd_outstanding s"
    using Suc.prems(2-4) by auto
  with tick show ?case by (simp add: mult.assoc add.assoc)
qed simp

theorem sender_backoff_witness:
  "\<exists>s s'. sender_push (tcp_sender_new (byte_stream_new 10) (Wrap32 5) 100 0) = Inr (s, snd_outstanding s)
    \<and> timeouts 3 s = Inr (s', replicate 3 (hd (snd_outstanding s))) \<and> snd_RTO s' = 800"
proof -
  let ?s = "tcp_sender_new (byte_stream_new 10) (Wrap32 5) 100 0"
  let ?m = "\<lparr>sm_seqno = Wrap32 5, sm_SYN = True, sm_payload = [], sm_FIN = False, sm_RST = False\<rparr>"
  have ok: "snd_ok [] ?s" by (rule snd_ok_new) simp
  have run: "map_sum id (\<lambda>(s, ms). (ms, snd_timer_time s, snd_RTO s)) (sender_push ?s) = Inr ([?m], 0, 100)"
    by code_simp
  obtain s msgs where s: "sender_push ?s = Inr (s, msgs)" "pushes [] ?s s msgs"
    using sender_push_pushes [OF ok] by blast
  then have s': "snd_ok [] s" "snd_outstanding s = ?m # []" "snd_timer_time s = 0" "snd_RTO s = 100"
    "snd_window_size s > 0" "msgs = snd_outstanding s"
    using run by (auto simp: pushes_def tcp_sender_new_def)
  from sender_backoff [OF s'(1,2,5,3), of 3] s s' show ?thesis by auto
qed

text \<open>C31: whatever the application, the timer and honest acknowledgments do, a sender
  started on an empty stream stays consistent, and every segment it ever transmits,
  retransmissions included, is a piece of the stream the application wrote, at the
  sequence number of that piece.\<close>

theorem sender_run_segments:
  assumes "length S < 2 ^ 63"
    and "runs (snd_step S) (tcp_sender_new (byte_stream_new capacity) isn rto 0) log s"
  shows "snd_ok S s \<and> (\<forall>m\<in>set log. \<exists>a. seg_at S isn a m \<and> a + seq_len m \<le> unat (snd_abs_seqno s))"
proof -
  let ?new = "tcp_sender_new (byte_stream_new capacity) isn rto 0"
  have inv: "snd_ok S ?new \<and> snd_isn ?new = isn"
    using snd_ok_new [OF assms(1)] by (simp add: tcp_sender_new_def)
  from snd.run_inv [OF assms(2) inv] snd.run_outputs [OF assms(2) inv] show ?thesis
    by (auto simp: sent_segment_def)
qed

theorem sender_run_segments_witness:
  "\<exists>s log. runs (snd_step [1, 2]) (tcp_sender_new (byte_stream_new 10) (Wrap32 5) 100 0) log s
     \<and> length log = 1 \<and> (\<forall>m\<in>set log. \<exists>a. seg_at [1, 2] (Wrap32 5) a m)"
proof -
  let ?s = "tcp_sender_new (byte_stream_new 10) (Wrap32 5) 100 0"
  have small: "length [1, 2 :: u8] < 2 ^ 63" by simp
  obtain s log where s: "sender_push ?s = Inr (s, log)"
    using sender_push_pushes [OF snd_ok_new [OF small]] by blast
  have "map_sum id (\<lambda>(s, ms). length ms) (sender_push ?s) = Inr 1" by code_simp
  with s have len: "length log = 1" by simp
  have run: "runs (snd_step [1, 2]) ?s ([] @ log) s"
    by (rule runs.step, rule runs.start, rule snd_step.push [OF s])
  show ?thesis
    using sender_run_segments [OF small run] run len by (intro exI [of _ s] exI [of _ log]) auto
qed

subsection \<open>Properties that show defects\<close>

text \<open>A message without an acknowledgment number, such as the peer's first SYN,
  makes \<open>receive\<close> dereference an empty optional.\<close>

theorem receive_without_ackno:
  "\<exists>w. sender_receive s (msg\<lparr>rm_ackno := None\<rparr>) = Inl (Undefined_behaviour w)"
  by (simp add: sender_receive_def Let_def)

text \<open>The sender of four bytes after an acknowledgment of two of them.\<close>

definition demo_partial :: tcp_sender where
  "demo_partial =
     \<lparr>snd_input = \<lparr>bs_capacity = 100, bs_error = False, bs_total_pushed = 4, bs_buffer = [],
        bs_stream_closed = False, bs_total_popped = 4\<rparr>,
      snd_isn = Wrap32 5, snd_initial_RTO_ms = 100,
      snd_outstanding = [\<lparr>sm_seqno = Wrap32 6, sm_SYN = False, sm_payload = [1, 2, 3, 4],
        sm_FIN = False, sm_RST = False\<rparr>],
      snd_RTO = 100, snd_timer_time = 0, snd_timer_on = True, snd_abs_seqno = 5, snd_abs_ackno = 3,
      snd_consecutive_retransmissions = 0, snd_window_size = 10, snd_FINsent = False\<rparr>"

lemma demo_reaches_partial:
  "res_bind (demo_sender [1, 2, 3, 4] 0) (\<lambda>s. sender_receive s
     \<lparr>rm_ackno = Some (Wrap32 8), rm_window_size = 10, rm_RST = False\<rparr>) = Inr demo_partial"
  by code_simp

lemma demo_partial_ok: "snd_ok [1, 2, 3, 4] demo_partial"
  by (simp add: snd_ok_def demo_partial_def stream_ok_def bs_ok_def seg_at_def
       seq_len_def wrap_def wrap32_plus_def ahead_def)

text \<open>The test against unsent data compares with \<open>abs_ackno_\<close> plus the number in
  flight. Once a segment has been acknowledged in part that sum exceeds the next sequence
  number, and an acknowledgment of data that was never sent is accepted: it empties the
  queue of unacknowledged segments.\<close>

theorem partial_ack_accepts_unsent:
  assumes "snd_ok S s" and "rm_ackno msg = Some (wrap (of_nat n) (snd_isn s))"
    and "unat (snd_abs_seqno s) < n" and "n \<le> unat (snd_abs_ackno s) + flight s"
  shows "\<exists>s'. sender_receive s msg = Inr s' \<and> snd_outstanding s' = []
    \<and> unat (snd_abs_seqno s') < unat (snd_abs_ackno s')"
proof -
  note b = snd_ok_bounds [OF assms(1)]
  have "n \<le> popped s + 65537" "popped s \<le> n" using assms(3,4) b by linarith+
  then have near: "nat_dist n (popped s) < 2 ^ 31" by (simp add: nat_dist_def) linarith
  have un: "unat (of_nat n :: u64) = n"
    using assms(4) b by (intro unat_of_nat_64) simp
  have "snd_outstanding (ack_state s msg n) = []"
    unfolding ack_state_outstanding [OF assms(1)] using assms(3) b(5) by (intro unacked_all) simp
  moreover have "snd_abs_ackno (ack_state s msg n) = of_nat n"
    using assms(3) b(8) by (simp add: ack_state_def Let_def noted_fields)
  ultimately show ?thesis
    using sender_receive_ack [OF assms(1,2,4) near] un assms(3) by simp
qed

theorem partial_ack_accepts_unsent_witness:
  "\<exists>s s'. res_bind (demo_sender [1, 2, 3, 4] 0) (\<lambda>s. sender_receive s
        \<lparr>rm_ackno = Some (Wrap32 8), rm_window_size = 10, rm_RST = False\<rparr>) = Inr s
    \<and> unat (snd_abs_seqno s) = 5
    \<and> sender_receive s \<lparr>rm_ackno = Some (Wrap32 12), rm_window_size = 10, rm_RST = False\<rparr> = Inr s'
    \<and> snd_outstanding s' = []"
proof -
  let ?m = "\<lparr>rm_ackno = Some (Wrap32 12), rm_window_size = 10, rm_RST = False\<rparr>"
  have ack: "rm_ackno ?m = Some (wrap (of_nat 7) (snd_isn demo_partial))"
    by (simp add: demo_partial_def wrap_def wrap32_plus_def)
  have beyond: "unat (snd_abs_seqno demo_partial) < 7"
    "7 \<le> unat (snd_abs_ackno demo_partial) + flight demo_partial"
    by (simp_all add: demo_partial_def seq_len_def)
  have "unat (snd_abs_seqno demo_partial) = 5" by (simp add: demo_partial_def)
  then show ?thesis
    using partial_ack_accepts_unsent [OF demo_partial_ok ack beyond] demo_reaches_partial by blast
qed

text \<open>When no outstanding segment is acknowledged in part, an acknowledgment of data
  that was never sent changes only the window and the error flag.\<close>

theorem unsent_ack_ignored:
  assumes "snd_ok S s" and "rm_ackno msg = Some (wrap (of_nat n) (snd_isn s))"
    and "unat (snd_abs_seqno s) < n" and "nat_dist n (popped s) < 2 ^ 31"
    and "unat (snd_abs_ackno s) = snd_una s"
  shows "sender_receive s msg =
    Inr (s\<lparr>snd_input := (if rm_RST msg then set_error (snd_input s) else snd_input s),
           snd_window_size := ucast (rm_window_size msg)\<rparr>)"
proof -
  note b = snd_ok_bounds [OF assms(1)]
  have un: "unat (of_nat n :: u64) = n"
    using assms(4) b by (intro unat_of_nat_64) (auto simp: nat_dist_def split: if_splits)
  have "near (of_nat n) (bytes_popped (snd_input s))"
    using assms(4) un by (simp add: bytes_popped_def)
  then have dec: "unwrap (wrap (of_nat n) (snd_isn s)) (snd_isn s) (bytes_popped (snd_input s)) = of_nat n"
    by (rule w32.dec_enc)
  have "unat (snd_abs_ackno s + sequence_numbers_in_flight s) = unat (snd_abs_ackno s) + flight s"
    using b unat_flight [OF assms(1)] by (subst unat_plus_no_overflow) simp_all
  then have out: "of_nat n > snd_abs_ackno s + sequence_numbers_in_flight s"
    unfolding word_less_nat_alt un using assms(3,5) b(5) by linarith
  show ?thesis
    unfolding sender_receive_def noted_eq assms(2) option.case Let_def noted_fields dec if_P [OF out]
    by (simp add: noted_def)
qed

theorem unsent_ack_ignored_witness:
  "sender_receive (tcp_sender_new (byte_stream_new 10) (Wrap32 5) 100 0)
      \<lparr>rm_ackno = Some (Wrap32 9), rm_window_size = 7, rm_RST = False\<rparr>
    = Inr ((tcp_sender_new (byte_stream_new 10) (Wrap32 5) 100 0)\<lparr>snd_window_size := 7\<rparr>)"
proof -
  let ?s = "tcp_sender_new (byte_stream_new 10) (Wrap32 5) 100 0"
  let ?m = "\<lparr>rm_ackno = Some (Wrap32 9), rm_window_size = 7, rm_RST = False\<rparr>"
  have ok: "snd_ok [] ?s" by (rule snd_ok_new) simp
  have ack: "rm_ackno ?m = Some (wrap (of_nat 4) (snd_isn ?s))"
    by (simp add: tcp_sender_new_def wrap_def wrap32_plus_def)
  have near: "nat_dist 4 (popped ?s) < 2 ^ 31" "unat (snd_abs_seqno ?s) < 4"
    "unat (snd_abs_ackno ?s) = snd_una ?s"
    by (simp_all add: tcp_sender_new_def byte_stream_new_def nat_dist_def)
  show ?thesis
    using unsent_ack_ignored [OF ok ack near(2,1,3)] by (simp add: tcp_sender_new_def)
qed

text \<open>The member \<open>abs_ackno_\<close> has no initial value. When the memory does not happen
  to hold zero, the acknowledgment of the SYN is not taken as new data: the SYN stays in
  the queue and its timer keeps running.\<close>

theorem uninitialised_ackno:
  assumes "uninitialised \<noteq> 0"
  shows "\<exists>s s' msgs. sender_push (tcp_sender_new (byte_stream_new 10) (Wrap32 5) 100 uninitialised) = Inr (s, msgs)
    \<and> sender_receive s \<lparr>rm_ackno = Some (Wrap32 6), rm_window_size = 10, rm_RST = False\<rparr> = Inr s'
    \<and> snd_outstanding s' = msgs \<and> msgs \<noteq> [] \<and> snd_timer_on s'"
proof -
  let ?m = "\<lparr>sm_seqno = Wrap32 5, sm_SYN = True, sm_payload = [], sm_FIN = False, sm_RST = False\<rparr>"
  let ?new = "tcp_sender_new (byte_stream_new 10) (Wrap32 5) 100 uninitialised"
  let ?s = "?new\<lparr>snd_outstanding := [?m], snd_timer_on := True, snd_abs_seqno := 1\<rparr>"
  have "sender_push ?new = Inr (?s, [?m])"
    by (simp add: sender_push.simps push_turn_def tcp_sender_new_def remaining_window_def
        sequence_numbers_in_flight_def read_stream_def read_loop.simps byte_stream_new_def
        bytes_buffered_def has_error_def is_finished_def sequence_length_def wrap_def
        wrap32_plus_def record_sent_def Let_def MAX_PAYLOAD_SIZE_def)
  moreover have "unwrap (Wrap32 6) (Wrap32 5) 0 = 1" by code_simp
  moreover have "\<not> uninitialised < 1"  using assms by simp
  ultimately show ?thesis 
    by (simp add: sender_receive_def Let_def tcp_sender_new_def byte_stream_new_def
        sequence_numbers_in_flight_def bytes_popped_def sequence_length_def)
qed

theorem uninitialised_ackno_witness:
  "\<exists>s s' msgs. sender_push (tcp_sender_new (byte_stream_new 10) (Wrap32 5) 100 7777) = Inr (s, msgs)
    \<and> sender_receive s \<lparr>rm_ackno = Some (Wrap32 6), rm_window_size = 10, rm_RST = False\<rparr> = Inr s'
    \<and> snd_outstanding s' = msgs \<and> msgs \<noteq> [] \<and> snd_timer_on s'"
  by (rule uninitialised_ackno) simp

end
