(* ===== verification/Reassembler.thy ===== *)
theory Reassembler
  imports Byte_Stream
begin

text \<open>
  The reassembler of \<open>src/reassembler.hh\<close> and \<open>src/reassembler.cc\<close>: it keeps the
  bytes that arrived out of order in a map from stream index to byte, writes the
  contiguous ones to its output stream and closes the stream at the recorded end. The
  specification is about one source string \<open>S\<close>: the set of indices known is what the
  inserted substrings covered within capacity, and what has been written is the longest
  prefix of \<open>S\<close> that is known.
\<close>

record reassembler =
  re_output :: byte_stream
  re_unassembled :: "(u64, u8) mapping"
  re_end_of_stream :: u64

definition reassembler_new :: "byte_stream \<Rightarrow> reassembler" where
  "reassembler_new out =
     \<lparr>re_output = out, re_unassembled = Mapping.empty, re_end_of_stream = - 1\<rparr>"

text \<open>Section 1 of \<open>insert\<close>: the loop over the bytes of \<open>data\<close>, with its index
  \<open>i\<close>.\<close>

fun store_bytes :: "(u64, u8) mapping \<Rightarrow> u64 \<Rightarrow> bytes \<Rightarrow> u64 \<Rightarrow> u64 \<Rightarrow> (u64, u8) mapping" where
  "store_bytes unassembled i [] index_needed first_unacceptable_index = unassembled"
| "store_bytes unassembled i (c # data) index_needed first_unacceptable_index =
     (if i \<ge> first_unacceptable_index then unassembled
      else if i < index_needed
      then store_bytes unassembled (i + 1) data index_needed first_unacceptable_index
      else store_bytes (Mapping.update i c unassembled) (i + 1) data
             index_needed first_unacceptable_index)"

text \<open>Section 2: push while the next index is stored.\<close>

lemma finite_keys_u64 [simp]: "finite (Mapping.keys (m :: (u64, 'v) mapping))"
  by (rule finite_subset [OF subset_UNIV]) simp

function assemble ::
    "byte_stream \<Rightarrow> (u64, u8) mapping \<Rightarrow> u64 \<Rightarrow> byte_stream \<times> (u64, u8) mapping \<times> u64" where
  "assemble out unassembled index_needed =
     (case Mapping.lookup unassembled index_needed of
        None \<Rightarrow> (out, unassembled, index_needed)
      | Some c \<Rightarrow> assemble (writer_push out [c]) (Mapping.delete index_needed unassembled)
                    (index_needed + 1))"
  by pat_completeness auto
termination
proof (relation "measure (\<lambda>(out, unassembled, index_needed). card (Mapping.keys unassembled))",
    goal_cases)
  case 1
  show ?case by simp
next
  case (2 out unassembled index_needed c)
  then have "index_needed \<in> Mapping.keys unassembled"
    by (simp add: keys_dom_lookup domI)
  then have "card (Mapping.keys unassembled - {index_needed}) < card (Mapping.keys unassembled)"
    by (intro card_Diff1_less) simp
  then show ?case by simp
qed

declare assemble.simps [simp del]

definition reassembler_insert :: "reassembler \<Rightarrow> u64 \<Rightarrow> bytes \<Rightarrow> bool \<Rightarrow> reassembler" where
  "reassembler_insert r first_index data is_last_substring =
     (let last_index_stored = first_index + len64 data - 1;
          index_needed = bytes_pushed (re_output r);
          end_of_stream = (if is_last_substring then last_index_stored + 1 else re_end_of_stream r);
          first_unacceptable_index = index_needed + available_capacity (re_output r);
          unassembled = store_bytes (re_unassembled r) first_index data
                          index_needed first_unacceptable_index;
          (out, unassembled, index_needed) = assemble (re_output r) unassembled index_needed;
          out = (if index_needed = end_of_stream then writer_close out else out)
      in \<lparr>re_output = out, re_unassembled = unassembled, re_end_of_stream = end_of_stream\<rparr>)"

definition count_bytes_pending :: "reassembler \<Rightarrow> nat" where
  "count_bytes_pending r = Mapping.size (re_unassembled r)"

definition reassembler_pop :: "reassembler \<Rightarrow> u64 \<Rightarrow> reassembler" where
  "reassembler_pop r n = r\<lparr>re_output := reader_pop (re_output r) n\<rparr>"

definition reassembler_set_error :: "reassembler \<Rightarrow> reassembler" where
  "reassembler_set_error r = r\<lparr>re_output := set_error (re_output r)\<rparr>"

subsection \<open>The loops\<close>

lemma lookup_store_bytes:
  assumes "unat i + length data < 2 ^ 64"
  shows "Mapping.lookup (store_bytes m i data needed limit) k =
    (if unat i \<le> unat k \<and> unat k < unat i + length data \<and> needed \<le> k \<and> k < limit
     then Some (data ! (unat k - unat i)) else Mapping.lookup m k)"
  using assms
proof (induction m i data needed limit rule: store_bytes.induct)
  case (1 m i needed limit)
  then show ?case by auto
next
  case (2 m i c data needed limit)
  have step: "unat (i + 1) = unat i + 1"
    using 2(3) by (simp add: unat_plus_no_overflow)
  have len: "unat (i + 1) + length data < 2 ^ 64" using 2(3) step by simp
  have at: "unat i \<le> unat k \<and> unat k < unat i + length (c # data)
      \<longleftrightarrow> k = i \<or> unat (i + 1) \<le> unat k \<and> unat k < unat (i + 1) + length data"
    unfolding step by (auto simp: word_unat_eq_iff)
  have nth: "(c # data) ! (unat k - unat i) = data ! (unat k - unat (i + 1))" if "unat (i + 1) \<le> unat k"
    using that unfolding step by (simp add: nth_Cons')
  have out: "\<not> (unat (i + 1) \<le> unat i)" unfolding step by simp
  consider "limit \<le> i" | "i < limit" "i < needed" | "i < limit" "needed \<le> i" by force
  then show ?case
  proof cases
    case 1
    then have "\<not> (unat i \<le> unat k \<and> k < limit)"
      by (auto simp: word_le_nat_alt word_less_nat_alt)
    with 1 show ?thesis by auto
  next
    case 2
    with "2.IH"(1) len at nth show ?thesis by (auto simp: not_le)
  next
    case 3
    with "2.IH"(2) len at nth out show ?thesis by (auto simp: not_le lookup_update')
  qed
qed

text \<open>
  The part of the invariant that Section 2 keeps at every turn, for a source string
  \<open>S\<close>: what is buffered is the piece of \<open>S\<close> between the popped and the pushed
  index, and every stored byte is the right one, not yet pushed and within capacity.
\<close>

definition re_core :: "bytes \<Rightarrow> byte_stream \<Rightarrow> (u64, u8) mapping \<Rightarrow> bool" where
  "re_core S out un \<longleftrightarrow> bs_ok out
     \<and> length S + unat (bs_capacity out) < 2 ^ 64 - 1
     \<and> unat (bs_total_pushed out) = unat (bs_total_popped out) + length (bs_buffer out)
     \<and> unat (bs_total_pushed out) \<le> length S
     \<and> bs_buffer out = take (length (bs_buffer out)) (drop (unat (bs_total_popped out)) S)
     \<and> (\<forall>k c. Mapping.lookup un k = Some c \<longrightarrow>
          unat k < length S \<and> c = S ! unat k \<and> unat (bs_total_pushed out) \<le> unat k
          \<and> unat k < unat (bs_total_popped out) + unat (bs_capacity out))"

text \<open>The stream indices the reassembler knows: pushed or stored.\<close>

definition known :: "byte_stream \<Rightarrow> (u64, u8) mapping \<Rightarrow> nat set" where
  "known out un = {i. i < unat (bs_total_pushed out)} \<union> unat ` Mapping.keys un"

lemma known_iff:
  "i \<in> known out un \<longleftrightarrow>
     i < unat (bs_total_pushed out) \<or> (\<exists>k. unat k = i \<and> Mapping.lookup un k \<noteq> None)"
  by (auto simp: known_def keys_dom_lookup image_iff)

lemma re_core_push_one:
  assumes core: "re_core S out un" and hit: "Mapping.lookup un (bs_total_pushed out) = Some c"
  defines "out' \<equiv> writer_push out [c]" and "un' \<equiv> Mapping.delete (bs_total_pushed out) un"
  shows "re_core S out' un'" "bs_total_pushed out' = bs_total_pushed out + 1"
    "known out' un' = known out un"
proof -
  let ?P = "unat (bs_total_pushed out)" and ?Q = "unat (bs_total_popped out)"
  note core = core [unfolded re_core_def]
  from core hit have P: "?P < length S" "c = S ! ?P" "?P < ?Q + unat (bs_capacity out)"
    by blast+
  have room: "0 < room out" using core P(3) by (simp add: room_def)
  then have t: "take (room out) [c] = [c]" by (cases "room out") simp_all
  have ok: "bs_ok out" using core by blast
  show tp: "bs_total_pushed out' = bs_total_pushed out + 1"
    by (simp add: out'_def writer_push_total [OF ok] t)
  have buf: "bs_buffer out' = bs_buffer out @ [c]"
    by (simp add: out'_def writer_push_buffer [OF ok] t)
  have P': "unat (bs_total_pushed out') = ?P + 1"
    unfolding tp using P(1) core by (subst unat_plus_no_overflow) auto
  have len: "length (bs_buffer out') = length (bs_buffer out) + 1" by (simp add: buf)
  have "bs_buffer out @ [c] = take (length (bs_buffer out) + 1) (drop ?Q S)"
    using core P(1,2) by (simp add: take_Suc_conv_app_nth)
  then have piece: "bs_buffer out' = take (length (bs_buffer out')) (drop (unat (bs_total_popped out')) S)"
    unfolding len unfolding buf by (simp only: out'_def writer_push_fields)
  have stored: "unat k < length S \<and> d = S ! unat k \<and> unat (bs_total_pushed out') \<le> unat k
      \<and> unat k < ?Q + unat (bs_capacity out)"
    if "Mapping.lookup un' k = Some d" for k d
  proof -
    from that have k: "k \<noteq> bs_total_pushed out" "Mapping.lookup un k = Some d"
      by (auto simp: un'_def lookup_delete_neq) (metis lookup_delete lookup_delete_neq option.distinct(1))+
    moreover from k(1) have "unat k \<noteq> ?P" by (simp add: word_unat_eq_iff)
    moreover have "?P \<le> unat k" "unat k < length S" "d = S ! unat k" "unat k < ?Q + unat (bs_capacity out)"
      using core k(2) by blast+
    ultimately show ?thesis unfolding P' by simp
  qed
  show "re_core S out' un'"
    unfolding re_core_def
  proof (intro conjI)
    have fr: "bs_total_popped out' = bs_total_popped out" "bs_capacity out' = bs_capacity out"
      by (simp_all add: out'_def)
    show "bs_ok out'" using ok by (simp add: out'_def)
    show "length S + unat (bs_capacity out') < 2 ^ 64 - 1" using core by (simp add: fr)
    show "unat (bs_total_pushed out') = unat (bs_total_popped out') + length (bs_buffer out')"
      using core by (simp only: fr len P')
    show "unat (bs_total_pushed out') \<le> length S" using P(1) by (simp only: P')
    show "bs_buffer out' = take (length (bs_buffer out')) (drop (unat (bs_total_popped out')) S)"
      by (fact piece)
    show "\<forall>k c. Mapping.lookup un' k = Some c \<longrightarrow>
        unat k < length S \<and> c = S ! unat k \<and> unat (bs_total_pushed out') \<le> unat k
        \<and> unat k < unat (bs_total_popped out') + unat (bs_capacity out')"
      using stored by (simp only: fr) blast
  qed
  have "?P \<in> unat ` Mapping.keys un" using hit by (auto simp: keys_dom_lookup)
  moreover have "unat ` (Mapping.keys un - {bs_total_pushed out}) = unat ` Mapping.keys un - {?P}"
    by (auto simp: word_unat_eq_iff)
  ultimately show "known out' un' = known out un"
    unfolding known_def P' by (auto simp: un'_def less_Suc_eq)
qed

lemma assemble_keeps:
  assumes "re_core S out un" and "idx = bs_total_pushed out"
    and "assemble out un idx = (out', un', idx')"
  shows "re_core S out' un'" "idx' = bs_total_pushed out'" "Mapping.lookup un' idx' = None"
    "known out' un' = known out un"
    "bs_capacity out' = bs_capacity out" "bs_total_popped out' = bs_total_popped out"
    "bs_error out' = bs_error out" "bs_stream_closed out' = bs_stream_closed out"
proof -
  have "re_core S out' un' \<and> idx' = bs_total_pushed out' \<and> Mapping.lookup un' idx' = None
    \<and> known out' un' = known out un
    \<and> bs_capacity out' = bs_capacity out \<and> bs_total_popped out' = bs_total_popped out
    \<and> bs_error out' = bs_error out \<and> bs_stream_closed out' = bs_stream_closed out"
    using assms
  proof (induction out un idx rule: assemble.induct)
    case (1 out un idx)
    show ?case
    proof (cases "Mapping.lookup un idx")
      case None
      with 1 show ?thesis by (auto simp add: assemble.simps [of out un "bs_total_pushed out"])
    next
      case (Some c)
      let ?out = "writer_push out [c]" and ?un = "Mapping.delete idx un"
      have "assemble ?out ?un (idx + 1) = (out', un', idx')"
        using 1(4) Some by (simp add: assemble.simps [of out un idx])
      moreover have "re_core S ?out ?un" "bs_total_pushed ?out = bs_total_pushed out + 1"
        "known ?out ?un = known out un"
        using re_core_push_one [OF 1(2)] Some 1(3) by blast+
      ultimately show ?thesis using "1.IH" [OF Some] 1(3) by auto
    qed
  qed
  then show "re_core S out' un'" "idx' = bs_total_pushed out'" "Mapping.lookup un' idx' = None"
    "known out' un' = known out un"
    "bs_capacity out' = bs_capacity out" "bs_total_popped out' = bs_total_popped out"
    "bs_error out' = bs_error out" "bs_stream_closed out' = bs_stream_closed out"
    by blast+
qed

subsection \<open>The invariant and the effect of an insertion\<close>

definition re_ok :: "bytes \<Rightarrow> reassembler \<Rightarrow> bool" where
  "re_ok S r \<longleftrightarrow> re_core S (re_output r) (re_unassembled r)
     \<and> Mapping.lookup (re_unassembled r) (bs_total_pushed (re_output r)) = None
     \<and> (re_end_of_stream r = - 1 \<or> unat (re_end_of_stream r) = length S)
     \<and> (bs_stream_closed (re_output r) \<longleftrightarrow> re_end_of_stream r = bs_total_pushed (re_output r))"

text \<open>A substring of \<open>S\<close> at a stream index, flagged as the last one only when it ends
  with \<open>S\<close>.\<close>

definition substring_of :: "bytes \<Rightarrow> u64 \<Rightarrow> bytes \<Rightarrow> bool \<Rightarrow> bool" where
  "substring_of S first_index data is_last \<longleftrightarrow>
     unat first_index + length data \<le> length S
     \<and> data = take (length data) (drop (unat first_index) S)
     \<and> (is_last \<longrightarrow> unat first_index + length data = length S)"

abbreviation re_known :: "reassembler \<Rightarrow> nat set" where
  "re_known r \<equiv> known (re_output r) (re_unassembled r)"

text \<open>The first index beyond what the stream could hold.\<close>

definition re_limit :: "reassembler \<Rightarrow> nat" where
  "re_limit r = unat (bs_total_popped (re_output r)) + unat (bs_capacity (re_output r))"

lemma re_core_len: "re_core S out un \<Longrightarrow> length S < 2 ^ 64 - 1"
  by (simp add: re_core_def)

lemma unat_first_unacceptable:
  assumes "re_core S out un"
  shows "unat (bs_total_pushed out + available_capacity out)
    = unat (bs_total_popped out) + unat (bs_capacity out)"
proof -
  have ok: "bs_ok out" using assms by (simp add: re_core_def)
  then have "length (bs_buffer out) \<le> unat (bs_capacity out)" by (simp add: bs_ok_def)
  with assms show ?thesis
    unfolding re_core_def
    by (subst unat_plus_no_overflow) (auto simp: unat_available_capacity room_def)
qed

lemma re_core_store:
  assumes core: "re_core S out un" and sub: "substring_of S first data is_last"
  defines "un' \<equiv> store_bytes un first data (bs_total_pushed out)
                    (bs_total_pushed out + available_capacity out)"
  shows "re_core S out un'"
    "known out un' = known out un \<union>
       {i. unat first \<le> i \<and> i < unat first + length data
           \<and> i < unat (bs_total_popped out) + unat (bs_capacity out)}"
proof -
  let ?L = "unat (bs_total_popped out) + unat (bs_capacity out)"
  have small: "unat first + length data < 2 ^ 64"
    using sub re_core_len [OF core] by (simp add: substring_of_def)
  have hit: "Mapping.lookup un' k = (if unat first \<le> unat k \<and> unat k < unat first + length data
        \<and> unat (bs_total_pushed out) \<le> unat k \<and> unat k < ?L
      then Some (data ! (unat k - unat first)) else Mapping.lookup un k)" for k
    unfolding un'_def lookup_store_bytes [OF small] word_le_nat_alt word_less_nat_alt
      unat_first_unacceptable [OF core] ..
  have byte: "data ! (i - unat first) = S ! i" if "unat first \<le> i" "i < unat first + length data" for i
  proof -
    have "data ! (i - unat first) = take (length data) (drop (unat first) S) ! (i - unat first)"
      using sub by (simp add: substring_of_def)
    then show ?thesis using that sub by (simp add: substring_of_def)
  qed
  have inS: "unat first + length data \<le> length S" using sub by (simp add: substring_of_def)
  show "re_core S out un'"
    unfolding re_core_def
  proof (intro conjI)
    show "\<forall>k c. Mapping.lookup un' k = Some c \<longrightarrow> unat k < length S \<and> c = S ! unat k
        \<and> unat (bs_total_pushed out) \<le> unat k \<and> unat k < ?L"
    proof (intro allI impI)
      fix k c
      assume "Mapping.lookup un' k = Some c"
      then show "unat k < length S \<and> c = S ! unat k \<and> unat (bs_total_pushed out) \<le> unat k \<and> unat k < ?L"
        unfolding hit using core byte inS by (auto simp: re_core_def split: if_split_asm)
    qed
  qed (use core in \<open>simp_all add: re_core_def\<close>)
  show "known out un' = known out un \<union>
       {i. unat first \<le> i \<and> i < unat first + length data \<and> i < ?L}" (is "_ = _ \<union> ?new")
  proof (intro set_eqI)
    fix i
    show "i \<in> known out un' \<longleftrightarrow> i \<in> known out un \<union> ?new"
    proof (cases "i < 2 ^ 64")
      case True
      then have k: "unat (of_nat i :: u64) = i" by (simp add: unat_of_nat)
      then have ex: "(\<exists>k :: u64. unat k = i \<and> Q k) \<longleftrightarrow> Q (of_nat i)" for Q
        by (metis of_nat_unat word_unat_eq_iff)
      show ?thesis
        unfolding known_iff Un_iff mem_Collect_eq ex hit k by (auto simp: k not_less)
    next
      case False
      then have "unat (k :: u64) \<noteq> i" for k using unat_less_64 [of k] by auto
      then show ?thesis using False small by (auto simp: known_iff)
    qed
  qed
qed

lemma re_core_close [simp]: "re_core S (writer_close out) un = re_core S out un"
  unfolding re_core_def by (simp add: bs_ok_def writer_close_def)

text \<open>What one insertion does to a reassembler that is consistent with \<open>S\<close>.\<close>

lemma reassembler_insert_spec:
  assumes ok: "re_ok S r" and sub: "substring_of S first data is_last"
  defines "r' \<equiv> reassembler_insert r first data is_last"
  shows "re_ok S r'"
    "re_known r' = re_known r \<union>
       {i. unat first \<le> i \<and> i < unat first + length data \<and> i < re_limit r}"
    "re_limit r' = re_limit r"
    "bs_total_popped (re_output r') = bs_total_popped (re_output r)"
    "bs_error (re_output r') = bs_error (re_output r)"
    "re_end_of_stream r' = (if is_last then of_nat (length S) else re_end_of_stream r)"
proof -
  let ?out = "re_output r" and ?P = "bs_total_pushed (re_output r)"
  let ?un = "store_bytes (re_unassembled r) first data ?P (?P + available_capacity ?out)"
  obtain out un idx where asm: "assemble ?out ?un ?P = (out, un, idx)"
    by (cases "assemble ?out ?un ?P") auto
  have core: "re_core S ?out (re_unassembled r)" using ok by (simp add: re_ok_def)
  note store = re_core_store [OF core sub]
  note kept = assemble_keeps [OF store(1) refl asm]
  let ?eos = "if is_last then of_nat (length S) else re_end_of_stream r"
  have "unat first + length data < 2 ^ 64"
    using sub re_core_len [OF core] by (simp add: substring_of_def)
  then have last: "first + len64 data = of_nat (length S)" if is_last
  proof -
    have "length S = unat first + length data" using sub that by (simp add: substring_of_def)
    then show ?thesis by simp
  qed
  then have eos: "(if is_last then first + len64 data - 1 + 1 else re_end_of_stream r) = ?eos"
    by simp
  have r': "r' = \<lparr>re_output = (if idx = ?eos then writer_close out else out),
      re_unassembled = un, re_end_of_stream = ?eos\<rparr>"
    unfolding r'_def reassembler_insert_def Let_def bytes_pushed_def asm prod.case eos ..
  have still: "idx = ?eos" if closed: "bs_stream_closed ?out"
  proof -
    have "?P = re_end_of_stream r" using ok closed by (simp add: re_ok_def)
    moreover have "?P \<noteq> - 1"
      using core by (auto simp: re_core_def unat_minus_1_64)
    ultimately have P: "unat ?P = length S" using ok by (auto simp: re_ok_def)
    have "Mapping.lookup ?un ?P = None"
    proof (rule ccontr)
      assume "Mapping.lookup ?un ?P \<noteq> None"
      then obtain c where "Mapping.lookup ?un ?P = Some c" by blast
      then have "unat ?P < length S" using store(1) unfolding re_core_def by blast
      with P show False by simp
    qed
    then have "idx = ?P" using asm by (auto simp: assemble.simps [of _ _ ?P])
    also have "?P = ?eos" using P \<open>?P = re_end_of_stream r\<close> by (auto simp flip: P)
    finally show ?thesis .
  qed
  have len: "unat (of_nat (length S) :: u64) = length S"
    using re_core_len [OF core] by (intro unat_len64) simp
  show "re_ok S r'"
    unfolding re_ok_def
  proof (intro conjI)
    have tp: "bs_total_pushed (re_output r') = idx"
      using kept(2) by (simp add: r' writer_close_def)
    show "re_core S (re_output r') (re_unassembled r')"
      using kept(1) by (simp add: r')
    show "Mapping.lookup (re_unassembled r') (bs_total_pushed (re_output r')) = None"
      using kept(3) by (simp add: tp) (simp add: r')
    show "re_end_of_stream r' = - 1 \<or> unat (re_end_of_stream r') = length S"
      using ok len by (simp add: r' re_ok_def)
    have "bs_stream_closed (re_output r') \<longleftrightarrow> idx = ?eos \<or> bs_stream_closed ?out"
      using kept(8) by (simp add: r' writer_close_def)
    also have "\<dots> \<longleftrightarrow> ?eos = idx" using still by auto
    finally show "bs_stream_closed (re_output r') \<longleftrightarrow> re_end_of_stream r' = bs_total_pushed (re_output r')"
      unfolding tp by (simp add: r')
  qed
  show "re_known r' = re_known r \<union>
       {i. unat first \<le> i \<and> i < unat first + length data \<and> i < re_limit r}"
    using kept(4) store(2) by (simp add: r' known_def writer_close_def re_limit_def)
  show "re_limit r' = re_limit r"
    "bs_total_popped (re_output r') = bs_total_popped ?out"
    "bs_error (re_output r') = bs_error ?out"
    "re_end_of_stream r' = ?eos"
    using kept by (simp_all add: r' writer_close_def re_limit_def)
qed

text \<open>What has been written is the longest known prefix.\<close>

definition re_written :: "reassembler \<Rightarrow> nat" where
  "re_written r = unat (bs_total_pushed (re_output r))"

lemma written_known: "i < re_written r \<Longrightarrow> i \<in> re_known r"
  by (simp add: known_def re_written_def)

lemma written_not_known: "re_ok S r \<Longrightarrow> re_written r \<notin> re_known r"
  by (auto simp: known_iff re_written_def re_ok_def word_unat_eq_iff [symmetric])

lemma re_ok_new:
  assumes "length S + unat capacity < 2 ^ 64 - 1"
  shows "re_ok S (reassembler_new (byte_stream_new capacity))"
    "re_known (reassembler_new (byte_stream_new capacity)) = {}"
    "re_limit (reassembler_new (byte_stream_new capacity)) = unat capacity"
  using assms
  by (auto simp: re_ok_def re_core_def known_def re_limit_def reassembler_new_def bs_ok_def
      byte_stream_new_def)

lemma re_ok_pop:
  assumes "re_ok S r" and "unat n \<le> length (bs_buffer (re_output r))"
  shows "re_ok S (reassembler_pop r n)"
proof -
  let ?out = "re_output r"
  have core: "re_core S ?out (re_unassembled r)" using assms(1) by (simp add: re_ok_def)
  then have "unat (bs_total_popped ?out) + unat n < 2 ^ 64"
    using assms(2) by (simp add: re_core_def)
  then have popped: "unat (bs_total_popped ?out + n) = unat (bs_total_popped ?out) + unat n"
    by (simp add: unat_plus_no_overflow)
  have "drop (unat n) (bs_buffer ?out) =
      drop (unat n) (take (length (bs_buffer ?out)) (drop (unat (bs_total_popped ?out)) S))"
    using core by (simp add: re_core_def)
  also have "\<dots> = take (length (bs_buffer ?out) - unat n) (drop (unat (bs_total_popped ?out) + unat n) S)"
    by (simp add: drop_take add.commute)
  finally have buf: "drop (unat n) (bs_buffer ?out) = \<dots>" .
  have "bs_ok (reader_pop ?out n)" using core assms(2) by (simp add: bs_ok_pop re_core_def)
  then have "re_core S (reader_pop ?out n) (re_unassembled r)"
    using core assms(2) buf popped unfolding re_core_def by (force simp: reader_pop_def)
  then show ?thesis using assms(1) by (simp add: re_ok_def reassembler_pop_def reader_pop_def)
qed

subsection \<open>The contract: reassembly does not depend on the order of arrival\<close>

locale prefix_assembler =
  fixes ins :: "'r \<Rightarrow> 'seg \<Rightarrow> 'r"
    and knows :: "'r \<Rightarrow> nat set"
    and written :: "'r \<Rightarrow> nat"
    and limit :: "'r \<Rightarrow> nat"
    and covers :: "nat \<Rightarrow> 'seg \<Rightarrow> nat set"
    and fits :: "'seg \<Rightarrow> bool"
    and ok :: "'r \<Rightarrow> bool"
  assumes ok_ins: "ok r \<Longrightarrow> fits g \<Longrightarrow> ok (ins r g)"
    and knows_ins: "ok r \<Longrightarrow> fits g \<Longrightarrow> knows (ins r g) = knows r \<union> covers (limit r) g"
    and limit_ins: "ok r \<Longrightarrow> fits g \<Longrightarrow> limit (ins r g) = limit r"
    and below_written: "ok r \<Longrightarrow> i < written r \<Longrightarrow> i \<in> knows r"
    and at_written: "ok r \<Longrightarrow> written r \<notin> knows r"
begin

lemma written_is_Least: "ok r \<Longrightarrow> written r = (LEAST i. i \<notin> knows r)"
  by (rule Least_equality [symmetric]) (use at_written below_written in \<open>force simp: not_less [symmetric]\<close>)+

lemma ok_all: "ok r \<Longrightarrow> \<forall>g\<in>set gs. fits g \<Longrightarrow> ok (foldl ins r gs)"
  by (induction gs arbitrary: r) (simp_all add: ok_ins)

lemma knows_all:
  "ok r \<Longrightarrow> \<forall>g\<in>set gs. fits g \<Longrightarrow>
   knows (foldl ins r gs) = knows r \<union> (\<Union>g\<in>set gs. covers (limit r) g)"
  by (induction gs arbitrary: r) (auto simp: ok_ins knows_ins limit_ins)

lemma order_irrelevant:
  assumes "ok r" "\<forall>g\<in>set gs. fits g" "set gs = set gs'"
  shows "knows (foldl ins r gs) = knows (foldl ins r gs')"
    "written (foldl ins r gs) = written (foldl ins r gs')"
  using assms by (simp_all add: knows_all ok_all written_is_Least)

lemma written_covers:
  assumes "ok r" "\<forall>g\<in>set gs. fits g"
    and "\<And>i. i < n \<Longrightarrow> i \<in> knows r \<or> (\<exists>g\<in>set gs. i \<in> covers (limit r) g)"
  shows "n \<le> written (foldl ins r gs)"
proof (rule ccontr)
  assume "\<not> n \<le> written (foldl ins r gs)"
  then have "written (foldl ins r gs) < n" by simp
  then have "written (foldl ins r gs) \<in> knows (foldl ins r gs)"
    using assms(3) by (auto simp: knows_all [OF assms(1,2)])
  then show False using at_written ok_all [OF assms(1,2)] by blast
qed

end

text \<open>A received substring: its first index, its bytes, and whether it is the last.\<close>

type_synonym substring = "u64 \<times> bytes \<times> bool"

definition insert_substring :: "reassembler \<Rightarrow> substring \<Rightarrow> reassembler" where
  "insert_substring r = (\<lambda>(first, data, is_last). reassembler_insert r first data is_last)"

definition covered :: "nat \<Rightarrow> substring \<Rightarrow> nat set" where
  "covered limit = (\<lambda>(first, data, is_last).
     {i. unat first \<le> i \<and> i < unat first + length data \<and> i < limit})"

definition fits_source :: "bytes \<Rightarrow> substring \<Rightarrow> bool" where
  "fits_source S = (\<lambda>(first, data, is_last). substring_of S first data is_last)"

interpretation re: prefix_assembler insert_substring re_known re_written re_limit covered
    "fits_source S" "re_ok S" for S
  by unfold_locales
    (auto simp: insert_substring_def covered_def fits_source_def re_limit_def [symmetric]
      reassembler_insert_spec written_known written_not_known split: prod.splits)

lemma insert_all:
  "re_ok S r \<Longrightarrow> \<forall>g\<in>set gs. fits_source S g \<Longrightarrow>
   re_end_of_stream (foldl insert_substring r gs) =
     (if \<exists>first data. (first, data, True) \<in> set gs then of_nat (length S) else re_end_of_stream r)
   \<and> bs_total_popped (re_output (foldl insert_substring r gs)) = bs_total_popped (re_output r)"
proof (induction gs arbitrary: r)
  case (Cons g gs)
  obtain first data is_last where g: "g = (first, data, is_last)" by (cases g) auto
  with Cons.prems have sub: "substring_of S first data is_last" by (simp add: fits_source_def)
  have step: "insert_substring r g = reassembler_insert r first data is_last"
    by (simp add: insert_substring_def g)
  note ins = reassembler_insert_spec [OF Cons.prems(1) sub]
  from Cons.IH [OF ins(1)] Cons.prems(2) show ?case
    using ins(4,6) unfolding foldl.simps step by (cases is_last) (auto simp: g)
qed simp

lemma re_ok_written_le: "re_ok S r \<Longrightarrow> re_written r \<le> length S"
  by (simp add: re_ok_def re_core_def re_written_def)

lemma re_ok_closed:
  assumes "re_ok S r" and "unat (re_end_of_stream r) = length S"
  shows "bs_stream_closed (re_output r) \<longleftrightarrow> re_written r = length S"
  using assms by (auto simp: re_ok_def re_written_def word_unat_eq_iff)

subsection \<open>Properties\<close>

text \<open>C32: inserting a substring of the source makes exactly its bytes within the
  stream's capacity known, keeps everything known before, and writes the longest known
  prefix to the output.\<close>

theorem reassembler_insert_known:
  assumes "re_ok S r" and "substring_of S first_index data is_last"
  shows "re_ok S (reassembler_insert r first_index data is_last)
    \<and> re_known (reassembler_insert r first_index data is_last) = re_known r \<union>
        {i. unat first_index \<le> i \<and> i < unat first_index + length data \<and> i < re_limit r}
    \<and> re_written (reassembler_insert r first_index data is_last) =
        (LEAST i. i \<notin> re_known (reassembler_insert r first_index data is_last))"
  using reassembler_insert_spec(1,2) [OF assms] re.written_is_Least [of S] by blast

theorem reassembler_insert_known_witness:
  "re_known (reassembler_insert (reassembler_new (byte_stream_new 3)) 1 [2, 3, 4] True) = {1, 2}"
proof -
  have ok: "re_ok [1, 2, 3, 4] (reassembler_new (byte_stream_new 3))" by (rule re_ok_new) simp
  have sub: "substring_of [1, 2, 3, 4] 1 [2, 3, 4] True" by (simp add: substring_of_def)
  have "re_limit (reassembler_new (byte_stream_new 3)) = 3" by (simp add: re_ok_new(3) [of "[]"])
  then show ?thesis
    using reassembler_insert_known [OF ok sub] re_ok_new(2) [of "[1, 2, 3, 4]" 3] by auto
qed

text \<open>The reassembler never holds more than the stream's capacity: the bytes buffered
  in the output and the bytes stored out of order fit in it together, and the bytes
  buffered are the right piece of the source.\<close>

theorem reassembler_within_capacity:
  assumes "re_ok S r"
  shows "length (reader_peek (re_output r)) + count_bytes_pending r \<le> unat (bs_capacity (re_output r))
    \<and> reader_peek (re_output r) =
        take (length (reader_peek (re_output r))) (drop (unat (bytes_popped (re_output r))) S)
    \<and> (bs_stream_closed (re_output r) \<longrightarrow> re_written r = length S)"
proof (intro conjI impI)
  let ?out = "re_output r"
  let ?P = "unat (bs_total_pushed ?out)" and ?keys = "Mapping.keys (re_unassembled r)"
  have core: "re_core S ?out (re_unassembled r)" using assms by (simp add: re_ok_def)
  have "unat ` ?keys \<subseteq> {?P ..< unat (bs_total_popped ?out) + unat (bs_capacity ?out)}"
    using core by (auto simp: re_core_def keys_dom_lookup)
  then have "card (unat ` ?keys) \<le> unat (bs_total_popped ?out) + unat (bs_capacity ?out) - ?P"
    by (metis card_atLeastLessThan card_mono finite_atLeastLessThan)
  moreover have "card (unat ` ?keys) = card ?keys"
    by (rule card_image) (auto simp: inj_on_def word_unat_eq_iff)
  moreover have "?P = unat (bs_total_popped ?out) + length (bs_buffer ?out)"
    and "length (bs_buffer ?out) \<le> unat (bs_capacity ?out)"
    using core unfolding re_core_def bs_ok_def by blast+
  ultimately show "length (reader_peek ?out) + count_bytes_pending r \<le> unat (bs_capacity ?out)"
    by (simp add: count_bytes_pending_def Mapping.size_def reader_peek_def)
  show "reader_peek ?out = take (length (reader_peek ?out)) (drop (unat (bytes_popped ?out)) S)"
    using core by (simp add: re_core_def reader_peek_def bytes_popped_def)
  assume "bs_stream_closed ?out"
  then have "bs_total_pushed ?out = re_end_of_stream r" using assms by (simp add: re_ok_def)
  moreover have "bs_total_pushed ?out \<noteq> - 1"
    using core by (auto simp: re_core_def unat_minus_1_64)
  ultimately show "re_written r = length S"
    using assms by (auto simp: re_ok_def re_written_def)
qed

theorem reassembler_within_capacity_witness:
  "length (reader_peek (re_output (reassembler_new (byte_stream_new 3)))) +
   count_bytes_pending (reassembler_new (byte_stream_new 3)) \<le> 3"
proof -
  have ok: "re_ok [1] (reassembler_new (byte_stream_new 3))" by (rule re_ok_new) simp
  show ?thesis
    using reassembler_within_capacity [OF ok] by (simp add: reassembler_new_def byte_stream_new_def)
qed

text \<open>C8: substrings that together cover the source, arriving in any order, with any
  overlaps and repetitions, come out as the source, and the stream is closed, when the
  capacity holds the source and one substring was flagged as the last.\<close>

theorem reassembles_any_order:
  assumes "length S \<le> unat capacity" and "length S + unat capacity < 2 ^ 64 - 1"
    and "\<forall>g\<in>set gs. fits_source S g"
    and "{i. i < length S} \<subseteq> (\<Union>g\<in>set gs. covered (length S) g)"
    and "\<exists>first data. (first, data, True) \<in> set gs"
  shows "reader_peek (re_output (foldl insert_substring (reassembler_new (byte_stream_new capacity)) gs)) = S
    \<and> is_closed (re_output (foldl insert_substring (reassembler_new (byte_stream_new capacity)) gs))"
proof -
  let ?new = "reassembler_new (byte_stream_new capacity)"
  let ?r = "foldl insert_substring ?new gs"
  note new = re_ok_new [OF assms(2)]
  have ok: "re_ok S ?r" by (rule re.ok_all [OF new(1) assms(3)])
  have grow: "covered (length S) g \<subseteq> covered (unat capacity) g" for g
    using assms(1) by (auto simp: covered_def split: prod.splits)
  have "length S \<le> re_written ?r"
  proof (rule re.written_covers [OF new(1) assms(3)])
    fix i
    assume "i < length S"
    with assms(4) obtain g where "g \<in> set gs" "i \<in> covered (length S) g" by blast
    then show "i \<in> re_known ?new \<or> (\<exists>g\<in>set gs. i \<in> covered (re_limit ?new) g)"
      using grow unfolding new(3) by blast
  qed
  then have all: "re_written ?r = length S" using re_ok_written_le [OF ok] by simp
  have "re_end_of_stream ?r = of_nat (length S)"
    using assms(5) insert_all [OF new(1) assms(3)] by simp
  then have "unat (re_end_of_stream ?r) = length S"
    using assms(2) by (simp add: unat_of_nat)
  with all have closed: "bs_stream_closed (re_output ?r)" using re_ok_closed [OF ok] by blast
  have "bs_total_popped (re_output ?r) = 0"
    using insert_all [OF new(1) assms(3)] by (simp add: reassembler_new_def byte_stream_new_def)
  then have "reader_peek (re_output ?r) = S"
    using ok all by (simp add: re_ok_def re_core_def re_written_def reader_peek_def)
  with closed show ?thesis by (simp add: is_closed_def)
qed

theorem reassembles_any_order_witness:
  "reader_peek (re_output (foldl insert_substring (reassembler_new (byte_stream_new 8))
     [(2, [30, 40], True), (1, [20, 30], False), (0, [10], False)])) = [10, 20, 30, 40]"
proof -
  let ?gs = "[(2, [30, 40], True), (1, [20, 30], False), (0, [10], False)] :: substring list"
  have cover: "{i. i < length [10, 20, 30, 40 :: u8]} \<subseteq>
      (\<Union>g\<in>set ?gs. covered (length [10, 20, 30, 40 :: u8]) g)"
    by (auto simp: covered_def)
  show ?thesis
    by (rule reassembles_any_order [THEN conjunct1])
      (use cover in \<open>auto simp: fits_source_def substring_of_def\<close>)
qed

end
