(* ===== verification/Tcp_Receiver.thy ===== *)
theory Tcp_Receiver
  imports Tcp_Messages Reassembler
begin

text \<open>
  The TCP receiver of \<open>src/tcp_receiver.hh\<close> and \<open>src/tcp_receiver.cc\<close>: it maps the
  sequence numbers of incoming segments to stream indices, gives the payloads to the
  reassembler, and reports the acknowledgment number and the window.
\<close>

record tcp_receiver =
  rc_reassembler :: reassembler
  rc_ISN :: "wrap32 option"

definition tcp_receiver_new :: "reassembler \<Rightarrow> tcp_receiver" where
  "tcp_receiver_new r = \<lparr>rc_reassembler = r, rc_ISN = None\<rparr>"

definition receiver_receive :: "tcp_receiver \<Rightarrow> tcp_sender_message \<Rightarrow> tcp_receiver" where
  "receiver_receive rc message =
     (let rc = (if sm_SYN message then rc\<lparr>rc_ISN := Some (sm_seqno message)\<rparr> else rc);
          rc = (if sm_RST message
                then rc\<lparr>rc_reassembler := reassembler_set_error (rc_reassembler rc)\<rparr> else rc)
      in case rc_ISN rc of
           None \<Rightarrow> rc
         | Some isn \<Rightarrow>
             (let checkpoint = bytes_pushed (re_output (rc_reassembler rc));
                  abs_seqno = unwrap (sm_seqno message) isn checkpoint;
                  stream_index = (if sm_SYN message then 0 else abs_seqno - 1)
              in rc\<lparr>rc_reassembler :=
                   reassembler_insert (rc_reassembler rc) stream_index
                     (sm_payload message) (sm_FIN message)\<rparr>))"

definition receiver_send :: "tcp_receiver \<Rightarrow> tcp_receiver_message" where
  "receiver_send rc =
     (let out = re_output (rc_reassembler rc);
          ackno = (case rc_ISN rc of
             None \<Rightarrow> None
           | Some isn \<Rightarrow>
               (let abs_ackno = bytes_pushed out + 1;
                    abs_ackno = (if is_closed out then abs_ackno + 1 else abs_ackno)
                in Some (wrap abs_ackno isn)))
      in \<lparr>rm_ackno = ackno,
          rm_window_size = ucast (min (available_capacity out) 65535),
          rm_RST = has_error out\<rparr>)"

text \<open>The application reads from the receiver's inbound stream.\<close>

definition receiver_pop :: "tcp_receiver \<Rightarrow> u64 \<Rightarrow> tcp_receiver" where
  "receiver_pop rc n = rc\<lparr>rc_reassembler := reassembler_pop (rc_reassembler rc) n\<rparr>"

subsection \<open>Segments of a stream\<close>

text \<open>A segment that a correct sender of the byte string \<open>S\<close> with initial sequence
  number \<open>isn\<close> makes: its payload starts at stream index \<open>i\<close>.\<close>

definition segment_of :: "bytes \<Rightarrow> wrap32 \<Rightarrow> nat \<Rightarrow> tcp_sender_message \<Rightarrow> bool" where
  "segment_of S isn i m \<longleftrightarrow>
     (if sm_SYN m then i = 0 \<and> sm_seqno m = isn else sm_seqno m = wrap (of_nat (i + 1)) isn)
     \<and> i < 2 ^ 64 - 1 \<and> substring_of S (of_nat i) (sm_payload m) (sm_FIN m)"

text \<open>The receiver agrees with such a sender.\<close>

definition rc_ok :: "bytes \<Rightarrow> wrap32 \<Rightarrow> tcp_receiver \<Rightarrow> bool" where
  "rc_ok S isn rc \<longleftrightarrow> re_ok S (rc_reassembler rc)
     \<and> (rc_ISN rc = Some isn \<or> rc_ISN rc = None \<and> re_known (rc_reassembler rc) = {})"

lemma re_set_error_fields [simp]:
  "re_ok S (reassembler_set_error r) = re_ok S r"
  "re_known (reassembler_set_error r) = re_known r"
  "re_limit (reassembler_set_error r) = re_limit r"
  "re_written (reassembler_set_error r) = re_written r"
  by (simp_all add: reassembler_set_error_def re_ok_def re_core_def set_error_def bs_ok_def
      known_def re_limit_def re_written_def)

lemma receive_segment_index:
  assumes seg: "segment_of S isn i m" and no_syn: "\<not> sm_SYN m"
    and close: "nat_dist (i + 1) (unat c) < 2 ^ 31"
  shows "unwrap (sm_seqno m) isn c - 1 = of_nat i"
proof -
  have "unat (of_nat (i + 1) :: u64) = i + 1"
    using seg by (intro unat_of_nat_64) (simp add: segment_of_def)
  then have "near (of_nat (i + 1)) c" using close by simp
  then have "unwrap (sm_seqno m) isn c = of_nat (i + 1)"
    using w32.dec_enc seg no_syn by (simp add: segment_of_def)
  then show ?thesis by simp
qed

text \<open>A legitimate segment near the window reaches the reassembler at its index.\<close>

lemma receive_segment:
  assumes ok: "rc_ok S isn rc" and seg: "segment_of S isn i m"
    and close: "sm_SYN m \<or> nat_dist (i + 1) (re_written (rc_reassembler rc)) < 2 ^ 31"
    and started: "sm_SYN m \<or> rc_ISN rc \<noteq> None"
  defines "re \<equiv> (if sm_RST m then reassembler_set_error (rc_reassembler rc) else rc_reassembler rc)"
  shows "receiver_receive rc m =
    \<lparr>rc_reassembler = reassembler_insert re (of_nat i) (sm_payload m) (sm_FIN m), rc_ISN = Some isn\<rparr>"
proof -
  have pushed: "bytes_pushed (re_output re) = bytes_pushed (re_output (rc_reassembler rc))"
    by (simp add: re_def reassembler_set_error_def set_error_def bytes_pushed_def)
  show ?thesis
  proof (cases "sm_SYN m")
    case True
    with seg have "i = 0" "sm_seqno m = isn" by (simp_all add: segment_of_def)
    with True show ?thesis by (simp add: receiver_receive_def re_def Let_def)
  next
    case False
    with started ok have isn: "rc_ISN rc = Some isn" by (auto simp: rc_ok_def)
    have "unwrap (sm_seqno m) isn (bytes_pushed (re_output re)) - 1 = of_nat i"
      using receive_segment_index [OF seg False, of "bytes_pushed (re_output re)"] close False pushed
      by (simp add: re_written_def bytes_pushed_def)
    with False isn show ?thesis
      unfolding re_def by (cases rc; cases "sm_RST m") (simp_all add: receiver_receive_def)
  qed
qed

lemma receive_before_SYN:
  "rc_ISN rc = None \<Longrightarrow> \<not> sm_SYN m \<Longrightarrow> receiver_receive rc m =
    (if sm_RST m then rc\<lparr>rc_reassembler := reassembler_set_error (rc_reassembler rc)\<rparr> else rc)"
  by (simp add: receiver_receive_def)

lemma rc_ok_new:
  "length S + unat capacity < 2 ^ 64 - 1 \<Longrightarrow>
   rc_ok S isn (tcp_receiver_new (reassembler_new (byte_stream_new capacity)))"
  using re_ok_new by (simp add: rc_ok_def tcp_receiver_new_def)

lemma rc_ok_receive:
  assumes "rc_ok S isn rc" and "segment_of S isn i m"
    and "sm_SYN m \<or> nat_dist (i + 1) (re_written (rc_reassembler rc)) < 2 ^ 31"
  shows "rc_ok S isn (receiver_receive rc m)"
proof (cases "sm_SYN m \<or> rc_ISN rc \<noteq> None")
  case True
  have "substring_of S (of_nat i) (sm_payload m) (sm_FIN m)"
    using assms(2) by (simp add: segment_of_def)
  moreover have "re_ok S (rc_reassembler rc)" using assms(1) by (simp add: rc_ok_def)
  ultimately show ?thesis
    unfolding receive_segment [OF assms True] rc_ok_def
    by (simp add: reassembler_insert_spec(1))
next
  case False
  with assms(1) show ?thesis by (simp add: receive_before_SYN rc_ok_def)
qed

lemma unat_window:
  assumes "bs_ok (re_output (rc_reassembler rc))"
  shows "unat (rm_window_size (receiver_send rc)) = min (room (re_output (rc_reassembler rc))) 65535"
  using unat_available_capacity [OF assms]
  by (simp add: receiver_send_def Let_def unat_ucast_mod min_def word_le_nat_alt)

text \<open>The acknowledgment number: one for the SYN, the bytes written, one for the FIN once
  the stream is closed.\<close>

definition next_needed :: "tcp_receiver \<Rightarrow> nat" where
  "next_needed rc = re_written (rc_reassembler rc) + 1
     + of_bool (is_closed (re_output (rc_reassembler rc)))"

lemma receiver_ackno:
  "rm_ackno (receiver_send rc) = map_option (wrap (of_nat (next_needed rc))) (rc_ISN rc)"
proof -
  have "of_nat (next_needed rc) = bytes_pushed (re_output (rc_reassembler rc)) + 1
      + of_bool (is_closed (re_output (rc_reassembler rc)))"
    by (simp add: next_needed_def re_written_def bytes_pushed_def)
  then show ?thesis by (cases "rc_ISN rc") (simp_all add: receiver_send_def Let_def)
qed

subsection \<open>Properties\<close>

text \<open>C30: a legitimate segment near the window keeps the receiver consistent with the
  sender's stream; once the SYN is known its bytes within capacity become known, and the
  next acknowledgment is for the first byte that is not known.\<close>

theorem receiver_receive_segment:
  assumes "rc_ok S isn rc" and "segment_of S isn i m"
    and "sm_SYN m \<or> nat_dist (i + 1) (re_written (rc_reassembler rc)) < 2 ^ 31"
    and "sm_SYN m \<or> rc_ISN rc \<noteq> None"
  shows "rc_ok S isn (receiver_receive rc m)
    \<and> re_known (rc_reassembler (receiver_receive rc m)) = re_known (rc_reassembler rc) \<union>
        {j. i \<le> j \<and> j < i + length (sm_payload m) \<and> j < re_limit (rc_reassembler rc)}
    \<and> rm_ackno (receiver_send (receiver_receive rc m)) =
        Some (wrap (of_nat ((LEAST j. j \<notin> re_known (rc_reassembler (receiver_receive rc m))) + 1
          + of_bool (is_closed (re_output (rc_reassembler (receiver_receive rc m)))))) isn)"
proof (intro conjI)
  have i: "unat (of_nat i :: u64) = i"
    using assms(2) by (intro unat_of_nat_64) (simp add: segment_of_def)
  have sub: "substring_of S (of_nat i) (sm_payload m) (sm_FIN m)"
    using assms(2) by (simp add: segment_of_def)
  have re: "re_ok S (rc_reassembler rc)" using assms(1) by (simp add: rc_ok_def)
  show ok: "rc_ok S isn (receiver_receive rc m)" by (rule rc_ok_receive [OF assms(1-3)])
  show "re_known (rc_reassembler (receiver_receive rc m)) = re_known (rc_reassembler rc) \<union>
      {j. i \<le> j \<and> j < i + length (sm_payload m) \<and> j < re_limit (rc_reassembler rc)}"
    using re by (simp add: receive_segment [OF assms] reassembler_insert_spec(2) [OF _ sub] i)
  have "re_ok S (rc_reassembler (receiver_receive rc m))" using ok by (simp add: rc_ok_def)
  then show "rm_ackno (receiver_send (receiver_receive rc m)) =
        Some (wrap (of_nat ((LEAST j. j \<notin> re_known (rc_reassembler (receiver_receive rc m))) + 1
          + of_bool (is_closed (re_output (rc_reassembler (receiver_receive rc m)))))) isn)"
    unfolding receiver_ackno next_needed_def
    by (simp add: re.written_is_Least receive_segment [OF assms])
qed

theorem receiver_receive_segment_witness:
  "re_known (rc_reassembler (receiver_receive
     (tcp_receiver_new (reassembler_new (byte_stream_new 10)))
     \<lparr>sm_seqno = Wrap32 7, sm_SYN = True, sm_payload = [1, 2], sm_FIN = True, sm_RST = False\<rparr>))
   = {0, 1}"
proof -
  let ?m = "\<lparr>sm_seqno = Wrap32 7, sm_SYN = True, sm_payload = [1, 2], sm_FIN = True, sm_RST = False\<rparr>"
  have ok: "rc_ok [1, 2] (Wrap32 7) (tcp_receiver_new (reassembler_new (byte_stream_new 10)))"
    by (rule rc_ok_new) simp
  have seg: "segment_of [1, 2] (Wrap32 7) 0 ?m" by (simp add: segment_of_def substring_of_def)
  have fresh: "re_known (reassembler_new (byte_stream_new 10)) = {}"
    "re_limit (reassembler_new (byte_stream_new 10)) = 10"
    using re_ok_new(2,3) [of "[1, 2]" 10] by simp_all
  have "re_known (rc_reassembler (receiver_receive
      (tcp_receiver_new (reassembler_new (byte_stream_new 10))) ?m)) = {} \<union> {j. j < Suc (Suc 0) \<and> j < 10}"
    using receiver_receive_segment [OF ok seg, THEN conjunct2, THEN conjunct1] fresh
    by (simp add: tcp_receiver_new_def)
  also have "{} \<union> {j. j < Suc (Suc 0) \<and> j < 10} = {0, 1 :: nat}" by auto
  finally show ?thesis .
qed

text \<open>The reply of a consistent receiver: an acknowledgment exactly when the initial
  sequence number is known, the window is the free capacity cut to 16 bits, and the reset
  flag is the stream's error flag.\<close>

theorem receiver_send_reply:
  assumes "rc_ok S isn rc"
  shows "(rm_ackno (receiver_send rc) = None \<longleftrightarrow> rc_ISN rc = None)
    \<and> (\<forall>z. rc_ISN rc = Some z \<longrightarrow> rm_ackno (receiver_send rc) = Some (wrap (of_nat (next_needed rc)) z))
    \<and> unat (rm_window_size (receiver_send rc)) = min (room (re_output (rc_reassembler rc))) 65535
    \<and> rm_RST (receiver_send rc) = has_error (re_output (rc_reassembler rc))"
proof -
  have "bs_ok (re_output (rc_reassembler rc))"
    using assms by (simp add: rc_ok_def re_ok_def re_core_def)
  then have "unat (rm_window_size (receiver_send rc)) = min (room (re_output (rc_reassembler rc))) 65535"
    by (rule unat_window)
  then show ?thesis by (simp add: receiver_ackno) (simp add: receiver_send_def Let_def)
qed

theorem receiver_send_reply_witness:
  "unat (rm_window_size (receiver_send
     (tcp_receiver_new (reassembler_new (byte_stream_new 100000))))) = 65535"
proof -
  have ok: "rc_ok [] (Wrap32 0) (tcp_receiver_new (reassembler_new (byte_stream_new 100000)))"
    by (rule rc_ok_new) simp
  have "unat (rm_window_size (receiver_send (tcp_receiver_new (reassembler_new (byte_stream_new 100000)))))
      = min (room (re_output (reassembler_new (byte_stream_new 100000)))) 65535"
    using receiver_send_reply [OF ok] by (simp add: tcp_receiver_new_def)
  then show ?thesis by (simp add: room_def reassembler_new_def byte_stream_new_def)
qed

text \<open>C39: at any point of a transfer, when \<open>p\<close> bytes have been written to the inbound stream and more
  are to come, a segment that repeats the initial sequence number without the SYN flag, with
  \<open>p + 1\<close> bytes of any kind and the FIN flag, makes the receiver close the stream and acknowledge a
  FIN, although no sender of the stream makes such a segment and none of its bytes is taken: its
  stream index wraps around to the largest number, beyond every window, yet the end of the stream is
  recorded before the index is looked at, and has wrapped around to \<open>p\<close>.\<close>

theorem stray_FIN_closes_stream:
  assumes "rc_ok S isn rc" and "rc_ISN rc = Some isn" and "length S < 2 ^ 31 - 1"
    and "re_written (rc_reassembler rc) < length S"
    and "sm_seqno m = isn" and "\<not> sm_SYN m" and "sm_FIN m" and "\<not> sm_RST m"
    and "length (sm_payload m) = Suc (re_written (rc_reassembler rc))"
  shows "(\<forall>i. \<not> segment_of S isn i m)
    \<and> is_closed (re_output (rc_reassembler (receiver_receive rc m)))
    \<and> reader_peek (re_output (rc_reassembler (receiver_receive rc m))) = reader_peek (re_output (rc_reassembler rc))
    \<and> re_written (rc_reassembler (receiver_receive rc m)) = re_written (rc_reassembler rc)
    \<and> rm_ackno (receiver_send (receiver_receive rc m)) = Some (wrap (of_nat (re_written (rc_reassembler rc) + 2)) isn)"
proof -
  let ?r = "rc_reassembler rc"
  let ?P = "bs_total_pushed (re_output ?r)" and ?limit = "bs_total_pushed (re_output ?r) + available_capacity (re_output ?r)"
  have isn: "wrap 0 isn = isn" by (simp add: wrap_def wrap32_plus_def)
  have none: "Mapping.lookup (re_unassembled ?r) ?P = None" using assms(1) by (simp add: rc_ok_def re_ok_def)
  have "nat_dist (unat (0 :: u64)) (unat ?P) < 2 ^ 31"
    using assms(3,4) by (simp add: nat_dist_def re_written_def)
  then have index: "unwrap isn isn ?P = 0" using w32.dec_enc [of 0 ?P isn] by (simp add: isn)
  obtain b bs where payload: "sm_payload m = b # bs" using assms(9) by (cases "sm_payload m") simp_all
  have "\<not> - 1 < ?limit" by simp
  then have beyond: "store_bytes (re_unassembled ?r) (- 1) (sm_payload m) ?P ?limit = re_unassembled ?r"
    by (simp add: payload not_less)
  have eos: "- 1 + len64 (sm_payload m) - 1 + 1 = ?P"
    using assms(9) by (simp add: re_written_def)
  have insert: "reassembler_insert ?r (- 1) (sm_payload m) True =
      ?r\<lparr>re_output := writer_close (re_output ?r), re_end_of_stream := ?P\<rparr>"
    unfolding reassembler_insert_def Let_def bytes_pushed_def if_True eos beyond assemble.simps [of _ _ ?P] none
    by simp
  have recv: "receiver_receive rc m = rc\<lparr>rc_reassembler := ?r\<lparr>re_output := writer_close (re_output ?r), re_end_of_stream := ?P\<rparr>\<rparr>"
    using assms(2,5-8) insert index by (simp add: receiver_receive_def bytes_pushed_def)
  have "\<not> segment_of S isn i m" for i
  proof
    assume seg: "segment_of S isn i m"
    then have i: "i < 2 ^ 64 - 1" "wrap (of_nat (i + 1)) isn = isn" "unat (of_nat i :: u64) + length (sm_payload m) \<le> length S"
      using assms(5,6) by (auto simp: segment_of_def substring_of_def)
    have "unat (of_nat i :: u64) = i" "unat (of_nat (i + 1) :: u64) = i + 1"
      using i(1) by (intro unat_of_nat_64; simp)+
    moreover from this have "nat_dist (unat (of_nat (i + 1) :: u64)) (unat (0 :: u64)) < 2 ^ 31"
      using i(3) assms(3) payload by (simp add: nat_dist_def)
    ultimately show False
      using w32.enc_inj_near [of "of_nat (i + 1)" isn 0 0] i(2) isn by (simp add: nat_dist_def)
  qed
  then show ?thesis
    unfolding receiver_ackno next_needed_def recv using assms(2)
    by (simp add: is_closed_def writer_close_def reader_peek_def re_written_def)
qed

text \<open>After two of three bytes have arrived.\<close>

theorem stray_FIN_closes_stream_witness:
  "is_closed (re_output (rc_reassembler (receiver_receive
     (receiver_receive (tcp_receiver_new (reassembler_new (byte_stream_new 10)))
        \<lparr>sm_seqno = Wrap32 7, sm_SYN = True, sm_payload = [1, 2], sm_FIN = False, sm_RST = False\<rparr>)
     \<lparr>sm_seqno = Wrap32 7, sm_SYN = False, sm_payload = [4, 5, 6], sm_FIN = True, sm_RST = False\<rparr>)))"
proof -
  let ?m = "\<lparr>sm_seqno = Wrap32 7, sm_SYN = True, sm_payload = [1, 2], sm_FIN = False, sm_RST = False\<rparr>"
  let ?f = "\<lparr>sm_seqno = Wrap32 7, sm_SYN = False, sm_payload = [4, 5, 6], sm_FIN = True, sm_RST = False\<rparr>"
  let ?rc = "receiver_receive (tcp_receiver_new (reassembler_new (byte_stream_new 10))) ?m"
  have new: "rc_ok [1, 2, 3] (Wrap32 7) (tcp_receiver_new (reassembler_new (byte_stream_new 10)))"
    by (rule rc_ok_new) simp
  have seg: "segment_of [1, 2, 3] (Wrap32 7) 0 ?m" by (simp add: segment_of_def substring_of_def)
  have ok: "rc_ok [1, 2, 3] (Wrap32 7) ?rc" by (rule rc_ok_receive [OF new seg]) simp
  have isn: "rc_ISN ?rc = Some (Wrap32 7)" by (simp add: receiver_receive_def Let_def)
  have two: "re_written (rc_reassembler ?rc) = 2" by code_simp
  show ?thesis
    using stray_FIN_closes_stream [OF ok isn, of ?f] by (simp add: two)
qed

end
