(* ===== verification/Tcp_Link.thy ===== *)
theory Tcp_Link
  imports Tcp_Sender Tcp_Receiver
begin

text \<open>
  One direction of a connection: the sender of \<open>src/tcp_sender.cc\<close>, the receiver of
  \<open>src/tcp_receiver.cc\<close>, and a network between them that may lose, repeat, delay and
  reorder what it carries. The network is the set of all messages ever handed to it, so a
  delivery takes any of them and leaves it there. The lemmas show that the receiver's
  stream is a prefix of what was written, and that what the sender believes to be
  acknowledged has arrived.
\<close>

record link =
  lk_snd :: tcp_sender
  lk_rcv :: tcp_receiver
  lk_data :: "tcp_sender_message set"
  lk_acks :: "tcp_receiver_message set"

definition link_new :: "u64 \<Rightarrow> u64 \<Rightarrow> wrap32 \<Rightarrow> u64 \<Rightarrow> link" where
  "link_new send_capacity recv_capacity isn rto =
     \<lparr>lk_snd = tcp_sender_new (byte_stream_new send_capacity) isn rto 0,
      lk_rcv = tcp_receiver_new (reassembler_new (byte_stream_new recv_capacity)),
      lk_data = {}, lk_acks = {}\<rparr>"

text \<open>The application writes, closes and reads; the sender pushes and its timer runs; the
  receiver takes a message of the network or reports its state; the sender takes a report
  that carries an acknowledgment number.\<close>

inductive link_step :: "bytes \<Rightarrow> link \<Rightarrow> unit list \<Rightarrow> link \<Rightarrow> bool" for S where
  app_write: "drop (unat (bs_total_pushed (snd_input (lk_snd l)))) S
      = take (room (snd_input (lk_snd l))) data @ rest \<Longrightarrow>
    link_step S l [] (l\<lparr>lk_snd := sender_write (lk_snd l) data\<rparr>)"
| app_close: "unat (bs_total_pushed (snd_input (lk_snd l))) = length S \<Longrightarrow>
    link_step S l [] (l\<lparr>lk_snd := sender_close (lk_snd l)\<rparr>)"
| app_read: "unat n \<le> length (bs_buffer (re_output (rc_reassembler (lk_rcv l)))) \<Longrightarrow>
    link_step S l [] (l\<lparr>lk_rcv := receiver_pop (lk_rcv l) n\<rparr>)"
| push: "sender_push (lk_snd l) = Inr (s, msgs) \<Longrightarrow>
    link_step S l [] (l\<lparr>lk_snd := s, lk_data := lk_data l \<union> set msgs\<rparr>)"
| tick: "sender_tick (lk_snd l) ms = Inr (s, msgs) \<Longrightarrow>
    link_step S l [] (l\<lparr>lk_snd := s, lk_data := lk_data l \<union> set msgs\<rparr>)"
| deliver: "m \<in> lk_data l \<Longrightarrow>
    link_step S l [] (l\<lparr>lk_rcv := receiver_receive (lk_rcv l) m\<rparr>)"
| reply: "link_step S l [] (l\<lparr>lk_acks := insert (receiver_send (lk_rcv l)) (lk_acks l)\<rparr>)"
| acknowledge: "r \<in> lk_acks l \<Longrightarrow> rm_ackno r \<noteq> None \<Longrightarrow> sender_receive (lk_snd l) r = Inr s \<Longrightarrow>
    link_step S l [] (l\<lparr>lk_snd := s\<rparr>)"

text \<open>An acknowledgment of the network is for at most what the receiver needs next.\<close>

definition honest_ack :: "wrap32 \<Rightarrow> tcp_receiver \<Rightarrow> tcp_receiver_message \<Rightarrow> bool" where
  "honest_ack isn rc r \<longleftrightarrow>
     (\<forall>w. rm_ackno r = Some w \<longrightarrow> rc_ISN rc \<noteq> None \<and> (\<exists>n. w = wrap (of_nat n) isn \<and> n \<le> next_needed rc))"

definition link_ok :: "bytes \<Rightarrow> wrap32 \<Rightarrow> link \<Rightarrow> bool" where
  "link_ok S isn l \<longleftrightarrow> length S + 2 < 2 ^ 31
     \<and> snd_ok S (lk_snd l) \<and> snd_isn (lk_snd l) = isn \<and> rc_ok S isn (lk_rcv l)
     \<and> (\<forall>m\<in>lk_data l. sent_segment S (lk_snd l) m)
     \<and> (\<forall>r\<in>lk_acks l. honest_ack isn (lk_rcv l) r)
     \<and> (\<forall>i\<in>re_known (rc_reassembler (lk_rcv l)). i + 2 \<le> unat (snd_abs_seqno (lk_snd l)))
     \<and> (rc_ISN (lk_rcv l) \<noteq> None \<longrightarrow> 1 \<le> unat (snd_abs_seqno (lk_snd l)))
     \<and> (re_end_of_stream (rc_reassembler (lk_rcv l)) = - 1 \<or> snd_FINsent (lk_snd l))
     \<and> unat (snd_abs_ackno (lk_snd l)) \<le> next_needed (lk_rcv l)"

lemma link_ok_new:
  assumes "length S + 2 < 2 ^ 31" and "length S + unat recv_capacity < 2 ^ 64 - 1"
  shows "link_ok S isn (link_new send_capacity recv_capacity isn rto)"
proof -
  have "snd_ok S (tcp_sender_new (byte_stream_new send_capacity) isn rto 0)"
    using assms(1) by (intro snd_ok_new) simp
  then show ?thesis
    using assms(1) rc_ok_new [OF assms(2)] re_ok_new(2) [OF assms(2)]
    by (simp add: link_ok_def link_new_def)
      (simp add: tcp_receiver_new_def tcp_sender_new_def reassembler_new_def)
qed

text \<open>A segment of the sender is a segment for the receiver.\<close>

lemma seg_at_segment_of:
  assumes "seg_at S isn a m" "length S + 2 < 2 ^ 31"
  shows "segment_of S isn (a - 1) m" "n \<le> length S \<Longrightarrow> nat_dist (a - 1 + 1) n < 2 ^ 31"
proof -
  have le: "a - 1 + length (sm_payload m) \<le> length S" using assms(1) by (simp add: seg_at_def)
  then have i: "unat (of_nat (a - 1) :: u64) = a - 1"
    using assms(2) by (intro unat_of_nat_64) simp
  have "sm_SYN m \<Longrightarrow> wrap (of_nat a) isn = isn"
    using assms(1) by (cases isn) (simp add: seg_at_def wrap_def wrap32_plus_def)
  then show "segment_of S isn (a - 1) m"
    using assms le unfolding segment_of_def substring_of_def i seg_at_def by auto
  show "n \<le> length S \<Longrightarrow> nat_dist (a - 1 + 1) n < 2 ^ 31"
    using assms(2) le by (auto simp: nat_dist_def)
qed

lemma re_ok_closed_end:
  assumes "re_ok S r" "bs_stream_closed (re_output r)"
  shows "re_end_of_stream r \<noteq> - 1" "re_written r = length S"
proof -
  have pushed: "re_end_of_stream r = bs_total_pushed (re_output r)"
    and core: "re_core S (re_output r) (re_unassembled r)"
    and end_cases: "re_end_of_stream r = - 1 \<or> unat (re_end_of_stream r) = length S"
    using assms unfolding re_ok_def by blast+
  show "re_end_of_stream r \<noteq> - 1"
  proof
    assume "re_end_of_stream r = - 1"
    then have "unat (bs_total_pushed (re_output r)) = 2 ^ 64 - 1" using pushed unat_minus_1_64 by metis
    moreover have "unat (bs_total_pushed (re_output r)) \<le> length S"
      using core by (simp add: re_core_def)
    ultimately show False using re_core_len [OF core] by simp
  qed
  then show "re_written r = length S" using end_cases pushed by (simp add: re_written_def)
qed

lemma next_needed_le_sent:
  assumes ok: "link_ok S isn l" and isn: "rc_ISN (lk_rcv l) \<noteq> None"
  shows "next_needed (lk_rcv l) \<le> unat (snd_abs_seqno (lk_snd l))"
proof -
  let ?r = "rc_reassembler (lk_rcv l)"
  have re: "re_ok S ?r" and snd: "snd_ok S (lk_snd l)"
    using ok by (simp_all add: link_ok_def rc_ok_def)
  show ?thesis
  proof (cases "bs_stream_closed (re_output ?r)")
    case True
    then have "snd_FINsent (lk_snd l)" using re_ok_closed_end(1) [OF re True] ok by (simp add: link_ok_def)
    then show ?thesis
      using FINsent_iff [OF snd] re_ok_closed_end(2) [OF re True] True
      by (simp add: next_needed_def is_closed_def)
  next
    case False
    show ?thesis
    proof (cases "re_written ?r")
      case 0
      then show ?thesis using ok isn False by (simp add: next_needed_def is_closed_def link_ok_def)
    next
      case (Suc k)
      then have "k \<in> re_known ?r" by (intro written_known) simp
      then have "k + 2 \<le> unat (snd_abs_seqno (lk_snd l))" using ok by (auto simp: link_ok_def)
      then show ?thesis using Suc False by (simp add: next_needed_def is_closed_def)
    qed
  qed
qed

lemma next_needed_mono:
  assumes r: "re_ok S (rc_reassembler rc)" and r': "re_ok S (rc_reassembler rc')"
    and grow: "re_known (rc_reassembler rc) \<subseteq> re_known (rc_reassembler rc')"
    and fin: "re_end_of_stream (rc_reassembler rc') \<in> {of_nat (length S), re_end_of_stream (rc_reassembler rc)}"
  shows "next_needed rc \<le> next_needed rc'"
proof -
  have le: "re_written (rc_reassembler rc) \<le> re_written (rc_reassembler rc')"
  proof (rule ccontr)
    assume "\<not> ?thesis"
    then have "re_written (rc_reassembler rc') \<in> re_known (rc_reassembler rc)"
      by (intro written_known) simp
    then show False using written_not_known [OF r'] grow by blast
  qed
  moreover have "bs_stream_closed (re_output (rc_reassembler rc'))"
    if closed: "bs_stream_closed (re_output (rc_reassembler rc))"
  proof -
    note e = re_ok_closed_end [OF r closed]
    have "re_written (rc_reassembler rc') = length S"
      using le re_ok_written_le [OF r'] e(2) by simp
    moreover have "unat (re_end_of_stream (rc_reassembler rc)) = length S"
      using e(1) r by (simp add: re_ok_def)
    then have "unat (re_end_of_stream (rc_reassembler rc')) = length S"
      using fin by (metis empty_iff insert_iff of_nat_unat_id)
    ultimately show ?thesis using re_ok_closed [OF r'] by blast
  qed
  ultimately show ?thesis by (auto simp: next_needed_def is_closed_def)
qed

text \<open>A change of the sender alone.\<close>

lemma link_ok_sender:
  assumes ok: "link_ok S isn l" and step: "snd_step S (lk_snd l) msgs s"
    and ackno: "unat (snd_abs_ackno s) \<le> next_needed (lk_rcv l)"
  shows "link_ok S isn (l\<lparr>lk_snd := s, lk_data := lk_data l \<union> set msgs\<rparr>)"
proof -
  have "snd_ok S (lk_snd l)" using ok by (simp add: link_ok_def)
  note s = snd_step_ok [OF step this]
  have "sent_segment S (lk_snd l) m \<Longrightarrow> sent_segment S s m" for m
    using s by (auto intro: sent_segment_mono)
  then show ?thesis
    using ok s ackno unfolding link_ok_def by (auto intro: le_trans)
qed

text \<open>A change of the receiver that knows only what was sent.\<close>

lemma link_ok_receiver:
  assumes ok: "link_ok S isn l" and rc: "rc_ok S isn rc"
    and isn: "rc_ISN (lk_rcv l) \<noteq> None \<Longrightarrow> rc_ISN rc \<noteq> None"
    and sent: "rc_ISN rc \<noteq> None \<Longrightarrow> 1 \<le> unat (snd_abs_seqno (lk_snd l))"
    and known: "re_known (rc_reassembler (lk_rcv l)) \<subseteq> re_known (rc_reassembler rc)"
    "\<And>i. i \<in> re_known (rc_reassembler rc) \<Longrightarrow> i + 2 \<le> unat (snd_abs_seqno (lk_snd l))"
    and fin: "re_end_of_stream (rc_reassembler rc) = re_end_of_stream (rc_reassembler (lk_rcv l))
      \<or> re_end_of_stream (rc_reassembler rc) = of_nat (length S) \<and> snd_FINsent (lk_snd l)"
  shows "link_ok S isn (l\<lparr>lk_rcv := rc\<rparr>)"
proof -
  have "next_needed (lk_rcv l) \<le> next_needed rc"
    using ok rc known(1) fin by (intro next_needed_mono) (auto simp: link_ok_def rc_ok_def)
  then have "honest_ack isn (lk_rcv l) r \<Longrightarrow> honest_ack isn rc r" for r
    using isn unfolding honest_ack_def by (meson le_trans)
  with \<open>next_needed (lk_rcv l) \<le> next_needed rc\<close> show ?thesis
    using ok rc sent known(2) fin unfolding link_ok_def by auto
qed

lemma link_ok_deliver:
  assumes ok: "link_ok S isn l" and m: "m \<in> lk_data l"
  shows "link_ok S isn (l\<lparr>lk_rcv := receiver_receive (lk_rcv l) m\<rparr>)"
proof -
  let ?rc = "lk_rcv l"
  have rc: "rc_ok S isn ?rc" and snd: "snd_ok S (lk_snd l)" and S: "length S + 2 < 2 ^ 31"
    and isn: "snd_isn (lk_snd l) = isn" and sent: "sent_segment S (lk_snd l) m"
    using ok m by (simp_all add: link_ok_def)
  have re: "re_ok S (rc_reassembler ?rc)" using rc by (simp add: rc_ok_def)
  from sent isn obtain a where seg: "seg_at S isn a m" and le: "a + seq_len m \<le> unat (snd_abs_seqno (lk_snd l))"
    and fin: "sm_FIN m \<Longrightarrow> snd_FINsent (lk_snd l)"
    by (auto simp: sent_segment_def)
  note segm = seg_at_segment_of(1) [OF seg S]
  have near: "sm_SYN m \<or> nat_dist (a - 1 + 1) (re_written (rc_reassembler ?rc)) < 2 ^ 31"
    using seg_at_segment_of(2) [OF seg S re_ok_written_le [OF re]] by simp
  have rc': "rc_ok S isn (receiver_receive ?rc m)" by (rule rc_ok_receive [OF rc segm near])
  show ?thesis
  proof (cases "sm_SYN m \<or> rc_ISN ?rc \<noteq> None")
    case True
    define r where "r = (if sm_RST m then reassembler_set_error (rc_reassembler ?rc) else rc_reassembler ?rc)"
    have r: "re_ok S r" "re_known r = re_known (rc_reassembler ?rc)"
      "re_end_of_stream r = re_end_of_stream (rc_reassembler ?rc)"
      using re re_set_error_fields(1) [of S "rc_reassembler ?rc"]
        re_set_error_fields(2) [of "rc_reassembler ?rc"]
      by (simp_all add: r_def) (simp add: reassembler_set_error_def)
    have sub: "substring_of S (of_nat (a - 1)) (sm_payload m) (sm_FIN m)"
      using segm by (simp add: segment_of_def)
    have i: "unat (of_nat (a - 1) :: u64) = a - 1"
      using segm by (intro unat_of_nat_64) (simp add: segment_of_def)
    note ins = reassembler_insert_spec [OF r(1) sub]
    note eq = receive_segment [OF rc segm near True, folded r_def]
    have pos: "a = 0 \<longrightarrow> sm_SYN m" "0 < seq_len m" using seg by (simp_all add: seg_at_def)
    show ?thesis
    proof (rule link_ok_receiver [OF ok rc'])
      show "rc_ISN (receiver_receive ?rc m) \<noteq> None" by (simp add: eq)
      show "1 \<le> unat (snd_abs_seqno (lk_snd l))" using le pos(2) by simp
      show "re_known (rc_reassembler ?rc) \<subseteq> re_known (rc_reassembler (receiver_receive ?rc m))"
        using ins(2) r(2) by (auto simp: eq)
      show "i + 2 \<le> unat (snd_abs_seqno (lk_snd l))"
        if "i \<in> re_known (rc_reassembler (receiver_receive ?rc m))" for i
      proof (cases "i \<in> re_known (rc_reassembler ?rc)")
        case True
        then show ?thesis using ok by (auto simp: link_ok_def)
      next
        case False
        then have "i < a - 1 + length (sm_payload m)"
          using that ins(2) r(2) i by (auto simp: eq)
        moreover have "of_bool (sm_SYN m) + length (sm_payload m) \<le> seq_len m"
          by (simp add: seq_len_def)
        ultimately have "i + 2 \<le> a + seq_len m"
          using pos(1) by (cases "a = 0") auto
        then show ?thesis using le by simp
      qed
      show "re_end_of_stream (rc_reassembler (receiver_receive ?rc m)) = re_end_of_stream (rc_reassembler ?rc)
        \<or> re_end_of_stream (rc_reassembler (receiver_receive ?rc m)) = of_nat (length S) \<and> snd_FINsent (lk_snd l)"
        using ins(6) r(3) fin by (simp add: eq)
    qed
  next
    case False
    then have eq: "receiver_receive ?rc m = (if sm_RST m
        then ?rc\<lparr>rc_reassembler := reassembler_set_error (rc_reassembler ?rc)\<rparr> else ?rc)"
      by (simp add: receive_before_SYN)
    define r where "r = rc_reassembler (receiver_receive ?rc m)"
    have same: "re_known r = re_known (rc_reassembler ?rc)"
      "re_end_of_stream r = re_end_of_stream (rc_reassembler ?rc)"
      "rc_ISN (receiver_receive ?rc m) = rc_ISN ?rc"
      unfolding r_def eq using re_set_error_fields(2) [of "rc_reassembler ?rc"]
      by simp_all (simp add: reassembler_set_error_def)
    show ?thesis
      using ok by (intro link_ok_receiver [OF ok rc', folded r_def]) (auto simp: same link_ok_def)
  qed
qed

lemma link_ok_read:
  assumes ok: "link_ok S isn l"
    and n: "unat n \<le> length (bs_buffer (re_output (rc_reassembler (lk_rcv l))))"
  shows "link_ok S isn (l\<lparr>lk_rcv := receiver_pop (lk_rcv l) n\<rparr>)"
proof -
  let ?rc = "lk_rcv l"
  have same: "re_known (rc_reassembler (receiver_pop ?rc n)) = re_known (rc_reassembler ?rc)"
    "rc_ISN (receiver_pop ?rc n) = rc_ISN ?rc"
    "re_end_of_stream (rc_reassembler (receiver_pop ?rc n)) = re_end_of_stream (rc_reassembler ?rc)"
    by (simp_all add: receiver_pop_def reassembler_pop_def reader_pop_def known_def)
  have re: "re_ok S (rc_reassembler ?rc)" and isn: "rc_ISN ?rc = Some isn \<or> rc_ISN ?rc = None \<and> re_known (rc_reassembler ?rc) = {}"
    using ok by (simp_all add: link_ok_def rc_ok_def)
  have "re_ok S (rc_reassembler (receiver_pop ?rc n))"
    using re_ok_pop [OF re n] by (simp add: receiver_pop_def)
  then have "rc_ok S isn (receiver_pop ?rc n)"
    using isn unfolding rc_ok_def same by blast
  then show ?thesis
    using ok by (intro link_ok_receiver) (auto simp: same link_ok_def)
qed

lemma link_step_ok:
  assumes "link_step S l out l'" and "link_ok S isn l"
  shows "link_ok S isn l'"
  using assms
proof (induction rule: link_step.induct)
  case (app_write l data rest)
  have "snd_step S (lk_snd l) [] (sender_write (lk_snd l) data)"
    by (rule snd_step.app_write) (rule app_write(1))
  from link_ok_sender [OF app_write(2) this] app_write(2) show ?case
    by (simp add: link_ok_def sender_write_def)
next
  case (app_close l)
  have "snd_step S (lk_snd l) [] (sender_close (lk_snd l))"
    by (rule snd_step.app_close) (rule app_close(1))
  from link_ok_sender [OF app_close(2) this] app_close(2) show ?case
    by (simp add: link_ok_def sender_close_def)
next
  case (app_read n l)
  then show ?case by (simp add: link_ok_read)
next
  case (push l s msgs)
  then have "pushes S (lk_snd l) s msgs"
    using sender_push_pushes [of S "lk_snd l"] by (auto simp: link_ok_def)
  then show ?case
    using push link_ok_sender [OF push(2) snd_step.push [OF push(1)]] by (simp add: pushes_def link_ok_def)
next
  case (tick l ms s msgs)
  then have "snd_abs_ackno s = snd_abs_ackno (lk_snd l)"
    using sender_tick_total [of S "lk_snd l" ms] by (auto simp: link_ok_def)
  then show ?case
    using tick link_ok_sender [OF tick(2) snd_step.tick [OF tick(1)]] by (simp add: link_ok_def)
next
  case (deliver m l)
  then show ?case by (simp add: link_ok_deliver)
next
  case (reply l)
  have "honest_ack isn (lk_rcv l) (receiver_send (lk_rcv l))"
    using reply unfolding honest_ack_def receiver_ackno by (auto simp: link_ok_def rc_ok_def)
  then show ?case using reply by (simp add: link_ok_def)
next
  case (acknowledge r l s)
  then have ok: "snd_ok S (lk_snd l)" and isn: "snd_isn (lk_snd l) = isn"
    and S: "length S + 2 < 2 ^ 31" and ackno: "unat (snd_abs_ackno (lk_snd l)) \<le> next_needed (lk_rcv l)"
    by (simp_all add: link_ok_def)
  have "honest_ack isn (lk_rcv l) r" using acknowledge by (simp add: link_ok_def)
  with acknowledge(2) obtain n where n: "rm_ackno r = Some (wrap (of_nat n) (snd_isn (lk_snd l)))"
    "n \<le> next_needed (lk_rcv l)" "rc_ISN (lk_rcv l) \<noteq> None"
    unfolding honest_ack_def isn by auto
  have le: "n \<le> unat (snd_abs_seqno (lk_snd l))"
    using next_needed_le_sent [OF acknowledge(4) n(3)] n(2) by simp
  have near: "nat_dist n (popped (lk_snd l)) < 2 ^ 31"
    using le snd_ok_bounds(2,3) [OF ok] S unfolding nat_dist_def by auto
  have "s = ack_state (lk_snd l) r n"
    using sender_receive_ack [OF ok n(1) ackno_covers [OF ok le] near] acknowledge(3) by simp
  then have "unat (snd_abs_ackno s) \<le> next_needed (lk_rcv l)"
    using ack_state_ackno [OF le] n(2) ackno by simp
  with link_ok_sender [OF acknowledge(4) snd_step.ack [OF n(1) le near acknowledge(3)]]
  show ?case by simp
qed

interpretation lk: step_invariant "link_step S" "link_ok S isn" "\<lambda>_ _. True" for S isn
  by unfold_locales (auto intro: link_step_ok)

lemma link_run_ok:
  assumes "length S + 2 < 2 ^ 31" and "length S + unat recv_capacity < 2 ^ 64 - 1"
    and "runs (link_step S) (link_new send_capacity recv_capacity isn rto) log l"
  shows "link_ok S isn l"
  using lk.run_inv [OF assms(3) link_ok_new [OF assms(1,2)]] .

subsection \<open>Schedules\<close>

text \<open>A run can be computed from a schedule that names each step.\<close>

datatype link_event = Write bytes | Close | Read u64 | Push | Tick u64
  | Deliver tcp_sender_message | Reply | Acknowledge tcp_receiver_message

fun link_exec1 :: "bytes \<Rightarrow> link \<Rightarrow> link_event \<Rightarrow> link option" where
  "link_exec1 S l (Write data) =
     (let new = take (room (snd_input (lk_snd l))) data;
          left = drop (unat (bs_total_pushed (snd_input (lk_snd l)))) S
      in if take (length new) left = new then Some (l\<lparr>lk_snd := sender_write (lk_snd l) data\<rparr>) else None)"
| "link_exec1 S l Close =
     (if unat (bs_total_pushed (snd_input (lk_snd l))) = length S
      then Some (l\<lparr>lk_snd := sender_close (lk_snd l)\<rparr>) else None)"
| "link_exec1 S l (Read n) =
     (if unat n \<le> length (bs_buffer (re_output (rc_reassembler (lk_rcv l))))
      then Some (l\<lparr>lk_rcv := receiver_pop (lk_rcv l) n\<rparr>) else None)"
| "link_exec1 S l Push = (case sender_push (lk_snd l) of Inl _ \<Rightarrow> None
     | Inr (s, msgs) \<Rightarrow> Some (l\<lparr>lk_snd := s, lk_data := lk_data l \<union> set msgs\<rparr>))"
| "link_exec1 S l (Tick ms) = (case sender_tick (lk_snd l) ms of Inl _ \<Rightarrow> None
     | Inr (s, msgs) \<Rightarrow> Some (l\<lparr>lk_snd := s, lk_data := lk_data l \<union> set msgs\<rparr>))"
| "link_exec1 S l (Deliver m) =
     (if m \<in> lk_data l then Some (l\<lparr>lk_rcv := receiver_receive (lk_rcv l) m\<rparr>) else None)"
| "link_exec1 S l Reply = Some (l\<lparr>lk_acks := insert (receiver_send (lk_rcv l)) (lk_acks l)\<rparr>)"
| "link_exec1 S l (Acknowledge r) =
     (if r \<in> lk_acks l \<and> rm_ackno r \<noteq> None
      then (case sender_receive (lk_snd l) r of Inl _ \<Rightarrow> None | Inr s \<Rightarrow> Some (l\<lparr>lk_snd := s\<rparr>))
      else None)"

fun link_exec :: "bytes \<Rightarrow> link \<Rightarrow> link_event list \<Rightarrow> link option" where
  "link_exec S l [] = Some l"
| "link_exec S l (e # es) = (case link_exec1 S l e of None \<Rightarrow> None | Some l' \<Rightarrow> link_exec S l' es)"

lemma take_length_eqD: "take (length xs) ys = xs \<Longrightarrow> \<exists>zs. ys = xs @ zs"
  by (metis append_take_drop_id)

lemma link_exec1_step: "link_exec1 S l e = Some l' \<Longrightarrow> link_step S l [] l'"
proof (induction S l e rule: link_exec1.induct)
  case (1 S l data)
  let ?new = "take (room (snd_input (lk_snd l))) data"
  from 1 have "take (length ?new) (drop (unat (bs_total_pushed (snd_input (lk_snd l)))) S) = ?new"
    and l': "l' = l\<lparr>lk_snd := sender_write (lk_snd l) data\<rparr>"
    by (simp_all only: link_exec1.simps Let_def option.inject option.distinct split: if_splits)
  from take_length_eqD [OF this(1)] show ?case unfolding l' using link_step.app_write by blast
next
  case (2 S l)
  then show ?case by (auto intro: link_step.app_close split: if_splits)
next
  case (3 S l n)
  then show ?case by (auto intro: link_step.app_read split: if_splits)
next
  case (4 S l)
  then show ?case by (auto intro: link_step.push split: sum.splits)
next
  case (5 S l ms)
  then show ?case by (auto intro: link_step.tick split: sum.splits)
next
  case (6 S l m)
  then show ?case by (auto intro: link_step.deliver split: if_splits)
next
  case (7 S l)
  then show ?case by (auto intro: link_step.reply)
next
  case (8 S l r)
  then have "r \<in> lk_acks l" "rm_ackno r \<noteq> None"
    by (auto simp only: link_exec1.simps split: if_splits)
  with 8 show ?case by (auto intro: link_step.acknowledge split: if_splits sum.splits)
qed

lemma link_exec_runs: "link_exec S l es = Some l' \<Longrightarrow> runs (link_step S) l0 log l \<Longrightarrow> \<exists>log'. runs (link_step S) l0 log' l'"
proof (induction S l es arbitrary: log rule: link_exec.induct)
  case (2 S l e es)
  then obtain m where m: "link_exec1 S l e = Some m" "link_exec S m es = Some l'"
    by (auto split: option.splits)
  have "runs (link_step S) l0 (log @ []) m"
    by (rule runs.step [OF 2(3) link_exec1_step [OF m(1)]])
  then show ?case by (rule "2.IH" [OF m])
next
  case (1 S l)
  then show ?case by auto
qed

text \<open>A transfer of one byte: the SYN, then the byte with the FIN, the second segment
  delivered twice.\<close>

definition demo_schedule :: "link_event list" where
  "demo_schedule =
     [Write [7], Close, Push,
      Deliver \<lparr>sm_seqno = Wrap32 5, sm_SYN = True, sm_payload = [], sm_FIN = False, sm_RST = False\<rparr>,
      Reply, Acknowledge \<lparr>rm_ackno = Some (Wrap32 6), rm_window_size = 9, rm_RST = False\<rparr>, Push,
      Deliver \<lparr>sm_seqno = Wrap32 6, sm_SYN = False, sm_payload = [7], sm_FIN = True, sm_RST = False\<rparr>,
      Deliver \<lparr>sm_seqno = Wrap32 6, sm_SYN = False, sm_payload = [7], sm_FIN = True, sm_RST = False\<rparr>,
      Reply, Acknowledge \<lparr>rm_ackno = Some (Wrap32 8), rm_window_size = 8, rm_RST = False\<rparr>]"

lemma demo_run:
  "\<exists>l log. runs (link_step [7]) (link_new 9 9 (Wrap32 5) 100) log l
     \<and> snd_FINsent (lk_snd l) \<and> sequence_numbers_in_flight (lk_snd l) = 0
     \<and> reader_peek (re_output (rc_reassembler (lk_rcv l))) = [7]"
proof -
  have "map_option (\<lambda>l. (snd_FINsent (lk_snd l), sequence_numbers_in_flight (lk_snd l),
      reader_peek (re_output (rc_reassembler (lk_rcv l)))))
      (link_exec [7] (link_new 9 9 (Wrap32 5) 100) demo_schedule) = Some (True, 0, [7])"
    by code_simp
  then obtain l where l: "link_exec [7] (link_new 9 9 (Wrap32 5) 100) demo_schedule = Some l"
    "snd_FINsent (lk_snd l)" "sequence_numbers_in_flight (lk_snd l) = 0"
    "reader_peek (re_output (rc_reassembler (lk_rcv l))) = [7]"
    by auto
  with link_exec_runs [OF l(1) runs.start] show ?thesis by blast
qed

subsection \<open>Properties\<close>

text \<open>C1: safety of the transfer. However the network loses, repeats and reorders, what
  the receiving application can read is the right piece of what the sending application
  wrote, and the inbound stream is closed only when all of it has arrived.\<close>

theorem link_delivers_prefix:
  assumes "length S + 2 < 2 ^ 31" and "length S + unat recv_capacity < 2 ^ 64 - 1"
    and "runs (link_step S) (link_new send_capacity recv_capacity isn rto) log l"
  defines "out \<equiv> re_output (rc_reassembler (lk_rcv l))"
  shows "reader_peek out = take (length (reader_peek out)) (drop (unat (bytes_popped out)) S)
    \<and> unat (bytes_pushed out) \<le> length S
    \<and> (is_closed out \<longrightarrow> unat (bytes_pushed out) = length S)"
proof -
  have re: "re_ok S (rc_reassembler (lk_rcv l))"
    using link_run_ok [OF assms(1-3)] by (simp add: link_ok_def rc_ok_def)
  then have core: "re_core S out (re_unassembled (rc_reassembler (lk_rcv l)))"
    by (simp add: re_ok_def out_def)
  have "is_closed out \<Longrightarrow> unat (bytes_pushed out) = length S"
    using re_ok_closed_end(2) [OF re] by (simp add: out_def is_closed_def bytes_pushed_def re_written_def)
  then show ?thesis
    using core by (simp add: re_core_def reader_peek_def bytes_popped_def bytes_pushed_def)
qed

theorem link_delivers_prefix_witness:
  "\<exists>l log. runs (link_step [7]) (link_new 9 9 (Wrap32 5) 100) log l
     \<and> reader_peek (re_output (rc_reassembler (lk_rcv l))) = [7]
     \<and> unat (bytes_pushed (re_output (rc_reassembler (lk_rcv l)))) \<le> 1"
proof -
  have small: "length [7 :: u8] + 2 < 2 ^ 31" "length [7 :: u8] + unat (9 :: u64) < 2 ^ 64 - 1" by simp_all
  obtain l log where run: "runs (link_step [7]) (link_new 9 9 (Wrap32 5) 100) log l"
    "reader_peek (re_output (rc_reassembler (lk_rcv l))) = [7]"
    using demo_run by blast
  from link_delivers_prefix [OF small run(1)] run show ?thesis by auto
qed

text \<open>C21: what is acknowledged has arrived. When the sender has sent its FIN and has
  nothing outstanding, the receiver has the whole stream and has closed it.\<close>

theorem link_acknowledged_arrived:
  assumes "length S + 2 < 2 ^ 31" and "length S + unat recv_capacity < 2 ^ 64 - 1"
    and "runs (link_step S) (link_new send_capacity recv_capacity isn rto) log l"
    and "snd_FINsent (lk_snd l)" and "sequence_numbers_in_flight (lk_snd l) = 0"
  shows "unat (bytes_pushed (re_output (rc_reassembler (lk_rcv l)))) = length S
    \<and> is_closed (re_output (rc_reassembler (lk_rcv l)))"
proof -
  have ok: "link_ok S isn l" by (rule link_run_ok [OF assms(1-3)])
  then have snd: "snd_ok S (lk_snd l)" and re: "re_ok S (rc_reassembler (lk_rcv l))"
    and ackno: "unat (snd_abs_ackno (lk_snd l)) \<le> next_needed (lk_rcv l)"
    by (simp_all add: link_ok_def rc_ok_def)
  have "flight (lk_snd l) = 0" using unat_flight [OF snd] assms(5) by simp
  then have "length S + 2 \<le> next_needed (lk_rcv l)"
    using FINsent_iff [OF snd] assms(4) snd_ok_bounds(7) [OF snd] ackno by simp
  moreover note re_ok_written_le [OF re]
  ultimately have closed: "is_closed (re_output (rc_reassembler (lk_rcv l)))"
    by (cases "is_closed (re_output (rc_reassembler (lk_rcv l)))") (auto simp: next_needed_def)
  then show ?thesis
    using re_ok_closed_end(2) [OF re] by (simp add: is_closed_def bytes_pushed_def re_written_def)
qed

theorem link_acknowledged_arrived_witness:
  "\<exists>l log. runs (link_step [7]) (link_new 9 9 (Wrap32 5) 100) log l
     \<and> is_closed (re_output (rc_reassembler (lk_rcv l)))"
proof -
  have small: "length [7 :: u8] + 2 < 2 ^ 31" "length [7 :: u8] + unat (9 :: u64) < 2 ^ 64 - 1" by simp_all
  obtain l log where run: "runs (link_step [7]) (link_new 9 9 (Wrap32 5) 100) log l"
    "snd_FINsent (lk_snd l)" "sequence_numbers_in_flight (lk_snd l) = 0"
    using demo_run by blast
  from link_acknowledged_arrived [OF small run] run(1) show ?thesis by blast
qed

text \<open>No operation of the sender can fail in a run: pushing, ticking and taking a
  report of the network that has an acknowledgment number always return.\<close>

theorem link_never_fails:
  assumes "length S + 2 < 2 ^ 31" and "length S + unat recv_capacity < 2 ^ 64 - 1"
    and "runs (link_step S) (link_new send_capacity recv_capacity isn rto) log l"
  shows "(\<exists>s msgs. sender_push (lk_snd l) = Inr (s, msgs))
    \<and> (\<forall>ms. \<exists>s msgs. sender_tick (lk_snd l) ms = Inr (s, msgs))
    \<and> (\<forall>r\<in>lk_acks l. rm_ackno r \<noteq> None \<longrightarrow> (\<exists>s. sender_receive (lk_snd l) r = Inr s))"
proof -
  have "snd_ok S (lk_snd l)" using link_run_ok [OF assms] by (simp add: link_ok_def)
  moreover have "\<exists>s. sender_receive (lk_snd l) r = Inr s" if "rm_ackno r \<noteq> None" for r
    using that by (auto simp: sender_receive_def Let_def)
  ultimately show ?thesis using sender_push_pushes sender_tick_total by metis
qed

theorem link_never_fails_witness:
  "\<exists>l log s msgs. runs (link_step [7]) (link_new 9 9 (Wrap32 5) 100) log l
     \<and> sender_push (lk_snd l) = Inr (s, msgs)"
proof -
  have small: "length [7 :: u8] + 2 < 2 ^ 31" "length [7 :: u8] + unat (9 :: u64) < 2 ^ 64 - 1" by simp_all
  obtain l log where run: "runs (link_step [7]) (link_new 9 9 (Wrap32 5) 100) log l"
    using demo_run by blast
  from link_never_fails [OF small run] run show ?thesis by blast
qed

end
