(* ===== verification/Tcp_Peer.thy ===== *)
theory Tcp_Peer
  imports Tcp_Link Tcp_Segment
begin

text \<open>
  The TCP peer of \<open>util/tcp_peer.hh\<close>: a sender and a receiver that share one connection.
  The function \<open>transmit\<close> that the operations are given is the list of the messages it is
  called with. \<open>receive\<close> reads the message through a non-const reference, so it throws for
  a message that borrows its sender half.
\<close>

record tcp_peer =
  pe_cfg :: tcp_config
  pe_sender :: tcp_sender
  pe_receiver :: tcp_receiver
  pe_need_send :: bool
  pe_linger :: bool
  pe_cumulative_time :: u64
  pe_time_of_last_receipt :: u64

definition tcp_peer_new :: "tcp_config \<Rightarrow> u64 \<Rightarrow> tcp_peer" where
  "tcp_peer_new cfg uninitialised =
     \<lparr>pe_cfg = cfg,
      pe_sender = tcp_sender_new (byte_stream_new (cfg_send_capacity cfg)) (cfg_isn cfg)
                    (ucast (cfg_rt_timeout cfg)) uninitialised,
      pe_receiver = tcp_receiver_new (reassembler_new (byte_stream_new (cfg_recv_capacity cfg))),
      pe_need_send = False, pe_linger = True, pe_cumulative_time = 0, pe_time_of_last_receipt = 0\<rparr>"

definition peer_write :: "tcp_peer \<Rightarrow> bytes \<Rightarrow> tcp_peer" where
  "peer_write p data = p\<lparr>pe_sender := sender_write (pe_sender p) data\<rparr>"

definition peer_close :: "tcp_peer \<Rightarrow> tcp_peer" where
  "peer_close p = p\<lparr>pe_sender := sender_close (pe_sender p)\<rparr>"

definition peer_read :: "tcp_peer \<Rightarrow> u64 \<Rightarrow> tcp_peer" where
  "peer_read p n = p\<lparr>pe_receiver := receiver_pop (pe_receiver p) n\<rparr>"

text \<open>The private \<open>send\<close>, and the calls of it that \<open>make_send\<close> arranges.\<close>

definition peer_send :: "tcp_peer \<Rightarrow> tcp_sender_message \<Rightarrow> tcp_peer \<times> tcp_message" where
  "peer_send p m =
     (p\<lparr>pe_need_send := False\<rparr>, \<lparr>tm_sender = Borrowed m, tm_receiver = Owned (receiver_send (pe_receiver p))\<rparr>)"

fun make_send :: "tcp_peer \<Rightarrow> tcp_sender_message list \<Rightarrow> tcp_peer \<times> tcp_message list" where
  "make_send p [] = (p, [])"
| "make_send p (m # ms) = (let (p, x) = peer_send p m; (p, xs) = make_send p ms in (p, x # xs))"

definition peer_push :: "tcp_peer \<Rightarrow> (tcp_peer \<times> tcp_message list) result" where
  "peer_push p = res_bind (sender_push (pe_sender p)) (\<lambda>(s, ms). Inr (make_send (p\<lparr>pe_sender := s\<rparr>) ms))"

definition peer_tick :: "tcp_peer \<Rightarrow> u64 \<Rightarrow> (tcp_peer \<times> tcp_message list) result" where
  "peer_tick p t =
     (let p = p\<lparr>pe_cumulative_time := pe_cumulative_time p + t\<rparr>
      in res_bind (sender_tick (pe_sender p) t) (\<lambda>(s, ms). Inr (make_send (p\<lparr>pe_sender := s\<rparr>) ms)))"

definition has_ackno :: "tcp_peer \<Rightarrow> bool" where
  "has_ackno p \<longleftrightarrow> rm_ackno (receiver_send (pe_receiver p)) \<noteq> None"

definition inbound :: "tcp_peer \<Rightarrow> byte_stream" where
  "inbound p = re_output (rc_reassembler (pe_receiver p))"

definition outbound :: "tcp_peer \<Rightarrow> byte_stream" where
  "outbound p = snd_input (pe_sender p)"

definition active :: "tcp_peer \<Rightarrow> bool" where
  "active p \<longleftrightarrow>
     (let any_errors = (has_error (inbound p) \<or> has_error (outbound p));
          sender_active = (sequence_numbers_in_flight (pe_sender p) \<noteq> 0 \<or> \<not> is_finished (outbound p));
          receiver_active = (\<not> is_closed (inbound p));
          lingering = (pe_linger p \<and>
            pe_cumulative_time p < pe_time_of_last_receipt p + 10 * ucast (cfg_rt_timeout (pe_cfg p)))
      in \<not> any_errors \<and> (sender_active \<or> receiver_active \<or> lingering))"

text \<open>The three stages of \<open>receive\<close>: note what is needed, hand the two halves on, reply.\<close>

definition note_receipt :: "tcp_peer \<Rightarrow> tcp_sender_message \<Rightarrow> tcp_peer" where
  "note_receipt p sm =
     (let p = p\<lparr>pe_time_of_last_receipt := pe_cumulative_time p\<rparr>;
          p = p\<lparr>pe_need_send := (pe_need_send p \<or> sequence_length sm > 0)\<rparr>;
          our_ackno = rm_ackno (receiver_send (pe_receiver p))
      in p\<lparr>pe_need_send := (pe_need_send p
           \<or> (case our_ackno of None \<Rightarrow> False | Some a \<Rightarrow> wrap32_eq (wrap32_plus (sm_seqno sm) 1) a))\<rparr>)"

definition peer_reply :: "tcp_peer \<Rightarrow> (tcp_peer \<times> tcp_message list) result" where
  "peer_reply p =
     res_bind (peer_push p) (\<lambda>(p, xs).
       Inr (if pe_need_send p
            then (let (p, x) = peer_send p (make_empty_message (pe_sender p)) in (p, xs @ [x]))
            else (p, xs)))"

definition peer_receive :: "tcp_peer \<Rightarrow> tcp_message \<Rightarrow> (tcp_peer \<times> tcp_message list) result" where
  "peer_receive p msg =
     (if \<not> active p then Inr (p, [])
      else res_bind (get_mut (tm_sender msg)) (\<lambda>sm.
        let p = note_receipt p sm;
            p = p\<lparr>pe_receiver := receiver_receive (pe_receiver p) sm\<rparr>
        in res_bind (get_mut (tm_receiver msg)) (\<lambda>rm.
           res_bind (sender_receive (pe_sender p) rm) (\<lambda>s.
           res_bind (peer_reply (p\<lparr>pe_sender := s\<rparr>)) (\<lambda>(p, xs).
           Inr (if is_closed (inbound p) \<and> \<not> is_finished (outbound p)
                then p\<lparr>pe_linger := False\<rparr> else p, xs))))))"

subsection \<open>What the operations change\<close>

lemma make_send_eq:
  "make_send p ms = (if ms = [] then p else p\<lparr>pe_need_send := False\<rparr>,
     map (\<lambda>m. \<lparr>tm_sender = Borrowed m, tm_receiver = Owned (receiver_send (pe_receiver p))\<rparr>) ms)"
  by (induction ms arbitrary: p) (simp_all add: peer_send_def Let_def)

lemma peer_push_Inr:
  assumes "peer_push p = Inr (p', xs)"
  obtains s ms where "sender_push (pe_sender p) = Inr (s, ms)"
    "p' = (if ms = [] then p\<lparr>pe_sender := s\<rparr> else p\<lparr>pe_sender := s, pe_need_send := False\<rparr>)"
    "xs = map (\<lambda>m. \<lparr>tm_sender = Borrowed m, tm_receiver = Owned (receiver_send (pe_receiver p))\<rparr>) ms"
  using assms by (auto simp: peer_push_def make_send_eq split: if_splits)

lemma sender_push_nonempty:
  "sender_push s = Inr (s', ms) \<Longrightarrow> m \<in> set ms \<Longrightarrow> sequence_length m \<noteq> 0"
proof (induction s arbitrary: s' ms rule: sender_push.induct)
  case (1 s)
  from 1(2) obtain t turn where t: "push_turn s = Inr (t, turn)"
    by (subst (asm) sender_push.simps) auto
  show ?case
  proof (cases turn)
    case None
    with t 1(2,3) show ?thesis by (subst (asm) sender_push.simps) simp
  next
    case (Some msg_last)
    then obtain msg is_last where turn: "turn = Some (msg, is_last)" by (cases msg_last) auto
    have ne: "sequence_length msg \<noteq> 0"
      using t turn unfolding push_turn_def Let_def by (auto split: if_splits)
    show ?thesis
    proof (cases is_last)
      case True
      with t turn 1(2,3) ne show ?thesis by (subst (asm) sender_push.simps) (auto simp: Let_def)
    next
      case False
      with t turn 1(2) obtain ms' where "sender_push (record_sent t msg) = Inr (s', ms')" "ms = msg # ms'"
        by (subst (asm) sender_push.simps) (auto simp: Let_def)
      then show ?thesis using 1(1) [OF t refl turn refl refl False] ne 1(3) by auto
    qed
  qed
qed

lemma note_receipt_fields [simp]:
  "pe_cfg (note_receipt p sm) = pe_cfg p" "pe_sender (note_receipt p sm) = pe_sender p"
  "pe_receiver (note_receipt p sm) = pe_receiver p" "pe_linger (note_receipt p sm) = pe_linger p"
  "pe_cumulative_time (note_receipt p sm) = pe_cumulative_time p"
  "pe_time_of_last_receipt (note_receipt p sm) = pe_cumulative_time p"
  by (simp_all add: note_receipt_def Let_def)

text \<open>A message that must be answered: it occupies a sequence number, or its sequence number
  is the one before what is expected next.\<close>

definition wants_reply :: "tcp_peer \<Rightarrow> tcp_sender_message \<Rightarrow> bool" where
  "wants_reply p sm \<longleftrightarrow> sequence_length sm \<noteq> 0
     \<or> (\<exists>a. rm_ackno (receiver_send (pe_receiver p)) = Some a \<and> wrap32_plus (sm_seqno sm) 1 = a)"

lemma wrap32_eq_iff: "wrap32_eq a b \<longleftrightarrow> a = b"
  by (cases a; cases b) (simp add: wrap32_eq_def)

lemma need_send_note_receipt: "pe_need_send (note_receipt p sm) \<longleftrightarrow> pe_need_send p \<or> wants_reply p sm"
  by (auto simp: note_receipt_def wants_reply_def Let_def wrap32_eq_iff word_neq_0_conv split: option.splits)

lemma peer_reply_Inr:
  assumes "peer_reply p = Inr (p', xs)"
  shows "\<exists>s ms. sender_push (pe_sender p) = Inr (s, ms) \<and> p' = p\<lparr>pe_sender := s, pe_need_send := False\<rparr>
    \<and> xs = map (\<lambda>m. \<lparr>tm_sender = Borrowed m, tm_receiver = Owned (receiver_send (pe_receiver p))\<rparr>)
        (ms @ (if pe_need_send p \<and> ms = [] then [make_empty_message s] else []))"
proof -
  obtain q ys where q: "peer_push p = Inr (q, ys)"
    "(p', xs) = (if pe_need_send q then (let (p, x) = peer_send q (make_empty_message (pe_sender q)) in (p, ys @ [x])) else (q, ys))"
    using assms by (auto simp: peer_reply_def)
  from q(1) obtain s ms where
    "sender_push (pe_sender p) = Inr (s, ms)"
    "q = (if ms = [] then p\<lparr>pe_sender := s\<rparr> else p\<lparr>pe_sender := s, pe_need_send := False\<rparr>)"
    "ys = map (\<lambda>m. \<lparr>tm_sender = Borrowed m, tm_receiver = Owned (receiver_send (pe_receiver p))\<rparr>) ms"
    by (rule peer_push_Inr)
  with q(2) show ?thesis
    by (cases "ms = []"; cases "pe_need_send p") (auto simp: peer_send_def)
qed

lemma peer_receive_Inr:
  assumes "peer_receive p msg = Inr (p', xs)" and "active p"
  shows "\<exists>sm rm s s' ms. get_mut (tm_sender msg) = Inr sm \<and> get_mut (tm_receiver msg) = Inr rm
    \<and> sender_receive (pe_sender p) rm = Inr s \<and> sender_push s = Inr (s', ms)
    \<and> pe_sender p' = s' \<and> pe_receiver p' = receiver_receive (pe_receiver p) sm \<and> \<not> pe_need_send p'
    \<and> pe_time_of_last_receipt p' = pe_cumulative_time p \<and> pe_cumulative_time p' = pe_cumulative_time p
    \<and> pe_linger p' = (pe_linger p \<and> (\<not> is_closed (inbound p') \<or> is_finished (outbound p')))
    \<and> xs = map (\<lambda>m. \<lparr>tm_sender = Borrowed m, tm_receiver = Owned (receiver_send (pe_receiver p'))\<rparr>)
        (ms @ (if (pe_need_send p \<or> wants_reply p sm) \<and> ms = [] then [make_empty_message s'] else []))"
proof -
  from assms obtain sm rm s q ys where 1: "get_mut (tm_sender msg) = Inr sm" "get_mut (tm_receiver msg) = Inr rm"
    "sender_receive (pe_sender p) rm = Inr s"
    and reply: "peer_reply (note_receipt p sm\<lparr>pe_receiver := receiver_receive (pe_receiver p) sm, pe_sender := s\<rparr>) = Inr (q, xs)"
    and p': "p' = (if is_closed (inbound q) \<and> \<not> is_finished (outbound q) then q\<lparr>pe_linger := False\<rparr> else q)"
    by (auto simp: peer_receive_def Let_def)
  from peer_reply_Inr [OF reply] obtain s' ms where "sender_push s = Inr (s', ms)"
    "q = note_receipt p sm\<lparr>pe_receiver := receiver_receive (pe_receiver p) sm, pe_sender := s', pe_need_send := False\<rparr>"
    "xs = map (\<lambda>m. \<lparr>tm_sender = Borrowed m, tm_receiver = Owned (receiver_send (receiver_receive (pe_receiver p) sm))\<rparr>)
        (ms @ (if (pe_need_send p \<or> wants_reply p sm) \<and> ms = [] then [make_empty_message s'] else []))"
    by (auto simp: need_send_note_receipt)
  with 1 p' show ?thesis
    by (auto simp: inbound_def outbound_def)
qed

subsection \<open>Properties\<close>

text \<open>C20: a received message is answered exactly when it must be: an active peer hands the
  sender half to its receiver, always answers a message that occupies sequence numbers or is
  a keep-alive, every answer carries the receiver's latest acknowledgment and window, and a
  mere acknowledgment is never answered by another one, so that two idle peers fall
  silent.\<close>

theorem peer_receive_replies:
  assumes "peer_receive p msg = Inr (p', xs)" and "active p" and "get_mut (tm_sender msg) = Inr sm"
  shows "pe_receiver p' = receiver_receive (pe_receiver p) sm
    \<and> (\<forall>x\<in>set xs. tm_receiver x = Owned (receiver_send (pe_receiver p')))
    \<and> (wants_reply p sm \<longrightarrow> xs \<noteq> [])
    \<and> (\<not> wants_reply p sm \<and> \<not> pe_need_send p \<longrightarrow> (\<forall>x\<in>set xs. sequence_length (ref_get (tm_sender x)) \<noteq> 0))
    \<and> \<not> pe_need_send p'"
proof -
  obtain sm' s s' ms where "get_mut (tm_sender msg) = Inr sm'"
    "pe_receiver p' = receiver_receive (pe_receiver p) sm'" "\<not> pe_need_send p'" "sender_push s = Inr (s', ms)"
    "xs = map (\<lambda>m. \<lparr>tm_sender = Borrowed m, tm_receiver = Owned (receiver_send (pe_receiver p'))\<rparr>)
        (ms @ (if (pe_need_send p \<or> wants_reply p sm') \<and> ms = [] then [make_empty_message s'] else []))"
    using peer_receive_Inr [OF assms(1,2)] by blast
  moreover from this(1) have "sm' = sm" using assms(3) by simp
  ultimately show ?thesis using sender_push_nonempty [of s s' ms] by auto
qed

text \<open>A client that has sent its SYN and gets the SYN of the server with the acknowledgment.\<close>

definition demo_peer :: tcp_peer where
  "demo_peer = fst (projr (peer_push (tcp_peer_new default_tcp_config 0)))"

definition demo_syn_ack :: tcp_message where
  "demo_syn_ack = \<lparr>tm_sender = Owned \<lparr>sm_seqno = Wrap32 5000, sm_SYN = True, sm_payload = [], sm_FIN = False, sm_RST = False\<rparr>,
     tm_receiver = Owned \<lparr>rm_ackno = Some (Wrap32 138), rm_window_size = 1000, rm_RST = False\<rparr>\<rparr>"

lemma demo_peer_active: "active demo_peer"
  by code_simp

theorem peer_receive_replies_witness:
  "\<exists>p' x. peer_receive demo_peer demo_syn_ack = Inr (p', [x])
    \<and> tm_receiver x = Owned \<lparr>rm_ackno = Some (Wrap32 5001), rm_window_size = 64000, rm_RST = False\<rparr>"
proof -
  have "(case peer_receive demo_peer demo_syn_ack of Inr (p', xs) \<Rightarrow> length xs = 1
      \<and> receiver_send (pe_receiver p') = \<lparr>rm_ackno = Some (Wrap32 5001), rm_window_size = 64000, rm_RST = False\<rparr>
    | _ \<Rightarrow> False)"
    by code_simp
  then obtain p' x where run: "peer_receive demo_peer demo_syn_ack = Inr (p', [x])"
    "receiver_send (pe_receiver p') = \<lparr>rm_ackno = Some (Wrap32 5001), rm_window_size = 64000, rm_RST = False\<rparr>"
    by (auto split: sum.splits simp: length_Suc_conv)
  have "get_mut (tm_sender demo_syn_ack) = Inr (ref_get (tm_sender demo_syn_ack))"
    by (simp add: demo_syn_ack_def)
  from peer_receive_replies [OF run(1) demo_peer_active this] run show ?thesis by simp
qed

text \<open>A message as it is copied: both halves become owned.\<close>

definition copied :: "tcp_message \<Rightarrow> tcp_message" where
  "copied m = \<lparr>tm_sender = ref_copy (tm_sender m), tm_receiver = ref_copy (tm_receiver m)\<rparr>"

lemma sender_push_new:
  "\<exists>s. sender_push (tcp_sender_new (byte_stream_new c) isn rto u)
    = Inr (s, [\<lparr>sm_seqno = wrap 0 isn, sm_SYN = True, sm_payload = [], sm_FIN = False, sm_RST = False\<rparr>])"
proof -
  let ?s = "tcp_sender_new (byte_stream_new c) isn rto u"
  have "read_stream (byte_stream_new c) 0 = Inr (byte_stream_new c, [])"
    by (simp add: read_stream_def read_loop.simps byte_stream_new_def bytes_buffered_def)
  then have "push_turn ?s = Inr (?s, Some (\<lparr>sm_seqno = wrap 0 isn, sm_SYN = True, sm_payload = [], sm_FIN = False, sm_RST = False\<rparr>, True))"
    by (simp add: push_turn_def tcp_sender_new_def remaining_window_def sequence_numbers_in_flight_def Let_def
        MAX_PAYLOAD_SIZE_def is_finished_def has_error_def bytes_buffered_def sequence_length_def)
      (simp add: byte_stream_new_def)
  then show ?thesis by (subst sender_push.simps) (simp add: Let_def)
qed

lemma peer_new_active: "active (tcp_peer_new cfg u)"
  by (simp add: active_def tcp_peer_new_def Let_def inbound_def outbound_def tcp_receiver_new_def tcp_sender_new_def
      reassembler_new_def has_error_def is_finished_def is_closed_def)
    (simp add: byte_stream_new_def)

text \<open>C38: no connection can be opened without undefined behaviour: the first message of a new
  peer is its SYN, without an acknowledgment number, and a new peer that receives it passes
  the missing number on to its sender, which dereferences it.\<close>

theorem handshake_undefined:
  "\<exists>p x. peer_push (tcp_peer_new cfg u) = Inr (p, [x])
    \<and> sm_SYN (ref_get (tm_sender x)) \<and> rm_ackno (ref_get (tm_receiver x)) = None
    \<and> peer_receive (tcp_peer_new cfg' u') (copied x)
      = Inl (Undefined_behaviour ''TCPSender::receive: dereference of empty ackno'')"
proof -
  obtain s where "sender_push (pe_sender (tcp_peer_new cfg u)) = Inr (s,
      [\<lparr>sm_seqno = wrap 0 (cfg_isn cfg), sm_SYN = True, sm_payload = [], sm_FIN = False, sm_RST = False\<rparr>])"
    using sender_push_new [of "cfg_send_capacity cfg" "cfg_isn cfg" "ucast (cfg_rt_timeout cfg)" u]
    by (auto simp: tcp_peer_new_def)
  moreover have "rm_ackno (receiver_send (pe_receiver (tcp_peer_new cfg u))) = None"
    by (simp add: receiver_send_def tcp_peer_new_def tcp_receiver_new_def Let_def)
  ultimately show ?thesis
    using peer_new_active [of cfg' u']
    by (auto simp: peer_push_def make_send_eq copied_def peer_receive_def sender_receive_def Let_def)
qed

text \<open>A peer whose streams are both done and acknowledged lingers for ten times its initial
  timeout after the last message it received, and not at all when the other side finished
  first; it transmits nothing on its own in that time, and afterwards it ignores what it
  receives.\<close>

theorem peer_lingers:
  assumes "\<not> has_error (inbound p)" and "\<not> has_error (outbound p)"
    and "is_closed (inbound p)" and "is_finished (outbound p)"
    and "snd_outstanding (pe_sender p) = []" and "\<not> snd_timer_on (pe_sender p)"
    and "pe_time_of_last_receipt p \<le> pe_cumulative_time p"
    and "unat (pe_cumulative_time p) + unat t + 655350 < 2 ^ 64"
  shows "\<exists>p'. peer_tick p t = Inr (p', [])
    \<and> (active p' \<longleftrightarrow> pe_linger p \<and> unat (pe_cumulative_time p - pe_time_of_last_receipt p) + unat t
          < 10 * unat (cfg_rt_timeout (pe_cfg p)))
    \<and> (\<not> active p' \<longrightarrow> (\<forall>msg. peer_receive p' msg = Inr (p', [])))"
proof -
  let ?p = "p\<lparr>pe_cumulative_time := pe_cumulative_time p + t\<rparr>"
  have tick: "peer_tick p t = Inr (?p, [])"
    using assms(6) by (simp add: peer_tick_def sender_tick_def)
  have rto: "unat (cfg_rt_timeout (pe_cfg p)) \<le> 65535" using unat_less_16 [of "cfg_rt_timeout (pe_cfg p)"] by simp
  have last: "unat (pe_time_of_last_receipt p) \<le> unat (pe_cumulative_time p)" using assms(7) by (simp add: word_le_nat_alt)
  have now: "unat (pe_cumulative_time p + t) = unat (pe_cumulative_time p) + unat t"
    by (rule unat_plus_no_overflow) (use assms(8) in simp)
  have ten: "unat (10 * ucast (cfg_rt_timeout (pe_cfg p)) :: u64) = 10 * unat (cfg_rt_timeout (pe_cfg p))"
    using rto by (simp add: unat_word_ariths unat_ucast_mod)
  have limit: "unat (pe_time_of_last_receipt p + 10 * ucast (cfg_rt_timeout (pe_cfg p)))
      = unat (pe_time_of_last_receipt p) + 10 * unat (cfg_rt_timeout (pe_cfg p))"
    unfolding ten [symmetric] by (rule unat_plus_no_overflow) (use assms(8) last rto in \<open>simp add: ten\<close>)
  have "active ?p \<longleftrightarrow> pe_linger p \<and> pe_cumulative_time p + t < pe_time_of_last_receipt p + 10 * ucast (cfg_rt_timeout (pe_cfg p))"
    using assms(1-5) by (simp add: active_def Let_def inbound_def outbound_def sequence_numbers_in_flight_def)
  then have "active ?p \<longleftrightarrow> pe_linger p \<and> unat (pe_cumulative_time p - pe_time_of_last_receipt p) + unat t
      < 10 * unat (cfg_rt_timeout (pe_cfg p))"
    using last by (auto simp: word_less_nat_alt now limit unat_minus_le [OF assms(7)])
  then show ?thesis using tick by (simp add: peer_receive_def)
qed

text \<open>A peer whose streams are both empty and closed.\<close>

definition demo_done :: tcp_peer where
  "demo_done = (let p = tcp_peer_new default_tcp_config 0
     in p\<lparr>pe_sender := sender_close (pe_sender p),
          pe_receiver := receiver_receive (pe_receiver p)
            \<lparr>sm_seqno = Wrap32 5, sm_SYN = True, sm_payload = [], sm_FIN = True, sm_RST = False\<rparr>\<rparr>)"

theorem peer_lingers_witness:
  "\<exists>p'. peer_tick demo_done 10000 = Inr (p', []) \<and> \<not> active p' \<and> peer_receive p' demo_syn_ack = Inr (p', [])"
proof -
  have h: "\<not> has_error (inbound demo_done)" "\<not> has_error (outbound demo_done)" "is_closed (inbound demo_done)"
    "is_finished (outbound demo_done)" "snd_outstanding (pe_sender demo_done) = []"
    "\<not> snd_timer_on (pe_sender demo_done)"
    "pe_time_of_last_receipt demo_done \<le> pe_cumulative_time demo_done"
    by code_simp+
  have t: "unat (pe_cumulative_time demo_done) + unat (10000 :: u64) + 655350 < 2 ^ 64"
    by (simp add: demo_done_def tcp_peer_new_def)
  have rto: "10 * unat (cfg_rt_timeout (pe_cfg demo_done)) = 10000"
    by (simp add: demo_done_def tcp_peer_new_def default_tcp_config_def TIMEOUT_DFLT_def)
  from peer_lingers [OF h t] show ?thesis unfolding rto by auto
qed

end
