(* ===== verification/Minnow_Socket.thy ===== *)
theory Minnow_Socket
  imports Captured Tun_Adapter Tcp_Peer
begin

text \<open>
  \<open>TCPMinnowSocket\<close> of \<open>util/tcp_minnow_socket.hh\<close> and \<open>util/tcp_minnow_socket_impl.hh\<close>: a TCP
  peer behind a pair of connected local sockets. The owner uses one of them as if it were a TCP
  socket; the other belongs to a thread, in which an event loop moves bytes between it, the peer,
  and an adapter for datagrams.

  The members of the object are kept beside the kernel. The class is a template over the adapter,
  so the adapter's operations are a record of functions; those of the TUN adapter and of the lossy
  adapter over another are given. What the peer sends is handed to the adapter after the peer's
  operation, in the same order, so that when the adapter throws while writing, the peer has already
  made the messages after that one, which the code would not yet have made. The clock, the flag by which the owner aborts the thread, and the
  call that makes the pair of sockets are arguments, and so is waiting for the thread to end. The
  messages to \<open>cerr\<close> are left out, but not that naming an address in them may throw. The thread's
  loop gets a number of rounds; what is shown holds for every number.
\<close>

subsection \<open>Adapters\<close>

record ('a, 'k) adapter_ops =
  ao_fd :: "'a \<Rightarrow> file_descriptor"
  ao_read :: "'a \<Rightarrow> ('k, 'a \<times> tcp_message option) sys"
  ao_write :: "'a \<Rightarrow> tcp_message \<Rightarrow> ('k, 'a) sys"
  ao_tick :: "'a \<Rightarrow> u64 \<Rightarrow> ('k, 'a) sys"
  ao_config :: "'a \<Rightarrow> fd_adapter_config"
  ao_config_mut :: "(fd_adapter_config \<Rightarrow> fd_adapter_config) \<Rightarrow> 'a \<Rightarrow> 'a"
  ao_set_listening :: "bool \<Rightarrow> 'a \<Rightarrow> 'a"

definition tun_ops :: "'k syscalls \<Rightarrow> name_info \<Rightarrow> addr_info \<Rightarrow> (tun_adapter, 'k) adapter_ops" where
  "tun_ops sys gni gai =
     \<lparr>ao_fd = ta_tun, ao_read = tun_read sys gni gai,
      ao_write = (\<lambda>ta seg. io_bind (tun_write sys gni ta seg) (\<lambda>_. io_return ta)),
      ao_tick = (\<lambda>ta ms. io_return ta),
      ao_config = (\<lambda>ta. ad_cfg (ta_base ta)),
      ao_config_mut = (\<lambda>f ta. ta\<lparr>ta_base := (ta_base ta)\<lparr>ad_cfg := f (ad_cfg (ta_base ta))\<rparr>\<rparr>),
      ao_set_listening = (\<lambda>l ta. ta\<lparr>ta_base := set_listening (ta_base ta) l\<rparr>)\<rparr>"

definition lossy_ops ::
  "('g \<Rightarrow> nat \<times> 'g) \<Rightarrow> ('a, 'k) adapter_ops \<Rightarrow> (('g, 'a) lossy_adapter, 'k) adapter_ops" where
  "lossy_ops draw ops =
     \<lparr>ao_fd = (\<lambda>la. ao_fd ops (la_adapter la)),
      ao_read = (\<lambda>la. io_bind (ao_read ops (la_adapter la)) (\<lambda>(a, ret).
        let (drop, la) = should_drop draw (ao_config ops) (la\<lparr>la_adapter := a\<rparr>) False
        in io_return (la, if drop then None else ret))),
      ao_write = (\<lambda>la seg. let (drop, la) = should_drop draw (ao_config ops) la True
        in if drop then io_return la
           else io_bind (ao_write ops (la_adapter la) seg) (\<lambda>a. io_return (la\<lparr>la_adapter := a\<rparr>))),
      ao_tick = (\<lambda>la ms. io_bind (ao_tick ops (la_adapter la) ms) (\<lambda>a. io_return (la\<lparr>la_adapter := a\<rparr>))),
      ao_config = (\<lambda>la. ao_config ops (la_adapter la)),
      ao_config_mut = (\<lambda>f la. la\<lparr>la_adapter := ao_config_mut ops f (la_adapter la)\<rparr>),
      ao_set_listening = (\<lambda>l la. la\<lparr>la_adapter := ao_set_listening ops l (la_adapter la)\<rparr>)\<rparr>"

subsection \<open>The object\<close>

record 'a minnow =
  mn_adapter :: 'a
  mn_tcp :: "tcp_peer option"
  mn_inbound_shutdown :: bool
  mn_outbound_shutdown :: bool
  mn_fully_acked :: bool
  mn_thread :: bool

type_synonym ('a, 'k) mn_state = "('a minnow \<times> 'k) state"
type_synonym ('a, 'k) mn_ops = "('a, 'a minnow \<times> 'k) adapter_ops"

definition minnow_new :: "'a \<Rightarrow> 'a minnow" where
  "minnow_new adapter = \<lparr>mn_adapter = adapter, mn_tcp = None, mn_inbound_shutdown = False,
     mn_outbound_shutdown = False, mn_fully_acked = False, mn_thread = False\<rparr>"

text \<open>\<open>_tcp->\<close>: undefined when the optional is empty, where \<open>value()\<close> throws.\<close>

definition with_peer :: "(tcp_peer \<Rightarrow> (('a, 'k) mn_state, 'b) io) \<Rightarrow> (('a, 'k) mn_state, 'b) io" where
  "with_peer f = io_bind (io_ask (\<lambda>s. mn_tcp (locals s))) (\<lambda>tcp. case tcp of
     None \<Rightarrow> io_throw (Undefined_behaviour ''empty optional'') | Some p \<Rightarrow> f p)"

definition peer_value :: "(tcp_peer \<Rightarrow> (('a, 'k) mn_state, 'b) io) \<Rightarrow> (('a, 'k) mn_state, 'b) io" where
  "peer_value f = io_bind (io_ask (\<lambda>s. mn_tcp (locals s))) (\<lambda>tcp. case tcp of
     None \<Rightarrow> io_throw (Runtime_error ''bad optional access'') | Some p \<Rightarrow> f p)"

definition set_peer :: "tcp_peer \<Rightarrow> (('a, 'k) mn_state, unit) io" where
  "set_peer p = set_locals (\<lambda>m. m\<lparr>mn_tcp := Some p\<rparr>)"

definition with_adapter ::
  "('a \<Rightarrow> ('a minnow \<times> 'k, 'a \<times> 'b) sys) \<Rightarrow> (('a, 'k) mn_state, 'b) io" where
  "with_adapter f =
     io_bind (io_ask (\<lambda>s. mn_adapter (locals s))) (\<lambda>a.
     io_bind (on_fds (f a)) (\<lambda>(a, x).
     io_bind (set_locals (\<lambda>m. m\<lparr>mn_adapter := a\<rparr>)) (\<lambda>_. io_return x)))"

fun transmit :: "('a, 'k) mn_ops \<Rightarrow> tcp_message list \<Rightarrow> (('a, 'k) mn_state, unit) io" where
  "transmit ops [] = io_return ()"
| "transmit ops (x # xs) =
     io_bind (with_adapter (\<lambda>a. io_bind (ao_write ops a x) (\<lambda>a. io_return (a, ())))) (\<lambda>_. transmit ops xs)"

definition peer_call ::
  "('a, 'k) mn_ops \<Rightarrow> (tcp_peer \<Rightarrow> (tcp_peer \<times> tcp_message list) result) \<Rightarrow> (('a, 'k) mn_state, unit) io" where
  "peer_call ops f = with_peer (\<lambda>p. io_bind (io_lift (f p)) (\<lambda>(p, xs). io_bind (set_peer p) (\<lambda>_. transmit ops xs)))"

text \<open>An address is written to \<open>cerr\<close>.\<close>

definition print_address :: "name_info \<Rightarrow> address \<Rightarrow> ('s, unit) io" where
  "print_address gni a = io_bind (io_lift (address_to_string gni a)) (\<lambda>_. io_return ())"

definition print_destination :: "name_info \<Rightarrow> ('a, 'k) mn_ops \<Rightarrow> (('a, 'k) mn_state, unit) io" where
  "print_destination gni ops =
     io_bind (io_ask (\<lambda>s. ac_destination (ao_config ops (mn_adapter (locals s))))) (print_address gni)"

subsection \<open>The three rules\<close>

text \<open>Rule 1: a datagram has arrived.\<close>

definition segment_callback :: "name_info \<Rightarrow> ('a, 'k) mn_ops \<Rightarrow> file_descriptor \<Rightarrow> (('a, 'k) mn_state, unit) io" where
  "segment_callback gni ops thread_data =
     io_bind (with_adapter (ao_read ops)) (\<lambda>seg.
     io_bind (case seg of None \<Rightarrow> io_return () | Some msg \<Rightarrow> peer_call ops (\<lambda>p. peer_receive p msg)) (\<lambda>_.
     io_bind (on_fds (fd_eof thread_data)) (\<lambda>eof.
       if \<not> eof then io_return ()
       else peer_value (\<lambda>p. io_bind (io_ask (\<lambda>s. mn_fully_acked (locals s))) (\<lambda>fully_acked.
         if sequence_numbers_in_flight (pe_sender p) = 0 \<and> \<not> fully_acked
         then io_bind (print_destination gni ops) (\<lambda>_. set_locals (\<lambda>m. m\<lparr>mn_fully_acked := True\<rparr>))
         else io_return ())))))"

text \<open>Rule 2: the owner has written bytes.\<close>

definition close_outbound :: "(('a, 'k) mn_state, unit) io" where
  "close_outbound = with_peer (\<lambda>p. io_bind (set_peer (peer_close p)) (\<lambda>_.
     set_locals (\<lambda>m. m\<lparr>mn_outbound_shutdown := True\<rparr>)))"

definition outbound_callback ::
  "'k syscalls \<Rightarrow> name_info \<Rightarrow> ('a, 'k) mn_ops \<Rightarrow> file_descriptor \<Rightarrow> (('a, 'k) mn_state, unit) io" where
  "outbound_callback sys gni ops thread_data =
     io_bind (with_peer (\<lambda>p. io_return (replicate (unat (available_capacity (outbound p))) 0))) (\<lambda>data.
     io_bind (on_fds (read (sys_beside sys) thread_data data)) (\<lambda>data.
     io_bind (with_peer (\<lambda>p. set_peer (peer_write p data))) (\<lambda>_.
     io_bind (on_fds (fd_eof thread_data)) (\<lambda>eof.
     io_bind (if eof then io_bind close_outbound (\<lambda>_. io_bind (print_destination gni ops) (\<lambda>_. peer_value (\<lambda>_. io_return ())))
              else io_return ()) (\<lambda>_.
     peer_call ops peer_push)))))"

text \<open>Rule 3: there are bytes for the owner.\<close>

definition inbound_callback ::
  "'k syscalls \<Rightarrow> 'k socket_calls \<Rightarrow> name_info \<Rightarrow> ('a, 'k) mn_ops \<Rightarrow> file_descriptor \<Rightarrow> (('a, 'k) mn_state, unit) io" where
  "inbound_callback sys so gni ops thread_data =
     io_bind (with_peer (\<lambda>p.
       if bytes_buffered (inbound p) \<noteq> 0
       then io_bind (on_fds (write_once (sys_beside sys) thread_data (reader_peek (inbound p)))) (\<lambda>n.
            with_peer (\<lambda>p. set_peer (peer_read p (of_nat n))))
       else io_return ())) (\<lambda>_.
     with_peer (\<lambda>p.
       if is_finished (inbound p) \<or> has_error (inbound p)
       then io_bind (on_fds (shutdown (sys_beside sys) (socket_beside so) thread_data SHUT_WR)) (\<lambda>_.
            io_bind (set_locals (\<lambda>m. m\<lparr>mn_inbound_shutdown := True\<rparr>)) (\<lambda>_. print_destination gni ops))
       else io_return ()))"

definition minnow_interest :: "nat \<Rightarrow> 'a minnow \<Rightarrow> tcp_peer \<Rightarrow> bool" where
  "minnow_interest code m p =
     (if code = 0 then active p
      else if code = 1 then active p \<and> \<not> mn_outbound_shutdown m \<and> available_capacity (outbound p) > 0
      else bytes_buffered (inbound p) \<noteq> 0
        \<or> (is_finished (inbound p) \<or> has_error (inbound p)) \<and> \<not> mn_inbound_shutdown m)"

definition minnow_error :: "nat \<Rightarrow> tcp_peer \<Rightarrow> tcp_peer" where
  "minnow_error code p =
     (if code = 1 then p\<lparr>pe_sender := (pe_sender p)\<lparr>snd_input := set_error (outbound p)\<rparr>\<rparr>
      else if code = 2 then p\<lparr>pe_receiver := (pe_receiver p)\<lparr>rc_reassembler := reassembler_set_error (rc_reassembler (pe_receiver p))\<rparr>\<rparr>
      else p)"

definition minnow_closures ::
  "'k syscalls \<Rightarrow> 'k socket_calls \<Rightarrow> name_info \<Rightarrow> ('a, 'k) mn_ops \<Rightarrow> file_descriptor \<Rightarrow> ('a minnow \<times> 'k) closures" where
  "minnow_closures sys so gni ops thread_data =
     \<lparr>cl_interest = (\<lambda>code. io_bind (io_ask locals) (\<lambda>m. with_peer (\<lambda>p. io_return (minnow_interest code m p)))),
      cl_callback = (\<lambda>code. if code = 0 then segment_callback gni ops thread_data
        else if code = 1 then outbound_callback sys gni ops thread_data else inbound_callback sys so gni ops thread_data),
      cl_cancel = (\<lambda>code. if code = 1 then close_outbound else io_return ()),
      cl_error = (\<lambda>code. if code = 0 then io_return () else with_peer (\<lambda>p. set_peer (minnow_error code p)))\<rparr>"

subsection \<open>The loop, and the operations of the owner\<close>

definition TCP_TICK_MS :: int where "TCP_TICK_MS = 10"

text \<open>What the other side of the object does to the loop: the clock in milliseconds, and the flag
  that the owner sets to stop the thread.\<close>

record 'k minnow_env =
  me_clock :: "'k \<Rightarrow> u64 \<times> 'k"
  me_abort :: "'k \<Rightarrow> bool"

definition timestamp_ms :: "'k minnow_env \<Rightarrow> (('a, 'k) mn_state, u64) io" where
  "timestamp_ms env = on_fds (call (beside (me_clock env)))"

definition initialize_TCP :: "('a, 'k) mn_ops \<Rightarrow> file_descriptor \<Rightarrow> tcp_config \<Rightarrow> u64 \<Rightarrow> (('a, 'k) mn_state, unit) io" where
  "initialize_TCP ops thread_data config uninitialised =
     io_bind (set_peer (tcp_peer_new config uninitialised)) (\<lambda>_.
     io_bind (io_ask (\<lambda>s. ao_fd ops (mn_adapter (locals s)))) (\<lambda>fd.
     io_bind (add_named_rule ''receive TCP segment from the network'' fd In 0) (\<lambda>_.
     io_bind (add_named_rule ''push bytes to TCPPeer'' thread_data In 1) (\<lambda>_.
     io_bind (add_named_rule ''read bytes from inbound stream'' thread_data Out 2) (\<lambda>_.
     io_return ())))))"

text \<open>The end of one iteration, with the time from which the next is counted.\<close>

definition tick_peer ::
  "'k minnow_env \<Rightarrow> ('a, 'k) mn_ops \<Rightarrow> u64 \<Rightarrow> (('a, 'k) mn_state, u64) io" where
  "tick_peer env ops base_time =
     io_bind (io_ask (\<lambda>s. mn_tcp (locals s))) (\<lambda>tcp. case tcp of
       None \<Rightarrow> io_throw (Runtime_error ''_tcp_loop entered before TCPPeer initialized'')
     | Some p \<Rightarrow>
         if \<not> active p then io_return base_time
         else io_bind (timestamp_ms env) (\<lambda>next_time.
              io_bind (peer_call ops (\<lambda>p. peer_tick p (next_time - base_time))) (\<lambda>_.
              io_bind (with_adapter (\<lambda>a. io_bind (ao_tick ops a (next_time - base_time)) (\<lambda>a. io_return (a, ())))) (\<lambda>_.
              io_return next_time))))"

fun tcp_iterations ::
  "'k syscalls \<Rightarrow> 'k poll_calls \<Rightarrow> 'k minnow_env \<Rightarrow> ('a, 'k) mn_ops \<Rightarrow> ('a minnow \<times> 'k) closures
    \<Rightarrow> (('a, 'k) mn_state, bool) io \<Rightarrow> nat \<Rightarrow> u64 \<Rightarrow> ('a, 'k) mn_state \<Rightarrow> (bool result \<times> ('a, 'k) mn_state) option" where
  "tcp_iterations sys pc env ops cl condition 0 base_time s = Some (Inr False, s)"
| "tcp_iterations sys pc env ops cl condition (Suc rounds) base_time s =
     (case condition s of
        (Inl e, s) \<Rightarrow> Some (Inl e, s)
      | (Inr go, s) \<Rightarrow>
          if \<not> go then Some (Inr True, s)
          else (case wait_next_event (sys_beside sys) (poll_beside pc) cl TCP_TICK_MS s of
             None \<Rightarrow> None
           | Some (Inl e, s) \<Rightarrow> Some (Inl e, s)
           | Some (Inr ret, s) \<Rightarrow>
               if ret = Exit \<or> me_abort env (snd (w_kernel (snd s))) then Some (Inr True, s)
               else (case tick_peer env ops base_time s of
                       (Inl e, s) \<Rightarrow> Some (Inl e, s)
                     | (Inr base_time, s) \<Rightarrow> tcp_iterations sys pc env ops cl condition rounds base_time s)))"

text \<open>Whether the loop came to its end in the given number of rounds.\<close>

definition tcp_loop ::
  "'k syscalls \<Rightarrow> 'k poll_calls \<Rightarrow> 'k minnow_env \<Rightarrow> ('a, 'k) mn_ops \<Rightarrow> ('a minnow \<times> 'k) closures
    \<Rightarrow> (('a, 'k) mn_state, bool) io \<Rightarrow> nat \<Rightarrow> ('a, 'k) mn_state \<Rightarrow> (bool result \<times> ('a, 'k) mn_state) option" where
  "tcp_loop sys pc env ops cl condition rounds s =
     (case timestamp_ms env s of
        (Inl e, s) \<Rightarrow> Some (Inl e, s)
      | (Inr base_time, s) \<Rightarrow> tcp_iterations sys pc env ops cl condition rounds base_time s)"

text \<open>Both \<open>connect\<close> and \<open>listen_and_accept\<close> run the loop in the owner's thread while a condition
  holds, and then start the other thread.\<close>

definition run_and_start ::
  "'k syscalls \<Rightarrow> 'k socket_calls \<Rightarrow> name_info \<Rightarrow> 'k poll_calls \<Rightarrow> 'k minnow_env \<Rightarrow> ('a, 'k) mn_ops \<Rightarrow> file_descriptor
    \<Rightarrow> (('a, 'k) mn_state, unit) io \<Rightarrow> (('a, 'k) mn_state, bool) io \<Rightarrow> (('a, 'k) mn_state, unit) io \<Rightarrow> nat
    \<Rightarrow> ('a, 'k) mn_state \<Rightarrow> (bool result \<times> ('a, 'k) mn_state) option" where
  "run_and_start sys so gni pc env ops thread_data start condition finish rounds s =
     (case start s of
        (Inl e, s) \<Rightarrow> Some (Inl e, s)
      | (Inr _, s) \<Rightarrow>
          (case tcp_loop sys pc env ops (minnow_closures sys so gni ops thread_data) condition rounds s of
             Some (Inr True, s) \<Rightarrow>
               Some (io_bind finish (\<lambda>_. io_bind (set_locals (\<lambda>m. m\<lparr>mn_thread := True\<rparr>)) (\<lambda>_. io_return True)) s)
           | r \<Rightarrow> r))"

definition connect_start ::
  "name_info \<Rightarrow> ('a, 'k) mn_ops \<Rightarrow> file_descriptor \<Rightarrow> tcp_config \<Rightarrow> fd_adapter_config \<Rightarrow> u64 \<Rightarrow> (('a, 'k) mn_state, unit) io" where
  "connect_start gni ops thread_data c_tcp c_ad uninitialised =
     io_bind (io_ask (\<lambda>s. mn_tcp (locals s))) (\<lambda>tcp.
       if tcp \<noteq> None then io_throw (Runtime_error ''connect() with TCPConnection already initialized'')
       else io_bind (initialize_TCP ops thread_data c_tcp uninitialised) (\<lambda>_.
            io_bind (set_locals (\<lambda>m. m\<lparr>mn_adapter := ao_config_mut ops (\<lambda>_. c_ad) (mn_adapter m)\<rparr>)) (\<lambda>_.
            io_bind (print_address gni (ac_destination c_ad)) (\<lambda>_.
            io_bind (io_ask (\<lambda>s. mn_tcp (locals s))) (\<lambda>tcp.
              if tcp = None then io_throw (Runtime_error ''TCPPeer not successfully initialized'')
              else io_bind (peer_call ops peer_push) (\<lambda>_.
                   with_peer (\<lambda>p.
                     if sequence_numbers_in_flight (pe_sender p) \<noteq> 1
                     then io_throw (Runtime_error ''After TCPConnection::connect(), expected sequence_numbers_in_flight() == 1'')
                     else io_return ())))))))"

definition minnow_connect ::
  "'k syscalls \<Rightarrow> 'k socket_calls \<Rightarrow> name_info \<Rightarrow> 'k poll_calls \<Rightarrow> 'k minnow_env \<Rightarrow> ('a, 'k) mn_ops \<Rightarrow> file_descriptor
    \<Rightarrow> tcp_config \<Rightarrow> fd_adapter_config \<Rightarrow> u64 \<Rightarrow> nat \<Rightarrow> ('a, 'k) mn_state \<Rightarrow> (bool result \<times> ('a, 'k) mn_state) option" where
  "minnow_connect sys so gni pc env ops thread_data c_tcp c_ad uninitialised rounds =
     run_and_start sys so gni pc env ops thread_data (connect_start gni ops thread_data c_tcp c_ad uninitialised)
       (with_peer (\<lambda>p. io_return (sequence_numbers_in_flight (pe_sender p) = 1)))
       (io_bind (io_ask (\<lambda>s. mn_tcp (locals s))) (\<lambda>tcp.
          if tcp = None then io_throw (Runtime_error ''TCPPeer destroyed unexpectedly'')
          else print_address gni (ac_destination c_ad))) rounds"

definition listen_start ::
  "('a, 'k) mn_ops \<Rightarrow> file_descriptor \<Rightarrow> tcp_config \<Rightarrow> fd_adapter_config \<Rightarrow> u64 \<Rightarrow> (('a, 'k) mn_state, unit) io" where
  "listen_start ops thread_data c_tcp c_ad uninitialised =
     io_bind (io_ask (\<lambda>s. mn_tcp (locals s))) (\<lambda>tcp.
       if tcp \<noteq> None then io_throw (Runtime_error ''listen_and_accept() with TCPConnection already initialized'')
       else io_bind (initialize_TCP ops thread_data c_tcp uninitialised) (\<lambda>_.
            set_locals (\<lambda>m. m\<lparr>mn_adapter := ao_set_listening ops True (ao_config_mut ops (\<lambda>_. c_ad) (mn_adapter m))\<rparr>)))"

definition listen_and_accept ::
  "'k syscalls \<Rightarrow> 'k socket_calls \<Rightarrow> name_info \<Rightarrow> 'k poll_calls \<Rightarrow> 'k minnow_env \<Rightarrow> ('a, 'k) mn_ops \<Rightarrow> file_descriptor
    \<Rightarrow> tcp_config \<Rightarrow> fd_adapter_config \<Rightarrow> u64 \<Rightarrow> nat \<Rightarrow> ('a, 'k) mn_state \<Rightarrow> (bool result \<times> ('a, 'k) mn_state) option" where
  "listen_and_accept sys so gni pc env ops thread_data c_tcp c_ad uninitialised rounds =
     run_and_start sys so gni pc env ops thread_data (listen_start ops thread_data c_tcp c_ad uninitialised)
       (with_peer (\<lambda>p. io_return (\<not> has_ackno p \<or> sequence_numbers_in_flight (pe_sender p) \<noteq> 0)))
       (print_destination gni ops) rounds"

text \<open>The thread.\<close>

definition tcp_main ::
  "'k syscalls \<Rightarrow> 'k socket_calls \<Rightarrow> name_info \<Rightarrow> 'k poll_calls \<Rightarrow> 'k minnow_env \<Rightarrow> ('a, 'k) mn_ops \<Rightarrow> file_descriptor
    \<Rightarrow> file_descriptor \<Rightarrow> nat \<Rightarrow> ('a, 'k) mn_state \<Rightarrow> (bool result \<times> ('a, 'k) mn_state) option" where
  "tcp_main sys so gni pc env ops this_socket thread_data rounds s =
     (if mn_tcp (locals s) = None then Some (Inl (Runtime_error ''no TCP''), s)
      else (case tcp_loop sys pc env ops (minnow_closures sys so gni ops thread_data) (io_return True) rounds s of
         Some (Inr True, s) \<Rightarrow>
           Some (io_bind (on_fds (shutdown (sys_beside sys) (socket_beside so) this_socket SHUT_RDWR)) (\<lambda>_.
                 io_bind (io_ask (\<lambda>s. mn_tcp (locals s))) (\<lambda>tcp.
                   if tcp = None then io_throw (Runtime_error ''TCP implementation destroyed unexpectedly'')
                   else io_bind (set_locals (\<lambda>m. m\<lparr>mn_tcp := None\<rparr>)) (\<lambda>_. io_return True))) s)
       | r \<Rightarrow> r))"

text \<open>Construction from a pair of connected local sockets, the second of which becomes non-blocking.\<close>

definition socket_pair_helper ::
  "'k syscalls \<Rightarrow> 'k socket_calls \<Rightarrow> (int \<Rightarrow> int \<Rightarrow> int \<Rightarrow> 'k \<Rightarrow> (int \<times> int \<times> int) \<times> 'k) \<Rightarrow> int \<Rightarrow> int \<Rightarrow> int
    \<Rightarrow> ('k, file_descriptor \<times> file_descriptor) sys" where
  "socket_pair_helper sys so socketpair domain type protocol =
     io_bind (call (socketpair domain type protocol)) (\<lambda>(r, fd0, fd1).
     io_bind (check_system_call sys ''socketpair'' r) (\<lambda>_.
     io_bind (fd_new sys fd0) (\<lambda>first.
     io_bind (local_stream_socket sys so first) (\<lambda>first.
     io_cleanup
       (io_bind (fd_new sys fd1) (\<lambda>second.
        io_bind (local_stream_socket sys so second) (\<lambda>second. io_return (first, second))))
       (fdw_destroy sys (the first))))))"

text \<open>The owner's socket and the thread's, in this order; both are closed if the latter cannot be
  made non-blocking.\<close>

definition minnow_sockets ::
  "'k syscalls \<Rightarrow> 'k socket_calls \<Rightarrow> (int \<Rightarrow> int \<Rightarrow> int \<Rightarrow> 'k \<Rightarrow> (int \<times> int \<times> int) \<times> 'k)
    \<Rightarrow> ('k, file_descriptor \<times> file_descriptor) sys" where
  "minnow_sockets sys so socketpair =
     io_bind (socket_pair_helper sys so socketpair AF_UNIX SOCK_STREAM 0) (\<lambda>(first, second).
     io_bind (local_stream_socket sys so first) (\<lambda>this_socket.
     io_bind (io_cleanup (local_stream_socket sys so second) (fdw_destroy sys (the this_socket))) (\<lambda>thread_data.
     io_cleanup (io_bind (set_blocking sys thread_data False) (\<lambda>_. io_return (this_socket, thread_data)))
       (\<lambda>w. fdw_destroy sys (the this_socket) (fdw_destroy sys (the thread_data) w)))))"

text \<open>\<open>join\<close> is the call that waits for the thread.\<close>

definition wait_until_closed ::
  "'k syscalls \<Rightarrow> 'k socket_calls \<Rightarrow> (('a, 'k) mn_state, unit) io \<Rightarrow> file_descriptor \<Rightarrow> (('a, 'k) mn_state, unit) io" where
  "wait_until_closed sys so join this_socket =
     io_bind (on_fds (shutdown (sys_beside sys) (socket_beside so) this_socket SHUT_RDWR)) (\<lambda>_.
     io_bind (io_ask (\<lambda>s. mn_thread (locals s))) (\<lambda>joinable.
       if joinable then io_bind join (\<lambda>_. set_locals (\<lambda>m. m\<lparr>mn_thread := False\<rparr>)) else io_return ()))"

text \<open>The destructor: \<open>abort\<close> sets the flag; an exception stays inside.\<close>

definition minnow_destroy ::
  "(('a, 'k) mn_state \<Rightarrow> ('a, 'k) mn_state) \<Rightarrow> (('a, 'k) mn_state, unit) io \<Rightarrow> ('a, 'k) mn_state \<Rightarrow> ('a, 'k) mn_state" where
  "minnow_destroy abort join s =
     (if mn_thread (locals s)
      then snd (io_bind join (\<lambda>_. set_locals (\<lambda>m. m\<lparr>mn_thread := False\<rparr>)) (abort s)) else s)"

text \<open>\<open>CS144TCPSocket\<close>: the source port is the random number cut to 16 bits.\<close>

definition default_adapter_config :: "addr_info \<Rightarrow> fd_adapter_config result" where
  "default_adapter_config gai =
     res_bind (address_of_text gai ''0'' 0) (\<lambda>source.
     res_bind (address_of_text gai ''0'' 0) (\<lambda>destination.
     Inr \<lparr>ac_source = source, ac_destination = destination, ac_loss_rate_dn = 0, ac_loss_rate_up = 0\<rparr>))"

definition cs144_configs :: "addr_info \<Rightarrow> u32 \<Rightarrow> address \<Rightarrow> (tcp_config \<times> fd_adapter_config) result" where
  "cs144_configs gai random destination =
     res_bind (default_adapter_config gai) (\<lambda>config.
     res_bind (address_of_name gai ''169.254.144.9'' (dec_nat (unat (ucast random :: u16)))) (\<lambda>source.
     Inr (default_tcp_config\<lparr>cfg_rt_timeout := 100\<rparr>,
          config\<lparr>ac_source := source, ac_destination := destination\<rparr>)))"

end
