(* ===== verification/Owner.thy ===== *)
theory Owner
  imports Program Minnow_Socket
begin

text \<open>
  What the programs over a \<open>TCPMinnowSocket\<close> do with it: open it, copy bytes in both directions,
  wait until it is closed. The owner's thread and the thread of the TCP peer share the kernel; while
  the owner is in a call, the other thread may run. So the calls as the owner sees them are an
  argument, on a state that holds the members of the socket beside the kernel, and so are waiting for
  the thread and making it stop.
\<close>

definition system_beside :: "'k system \<Rightarrow> ('m \<times> 'k) system" where
  "system_beside sy = \<lparr>sy_calls = sys_beside (sy_calls sy), sy_sockets = socket_beside (sy_sockets sy),
     sy_poll = poll_beside (sy_poll sy), sy_names = sy_names sy, sy_addrs = sy_addrs sy,
     sy_clock = beside (sy_clock sy), sy_random = beside (sy_random sy)\<rparr>"

record ('a, 'k) owner =
  ow_calls :: "('a minnow \<times> 'k) syscalls"
  ow_sockets :: "('a minnow \<times> 'k) socket_calls"
  ow_poll :: "('a minnow \<times> 'k) poll_calls"
  ow_join :: "(('a, 'k) mn_state, unit) io"
  ow_abort :: "('a, 'k) mn_state \<Rightarrow> ('a, 'k) mn_state"
  ow_aborted :: "'k \<Rightarrow> bool"
  ow_socketpair :: "int \<Rightarrow> int \<Rightarrow> int \<Rightarrow> 'k \<Rightarrow> (int \<times> int \<times> int) \<times> 'k"

definition peer_env :: "'k system \<Rightarrow> ('a, 'k) owner \<Rightarrow> 'k minnow_env" where
  "peer_env sy ow = \<lparr>me_clock = system_timestamp_ms sy, me_abort = ow_aborted ow\<rparr>"

text \<open>A world without the variables that were kept beside its kernel.\<close>

definition without_locals :: "('m \<times> 'k) world \<Rightarrow> 'k world" where
  "without_locals w = \<lparr>w_fds = w_fds w, w_allocated = w_allocated w, w_kernel = snd (w_kernel w)\<rparr>"

definition copy_and_close ::
  "'k system \<Rightarrow> ('a, 'k) owner \<Rightarrow> file_descriptor \<Rightarrow> nat \<Rightarrow> ('a, 'k) mn_state \<Rightarrow> (bool result \<times> ('a, 'k) mn_state) option" where
  "copy_and_close sy ow this_socket rounds s =
     (case bidirectional_stream_copy (ow_calls ow) (ow_sockets ow) (ow_poll ow) this_socket rounds (snd s) of
        None \<Rightarrow> None
      | Some (Inr True, t) \<Rightarrow>
          Some (io_bind (wait_until_closed (sy_calls sy) (sy_sockets sy) (ow_join ow) this_socket) (\<lambda>_. io_return True)
                  (fst s, without_locals (snd t)))
      | Some (r, t) \<Rightarrow> Some (r, (fst s, without_locals (snd t))))"

text \<open>The scope of a socket whose adapter has been made: the pair of local sockets, what is done with
  the socket, and its destructor, unless the rounds have run out. Where the local sockets cannot be made the adapter's
  descriptor is closed.\<close>

definition close_fd :: "'k syscalls \<Rightarrow> file_descriptor \<Rightarrow> 'k world \<Rightarrow> 'k world" where
  "close_fd sys fd w = (case fd of None \<Rightarrow> w | Some a \<Rightarrow> fdw_destroy sys a w)"

definition with_minnow ::
  "'k system \<Rightarrow> ('a, 'k) owner \<Rightarrow> ('a, 'k) mn_ops
    \<Rightarrow> (file_descriptor \<Rightarrow> file_descriptor \<Rightarrow> ('a, 'k) mn_state \<Rightarrow> (bool result \<times> ('a, 'k) mn_state) option)
    \<Rightarrow> 'a \<Rightarrow> 'k world \<Rightarrow> (bool result \<times> 'k world) option" where
  "with_minnow sy ow ops body adapter w =
     (let sys = sys_beside (sy_calls sy); close = (\<lambda>fd s. (fst s, close_fd sys fd (snd s)))
      in case on_fds (minnow_sockets sys (socket_beside (sy_sockets sy)) (\<lambda>d t p. beside (ow_socketpair ow d t p)))
             (with_locals (minnow_new adapter) w) of
           (Inl e, s) \<Rightarrow> Some (Inl e, without_locals (snd (close (ao_fd ops adapter) s)))
         | (Inr (this_socket, thread_data), s) \<Rightarrow>
             map_option (\<lambda>(r, s). (r, without_locals (snd (if r = Inr False then s
                 else (let s = minnow_destroy (ow_abort ow) (ow_join ow) s
                       in close this_socket (close (ao_fd ops (mn_adapter (locals s))) (close thread_data s)))))))
               (body this_socket thread_data s))"

text \<open>The next step of a program, after one that came to its end.\<close>

definition and_then ::
  "(bool result \<times> 's) option \<Rightarrow> ('s \<Rightarrow> (bool result \<times> 's) option) \<Rightarrow> (bool result \<times> 's) option" where
  "and_then m f = (case m of Some (Inr True, s) \<Rightarrow> f s | _ \<Rightarrow> m)"

definition step :: "('s, 'a) io \<Rightarrow> ('a \<Rightarrow> 's \<Rightarrow> (bool result \<times> 's) option) \<Rightarrow> 's \<Rightarrow> (bool result \<times> 's) option" where
  "step m f s = (case m s of (Inl e, s) \<Rightarrow> Some (Inl e, s) | (Inr x, s) \<Rightarrow> f x s)"

end
