(* ===== verification/Eth_Udp.thy ===== *)
theory Eth_Udp
  imports Owner Summary Lan
begin

text \<open>
  The program \<open>apps/tcp_eth_udp.cc\<close>: TCP in IPv4 in Ethernet in user datagrams. Its adapter joins the
  conversions of \<open>Tcp_Over_Ip\<close> with a \<open>NetworkInterface\<close>, whose frames it sends and receives in user
  datagrams; its socket is a \<open>TCPMinnowSocket\<close> over that adapter with a virtual address; and the
  program is a client or a server that copies its standard input and output.

  An operation of the adapter gives the adapter after it; one that throws leaves it as it was.
  The frames of the interface are sent after its operation, in order.
\<close>

subsection \<open>The adapter\<close>

definition random_host_ethernet_address :: "('k \<Rightarrow> u32 \<times> 'k) \<Rightarrow> 'k \<Rightarrow> ethernet_address \<times> 'k" where
  "random_host_ethernet_address draw k =
     (let (addr, k) = random_octets draw 6 k
      in (Eth ((addr ! 0 OR 0x02) AND 0xfe) (addr ! 1) (addr ! 2) (addr ! 3) (addr ! 4) (addr ! 5), k))"

record eth_adapter =
  ea_base :: fd_adapter
  ea_socket :: file_descriptor
  ea_physical_dest :: "address option"
  ea_interface :: network_interface
  ea_next_hop :: address
  ea_incoming :: "bytes list"
  ea_last_tick :: u64

definition eth_adapter_new :: "'k system \<Rightarrow> address \<Rightarrow> address \<Rightarrow> address \<Rightarrow> ('k, eth_adapter) sys" where
  "eth_adapter_new sy physical_src virtual_src hop =
     io_bind (io_lift (default_adapter_config (sy_addrs sy))) (\<lambda>cfg.
     io_bind (udp_socket (sy_calls sy) (sy_sockets sy)) (\<lambda>sock.
     io_cleanup
       (io_bind (call (random_host_ethernet_address (sy_random sy))) (\<lambda>ethernet.
        io_bind (io_lift (network_interface_new (sy_names sy) ''TCP over IP over Ethernet over UDP'' False ethernet virtual_src)) (\<lambda>n.
        io_bind (call (system_timestamp_ms sy)) (\<lambda>now.
        io_bind (bind_socket (sy_calls sy) (sy_sockets sy) sock physical_src) (\<lambda>_.
        io_return \<lparr>ea_base = \<lparr>ad_cfg = cfg, ad_listen = False\<rparr>, ea_socket = sock, ea_physical_dest = None,
          ea_interface = n, ea_next_hop = hop, ea_incoming = [], ea_last_tick = now\<rparr>)))))
       (close_fd (sy_calls sy) sock)))"

definition eth_is_connected :: "eth_adapter \<Rightarrow> bool" where
  "eth_is_connected a \<longleftrightarrow> ea_physical_dest a \<noteq> None"

definition eth_connect :: "name_info \<Rightarrow> address \<Rightarrow> eth_adapter \<Rightarrow> ('w, eth_adapter) io" where
  "eth_connect gni physical_dest a =
     io_bind (io_lift (address_to_string gni physical_dest)) (\<lambda>_. io_return (a\<lparr>ea_physical_dest := Some physical_dest\<rparr>))"

fun eth_transmit :: "'k system \<Rightarrow> eth_adapter \<Rightarrow> ethernet_frame list \<Rightarrow> ('k, unit) sys" where
  "eth_transmit sy a [] = io_return ()"
| "eth_transmit sy a (x # xs) =
     (if \<not> eth_is_connected a
      then io_throw (Runtime_error ''attempt to transmit on unconnected Ethernet-over-UDP port'')
      else io_bind (send_gathered (sy_calls sy) (sy_sockets sy) (ea_socket a) (frame_buffers x) (ea_physical_dest a))
             (\<lambda>_. eth_transmit sy a xs))"

definition tick_network_interface :: "'k system \<Rightarrow> eth_adapter \<Rightarrow> ('k, eth_adapter) sys" where
  "tick_network_interface sy a =
     io_bind (call (system_timestamp_ms sy)) (\<lambda>new_tick.
     io_return ((if new_tick > ea_last_tick a
                 then a\<lparr>ea_interface := ni_tick (ea_interface a) ((new_tick - ea_last_tick a) * 5)\<rparr>
                 else a)\<lparr>ea_last_tick := new_tick\<rparr>))"

text \<open>The interface gets a frame; then the one datagram, if any, that it has brought is taken.\<close>

definition eth_take_datagram :: "'k system \<Rightarrow> eth_adapter \<Rightarrow> ('k, eth_adapter \<times> tcp_message option) sys" where
  "eth_take_datagram sy a =
     (case datagrams_received (ea_interface a) of
        [] \<Rightarrow> io_return (a, None)
      | dgram # rest \<Rightarrow>
          if rest \<noteq> []
          then io_throw (Runtime_error ''internal error: NetworkInterface unexpectedly has multiple datagrams ready'')
          else io_bind (io_lift (unwrap_tcp_in_ip (sy_names sy) (sy_addrs sy) (ea_base a) dgram)) (\<lambda>(base, msg).
               io_return (a\<lparr>ea_base := base, ea_interface := (ea_interface a)\<lparr>datagrams_received := rest\<rparr>\<rparr>, msg)))"

definition eth_take_frame :: "'k system \<Rightarrow> ethernet_frame \<Rightarrow> eth_adapter \<Rightarrow> ('k, eth_adapter \<times> tcp_message option) sys" where
  "eth_take_frame sy frame a =
     io_bind (io_lift (recv_frame (ea_interface a) frame)) (\<lambda>(n, frames).
       let a = a\<lparr>ea_interface := n\<rparr>
       in io_bind (eth_transmit sy a frames) (\<lambda>_. eth_take_datagram sy a))"

definition eth_buffers :: "bytes list \<Rightarrow> bytes list" where
  "eth_buffers incoming = (let bufs = resize_buffers 4 incoming
     in ((bufs[0 := resize ETHERNET_LENGTH (bufs ! 0)])[1 := resize IPV4_LENGTH (bufs ! 1)])
          [2 := resize TCP_HEADER_LENGTH (bufs ! 2)])"

definition eth_read :: "'k system \<Rightarrow> eth_adapter \<Rightarrow> ('k, eth_adapter \<times> tcp_message option) sys" where
  "eth_read sy a =
     io_bind (tick_network_interface sy a) (\<lambda>a.
       if datagrams_received (ea_interface a) \<noteq> []
       then io_throw (Runtime_error ''internal error: read() called, but interface already has datagrams ready'')
       else io_bind (recv_scattered (sy_calls sy) (sy_sockets sy) (ea_socket a) (eth_buffers (ea_incoming a))) (\<lambda>(incoming_address, bufs).
            io_bind (io_lift (parse_with (ethernet_frame_parse default_ethernet_frame) (map Owned bufs))) (\<lambda>(frame, ok).
              let a = a\<lparr>ea_incoming := []\<rparr>
              in if \<not> ok then io_return (a, None)
                 else io_bind (if eth_is_connected a then io_return a else eth_connect (sy_names sy) incoming_address a)
                        (eth_take_frame sy frame))))"

definition eth_write :: "'k system \<Rightarrow> eth_adapter \<Rightarrow> tcp_message \<Rightarrow> ('k, eth_adapter) sys" where
  "eth_write sy a msg =
     io_bind (tick_network_interface sy a) (\<lambda>a.
     io_bind (io_lift (wrap_tcp_in_ip (sy_names sy) (ea_base a) msg)) (\<lambda>d.
     io_bind (io_lift (send_datagram (ea_interface a) d (ea_next_hop a))) (\<lambda>(n, frames).
       let a = a\<lparr>ea_interface := n\<rparr>
       in io_bind (eth_transmit sy a frames) (\<lambda>_. io_return a))))"

definition eth_tick :: "eth_adapter \<Rightarrow> u64 \<Rightarrow> eth_adapter" where
  "eth_tick a ms = a\<lparr>ea_interface := ni_tick (ea_interface a) ms\<rparr>"

definition eth_ops :: "'k system \<Rightarrow> (eth_adapter, 'k) adapter_ops" where
  "eth_ops sy =
     \<lparr>ao_fd = ea_socket, ao_read = eth_read sy, ao_write = eth_write sy,
      ao_tick = (\<lambda>a ms. io_return (eth_tick a ms)),
      ao_config = (\<lambda>a. ad_cfg (ea_base a)),
      ao_config_mut = (\<lambda>f a. a\<lparr>ea_base := (ea_base a)\<lparr>ad_cfg := f (ad_cfg (ea_base a))\<rparr>\<rparr>),
      ao_set_listening = (\<lambda>l a. a\<lparr>ea_base := set_listening (ea_base a) l\<rparr>)\<rparr>"


subsection \<open>What a datagram leaves behind\<close>

text \<open>Between the operations of an adapter there is no datagram ready and no buffer.\<close>

definition eth_drained :: "eth_adapter \<Rightarrow> bool" where
  "eth_drained a \<longleftrightarrow> datagrams_received (ea_interface a) = [] \<and> ea_incoming a = []"

inductive eth_used :: "'k system \<Rightarrow> eth_adapter \<Rightarrow> eth_adapter \<Rightarrow> bool" for sy :: "'k system" where
  unused: "eth_used sy a a"
| has_read: "eth_used sy a b \<Longrightarrow> eth_read sy b w = (Inr (c, msg), w') \<Longrightarrow> eth_used sy a c"
| has_written: "eth_used sy a b \<Longrightarrow> eth_write sy b msg w = (Inr c, w') \<Longrightarrow> eth_used sy a c"
| has_connected: "eth_used sy a b \<Longrightarrow> eth_connect (sy_names sy) dest b (w :: 'k world) = (Inr c, w') \<Longrightarrow> eth_used sy a c"
| has_ticked: "eth_used sy a b \<Longrightarrow> eth_used sy a (eth_tick b ms)"
| is_configured: "eth_used sy a b \<Longrightarrow> eth_used sy a (ao_config_mut (eth_ops sy) f b)"
| is_listening: "eth_used sy a b \<Longrightarrow> eth_used sy a (ao_set_listening (eth_ops sy) l b)"

lemma eth_ops_simps [simp]:
  "ea_interface (ao_config_mut (eth_ops sy) f b) = ea_interface b" "ea_incoming (ao_config_mut (eth_ops sy) f b) = ea_incoming b"
  "ea_interface (ao_set_listening (eth_ops sy) l b) = ea_interface b" "ea_incoming (ao_set_listening (eth_ops sy) l b) = ea_incoming b"
  by (simp_all add: eth_ops_def)

lemma eth_connect_Inr: "eth_connect gni dest a w = (Inr a', w') \<Longrightarrow> a' = a\<lparr>ea_physical_dest := Some dest\<rparr>"
  by (cases "address_to_string gni dest") (simp_all add: eth_connect_def)

text \<open>The clock always answers, and the interface hears of the time that has passed.\<close>

lemma tick_network_interface_eq:
  "\<exists>n t k. tick_network_interface sy a w = (Inr (a\<lparr>ea_interface := n, ea_last_tick := t\<rparr>), w\<lparr>w_kernel := k\<rparr>)
    \<and> datagrams_received n = datagrams_received (ea_interface a) \<and> ethernet_address n = ethernet_address (ea_interface a)"
proof -
  obtain now k where k: "system_timestamp_ms sy (w_kernel w) = (now, k)" by (rule prod.exhaust)
  let ?n = "if now > ea_last_tick a then ni_tick (ea_interface a) ((now - ea_last_tick a) * 5) else ea_interface a"
  have "tick_network_interface sy a w = (Inr (a\<lparr>ea_interface := ?n, ea_last_tick := now\<rparr>), w\<lparr>w_kernel := k\<rparr>)"
    by (simp add: tick_network_interface_def io_bind_def call_def k)
  moreover have "datagrams_received ?n = datagrams_received (ea_interface a)" "ethernet_address ?n = ethernet_address (ea_interface a)"
    by simp_all
  ultimately show ?thesis by blast
qed

lemma send_datagram_received: "send_datagram s d hop = Inr (s', out) \<Longrightarrow> datagrams_received s' = datagrams_received s"
  by (erule send_datagram_cases) (simp_all add: push_waiting_def)

lemma recv_arp_received: "recv_arp s msg = Inr (s', out) \<Longrightarrow> datagrams_received s' = datagrams_received s"
  by (auto simp: recv_arp_eq learnt_def map_sum_eq_Inr split: sum.splits if_splits prod.splits)

lemma recv_frame_received:
  "recv_frame s frame = Inr (s', out) \<Longrightarrow> length (datagrams_received s') \<le> length (datagrams_received s) + 1"
  by (erule recv_frame_cases) (auto dest: recv_arp_received)

lemma eth_take_datagram_drained:
  "eth_take_datagram sy a w = (Inr (a', msg), w') \<Longrightarrow> ea_incoming a = [] \<Longrightarrow> eth_drained a'"
  by (auto simp: eth_take_datagram_def eth_drained_def io_bind_Inr split: list.splits if_splits)

lemma eth_take_frame_drained:
  "eth_take_frame sy frame a w = (Inr (a', msg), w') \<Longrightarrow> ea_incoming a = [] \<Longrightarrow> eth_drained a'"
  by (auto simp: eth_take_frame_def io_bind_Inr Let_def split: prod.splits intro: eth_take_datagram_drained)

lemma eth_read_drained:
  assumes "eth_read sy a w = (Inr (a', msg), w')" and "eth_drained a"
  shows "eth_drained a'"
proof -
  obtain a1 w1 where a1: "tick_network_interface sy a w = (Inr a1, w1)" "eth_drained a1"
    using tick_network_interface_eq [of sy a w] assms(2) by (auto simp: eth_drained_def)
  then have "ea_incoming a1 = []" by (simp add: eth_drained_def)
  with assms(1) a1 show ?thesis
    by (auto simp: eth_read_def io_bind_Inr Let_def split: if_splits prod.splits dest!: eth_connect_Inr
        elim!: eth_take_frame_drained) (simp_all add: eth_drained_def)
qed

lemma eth_write_drained:
  assumes "eth_write sy a msg w = (Inr a', w')" and "eth_drained a"
  shows "eth_drained a'"
proof -
  obtain a1 w1 where a1: "tick_network_interface sy a w = (Inr a1, w1)" "datagrams_received (ea_interface a1) = []" "ea_incoming a1 = []"
    using tick_network_interface_eq [of sy a w] assms(2) by (auto simp: eth_drained_def)
  from assms(1) a1 show ?thesis
    by (auto simp: eth_write_def eth_drained_def io_bind_Inr Let_def split: prod.splits dest!: send_datagram_received)
qed

lemma eth_used_drained: "eth_used sy a b \<Longrightarrow> eth_drained a \<Longrightarrow> eth_drained b"
  by (induction rule: eth_used.induct)
    (auto dest: eth_read_drained eth_write_drained dest!: eth_connect_Inr simp: eth_tick_def eth_drained_def)

lemma io_cleanup_Inr: "io_cleanup m destroy w = (Inr x, w') \<longleftrightarrow> m w = (Inr x, w')"
  by (simp add: io_cleanup_def split: prod.splits sum.splits)

lemma eth_adapter_new_drained:
  assumes "eth_adapter_new sy src own hop w = (Inr a, w')"
  shows "eth_drained a"
  using assms
  by (auto simp: eth_adapter_new_def io_bind_Inr io_cleanup_Inr eth_drained_def network_interface_new_def map_sum_eq_Inr
      split: prod.splits sum.splits)

text \<open>What reading is without the checks for errors of the interface.\<close>

definition eth_take_frame_unchecked :: "'k system \<Rightarrow> ethernet_frame \<Rightarrow> eth_adapter \<Rightarrow> ('k, eth_adapter \<times> tcp_message option) sys" where
  "eth_take_frame_unchecked sy frame a =
     io_bind (io_lift (recv_frame (ea_interface a) frame)) (\<lambda>(n, frames).
     io_bind (eth_transmit sy a frames) (\<lambda>_.
       case datagrams_received n of
         [] \<Rightarrow> io_return (a\<lparr>ea_interface := n\<rparr>, None)
       | dgram # _ \<Rightarrow>
           io_bind (io_lift (unwrap_tcp_in_ip (sy_names sy) (sy_addrs sy) (ea_base a) dgram)) (\<lambda>(base, msg).
           io_return (a\<lparr>ea_base := base, ea_interface := n\<lparr>datagrams_received := []\<rparr>\<rparr>, msg))))"

definition eth_read_unchecked :: "'k system \<Rightarrow> eth_adapter \<Rightarrow> ('k, eth_adapter \<times> tcp_message option) sys" where
  "eth_read_unchecked sy a =
     io_bind (tick_network_interface sy a) (\<lambda>a.
     io_bind (recv_scattered (sy_calls sy) (sy_sockets sy) (ea_socket a) (eth_buffers [])) (\<lambda>(incoming_address, bufs).
     io_bind (io_lift (parse_with (ethernet_frame_parse default_ethernet_frame) (map Owned bufs))) (\<lambda>(frame, ok).
       if \<not> ok then io_return (a, None)
       else io_bind (if eth_is_connected a then io_return a else eth_connect (sy_names sy) incoming_address a)
              (eth_take_frame_unchecked sy frame))))"

lemma eth_transmit_interface [simp]: "eth_transmit sy (a\<lparr>ea_interface := n\<rparr>) xs = eth_transmit sy a xs"
  by (induction xs) (simp_all add: eth_is_connected_def del: io_simps io_bind_simps)

lemma eth_take_frame_checks:
  assumes "eth_drained a"
  shows "eth_take_frame sy frame a w = eth_take_frame_unchecked sy frame a w"
  unfolding eth_take_frame_def eth_take_frame_unchecked_def
proof (rule io_bind_cong [OF refl refl], clarify)
  fix n frames v assume "io_lift (recv_frame (ea_interface a) frame) w = (Inr (n, frames), v)"
  then have "length (datagrams_received n) \<le> 1"
    using recv_frame_received [of "ea_interface a" frame n frames] assms by (simp add: eth_drained_def)
  then have "eth_take_datagram sy (a\<lparr>ea_interface := n\<rparr>) = (case datagrams_received n of
      [] \<Rightarrow> io_return (a\<lparr>ea_interface := n\<rparr>, None)
    | dgram # _ \<Rightarrow> io_bind (io_lift (unwrap_tcp_in_ip (sy_names sy) (sy_addrs sy) (ea_base a) dgram)) (\<lambda>(base, msg).
        io_return (a\<lparr>ea_base := base, ea_interface := n\<lparr>datagrams_received := []\<rparr>\<rparr>, msg)))"
    by (cases "datagrams_received n") (auto simp: eth_take_datagram_def)
  then show "(let a = a\<lparr>ea_interface := n\<rparr> in io_bind (eth_transmit sy a frames) (\<lambda>_. eth_take_datagram sy a)) v
    = io_bind (eth_transmit sy a frames) (\<lambda>_. case datagrams_received n of
        [] \<Rightarrow> io_return (a\<lparr>ea_interface := n\<rparr>, None)
      | dgram # _ \<Rightarrow> io_bind (io_lift (unwrap_tcp_in_ip (sy_names sy) (sy_addrs sy) (ea_base a) dgram)) (\<lambda>(base, msg).
          io_return (a\<lparr>ea_base := base, ea_interface := n\<lparr>datagrams_received := []\<rparr>\<rparr>, msg))) v"
    by (simp add: Let_def)
qed

text \<open>C16: the two internal errors of reading cannot happen: however an adapter has been used since it was
  made, reading is the same as without the checks that no datagram is ready before and that at most
  one is ready after a frame.\<close>

theorem eth_internal_errors_unreachable:
  assumes "eth_adapter_new sy src own hop w0 = (Inr a, w1)" and "eth_used sy a b"
  shows "eth_read sy b w = eth_read_unchecked sy b w"
proof -
  have "eth_drained b" by (rule eth_used_drained [OF assms(2) eth_adapter_new_drained [OF assms(1)]])
  then obtain c k where c: "tick_network_interface sy b w = (Inr c, w\<lparr>w_kernel := k\<rparr>)" "eth_drained c"
    using tick_network_interface_eq [of sy b w] by (auto simp: eth_drained_def)
  have checks: "io_bind (if eth_is_connected c then io_return c else eth_connect (sy_names sy) address c) (eth_take_frame sy frame)
    = io_bind (if eth_is_connected c then io_return c else eth_connect (sy_names sy) address c) (eth_take_frame_unchecked sy frame)"
    for address frame
  proof (rule ext, rule io_bind_cong [OF refl refl], rule eth_take_frame_checks)
    fix v d v' assume "(if eth_is_connected c then io_return c else eth_connect (sy_names sy) address c) v = (Inr d, v')"
    then show "eth_drained d"
      using c(2) by (auto simp: eth_drained_def dest!: eth_connect_Inr split: if_splits)
  qed
  have same: "c\<lparr>ea_incoming := []\<rparr> = c" "ea_incoming c = []" "datagrams_received (ea_interface c) = []"
    using c(2) by (simp_all add: eth_drained_def)
  have ticked: "io_bind (tick_network_interface sy b) f w = f c (w\<lparr>w_kernel := k\<rparr>)" for f :: "_ \<Rightarrow> ('a, eth_adapter \<times> tcp_message option) sys"
    by (simp add: io_bind_def c(1))
  show ?thesis
    unfolding eth_read_def eth_read_unchecked_def ticked Let_def same
    by (simp only: checks list.simps simp_thms if_False)
qed

lemma not_isl_Inr: "isl (fst (m w)) = False \<Longrightarrow> \<exists>x w'. m w = (Inr x, w')"
  by (cases "m w"; cases "fst (m w)") auto

lemma quiet_eth_adapter: "\<exists>a w1. eth_adapter_new quiet_system src (ipv4_address own) hop w = (Inr a, w1)"
proof -
  let ?sys = "sy_calls quiet_system" and ?so = "sy_sockets quiet_system"
  obtain cfg where cfg: "default_adapter_config (sy_addrs quiet_system) = Inr cfg"
    by (simp add: default_adapter_config_def address_of_text_def quiet_address)
  have "isl (fst (udp_socket ?sys ?so w)) = False"
    by (simp add: udp_socket_def datagram_socket_def socket_new_def fd_new_def fdw_new_def check_system_call_def io_bind_def
      call_def quiet_system_def)
  then obtain fd w2 where fd: "udp_socket ?sys ?so w = (Inr fd, w2)" using not_isl_Inr [of "udp_socket ?sys ?so" w] by blast
  then obtain x where x: "fd = Some x" using udp_socket_some [OF fd] by auto
  obtain eth k where eth: "random_host_ethernet_address (sy_random quiet_system) (w_kernel w2) = (eth, k)" by (rule prod.exhaust)
  obtain n where n: "network_interface_new (sy_names quiet_system) ''TCP over IP over Ethernet over UDP'' False eth (ipv4_address own) = Inr n"
    by (simp add: network_interface_new_def quiet_names)
  obtain now k' where now: "system_timestamp_ms quiet_system k = (now, k')" by (rule prod.exhaust)
  have "isl (fst (bind_socket ?sys ?so (Some x) src (w2\<lparr>w_kernel := k'\<rparr>))) = False"
    by (simp add: bind_socket_def fd_num_def deref_def check_system_call_def io_bind_def call_def quiet_system_def)
  then obtain w3 where w3: "bind_socket ?sys ?so (Some x) src (w2\<lparr>w_kernel := k'\<rparr>) = (Inr (), w3)" using not_isl_Inr [of "bind_socket ?sys ?so (Some x) src"] by fastforce
  show ?thesis
    by (simp add: eth_adapter_new_def cfg io_bind_def fd x io_cleanup_def call_def eth n now w3)
qed

text \<open>An adapter of a quiet system, after seven milliseconds.\<close>

theorem eth_internal_errors_unreachable_witness:
  "\<exists>a w1. eth_adapter_new quiet_system (ipv4_address 1) (ipv4_address 2) (ipv4_address 3) idle_world = (Inr a, w1)
    \<and> eth_read quiet_system (eth_tick a 7) w1 = eth_read_unchecked quiet_system (eth_tick a 7) w1"
proof -
  obtain a w1 where a: "eth_adapter_new quiet_system (ipv4_address 1) (ipv4_address 2) (ipv4_address 3) idle_world = (Inr a, w1)"
    using quiet_eth_adapter by blast
  from a eth_internal_errors_unreachable [OF a has_ticked [OF unused]] show ?thesis by blast
qed

subsection \<open>The socket\<close>

text \<open>The peer's operations, with the virtual address that the socket has from then on.\<close>

type_synonym 'k eth_state = "(eth_adapter, 'k) mn_state"

definition eth_socket_connect ::
  "'k system \<Rightarrow> (eth_adapter, 'k) owner \<Rightarrow> file_descriptor \<Rightarrow> address \<Rightarrow> address \<Rightarrow> address \<Rightarrow> u64 \<Rightarrow> nat
    \<Rightarrow> 'k eth_state \<Rightarrow> (bool result \<times> 'k eth_state) option" where
  "eth_socket_connect sy ow thread_data own physical_dest virtual_dest uninitialised rounds =
     step (io_bind (io_ask (\<lambda>s. mn_adapter (locals s))) (\<lambda>a.
           io_bind (eth_connect (sy_names sy) physical_dest a) (\<lambda>a.
           io_bind (set_locals (\<lambda>m. m\<lparr>mn_adapter := a\<rparr>)) (\<lambda>_.
           io_bind (io_lift (default_adapter_config (sy_addrs sy))) (\<lambda>cfg.
           io_bind (io_lift (address_ip (sy_names sy) own)) (\<lambda>own_ip.
           io_bind (on_fds (call (beside (sy_random sy)))) (\<lambda>random.
           io_bind (io_lift (address_of_text (sy_addrs sy) own_ip (ucast random))) (\<lambda>virtual_src.
           io_bind (io_lift (address_to_string (sy_names sy) virtual_src)) (\<lambda>_.
           io_return (cfg\<lparr>ac_source := virtual_src, ac_destination := virtual_dest\<rparr>))))))))))
       (\<lambda>cfg. minnow_connect (sy_calls sy) (sy_sockets sy) (sy_names sy) (sy_poll sy) (peer_env sy ow)
          (eth_ops (system_beside sy)) thread_data default_tcp_config cfg uninitialised rounds)"

definition eth_socket_bind :: "name_info \<Rightarrow> addr_info \<Rightarrow> address \<Rightarrow> address \<Rightarrow> address result" where
  "eth_socket_bind gni gai own virtual_src =
     res_bind (address_ip gni virtual_src) (\<lambda>new_ip.
     res_bind (address_ip gni own) (\<lambda>own_ip.
       if new_ip \<noteq> own_ip \<and> new_ip \<noteq> ''0.0.0.0''
       then res_bind (address_to_string gni virtual_src) (\<lambda>name. Inl (Runtime_error (''Cannot bind to '' @ name)))
       else res_bind (port gni virtual_src) (\<lambda>p. address_of_text gai own_ip p)))"

definition eth_listen_and_accept ::
  "'k system \<Rightarrow> (eth_adapter, 'k) owner \<Rightarrow> file_descriptor \<Rightarrow> address \<Rightarrow> u64 \<Rightarrow> nat
    \<Rightarrow> 'k eth_state \<Rightarrow> (bool result \<times> 'k eth_state) option" where
  "eth_listen_and_accept sy ow thread_data own uninitialised rounds =
     step (io_lift (default_adapter_config (sy_addrs sy)))
       (\<lambda>cfg. listen_and_accept (sy_calls sy) (sy_sockets sy) (sy_names sy) (sy_poll sy) (peer_env sy ow)
          (eth_ops (system_beside sy)) thread_data default_tcp_config (cfg\<lparr>ac_source := own\<rparr>) uninitialised rounds)"

subsection \<open>The program\<close>

definition parse_ip_port :: "addr_info \<Rightarrow> string \<Rightarrow> address result" where
  "parse_ip_port gai text =
     (if CHR '':'' \<notin> set text
      then Inl (Runtime_error (''could not parse IP:port from '' @ [CHR 0x22] @ text @ [CHR 0x22]))
      else let idx = length (takeWhile (\<lambda>c. c \<noteq> CHR '':'') text)
      in address_of_name gai (take idx text) (drop (idx + 1) text))"

text \<open>The numbers of rounds are those of opening the connection and of copying.\<close>

definition be_client ::
  "'k system \<Rightarrow> (eth_adapter, 'k) owner \<Rightarrow> u64 \<Rightarrow> nat \<times> nat \<Rightarrow> string \<Rightarrow> string \<Rightarrow> string \<Rightarrow> string \<Rightarrow> string
    \<Rightarrow> 'k world \<Rightarrow> (bool result \<times> 'k world) option" where
  "be_client sy ow uninitialised rounds physical_src_port physical_dest virtual_default_router virtual_src virtual_dest =
     (let gai = sy_addrs sy
      in step (io_bind (io_lift (address_of_name gai ''0'' physical_src_port)) (\<lambda>physical.
               io_bind (io_lift (address_of_text gai virtual_src 0)) (\<lambda>own.
               io_bind (io_lift (address_of_text gai virtual_default_router 0)) (\<lambda>hop.
               io_bind (eth_adapter_new sy physical own hop) (\<lambda>a. io_return (own, a))))))
           (\<lambda>(own, a). with_minnow sy ow (eth_ops (system_beside sy)) (\<lambda>this_socket thread_data.
              step (io_lift (parse_ip_port gai virtual_dest)) (\<lambda>virtual_dest_addr.
              step (io_lift (parse_ip_port gai physical_dest)) (\<lambda>physical_dest_addr s.
              and_then (eth_socket_connect sy ow thread_data own physical_dest_addr virtual_dest_addr uninitialised (fst rounds) s)
                (step (io_lift (address_to_string (sy_names sy) virtual_dest_addr)) (\<lambda>_.
                 copy_and_close sy ow this_socket (snd rounds)))))) a))"

definition be_server ::
  "'k system \<Rightarrow> (eth_adapter, 'k) owner \<Rightarrow> u64 \<Rightarrow> nat \<times> nat \<Rightarrow> string \<Rightarrow> string \<Rightarrow> string
    \<Rightarrow> 'k world \<Rightarrow> (bool result \<times> 'k world) option" where
  "be_server sy ow uninitialised rounds physical_src_port virtual_default_router virtual_src =
     (let gai = sy_addrs sy
      in step (io_bind (io_lift (parse_ip_port gai virtual_src)) (\<lambda>own.
               io_bind (io_lift (address_of_name gai ''0'' physical_src_port)) (\<lambda>physical.
               io_bind (io_lift (address_of_text gai virtual_default_router 0)) (\<lambda>hop.
               io_bind (eth_adapter_new sy physical own hop) (\<lambda>a. io_return (own, a))))))
           (\<lambda>(own, a). with_minnow sy ow (eth_ops (system_beside sy)) (\<lambda>this_socket thread_data.
              step (io_lift (eth_socket_bind (sy_names sy) gai own own)) (\<lambda>own s.
              and_then (eth_listen_and_accept sy ow thread_data own uninitialised (fst rounds) s)
                (step (io_bind (io_ask (\<lambda>s. ac_destination (ad_cfg (ea_base (mn_adapter (locals s)))))) (\<lambda>peer.
                       io_lift (address_to_string (sy_names sy) peer))) (\<lambda>_.
                 copy_and_close sy ow this_socket (snd rounds))))) a))"

definition eth_udp_main ::
  "'k system \<Rightarrow> (eth_adapter, 'k) owner \<Rightarrow> u64 \<Rightarrow> nat \<times> nat \<Rightarrow> string list \<Rightarrow> 'k world \<Rightarrow> (ending \<times> 'k world) option" where
  "eth_udp_main sy ow uninitialised rounds args w =
     (if args = [] then Some (Aborts, w)
      else if length args = 7 \<and> args ! 1 = ''client''
      then map_option (apfst main_ending)
             (be_client sy ow uninitialised rounds (args ! 2) (args ! 3) (args ! 4) (args ! 5) (args ! 6) w)
      else if length args = 5 \<and> args ! 1 = ''server''
      then map_option (apfst main_ending) (be_server sy ow uninitialised rounds (args ! 2) (args ! 3) (args ! 4) w)
      else Some (Returns EXIT_FAILURE, w))"

end
