(* ===== verification/Eth_Transfer.thy ===== *)
theory Eth_Transfer
  imports Eth_Udp
begin

text \<open>
  A TCP message crosses Ethernet in user datagrams: what one adapter of \<open>Eth_Udp\<close> sends for a message,
  the other one receives as that message.
\<close>

subsection \<open>A frame in a user datagram\<close>

lemma frame_buffers_bytes:
  "concat (frame_buffers f) = ethernet_header_bytes (ef_header f) @ chunks (ef_payload f)"
  "\<forall>b\<in>set (frame_buffers f). b \<noteq> []" "frame_buffers f \<noteq> []"
proof -
  let ?s = "ethernet_frame_serialize f serializer_new"
  have "chunks (fst (se_finish ?s)) = ethernet_header_bytes (ef_header f) @ chunks (ef_payload f)"
    by (simp add: ethernet_frame_serialize_def written)
  then show bytes: "concat (frame_buffers f) = ethernet_header_bytes (ef_header f) @ chunks (ef_payload f)"
    by (simp add: frame_buffers_def chunks_def)
  have "se_solid ?s"
    by (cases "eh_dst (ef_header f)"; cases "eh_src (ef_header f)")
      (simp add: ethernet_frame_serialize_def ethernet_header_serialize_def serialize_address_def se_solid_simps se_solid_refs)
  then have "se_solid (se_flush ?s)" by (rule se_solid_simps(2))
  then show "\<forall>b\<in>set (frame_buffers f). b \<noteq> []"
    by (auto simp: frame_buffers_def se_solid_def se_finish_def Let_def)
  show "frame_buffers f \<noteq> []" using bytes length_ethernet_header_bytes [of "ef_header f"] by auto
qed

lemma eth_transmit_one:
  assumes "ea_socket a = Some fd" and "ea_physical_dest a = Some dest"
    and "so_sendmsg (sy_sockets sy) (fw_fd (w_fds w fd)) (frame_buffers f) (Some (raw_address dest)) (w_kernel w)
      = (int (length (concat (frame_buffers f))), k)"
  shows "\<exists>w'. eth_transmit sy a [f] w = (Inr (), w') \<and> w_kernel w' = k"
  using assms to_iovecs_eq [OF frame_buffers_bytes(3,2)]
  by (auto simp: eth_is_connected_def send_gathered_def send_iovecs_def io_bind_def call_def check_fd_system_call_def
      fdw_check_system_call_def length_concat)

text \<open>A frame that arrives in four buffers is parsed, with owned bytes and nothing empty in between.\<close>

lemma parse_frame_packed:
  assumes "\<forall>c\<in>set cs. is_owned c" and "packed cs" and "chunks cs = ethernet_header_bytes h @ bs"
  shows "\<exists>payload. parse_with (ethernet_frame_parse old) cs = Inr (\<lparr>ef_header = h, ef_payload = payload\<rparr>, True)
    \<and> chunks payload = bs \<and> (\<forall>x\<in>set payload. is_owned x) \<and> packed payload"
proof -
  from eth.roundtrip [OF TrueI assms, of "ef_header old"] obtain p p' where
    p: "parser_new cs = Inr p" "ethernet_header_parse (ef_header old) p = Inr (h, p')"
      "\<not> pa_error p'" "pa_ok p'" "bl_rest (pa_input p') = bs"
    by blast
  from all_remaining_ok [OF p(4)] p(3,5) obtain out p'' where
    "all_remaining p' = Inr (out, p'')" "chunks out = bs" "\<not> pa_error p''" "\<forall>x\<in>set out. is_owned x" "packed out"
    by (auto simp: pa_flat_def)
  with p show ?thesis
    by (simp add: parse_with_def ethernet_frame_parse_def pbind_def preturn_def)
qed

lemma recv_frame_datagram:
  assumes "ethernet_address s = dst" and "valid_header h" and "unat (ip_len h) = 20 + length bs"
    and "\<forall>c\<in>set cs. is_owned c" and "packed cs" and "chunks cs = ipv4_header_bytes h @ bs"
  shows "\<exists>payload. recv_frame s \<lparr>ef_header = \<lparr>eh_dst = dst, eh_src = src, eh_type = TYPE_IPv4\<rparr>, ef_payload = cs\<rparr>
      = Inr (s\<lparr>datagrams_received := datagrams_received s @ [\<lparr>dg_header = h, dg_payload = payload\<rparr>]\<rparr>, [])
    \<and> chunks payload = bs \<and> (\<forall>c\<in>set payload. is_owned c) \<and> packed payload"
proof -
  from parse_datagram_packed [OF assms(2-6), of default_datagram] obtain payload where
    p: "parse_with (ipv4_datagram_parse default_datagram) cs = Inr (\<lparr>dg_header = h, dg_payload = payload\<rparr>, True)"
      "chunks payload = bs" "\<forall>x\<in>set payload. is_owned x" "packed payload" by blast
  then show ?thesis
    using clone_refs_owned [of payload] chunks_clone [of payload] packed_clone [of payload] assms(1)
    by (intro exI [of _ "clone_refs payload"]) (simp add: recv_frame_def clone_datagram_def)
qed

subsection \<open>Writing and reading\<close>

lemma send_datagram_resolved:
  assumes "neighbour s ip = Resolved e t" and "ipv4_numeric hop = Inr ip" and "sendable d"
  shows "\<exists>f. send_datagram s d hop = Inr (s, [f]) \<and> carries s e d f"
proof -
  obtain f where f: "ipv4_frame s e d = Inr f" using ipv4_frame_sendable [OF assms(3)] by blast
  obtain x where "Mapping.lookup (ip_ether_map s) ip = Some x" "ether_addr x = e"
    using assms(1) by (auto simp: neighbour_def split: option.splits)
  with f assms(2) show ?thesis by (auto simp: send_datagram_def carries_def)
qed

text \<open>A message for a known next hop is one user datagram to the physical destination.\<close>

lemma eth_write_sends:
  assumes "tick_network_interface sy a w = (Inr a1, w1)"
    and "wrap_tcp_in_ip (sy_names sy) (ea_base a1) msg = Inr d" and "sendable d"
    and "neighbour (ea_interface a1) ip = Resolved e t" and "ipv4_numeric (ea_next_hop a1) = Inr ip"
    and "ea_socket a1 = Some fd" and "ea_physical_dest a1 = Some dest"
    and "\<And>n bufs to k. so_sendmsg (sy_sockets sy) n bufs to k = (int (length (concat bufs)), put n to (concat bufs) k)"
  shows "\<exists>f w'. carries (ea_interface a1) e d f \<and> eth_write sy a msg w = (Inr a1, w')
    \<and> w_kernel w' = put (fw_fd (w_fds w1 fd)) (Some (raw_address dest)) (concat (frame_buffers f)) (w_kernel w1)"
proof -
  obtain f where f: "send_datagram (ea_interface a1) d (ea_next_hop a1) = Inr (ea_interface a1, [f])"
      "carries (ea_interface a1) e d f"
    using send_datagram_resolved [OF assms(4,5,3)] by blast
  obtain w' where w': "eth_transmit sy a1 [f] w1 = (Inr (), w')"
      "w_kernel w' = put (fw_fd (w_fds w1 fd)) (Some (raw_address dest)) (concat (frame_buffers f)) (w_kernel w1)"
    using eth_transmit_one [OF assms(6,7,8)] by blast
  have "eth_write sy a msg w = (Inr a1, w')"
    using assms(1,2) f(1) w'(1) by (simp add: eth_write_def io_bind_def Let_def del: eth_transmit.simps)
  with f(2) w'(2) show ?thesis by blast
qed

text \<open>The bytes of a user datagram come in four pieces, none of which is empty before one that is not.\<close>

lemma eth_recv:
  assumes "so_recvmsg so (fw_fd (w_fds v fd)) [14, 20, 20, kReadBufferSize] MSG_TRUNC (w_kernel v)
      = ((int (length wire), wire, raw, namelen, 0), k)"
    and "length wire \<le> 54 + kReadBufferSize" and "0 < namelen" and "address_new raw namelen = Inr from"
  shows "\<exists>pieces v'. recv_scattered sys so (Some fd) (eth_buffers []) v = (Inr (from, pieces), v') \<and> w_kernel v' = k
    \<and> chunks (map Owned pieces) = wire \<and> packed (map Owned pieces)"
proof -
  let ?ns = "[14, 20, 20, kReadBufferSize]"
  let ?bufs = "[replicate 14 0, replicate 20 0, replicate 20 0, []] :: bytes list"
  let ?bufs' = "butlast ?bufs @ [replicate kReadBufferSize 0] :: bytes list"
  have sizes: "map length ?bufs' = ?ns" by simp
  have bufs: "eth_buffers [] = ?bufs"
    by (simp add: eth_buffers_def resize_buffers_def resize_def ETHERNET_LENGTH_def IPV4_LENGTH_def TCP_HEADER_LENGTH_def
        numeral_eq_Suc)
  have fits: "length wire \<le> sum_list (map length ?bufs')"
    unfolding sizes using assms(2) by simp
  obtain v' where recv: "recv_scattered sys so (Some fd) ?bufs v = (Inr (from, cut_into ?ns wire), v')" "w_kernel v' = k"
    using recv_scattered_correct [of ?bufs ?bufs' so v fd wire raw namelen 0 k "from" sys, OF _ _ _ _ fits assms(3,4)]
      assms(1) unfolding sizes by auto
  have "packed (map Owned (cut_into ?ns wire))" "chunks (map Owned (cut_into ?ns wire)) = wire"
    using concat_cut_into [OF fits] unfolding sizes
    by (simp_all add: packed_cut_into kReadBufferSize_def del: cut_into.simps)
  with recv show ?thesis unfolding bufs by blast
qed

text \<open>A frame for this interface that holds a datagram is received and unwrapped.\<close>

lemma eth_read_frame:
  assumes "tick_network_interface sy b v = (Inr b1, v1)" and "eth_drained b1"
    and "ea_socket b1 = Some fd" and "valid_header h" and "unat (ip_len h) = 20 + length bs"
    and "length bs \<le> 20 + kReadBufferSize" 
    and "wire = ethernet_header_bytes \<lparr>eh_dst = ethernet_address (ea_interface b1), eh_src = src, eh_type = TYPE_IPv4\<rparr> @ ipv4_header_bytes h @ bs"
    and "so_recvmsg (sy_sockets sy) (fw_fd (w_fds v1 fd)) [14, 20, 20, kReadBufferSize] MSG_TRUNC (w_kernel v1)
      = ((int (length wire), wire, raw, namelen, 0), k)"
    and "0 < namelen" and "address_new raw namelen = Inr from" and "address_to_string (sy_names sy) from = Inr name"
    and "\<And>cs. chunks cs = bs \<Longrightarrow> \<forall>c\<in>set cs. is_owned c \<Longrightarrow> packed cs \<Longrightarrow>
      unwrap_tcp_in_ip (sy_names sy) (sy_addrs sy) (ea_base b1) \<lparr>dg_header = h, dg_payload = cs\<rparr> = Inr (base, msg)"
  shows "\<exists>v'. eth_read sy b v = (Inr (b1\<lparr>ea_base := base,
        ea_physical_dest := Some (case ea_physical_dest b1 of None \<Rightarrow> from | Some dest \<Rightarrow> dest)\<rparr>, msg), v') \<and> w_kernel v' = k"
proof -
  have "length wire \<le> 54 + kReadBufferSize"
    using assms(6,7) by (simp add: length_ipv4_header_bytes length_ethernet_header_bytes)
  from eth_recv [OF assms(8) this assms(9,10), of "sy_calls sy"] obtain pieces v2 where
    recv: "recv_scattered (sy_calls sy) (sy_sockets sy) (Some fd) (eth_buffers []) v1 = (Inr (from, pieces), v2)" "w_kernel v2 = k"
    and cs: "chunks (map Owned pieces) = wire" "packed (map Owned pieces)" "\<forall>c\<in>set (map Owned pieces). is_owned c" by auto
  let ?h = "\<lparr>eh_dst = ethernet_address (ea_interface b1), eh_src = src, eh_type = TYPE_IPv4\<rparr>"
  obtain inner where inner: "parse_with (ethernet_frame_parse default_ethernet_frame) (map Owned pieces)
      = Inr (\<lparr>ef_header = ?h, ef_payload = inner\<rparr>, True)"
    "chunks inner = ipv4_header_bytes h @ bs" "\<forall>x\<in>set inner. is_owned x" "packed inner"
    using parse_frame_packed [OF cs(3,2), of ?h "ipv4_header_bytes h @ bs"] cs(1) assms(7) by auto
  obtain payload where payload: "recv_frame (ea_interface b1) \<lparr>ef_header = ?h, ef_payload = inner\<rparr>
      = Inr ((ea_interface b1)\<lparr>datagrams_received := [\<lparr>dg_header = h, dg_payload = payload\<rparr>]\<rparr>, [])"
    "chunks payload = bs" "\<forall>c\<in>set payload. is_owned c" "packed payload"
    using recv_frame_datagram [OF refl assms(4,5) inner(3,4,2), of "ea_interface b1" src] assms(2)
    by (auto simp: eth_drained_def)
  let ?c = "b1\<lparr>ea_physical_dest := Some (case ea_physical_dest b1 of None \<Rightarrow> from | Some dest \<Rightarrow> dest)\<rparr>"
  have connected: "(if eth_is_connected b1 then io_return b1 else eth_connect (sy_names sy) from b1) v2 = (Inr ?c, v2)"
    using assms(11) by (cases "ea_physical_dest b1") (simp_all add: eth_is_connected_def eth_connect_def)
  have drained: "datagrams_received (ea_interface b1) = []" "ea_incoming b1 = []" "b1\<lparr>ea_incoming := []\<rparr> = b1"
    using assms(2) by (simp_all add: eth_drained_def)
  have "eth_take_frame sy \<lparr>ef_header = ?h, ef_payload = inner\<rparr> ?c v2 = (Inr (?c\<lparr>ea_base := base\<rparr>, msg), v2)"
    using payload(1) assms(12) [OF payload(2-4)] drained(1)
    by (simp add: eth_take_frame_def Let_def eth_take_datagram_def)
  then have last: "io_bind (if eth_is_connected b1 then io_return b1 else eth_connect (sy_names sy) from b1)
      (eth_take_frame sy \<lparr>ef_header = ?h, ef_payload = inner\<rparr>) v2 = (Inr (?c\<lparr>ea_base := base\<rparr>, msg), v2)"
    by (simp only: io_bind_def connected prod.case sum.case)
  have "io_bind (tick_network_interface sy b) f v = f b1 v1"
    "io_bind (recv_scattered (sy_calls sy) (sy_sockets sy) (Some fd) (eth_buffers [])) g v1 = g (from, pieces) v2"
    for f :: "_ \<Rightarrow> ('a, eth_adapter \<times> tcp_message option) sys" and g :: "_ \<Rightarrow> ('a, eth_adapter \<times> tcp_message option) sys"
    by (simp_all only: io_bind_def assms(1) recv(1) prod.case sum.case)
  then have "eth_read sy b v = (Inr (?c\<lparr>ea_base := base\<rparr>, msg), v2)"
    by (simp only: eth_read_def Let_def drained assms(3) prod.case inner(1) io_bind_simps last simp_thms if_False if_True)
  with recv(2) show ?thesis by auto
qed

subsection \<open>Properties\<close>

text \<open>C11: a message crosses Ethernet in user datagrams: when the adapters have each other as source and destination,
  the writer is connected, and its interface knows the reader's as the next hop, then writing is
  one user datagram to the physical destination; when the other socket then hands over these bytes, from whatever
  sender, reading gives the message back, and a reader that had no physical destination yet
  has that sender as its own.\<close>

theorem eth_carries_message:
  assumes "port (sy_names sy) (ac_source (ad_cfg (ea_base a))) = Inr pa" and "ipv4_numeric (ac_source (ad_cfg (ea_base a))) = Inr ia"
    and "port (sy_names sy) (ac_destination (ad_cfg (ea_base a))) = Inr pb" and "ipv4_numeric (ac_destination (ad_cfg (ea_base a))) = Inr ib"
    and "ac_source (ad_cfg (ea_base b)) = ac_destination (ad_cfg (ea_base a))"
    and "ac_destination (ad_cfg (ea_base b)) = ac_source (ad_cfg (ea_base a))"
    and "\<not> ad_listen (ea_base b)" and "length (sm_payload (ref_get (tm_sender msg))) \<le> kReadBufferSize"
    and "ea_socket a = Some fa" and "ea_socket b = Some fb" and "ea_physical_dest a = Some dest" and "eth_drained b"
    and "tick_network_interface sy a w = (Inr a1, w1)" and "ipv4_numeric (ea_next_hop a) = Inr ip"
    and "neighbour (ea_interface a1) ip = Resolved (ethernet_address (ea_interface b)) t"
    and "\<And>n bufs to k. so_sendmsg (sy_sockets sy) n bufs to k = (int (length (concat bufs)), put n to (concat bufs) k)"
  shows "\<exists>wire. length wire = 54 + length (sm_payload (ref_get (tm_sender msg)))
    \<and> (\<exists>w'. eth_write sy a msg w = (Inr a1, w')
      \<and> w_kernel w' = put (fw_fd (w_fds w1 fa)) (Some (raw_address dest)) wire (w_kernel w1))
    \<and> (\<forall>v b1 v1 raw namelen k from name. tick_network_interface sy b v = (Inr b1, v1)
      \<and> so_recvmsg (sy_sockets sy) (fw_fd (w_fds v1 fb)) [14, 20, 20, kReadBufferSize] MSG_TRUNC (w_kernel v1)
        = ((int (length wire), wire, raw, namelen, 0), k)
      \<and> 0 < namelen \<and> address_new raw namelen = Inr from \<and> address_to_string (sy_names sy) from = Inr name \<longrightarrow>
        (\<exists>v'. eth_read sy b v = (Inr (b1\<lparr>ea_physical_dest := Some (case ea_physical_dest b of None \<Rightarrow> from | Some dest \<Rightarrow> dest)\<rparr>,
            Some (received_message msg)), v') \<and> w_kernel v' = k))"
proof -
  have a1: "ea_base a1 = ea_base a" "ea_socket a1 = Some fa" "ea_physical_dest a1 = Some dest" "ea_next_hop a1 = ea_next_hop a"
      "w_fds w1 = w_fds w"
    using tick_network_interface_eq [of sy a w] assms(9,11,13) by auto
  have max: "length (sm_payload (ref_get (tm_sender msg))) \<le> 65495" using assms(8) by (simp add: kReadBufferSize_def)
  from unwrap_wrapped [OF assms(1-7) max, of "sy_addrs sy"] obtain h payload where
    sent: "wrap_tcp_in_ip (sy_names sy) (ea_base a) msg = Inr \<lparr>dg_header = h, dg_payload = payload\<rparr>"
      "valid_header h" "unat (ip_len h) = 20 + length (chunks payload)"
    and got: "\<And>cs. chunks cs = chunks payload \<Longrightarrow> \<forall>c\<in>set cs. is_owned c \<Longrightarrow> packed cs \<Longrightarrow>
      unwrap_tcp_in_ip (sy_names sy) (sy_addrs sy) (ea_base b) \<lparr>dg_header = h, dg_payload = cs\<rparr> = Inr (ea_base b, Some (received_message msg))"
    by blast
  let ?d = "\<lparr>dg_header = h, dg_payload = payload\<rparr>"
  have "h = sent_header ia ib msg" using wrap_eq [OF assms(1,3,2,4), of msg] sent(1) by auto
  then have size: "length (chunks payload) = 20 + length (sm_payload (ref_get (tm_sender msg)))"
    using sent(3) sent_header_len [OF max] by simp
  have d: "sendable ?d" using sent(2) by (simp add: sendable_def valid_header_def)
  have hop: "ipv4_numeric (ea_next_hop a1) = Inr ip" and wrapped: "wrap_tcp_in_ip (sy_names sy) (ea_base a1) msg = Inr ?d"
    using assms(14) sent(1) a1 by simp_all
  obtain f w' where f: "carries (ea_interface a1) (ethernet_address (ea_interface b)) ?d f" "eth_write sy a msg w = (Inr a1, w')"
      "w_kernel w' = put (fw_fd (w_fds w1 fa)) (Some (raw_address dest)) (concat (frame_buffers f)) (w_kernel w1)"
    using eth_write_sends [OF assms(13) wrapped d assms(15) hop a1(2,3) assms(16)] by blast
  let ?wire = "concat (frame_buffers f)"
  have wire: "?wire = ethernet_header_bytes \<lparr>eh_dst = ethernet_address (ea_interface b),
      eh_src = ethernet_address (ea_interface a1), eh_type = TYPE_IPv4\<rparr> @ ipv4_header_bytes h @ chunks payload"
    using ipv4_frame_Inr [of "ea_interface a1" "ethernet_address (ea_interface b)" ?d f] f(1)
    by (simp add: carries_def frame_buffers_bytes(1))
  have small: "length (chunks payload) \<le> 20 + kReadBufferSize" using size assms(8) by simp
  have read: "\<exists>v'. eth_read sy b v = (Inr (b1\<lparr>ea_physical_dest := Some (case ea_physical_dest b of None \<Rightarrow> from | Some dest \<Rightarrow> dest)\<rparr>,
      Some (received_message msg)), v') \<and> w_kernel v' = k"
    if tick: "tick_network_interface sy b v = (Inr b1, v1)"
      and recv: "so_recvmsg (sy_sockets sy) (fw_fd (w_fds v1 fb)) [14, 20, 20, kReadBufferSize] MSG_TRUNC (w_kernel v1)
        = ((int (length ?wire), ?wire, raw, namelen, 0), k)"
      and "from": "0 < namelen" "address_new raw namelen = Inr from" "address_to_string (sy_names sy) from = Inr name"
    for v b1 v1 raw namelen k "from" name
  proof -
    have b1: "ea_base b1 = ea_base b" "ea_socket b1 = Some fb" "ea_physical_dest b1 = ea_physical_dest b" "eth_drained b1"
      "ethernet_address (ea_interface b1) = ethernet_address (ea_interface b)"
      using tick_network_interface_eq [of sy b v] assms(10,12) tick by (auto simp: eth_drained_def)
    show ?thesis
      using eth_read_frame [OF tick b1(4,2) sent(2,3) small wire [folded b1(5)] recv "from" got [folded b1(1)]] b1 by (cases b1) simp
  qed
  have "length ?wire = 54 + length (sm_payload (ref_get (tm_sender msg)))"
    unfolding wire using size by (simp add: length_ipv4_header_bytes length_ethernet_header_bytes)
  with f(2,3) read show ?thesis by (intro exI [of _ ?wire]) blast
qed

text \<open>A network whose datagrams stay in order and come from 10.0.0.1.\<close>

definition wire_system :: "bytes list system" where
  "wire_system = \<lparr>
     sy_calls = \<lparr>sys_errno = (\<lambda>_. 0), sys_read = (\<lambda>_ _ k. ((0, []), k)), sys_readv = (\<lambda>_ _ k. ((0, []), k)),
       sys_write = (\<lambda>_ bs k. (int (length bs), k)), sys_writev = (\<lambda>_ bufs k. (int (length (concat bufs)), k)),
       sys_getfl = (\<lambda>_ k. (0, k)), sys_setfl = (\<lambda>_ _ k. (0, k)), sys_close = (\<lambda>_ k. (0, k))\<rparr>,
     sy_sockets = \<lparr>so_socket = (\<lambda>_ _ _ k. (3, k)), so_getsockopt = (\<lambda>_ _ _ k. ((0, 0, 4), k)),
       so_setsockopt = (\<lambda>_ _ _ _ k. (0, k)), so_getsockname = (\<lambda>_ k. ((0, [], 0), k)),
       so_getpeername = (\<lambda>_ k. ((0, [], 0), k)), so_bind = (\<lambda>_ _ _ k. (0, k)), so_connect = (\<lambda>_ _ _ k. (0, k)),
       so_shutdown = (\<lambda>_ _ k. (0, k)), so_recvfrom = (\<lambda>_ _ _ k. ((-1, [], [], 0), k)),
       so_recvmsg = (\<lambda>_ _ _ k. ((int (length (hd k)), hd k, [2, 0] @ be_bytes (9 :: u16) @ be_bytes (0x0a000001 :: u32) @ replicate 8 0, 16, 0), tl k)),
       so_sendto = (\<lambda>_ bs _ k. (int (length bs), k @ [bs])),
       so_sendmsg = (\<lambda>_ bufs _ k. (int (length (concat bufs)), k @ [concat bufs])), so_listen = (\<lambda>_ _ k. (0, k)),
       so_accept = (\<lambda>_ k. (3, k))\<rparr>,
     sy_poll = \<lparr>sys_poll = (\<lambda>_ _ k. ((0, []), k)), sys_so_error = (\<lambda>_ k. ((0, 0, 4), k))\<rparr>,
     sy_names = demo_getnameinfo, sy_addrs = (\<lambda>_ _ _. (1, None)), sy_clock = (\<lambda>k. (0, k)), sy_random = (\<lambda>k. (0, k))\<rparr>"

definition wire_world :: "bytes list world" where
  "wire_world = \<lparr>w_fds = (\<lambda>_. \<lparr>fw_fd = 3, fw_eof = False, fw_closed = False, fw_non_blocking = False,
     fw_read_count = 0, fw_write_count = 0\<rparr>), w_allocated = 1, w_kernel = []\<rparr>"

definition eth_writer :: eth_adapter where
  "eth_writer = \<lparr>ea_base = demo_adapter 1 80 2 90, ea_socket = Some 0, ea_physical_dest = Some (ipv4_address 5),
     ea_interface = (fresh_interface (Eth 2 0 0 0 0 1) 1)\<lparr>ip_ether_map := Mapping.update 9
       \<lparr>ether_addr = Eth 2 0 0 0 0 9, time_created = 0\<rparr> Mapping.empty\<rparr>,
     ea_next_hop = ipv4_address 9, ea_incoming = [], ea_last_tick = 0\<rparr>"

definition eth_reader :: eth_adapter where
  "eth_reader = \<lparr>ea_base = demo_adapter 2 90 1 80, ea_socket = Some 0, ea_physical_dest = None,
     ea_interface = fresh_interface (Eth 2 0 0 0 0 9) 9, ea_next_hop = ipv4_address 1, ea_incoming = [], ea_last_tick = 0\<rparr>"

lemma wire_tick: "ea_last_tick a = 0 \<Longrightarrow> tick_network_interface wire_system a w = (Inr a, w)"
  by (cases a; cases w) (simp add: tick_network_interface_def io_bind_def call_def system_timestamp_ms_def wire_system_def)

lemma wire_source: "address_new ([2, 0] @ be_bytes p @ be_bytes ip @ replicate 8 0) 16 = Inr (demo_address ip p)"
  by (simp add: address_new_def demo_address_def SOCKADDR_STORAGE_SIZE_def replicate_add [symmetric])

lemma wire_source_named: "\<exists>name. address_to_string demo_getnameinfo (demo_address ip p) = Inr name"
  using demo_address_views(1) [of ip p]
  by (cases "ip_port demo_getnameinfo (demo_address ip p)") (auto simp: port_def address_to_string_def)

theorem eth_carries_message_witness:
  "\<exists>wire w' v'. length wire = 57 \<and> eth_write wire_system eth_writer (ts_message demo_segment) wire_world = (Inr eth_writer, w')
    \<and> w_kernel w' = [wire]
    \<and> eth_read wire_system eth_reader w'
      = (Inr (eth_reader\<lparr>ea_physical_dest := Some (demo_address 0x0a000001 9)\<rparr>,
          Some (received_message (ts_message demo_segment))), v') \<and> w_kernel v' = []"
proof -
  have payload: "length (sm_payload (ref_get (tm_sender (ts_message demo_segment)))) = 3"
    by (simp add: demo_segment_def)
  then have small: "length (sm_payload (ref_get (tm_sender (ts_message demo_segment)))) \<le> kReadBufferSize"
    by (simp add: kReadBufferSize_def)
  have names: "sy_names wire_system = demo_getnameinfo" by (simp add: wire_system_def)
  have bases: "ea_base eth_writer = demo_adapter 1 80 2 90" "ea_base eth_reader = demo_adapter 2 90 1 80"
    "ea_socket eth_writer = Some 0" "ea_socket eth_reader = Some 0" "ea_physical_dest eth_writer = Some (ipv4_address 5)"
    "ea_physical_dest eth_reader = None" "eth_drained eth_reader" "ea_last_tick eth_writer = 0" "ea_last_tick eth_reader = 0"
    "ipv4_numeric (ea_next_hop eth_writer) = Inr 9" "fw_fd (w_fds wire_world 0) = 3"
    "neighbour (ea_interface eth_writer) 9 = Resolved (ethernet_address (ea_interface eth_reader)) 0"
    by (simp_all add: eth_writer_def eth_reader_def eth_drained_def neighbour_def wire_world_def)
  have device: "so_sendmsg (sy_sockets wire_system) n bufs to k = (int (length (concat bufs)), k @ [concat bufs])" for n bufs to k
    by (simp add: wire_system_def)
  from eth_carries_message [of wire_system eth_writer 80 1 90 2 eth_reader "ts_message demo_segment" 0 0 "ipv4_address 5"
      wire_world eth_writer wire_world 9 0 "\<lambda>_ _ bs k. k @ [bs]", unfolded names bases(1,2), OF demo_adapters_agree demo_adapter_simps(3) small
      bases(3,4,5,7) wire_tick [OF bases(8)] bases(10,12) device] payload
  obtain wire w' where w: "length wire = 54 + length (sm_payload (ref_get (tm_sender (ts_message demo_segment))))"
      "eth_write wire_system eth_writer (ts_message demo_segment) wire_world = (Inr eth_writer, w')"
      "w_kernel w' = w_kernel wire_world @ [wire]"
    and r: "\<forall>v b1 v1 raw namelen k from name. tick_network_interface wire_system eth_reader v = (Inr b1, v1)
      \<and> so_recvmsg (sy_sockets wire_system) (fw_fd (w_fds v1 0)) [14, 20, 20, kReadBufferSize] MSG_TRUNC (w_kernel v1)
        = ((int (length wire), wire, raw, namelen, 0), k)
      \<and> 0 < namelen \<and> address_new raw namelen = Inr from \<and> address_to_string demo_getnameinfo from = Inr name \<longrightarrow>
        (\<exists>v'. eth_read wire_system eth_reader v
          = (Inr (b1\<lparr>ea_physical_dest := Some (case ea_physical_dest eth_reader of None \<Rightarrow> from | Some dest \<Rightarrow> dest)\<rparr>,
            Some (received_message (ts_message demo_segment))), v') \<and> w_kernel v' = k)"
    by blast
  obtain name where name: "address_to_string demo_getnameinfo (demo_address 0x0a000001 9) = Inr name"
    using wire_source_named by blast
  have sent: "w_kernel w' = [wire]" using w(3) by (simp add: wire_world_def)
  have "so_recvmsg (sy_sockets wire_system) (fw_fd (w_fds w' 0)) [14, 20, 20, kReadBufferSize] MSG_TRUNC (w_kernel w')
      = ((int (length wire), wire, [2, 0] @ be_bytes (9 :: u16) @ be_bytes (0x0a000001 :: u32) @ replicate 8 0, 16, 0), [])"
    by (simp add: sent) (simp add: wire_system_def)
  then obtain v' where "eth_read wire_system eth_reader w'
      = (Inr (eth_reader\<lparr>ea_physical_dest := Some (demo_address 0x0a000001 9)\<rparr>,
          Some (received_message (ts_message demo_segment))), v')" "w_kernel v' = []"
    using r [THEN spec [of _ w'], THEN spec [of _ eth_reader], THEN spec [of _ w'], THEN spec, THEN spec [of _ 16], THEN spec [of _ "[]"],
        THEN spec [of _ "demo_address 0x0a000001 9"], THEN spec [of _ name], THEN mp,
        OF conjI [OF wire_tick [OF bases(9)] conjI [OF _ conjI [OF _ conjI [OF wire_source name]]]]]
    by (auto simp: bases(6))
  with w(1,2) sent payload show ?thesis by auto
qed

end
