(* ===== verification/Tcp_Ipv4.thy ===== *)
theory Tcp_Ipv4
  imports Owner "HOL-Library.Sublist"
begin

text \<open>
  The program \<open>apps/tcp_ipv4.cc\<close>: TCP in IPv4 over a TUN device that may lose datagrams. The greater part
  of it reads the arguments: options first, of which some take a value, and a host and a port at the end.
  The index \<open>curr\<close> and the comparisons with the number of arguments are in 64 bits, as in the code, and
  reading the span of arguments out of its range is undefined.

  \<open>strtof\<close>, the multiplication in floating point and the conversion to 16 bits, which is undefined out of
  range, are one argument, \<open>loss\<close>; the random engine is a type with a function that seeds it.
\<close>

subsection \<open>Arguments\<close>

text \<open>\<open>strtol\<close> with base 0: spaces, a sign, then a hexadecimal number after \<open>0x\<close>, an octal one after \<open>0\<close>, or a
  decimal one; no digits are 0, and what does not fit into 64 bits is the nearest number that does.\<close>

definition digit_value :: "char \<Rightarrow> nat" where
  "digit_value c = (let n = of_char c in
     if 48 \<le> n \<and> n \<le> 57 then n - 48 else if 97 \<le> n \<and> n \<le> 122 then n - 87
     else if 65 \<le> n \<and> n \<le> 90 then n - 55 else 36)"

definition number_in :: "nat \<Rightarrow> string \<Rightarrow> nat" where
  "number_in base s = foldl (\<lambda>n c. base * n + digit_value c) 0 (takeWhile (\<lambda>c. digit_value c < base) s)"

definition strtol :: "string \<Rightarrow> int" where
  "strtol s =
     (let (negative, s) = signed (dropWhile is_space s);
          n = (if take 1 s = ''0'' \<and> take 1 (drop 1 s) \<in> {''x'', ''X''} \<and> (\<exists>c\<in>set (take 1 (drop 2 s)). digit_value c < 16)
               then number_in 16 (drop 2 s)
               else if take 1 s = ''0'' then number_in 8 s else number_in 10 s)
      in max (- (2 ^ 63)) (min (2 ^ 63 - 1) (if negative then - int n else int n)))"

datatype 'a finishes = Exits int | Goes_on 'a

record options =
  op_fsm :: tcp_config
  op_filt :: fd_adapter_config
  op_tundev :: "string option"
  op_curr :: u64
  op_listen :: bool
  op_source_address :: string
  op_source_port :: string

definition arg :: "string list \<Rightarrow> u64 \<Rightarrow> string result" where
  "arg args i = (if unat i < length args then Inr (args ! unat i) else Inl (Undefined_behaviour ''span''))"

definition check_argc :: "string list \<Rightarrow> u64 \<Rightarrow> bool" where
  "check_argc args i \<longleftrightarrow> i + 3 \<ge> of_nat (length args)"

text \<open>What an option does with its value, if it takes one.\<close>

definition option_value :: "(string \<Rightarrow> u16 result) \<Rightarrow> string \<Rightarrow> (string \<Rightarrow> options \<Rightarrow> options result) option" where
  "option_value loss option =
     (if strncmp_equal 3 ''-a'' option then Some (\<lambda>x c. Inr (c\<lparr>op_source_address := x\<rparr>))
      else if strncmp_equal 3 ''-s'' option then Some (\<lambda>x c. Inr (c\<lparr>op_source_port := x\<rparr>))
      else if strncmp_equal 3 ''-w'' option then Some (\<lambda>x c. Inr (c\<lparr>op_fsm := (op_fsm c)\<lparr>cfg_recv_capacity := word_of_int (strtol x)\<rparr>\<rparr>))
      else if strncmp_equal 3 ''-t'' option then Some (\<lambda>x c. Inr (c\<lparr>op_fsm := (op_fsm c)\<lparr>cfg_rt_timeout := word_of_int (strtol x)\<rparr>\<rparr>))
      else if strncmp_equal 3 ''-d'' option then Some (\<lambda>x c. Inr (c\<lparr>op_tundev := Some x\<rparr>))
      else if strncmp_equal 3 ''-Lu'' option then Some (\<lambda>x c. map_sum id (\<lambda>rate. c\<lparr>op_filt := (op_filt c)\<lparr>ac_loss_rate_up := rate\<rparr>\<rparr>) (loss x))
      else if strncmp_equal 3 ''-Ld'' option then Some (\<lambda>x c. map_sum id (\<lambda>rate. c\<lparr>op_filt := (op_filt c)\<lparr>ac_loss_rate_dn := rate\<rparr>\<rparr>) (loss x))
      else None)"

definition option_step :: "(string \<Rightarrow> u16 result) \<Rightarrow> string list \<Rightarrow> options \<Rightarrow> options finishes result" where
  "option_step loss args c =
     res_bind (arg args (op_curr c)) (\<lambda>option.
       if strncmp_equal 3 ''-l'' option then Inr (Goes_on (c\<lparr>op_listen := True, op_curr := op_curr c + 1\<rparr>))
       else case option_value loss option of
           Some f \<Rightarrow>
             if check_argc args (op_curr c) then Inr (Exits 1)
             else res_bind (arg args (op_curr c + 1)) (\<lambda>x.
                  map_sum id (\<lambda>c. Goes_on (c\<lparr>op_curr := op_curr c + 2\<rparr>)) (f x c))
         | None \<Rightarrow> Inr (Exits (if strncmp_equal 3 ''-h'' option then 0 else 1)))"

lemma option_value_curr: "option_value loss option = Some f \<Longrightarrow> f x c = Inr c' \<Longrightarrow> op_curr c' = op_curr c"
  by (auto simp: option_value_def map_sum_eq_Inr split: if_splits)

lemma option_step_advances:
  "option_step loss args c = Inr (Goes_on c') \<Longrightarrow> op_curr c' = op_curr c + 1 \<or> op_curr c' = op_curr c + 2"
  by (auto simp: option_step_def res_bind_def map_sum_eq_Inr option_value_curr split: sum.splits if_splits option.splits)

text \<open>The loop ends because the index comes nearer to the end of the arguments.\<close>

lemma index_closer:
  fixes n i :: u64
  assumes "n - i > 2" and "j = i + 1 \<or> j = i + 2"
  shows "unat (n - j) < unat (n - i)"
proof -
  have "unat (d - 1) < unat d" "unat (d - 2) < unat d" if "d > 2" for d :: u64
    using that by (simp_all add: unat_sub word_le_nat_alt word_less_nat_alt)
  from this [OF assms(1)] assms(2) show ?thesis by (auto simp: diff_diff_eq)
qed

function options_loop :: "(string \<Rightarrow> u16 result) \<Rightarrow> string list \<Rightarrow> options \<Rightarrow> options finishes result" where
  "options_loop loss args c =
     (if of_nat (length args) - op_curr c > 2
      then case option_step loss args c of
          Inr (Goes_on c') \<Rightarrow> options_loop loss args c'
        | r \<Rightarrow> r
      else Inr (Goes_on c))"
  by pat_completeness auto
termination
  by (relation "measure (\<lambda>(loss, args, c). unat (of_nat (length args) - op_curr c))")
    (auto simp: index_closer [OF _ option_step_advances])

declare options_loop.simps [simp del]

text \<open>What the options mean, without indices and without \<open>strncmp\<close>: the words between the name of the
  program and the last two arguments, from the left, each option with its own value. A value that is
  missing, \<open>-h\<close> and a word that is no option end the program. The loss rates are options that are
  recognized by their beginning, the others by the whole word.\<close>

definition option_meaning :: "(string \<Rightarrow> u16 result) \<Rightarrow> string \<Rightarrow> (string \<Rightarrow> options \<Rightarrow> options result) option" where
  "option_meaning loss word =
     (if prefix ''-Lu'' word then Some (\<lambda>x c. map_sum id (\<lambda>rate. c\<lparr>op_filt := (op_filt c)\<lparr>ac_loss_rate_up := rate\<rparr>\<rparr>) (loss x))
      else if prefix ''-Ld'' word then Some (\<lambda>x c. map_sum id (\<lambda>rate. c\<lparr>op_filt := (op_filt c)\<lparr>ac_loss_rate_dn := rate\<rparr>\<rparr>) (loss x))
      else map_of
        [(''-a'', \<lambda>x c. Inr (c\<lparr>op_source_address := x\<rparr>)), (''-s'', \<lambda>x c. Inr (c\<lparr>op_source_port := x\<rparr>)),
         (''-w'', \<lambda>x c. Inr (c\<lparr>op_fsm := (op_fsm c)\<lparr>cfg_recv_capacity := word_of_int (strtol x)\<rparr>\<rparr>)),
         (''-t'', \<lambda>x c. Inr (c\<lparr>op_fsm := (op_fsm c)\<lparr>cfg_rt_timeout := word_of_int (strtol x)\<rparr>\<rparr>)),
         (''-d'', \<lambda>x c. Inr (c\<lparr>op_tundev := Some x\<rparr>))] word)"

fun options_spec :: "(string \<Rightarrow> u16 result) \<Rightarrow> string list \<Rightarrow> options \<Rightarrow> options finishes result" where
  "options_spec loss [] c = Inr (Goes_on c)"
| "options_spec loss (option # ws) c =
     (if option = ''-l'' then options_spec loss ws (c\<lparr>op_listen := True\<rparr>)
      else case option_meaning loss option of
          None \<Rightarrow> Inr (Exits (if option = ''-h'' then 0 else 1))
        | Some f \<Rightarrow> (case ws of
              [] \<Rightarrow> Inr (Exits 1)
            | x # ws \<Rightarrow> res_bind (f x c) (options_spec loss ws)))"

text \<open>An argument ends at its zero byte.\<close>

definition c_strings :: "string list \<Rightarrow> bool" where
  "c_strings ws \<longleftrightarrow> (\<forall>w\<in>set ws. CHR 0x00 \<notin> set w)"

lemma c_strings_simps [simp]:
  "c_strings []" "c_strings (w # ws) \<longleftrightarrow> CHR 0x00 \<notin> set w \<and> c_strings ws"
  "c_strings (ws @ ws') \<longleftrightarrow> c_strings ws \<and> c_strings ws'"
  by (auto simp: c_strings_def)

lemma strncmp_options:
  assumes "CHR 0x00 \<notin> set word" and "c \<noteq> CHR 0x00"
  shows "strncmp_equal 3 [CHR ''-'', c] word \<longleftrightarrow> word = [CHR ''-'', c]"
    and "strncmp_equal 3 [CHR ''-'', CHR ''L'', c] word \<longleftrightarrow> prefix [CHR ''-'', CHR ''L'', c] word"
proof -
  show "strncmp_equal 3 [CHR ''-'', c] word \<longleftrightarrow> word = [CHR ''-'', c]"
    using assms by (intro strncmp_short) simp_all
  let ?s = "[CHR ''-'', CHR ''L'', c]"
  show "strncmp_equal 3 ?s word \<longleftrightarrow> prefix ?s word"
  proof (cases "3 \<le> length word")
    case True
    have "take 3 word = ?s \<longleftrightarrow> prefix ?s word"
      by (metis True append_eq_conv_conj append_take_drop_id length_Cons list.size(3) numeral_3_eq_3 prefix_def)
    with True show ?thesis using strncmp_long [of ?s 3 word] by simp
  next
    case False
    then have "strncmp_equal 3 word ?s \<longleftrightarrow> ?s = word" using assms by (intro strncmp_short) auto
    with False have "\<not> strncmp_equal 3 ?s word" by (auto simp: strncmp_equal_def)
    moreover from False have "\<not> prefix ?s word" by (auto dest: prefix_length_le)
    ultimately show ?thesis by simp
  qed
qed

lemma option_value_meaning: "CHR 0x00 \<notin> set word \<Longrightarrow> option_value loss word = option_meaning loss word"
  using strncmp_options [of word] by (auto simp: option_value_def option_meaning_def)

fun at_index :: "u64 \<Rightarrow> options finishes \<Rightarrow> options finishes" where
  "at_index i (Goes_on c) = Goes_on (c\<lparr>op_curr := i\<rparr>)"
| "at_index i (Exits n) = Exits n"

lemma option_meaning_keeps:
  "option_meaning loss option = Some f \<Longrightarrow> f x (c\<lparr>op_curr := i\<rparr>) = map_sum id (\<lambda>c. c\<lparr>op_curr := i\<rparr>) (f x c)"
  by (cases "loss x"; cases c) (auto simp: option_meaning_def split: if_splits)

lemma option_meaning_curr: "option_meaning loss option = Some f \<Longrightarrow> f x c = Inr c' \<Longrightarrow> op_curr c' = op_curr c"
  by (auto simp: option_meaning_def map_sum_eq_Inr split: if_splits)

definition moved_to :: "u64 \<Rightarrow> options finishes result \<Rightarrow> options finishes result" where
  "moved_to i r = res_bind r (\<lambda>x. Inr (at_index i x))"

lemma moved_to_simps [simp]:
  "moved_to i (Inl e) = Inl e" "moved_to i (Inr x) = Inr (at_index i x)"
  by (simp_all add: moved_to_def)

lemma options_spec_curr:
  "moved_to j (options_spec loss ws (c\<lparr>op_curr := i\<rparr>)) = moved_to j (options_spec loss ws c)"
proof (induction loss ws c arbitrary: i rule: options_spec.induct)
  case (2 loss option ws c)
  show ?case
  proof (cases "option = ''-l''")
    case True
    moreover have swap: "c\<lparr>op_curr := i, op_listen := True\<rparr> = c\<lparr>op_listen := True, op_curr := i\<rparr>" by (cases c) simp
    ultimately show ?thesis using 2(1) [OF True, of i] by (simp only: options_spec.simps if_True swap simp_thms)
  next
    case not_l: False
    show ?thesis
    proof (cases "option_meaning loss option")
      case None
      with not_l show ?thesis by simp
    next
      case (Some f)
      show ?thesis
      proof (cases ws)
        case Nil
        with not_l Some show ?thesis by simp
      next
        case (Cons x ws')
        with not_l Some 2(2) [OF not_l Some Cons] option_meaning_keeps [OF Some, of x i c] show ?thesis
          by (cases "f x c") simp_all
      qed
    qed
  qed
qed simp

text \<open>Where the index is inside the arguments, the 64-bit arithmetic is that of natural numbers.\<close>

lemma args_left:
  assumes "length (pre @ ws @ [host, service]) < 2 ^ 64"
  shows "of_nat (length (pre @ ws @ [host, service])) - of_nat (length pre) > (2 :: u64) \<longleftrightarrow> ws \<noteq> []"
    and "arg (pre @ ws @ [host, service]) (of_nat (length pre)) = Inr (hd (ws @ [host]))"
    and "arg (pre @ ws @ [host, service]) (of_nat (length pre) + 1) = Inr ((ws @ [host, service]) ! 1)"
    and "ws \<noteq> [] \<Longrightarrow> check_argc (pre @ ws @ [host, service]) (of_nat (length pre)) \<longleftrightarrow> length ws < 2"
proof -
  let ?n = "length pre"
  have small: "?n + length ws + 2 < 2 ^ 64" using assms by simp
  have len: "of_nat (length (pre @ ws @ [host, service])) - of_nat ?n = (of_nat (length ws + 2) :: u64)" by simp
  have "unat (of_nat (length ws + 2) :: u64) = length ws + 2" using small by (intro unat_of_nat_64) simp
  then show "of_nat (length (pre @ ws @ [host, service])) - of_nat ?n > (2 :: u64) \<longleftrightarrow> ws \<noteq> []"
    unfolding len by (simp add: word_less_nat_alt)
  have at: "unat (of_nat ?n :: u64) = ?n" "unat (of_nat ?n + 1 :: u64) = ?n + 1"
    using small unat_of_nat_64 [of ?n] unat_of_nat_64 [of "?n + 1"] by (simp_all add: add.commute)
  then show "arg (pre @ ws @ [host, service]) (of_nat ?n) = Inr (hd (ws @ [host]))"
    "arg (pre @ ws @ [host, service]) (of_nat ?n + 1) = Inr ((ws @ [host, service]) ! 1)"
    by (cases ws; simp add: arg_def nth_append)+
  assume "ws \<noteq> []"
  then have big: "?n + 3 < 2 ^ 64" using small by (cases ws) simp_all
  have "unat (of_nat ?n + 3 :: u64) = ?n + 3"
    using unat_of_nat_64 [OF big] by (simp add: add.commute)
  moreover have "unat (of_nat (length (pre @ ws @ [host, service])) :: u64) = ?n + length ws + 2"
    using small by (subst unat_of_nat_64) simp_all
  ultimately show "check_argc (pre @ ws @ [host, service]) (of_nat ?n) \<longleftrightarrow> length ws < 2"
    unfolding check_argc_def word_le_nat_alt by linarith
qed

lemma option_step_eq:
  assumes "length (pre @ (option # ws) @ [host, service]) < 2 ^ 64" and "op_curr c = of_nat (length pre)"
    and "CHR 0x00 \<notin> set option"
  shows "option_step loss (pre @ (option # ws) @ [host, service]) c =
    (if option = ''-l'' then Inr (Goes_on (c\<lparr>op_listen := True, op_curr := op_curr c + 1\<rparr>))
     else case option_meaning loss option of
         None \<Rightarrow> Inr (Exits (if option = ''-h'' then 0 else 1))
       | Some f \<Rightarrow> (case ws of [] \<Rightarrow> Inr (Exits 1)
           | x # _ \<Rightarrow> map_sum id (\<lambda>c. Goes_on (c\<lparr>op_curr := op_curr c + 2\<rparr>)) (f x c)))"
proof -
  note left = args_left [OF assms(1), folded assms(2)]
  show ?thesis
    using left(2-4) strncmp_options(1) [OF assms(3), of "CHR ''l''"] strncmp_options(1) [OF assms(3), of "CHR ''h''"] option_value_meaning [OF assms(3)]
    by (cases ws; cases "option_meaning loss option") (simp_all add: option_step_def)
qed

lemma options_loop_eq:
  assumes "length (pre @ ws @ [host, service]) < 2 ^ 64" and "op_curr c = of_nat (length pre)" and "c_strings ws"
  shows "options_loop loss (pre @ ws @ [host, service]) c
    = moved_to (of_nat (length (pre @ ws))) (options_spec loss ws c)"
  using assms
proof (induction ws arbitrary: pre c rule: measure_induct_rule [of length])
  case (less ws)
  let ?args = "pre @ ws @ [host, service]" and ?j = "of_nat (length (pre @ ws)) :: u64"
  note left = args_left [OF less(2), folded less(3)]
  show ?case
  proof (cases ws)
    case Nil
    then have "\<not> of_nat (length ?args) - op_curr c > 2" using left(1) by blast
    moreover have "c\<lparr>op_curr := of_nat (length pre)\<rparr> = c" using less(3) by (cases c) simp
    ultimately show ?thesis using Nil by (subst options_loop.simps) simp
  next
    case (Cons option ws1)
    have loop: "options_loop loss ?args c = (case option_step loss ?args c of
        Inr (Goes_on c') \<Rightarrow> options_loop loss ?args c' | r \<Rightarrow> r)"
      using left(1) Cons by (subst options_loop.simps) simp
    have "CHR 0x00 \<notin> set option" using less(4) Cons by simp
    note one = option_step_eq [of pre option ws1 host service c loss, folded Cons, OF less(2,3) this]
    have rest: "options_loop loss ?args (d\<lparr>op_curr := i\<rparr>) = moved_to ?j (options_spec loss ws2 d)"
      if "ws = skipped @ ws2" "skipped \<noteq> []" "i = of_nat (length (pre @ skipped))" for skipped ws2 d i
      using less(1) [of ws2 "pre @ skipped" "d\<lparr>op_curr := i\<rparr>"] less(2,4) that options_spec_curr [of ?j loss ws2 i d]
      by (simp add: add.assoc)
    show ?thesis
    proof (cases "option = ''-l''")
      case True
      then show ?thesis
        using rest [of "[option]" ws1 "op_curr c + 1" "c\<lparr>op_listen := True\<rparr>"] loop one less(3) Cons by (simp add: add.commute)
    next
      case not_l: False
      show ?thesis
      proof (cases "option_meaning loss option")
        case None
        with not_l one loop Cons show ?thesis by simp
      next
        case (Some f)
        have "options_loop loss ?args (d\<lparr>op_curr := op_curr d + 2\<rparr>) = moved_to ?j (options_spec loss ws2 d)"
          if "ws1 = x # ws2" "f x c = Inr d" for x ws2 d
          using rest [of "[option, x]" ws2 "op_curr d + 2" d] option_meaning_curr [OF Some that(2)] less(3) that(1) Cons
          by (simp add: add.commute)
        with not_l Some one loop Cons show ?thesis by (cases ws1; cases "f (hd ws1) c") simp_all
      qed
    qed
  qed
qed

definition positional :: "name_info \<Rightarrow> addr_info \<Rightarrow> string list \<Rightarrow> options
    \<Rightarrow> (tcp_config \<times> fd_adapter_config \<times> bool \<times> string option) finishes result" where
  "positional gni gai args c =
     (if op_listen c
      then res_bind (arg args (op_curr c + 1)) (\<lambda>service.
           res_bind (address_of_name gai ''0'' service) (\<lambda>source.
           res_bind (port gni source) (\<lambda>p.
             Inr (if p = 0 then Exits 1
                  else Goes_on (op_fsm c, (op_filt c)\<lparr>ac_source := source\<rparr>, True, op_tundev c)))))
      else res_bind (arg args (op_curr c)) (\<lambda>host.
           res_bind (arg args (op_curr c + 1)) (\<lambda>service.
           res_bind (address_of_name gai host service) (\<lambda>destination.
           res_bind (address_of_name gai (op_source_address c) (op_source_port c)) (\<lambda>source.
             Inr (Goes_on (op_fsm c, (op_filt c)\<lparr>ac_destination := destination, ac_source := source\<rparr>, False, op_tundev c)))))))"

definition TUN_DFLT :: string where "TUN_DFLT = ''tun144''"
definition LOCAL_ADDRESS_DFLT :: string where "LOCAL_ADDRESS_DFLT = ''169.254.144.9''"

definition get_config :: "'k system \<Rightarrow> (string \<Rightarrow> u16 result) \<Rightarrow> string list
    \<Rightarrow> ('k, (tcp_config \<times> fd_adapter_config \<times> bool \<times> string option) finishes) sys" where
  "get_config sy loss args =
     io_bind (call (sy_random sy)) (\<lambda>isn.
     io_bind (io_lift (default_adapter_config (sy_addrs sy))) (\<lambda>c_filt.
     io_bind (call (sy_random sy)) (\<lambda>random.
     io_bind (io_lift (options_loop loss args
         \<lparr>op_fsm = default_tcp_config\<lparr>cfg_isn := Wrap32 isn\<rparr>, op_filt = c_filt, op_tundev = None, op_curr = 1, op_listen = False,
          op_source_address = LOCAL_ADDRESS_DFLT, op_source_port = dec_nat (unat (ucast random :: u16))\<rparr>)) (\<lambda>r.
       case r of
         Exits status \<Rightarrow> io_return (Exits status)
       | Goes_on c \<Rightarrow> io_lift (positional (sy_names sy) (sy_addrs sy) args c)))))"

subsection \<open>Properties\<close>

text \<open>C18: whatever C strings the arguments are, the loop over the options reads the words between the
  name of the program and the last two arguments from the left, each option with its own value, and
  stops before the last two; the differences of 64-bit indices never wrap around. The comparisons of
  three characters recognize the one-letter options by the whole word and a loss rate by any word
  that begins with \<open>-Lu\<close> or \<open>-Ld\<close>.\<close>

theorem options_left_to_right:
  assumes "length ws + 3 < 2 ^ 64" and "op_curr c = 1" and "c_strings ws"
  shows "options_loop loss (prog # ws @ [host, service]) c = moved_to (of_nat (length ws + 1)) (options_spec loss ws c)"
  using options_loop_eq [of "[prog]" ws host service c loss] assms by (simp add: add.commute)

text \<open>A client with a window of 4096 bytes, given in hexadecimal, an uplink that loses datagrams, given by
  a longer word than \<open>-Lu\<close>, and another source port.\<close>

definition quiet_filter :: fd_adapter_config where
  "quiet_filter = \<lparr>ac_source = ipv4_address 0, ac_destination = ipv4_address 0, ac_loss_rate_dn = 0, ac_loss_rate_up = 0\<rparr>"

theorem options_left_to_right_witness:
  "\<exists>c. options_loop (\<lambda>_. Inr 7) [''tcp_ipv4'', ''-w'', ''0x1000'', ''-Lux'', ''0.1'', ''-s'', ''99'', ''10.0.0.1'', ''80'']
      \<lparr>op_fsm = default_tcp_config, op_filt = quiet_filter, op_tundev = None, op_curr = 1, op_listen = False,
       op_source_address = LOCAL_ADDRESS_DFLT, op_source_port = ''1''\<rparr> = Inr (Goes_on c)
    \<and> cfg_recv_capacity (op_fsm c) = 4096 \<and> op_source_port c = ''99'' \<and> ac_loss_rate_up (op_filt c) = 7 \<and> op_curr c = 7"
proof -
  have number: "strtol ''0x1000'' = 4096" by code_simp
  show ?thesis
    using options_left_to_right [of "[''-w'', ''0x1000'', ''-Lux'', ''0.1'', ''-s'', ''99'']"
        "\<lparr>op_fsm = default_tcp_config, op_filt = quiet_filter,
        op_tundev = None, op_curr = 1, op_listen = False, op_source_address = LOCAL_ADDRESS_DFLT, op_source_port = ''1''\<rparr>"
        "\<lambda>_. Inr 7" "''tcp_ipv4''" "''10.0.0.1''" "''80''"]
    by (simp add: option_meaning_def number)
qed

text \<open>A result that does not come from reading the span of arguments out of its range.\<close>

definition span_free :: "'a result \<Rightarrow> bool" where
  "span_free r \<longleftrightarrow> r \<noteq> Inl (Undefined_behaviour ''span'')"

lemma span_free_intros:
  "span_free (Inr x)" "e \<noteq> Undefined_behaviour ''span'' \<Longrightarrow> span_free (Inl e)"
  "span_free r \<Longrightarrow> (\<And>x. r = Inr x \<Longrightarrow> span_free (f x)) \<Longrightarrow> span_free (res_bind r f)"
  by (cases r; simp add: span_free_def)+

lemma address_span_free: "span_free (address_resolve gai node service hints)"
  by (auto simp: address_resolve_def address_new_def span_free_def split: prod.splits option.splits)

lemma address_of_span_free: "span_free (address_of_name gai node service)" "span_free (address_of_text gai ip p)"
  by (simp_all add: address_of_name_def address_of_text_def address_span_free)

lemma port_span_free: "span_free (port gni a)"
  by (auto simp: port_def ip_port_def stoi_def span_free_def Let_def split: sum.splits prod.splits if_splits)

lemma options_spec_error: "options_spec loss ws c = Inl e \<Longrightarrow> \<exists>s. loss s = Inl e"
proof (induction loss ws c rule: options_spec.induct)
  case (2 loss option ws c)
  have value_error: "\<exists>s. loss s = Inl e" if "option_meaning loss option = Some f" and "f x d = Inl e" for f x d
    using that by (cases "loss x") (auto simp: option_meaning_def split: if_splits)
  show ?case
  proof (cases "option = ''-l''")
    case True
    with 2(1) [OF True] 2(3) show ?thesis by simp
  next
    case not_l: False
    then obtain f x ws' where f: "option_meaning loss option = Some f" "ws = x # ws'" "res_bind (f x c) (options_spec loss ws') = Inl e"
      using 2(3) by (auto split: option.splits list.splits)
    then show ?thesis using value_error [OF f(1)] 2(2) [OF not_l f(1,2)] by (cases "f x c") auto
  qed
qed simp

lemma positional_span_free:
  assumes "length (prog # ws @ [host, service]) < 2 ^ 64" and "op_curr c = of_nat (length ws + 1)"
  shows "span_free (positional gni gai (prog # ws @ [host, service]) c)"
proof -
  have "arg (prog # ws @ [host, service]) (op_curr c) = Inr host"
    "arg (prog # ws @ [host, service]) (op_curr c + 1) = Inr service"
    using args_left(2,3) [of "prog # ws" "[]" host service] assms by (simp_all add: add.commute)
  then show ?thesis
    by (auto simp: positional_def intro!: span_free_intros address_of_span_free port_span_free)
qed

lemma last_two: "3 \<le> length args \<Longrightarrow> \<exists>prog ws host service. args = prog # ws @ [host, service]"
proof -
  assume n: "3 \<le> length args"
  then obtain prog rest where args: "args = prog # rest" by (cases args) auto
  with n have "rest = take (length rest - 2) rest @ [rest ! (length rest - 2), rest ! (length rest - 1)]"
    by (intro nth_equalityI) (auto simp: nth_append nth_Cons' intro: arg_cong [where f = "(!) rest"])
  with args show ?thesis by metis
qed

text \<open>C17: whatever C strings the arguments are, when there are at least three of them \<open>get_config\<close> never
  reads the span of arguments out of its range, for which its 64-bit arithmetic on indices has to be
  right.\<close>

theorem arguments_in_range:
  assumes "3 \<le> length args" and "length args < 2 ^ 64" and "c_strings args" and "\<And>s. span_free (loss s)"
  shows "span_free (fst (get_config sy loss args w))"
proof -
  obtain prog ws host service where args: "args = prog # ws @ [host, service]" using last_two [OF assms(1)] by blast
  have rest: "span_free (res_bind (options_loop loss args c) (\<lambda>r. case r of Exits n \<Rightarrow> Inr (Exits n)
      | Goes_on c \<Rightarrow> positional (sy_names sy) (sy_addrs sy) args c))" if "op_curr c = 1" for c
  proof -
    have loop: "options_loop loss args c = moved_to (of_nat (length ws + 1)) (options_spec loss ws c)"
      using options_loop_eq [of "[prog]" ws host service c loss] that assms(2,3) args by (simp add: add.commute)
    show ?thesis
    proof (cases "options_spec loss ws c")
      case (Inl e)
      then show ?thesis using options_spec_error [OF Inl] assms(4) loop by (auto simp: span_free_def)
    next
      case (Inr r)
      have len: "length (prog # ws @ [host, service]) < 2 ^ 64" using assms(2) args by simp
      show ?thesis
        using positional_span_free [OF len] loop Inr args by (cases r) (auto intro: span_free_intros)
    qed
  qed
  obtain isn k where k: "sy_random sy (w_kernel w) = (isn, k)" by (rule prod.exhaust)
  obtain random k' where k': "sy_random sy k = (random, k')" by (rule prod.exhaust)
  have config: "span_free (default_adapter_config (sy_addrs sy))"
    unfolding default_adapter_config_def by (intro span_free_intros address_of_span_free)
  show ?thesis
  proof (cases "default_adapter_config (sy_addrs sy)")
    case (Inl e)
    with config show ?thesis by (simp add: get_config_def io_bind_def call_def k span_free_def)
  next
    case (Inr filt)
    let ?c = "\<lparr>op_fsm = default_tcp_config\<lparr>cfg_isn := Wrap32 isn\<rparr>, op_filt = filt, op_tundev = None, op_curr = 1, op_listen = False,
        op_source_address = LOCAL_ADDRESS_DFLT, op_source_port = dec_nat (unat (ucast random :: u16))\<rparr>"
    have "span_free (res_bind (options_loop loss args ?c) (\<lambda>r. case r of Exits n \<Rightarrow> Inr (Exits n)
      | Goes_on c \<Rightarrow> positional (sy_names sy) (sy_addrs sy) args c))" by (rule rest) simp
    then show ?thesis
      by (simp add: get_config_def io_bind_def call_def k k' Inr res_bind_def split: sum.splits finishes.splits)
  qed
qed

theorem arguments_in_range_witness:
  "span_free (fst (get_config quiet_system (\<lambda>_. Inr 0) [''tcp_ipv4'', ''-w'', ''10.0.0.1'', ''80''] idle_world))"
  by (rule arguments_in_range) (simp_all add: span_free_intros)

subsection \<open>The program\<close>

text \<open>What the kernel does for a TUN device, and the random engine: how it is seeded, and its next number.\<close>

record ('g, 'k) tun_system =
  ts_open :: "'k \<Rightarrow> int \<times> 'k"
  ts_ioctl :: "int \<Rightarrow> bytes \<Rightarrow> int \<Rightarrow> 'k \<Rightarrow> int \<times> 'k"
  ts_seed :: "u32 list \<Rightarrow> 'g"
  ts_rand :: "'g \<Rightarrow> nat \<times> 'g"

definition lossy_tun_new :: "'k system \<Rightarrow> ('g, 'k) tun_system \<Rightarrow> string \<Rightarrow> ('k, ('g, tun_adapter) lossy_adapter) sys" where
  "lossy_tun_new sy ts devname =
     io_bind (tuntap_new (sy_calls sy) (ts_open ts) (ts_ioctl ts) (map of_char devname) True) (\<lambda>tun.
     io_bind (io_cleanup (io_lift (default_adapter_config (sy_addrs sy)))
         (\<lambda>w. case tun of None \<Rightarrow> w | Some a \<Rightarrow> fdw_destroy (sy_calls sy) a w)) (\<lambda>cfg.
     io_bind (call (get_random_engine (sy_random sy) (ts_seed ts))) (\<lambda>rand.
     io_return \<lparr>la_rand = rand, la_adapter = \<lparr>ta_base = \<lparr>ad_cfg = cfg, ad_listen = False\<rparr>, ta_tun = tun\<rparr>\<rparr>)))"

definition lossy_tun_ops :: "'k system \<Rightarrow> ('g, 'k) tun_system
    \<Rightarrow> (('g, tun_adapter) lossy_adapter, (('g, tun_adapter) lossy_adapter) minnow \<times> 'k) adapter_ops" where
  "lossy_tun_ops sy ts = lossy_ops (ts_rand ts) (tun_ops (sys_beside (sy_calls sy)) (sy_names sy) (sy_addrs sy))"

definition tcp_ipv4_run :: "'k system \<Rightarrow> ('g, 'k) tun_system \<Rightarrow> (('g, tun_adapter) lossy_adapter, 'k) owner \<Rightarrow> u64 \<Rightarrow> nat \<times> nat
    \<Rightarrow> tcp_config \<times> fd_adapter_config \<times> bool \<times> string option \<Rightarrow> 'k world \<Rightarrow> (bool result \<times> 'k world) option" where
  "tcp_ipv4_run sy ts ow uninitialised rounds config =
     (let (c_fsm, c_filt, listen, tun_dev_name) = config; ops = lossy_tun_ops sy ts
      in step (lossy_tun_new sy ts (case tun_dev_name of None \<Rightarrow> TUN_DFLT | Some name \<Rightarrow> name))
           (with_minnow sy ow ops (\<lambda>this_socket thread_data s.
              and_then
                ((if listen then listen_and_accept else minnow_connect) (sy_calls sy) (sy_sockets sy) (sy_names sy) (sy_poll sy)
                   (peer_env sy ow) ops thread_data c_fsm c_filt uninitialised (fst rounds) s)
                (step (io_bind (io_ask (\<lambda>s. ac_destination (ao_config ops (mn_adapter (locals s))))) (\<lambda>peer.
                       io_lift (address_to_string (sy_names sy) peer))) (\<lambda>_.
                 copy_and_close sy ow this_socket (snd rounds))))))"

definition tcp_ipv4_main :: "'k system \<Rightarrow> ('g, 'k) tun_system \<Rightarrow> (('g, tun_adapter) lossy_adapter, 'k) owner \<Rightarrow> u64 \<Rightarrow> nat \<times> nat
    \<Rightarrow> (string \<Rightarrow> u16 result) \<Rightarrow> string list \<Rightarrow> 'k world \<Rightarrow> (ending \<times> 'k world) option" where
  "tcp_ipv4_main sy ts ow uninitialised rounds loss args w =
     (if args = [] then Some (Aborts, w)
      else if length args < 3 then Some (Returns EXIT_FAILURE, w)
      else case get_config sy loss args w of
          (Inl e, w) \<Rightarrow> Some (main_ending (Inl e), w)
        | (Inr (Exits status), w) \<Rightarrow> Some (Returns status, w)
        | (Inr (Goes_on config), w) \<Rightarrow> map_option (apfst main_ending) (tcp_ipv4_run sy ts ow uninitialised rounds config w))"

end
