(* ===== verification/Clients.thy ===== *)
theory Clients
  imports Tcp_Ipv4
begin

text \<open>
  The programs \<open>apps/webget.cc\<close>, which fetches a page over a \<open>CS144TCPSocket\<close>, \<open>apps/tcp_native.cc\<close>, which
  copies its standard input and output over the kernel's TCP, and \<open>apps/ip_raw.cc\<close>, which sends one
  datagram whose headers it makes itself.
\<close>

subsection \<open>Fetching a page\<close>

definition crlf :: string where "crlf = [CHR 0x0D, CHR 0x0A]"

definition http_request :: "string \<Rightarrow> string \<Rightarrow> string" where
  "http_request host path = ''GET '' @ path @ '' HTTP/1.1'' @ crlf @ ''Host: '' @ host @ crlf @ ''Connection: close'' @ crlf @ crlf"

text \<open>What the page is printed with is an argument. A round is one turn of the loop.\<close>

fun fetch_loop :: "'k syscalls \<Rightarrow> (bytes \<Rightarrow> 'k \<Rightarrow> 'k) \<Rightarrow> file_descriptor \<Rightarrow> nat \<Rightarrow> bytes \<Rightarrow> ('k, bool) sys" where
  "fetch_loop sys print socket 0 buf w = (Inr False, w)"
| "fetch_loop sys print socket (Suc rounds) buf w =
     io_bind (fd_eof socket) (\<lambda>eof.
       if eof then io_return True
       else io_bind (read sys socket buf) (\<lambda>buf.
            io_bind (call (\<lambda>k. ((), print buf k))) (\<lambda>_. fetch_loop sys print socket rounds buf))) w"

definition cs144_ops :: "'k system \<Rightarrow> (tun_adapter, tun_adapter minnow \<times> 'k) adapter_ops" where
  "cs144_ops sy = tun_ops (sys_beside (sy_calls sy)) (sy_names sy) (sy_addrs sy)"

definition cs144_adapter_new :: "'k system \<Rightarrow> ('g, 'k) tun_system \<Rightarrow> ('k, tun_adapter) sys" where
  "cs144_adapter_new sy ts =
     io_bind (tuntap_new (sy_calls sy) (ts_open ts) (ts_ioctl ts) (map of_char ''tun144'') True) (\<lambda>tun.
     io_bind (io_cleanup (io_lift (default_adapter_config (sy_addrs sy)))
         (\<lambda>w. case tun of None \<Rightarrow> w | Some a \<Rightarrow> fdw_destroy (sy_calls sy) a w)) (\<lambda>cfg.
     io_return \<lparr>ta_base = \<lparr>ad_cfg = cfg, ad_listen = False\<rparr>, ta_tun = tun\<rparr>))"

definition cs144_connect :: "'k system \<Rightarrow> (tun_adapter, 'k) owner \<Rightarrow> file_descriptor \<Rightarrow> address \<Rightarrow> u64 \<Rightarrow> nat
    \<Rightarrow> (tun_adapter, 'k) mn_state \<Rightarrow> (bool result \<times> (tun_adapter, 'k) mn_state) option" where
  "cs144_connect sy ow thread_data a uninitialised rounds =
     step (io_bind (io_lift (default_adapter_config (sy_addrs sy))) (\<lambda>_.
           io_bind (on_fds (call (beside (sy_random sy)))) (\<lambda>random. io_lift (cs144_configs (sy_addrs sy) random a))))
       (\<lambda>(tcp_config, multiplexer_config). minnow_connect (sy_calls sy) (sy_sockets sy) (sy_names sy) (sy_poll sy) (peer_env sy ow)
          (cs144_ops sy) thread_data tcp_config multiplexer_config uninitialised rounds)"

definition get_URL :: "'k system \<Rightarrow> ('g, 'k) tun_system \<Rightarrow> (tun_adapter, 'k) owner \<Rightarrow> (bytes \<Rightarrow> tun_adapter minnow \<times> 'k \<Rightarrow> tun_adapter minnow \<times> 'k)
    \<Rightarrow> u64 \<Rightarrow> nat \<times> nat \<Rightarrow> string \<Rightarrow> string \<Rightarrow> 'k world \<Rightarrow> (bool result \<times> 'k world) option" where
  "get_URL sy ts ow print uninitialised rounds host path =
     step (io_lift (address_of_name (sy_addrs sy) host ''http'')) (\<lambda>hostaddr.
     step (cs144_adapter_new sy ts)
       (with_minnow sy ow (cs144_ops sy) (\<lambda>socket thread_data s.
          and_then (cs144_connect sy ow thread_data hostaddr uninitialised (fst rounds) s)
            (step (on_fds (write_all (ow_calls ow) socket (map of_char (http_request host path)))) (\<lambda>_ s.
             and_then (Some (on_fds (fetch_loop (ow_calls ow) print socket (snd rounds) []) s))
               (\<lambda>s. Some (io_bind (wait_until_closed (sy_calls sy) (sy_sockets sy) (ow_join ow) socket)
                    (\<lambda>_. io_return True) s)))))))"

definition webget_main :: "'k system \<Rightarrow> ('g, 'k) tun_system \<Rightarrow> (tun_adapter, 'k) owner \<Rightarrow> (bytes \<Rightarrow> tun_adapter minnow \<times> 'k \<Rightarrow> tun_adapter minnow \<times> 'k)
    \<Rightarrow> u64 \<Rightarrow> nat \<times> nat \<Rightarrow> string list \<Rightarrow> 'k world \<Rightarrow> (ending \<times> 'k world) option" where
  "webget_main sy ts ow print uninitialised rounds args w =
     (if args = [] then Some (Aborts, w)
      else if length args \<noteq> 3 then Some (Returns EXIT_FAILURE, w)
      else map_option (apfst main_ending) (get_URL sy ts ow print uninitialised rounds (args ! 1) (args ! 2) w))"

subsection \<open>The kernel's TCP\<close>

text \<open>The destructors that run however a scope is left.\<close>

definition io_finally :: "('w, 'a) io \<Rightarrow> ('w \<Rightarrow> 'w) \<Rightarrow> ('w, 'a) io" where
  "io_finally m destroy w = (let (r, w) = m w in (r, destroy w))"

definition peer_name :: "'k system \<Rightarrow> file_descriptor \<Rightarrow> ('k, string) sys" where
  "peer_name sy socket =
     io_bind (peer_address (sy_calls sy) (sy_sockets sy) socket) (\<lambda>a. io_lift (address_to_string (sy_names sy) a))"

definition accept_one :: "'k system \<Rightarrow> string \<Rightarrow> string \<Rightarrow> ('k, file_descriptor) sys" where
  "accept_one sy host service =
     (let sys = sy_calls sy; so = sy_sockets sy
      in io_bind (tcp_socket sys so) (\<lambda>listening_socket.
         io_finally
           (io_bind (set_reuseaddr sys so listening_socket) (\<lambda>_.
            io_bind (io_lift (address_of_name (sy_addrs sy) host service)) (\<lambda>a.
            io_bind (bind_socket sys so listening_socket a) (\<lambda>_.
            io_bind (listen sys so listening_socket 16) (\<lambda>_.
            io_bind (accept sys so listening_socket) (\<lambda>connected_socket.
            io_cleanup (io_bind (peer_name sy connected_socket) (\<lambda>_. io_return connected_socket))
              (close_fd sys connected_socket)))))))
           (close_fd sys listening_socket)))"

definition connect_to :: "'k system \<Rightarrow> string \<Rightarrow> string \<Rightarrow> ('k, file_descriptor) sys" where
  "connect_to sy host service =
     (let sys = sy_calls sy; so = sy_sockets sy
      in io_bind (tcp_socket sys so) (\<lambda>connecting_socket.
         io_cleanup
           (io_bind (io_lift (address_of_name (sy_addrs sy) host service)) (\<lambda>peer.
            io_bind (io_lift (address_to_string (sy_names sy) peer)) (\<lambda>_.
            io_bind (connect_socket sys so connecting_socket peer) (\<lambda>_.
            io_bind (peer_name sy connecting_socket) (\<lambda>_. io_return connecting_socket)))))
           (close_fd sys connecting_socket)))"

definition tcp_native_run :: "'k system \<Rightarrow> nat \<Rightarrow> ('k, file_descriptor) sys \<Rightarrow> 'k world \<Rightarrow> (bool result \<times> 'k world) option" where
  "tcp_native_run sy rounds opening =
     step opening (\<lambda>socket w.
       let close = close_fd (sy_calls sy) socket
       in case peer_name sy socket w of
            (Inl e, w) \<Rightarrow> Some (Inl e, close w)
          | (Inr _, w) \<Rightarrow>
              map_option (\<lambda>(r, s). (r, (if r = Inr False then id else close) (without_locals (snd s))))
                (bidirectional_stream_copy (sy_calls sy) (sy_sockets sy) (sy_poll sy) socket rounds w))"

definition tcp_native_main :: "'k system \<Rightarrow> nat \<Rightarrow> string list \<Rightarrow> 'k world \<Rightarrow> (ending \<times> 'k world) option" where
  "tcp_native_main sy rounds args w =
     (if args = [] then Some (Aborts, w)
      else if length args < 3 \<or> strncmp_equal 3 ''-l'' (args ! 1) \<and> length args < 4 then Some (Returns EXIT_FAILURE, w)
      else map_option (apfst main_ending)
        (tcp_native_run sy rounds
           (if strncmp_equal 3 ''-l'' (args ! 1) then accept_one sy (args ! 2) (args ! 3) else connect_to sy (args ! 1) (args ! 2)) w))"

subsection \<open>A datagram by hand\<close>

definition raw_message :: bytes where "raw_message = map of_char ''shaylashaylashaylashayla''"

definition raw_datagram :: bytes where
  "raw_datagram = [0x45] @ replicate 7 0 @ [64, 17] @ replicate 6 0 @ [10, 144] @ [0] @ [92]
     @ [4, 1] @ [4] @ [0] @ [0] @ [of_nat (length raw_message + 8)] @ replicate 2 0 @ raw_message"

text \<open>Nothing catches an exception here.\<close>

definition ip_raw_main :: "'k system \<Rightarrow> 'k world \<Rightarrow> ending \<times> 'k world" where
  "ip_raw_main sy w =
     (case io_bind (raw_socket (sy_calls sy) (sy_sockets sy)) (\<lambda>sock.
           io_finally
             (io_bind (io_lift (address_of_text (sy_addrs sy) ''10.144.0.92'' 0)) (\<lambda>a.
              send (sy_calls sy) (sy_sockets sy) sock raw_datagram (Some a)))
             (close_fd (sy_calls sy) sock)) w of
        (Inr _, w) \<Rightarrow> (Returns 0, w) | (Inl (Undefined_behaviour e), w) \<Rightarrow> (Anything, w) | (Inl _, w) \<Rightarrow> (Aborts, w))"

subsection \<open>Properties\<close>

text \<open>A blocking descriptor that delivers a finite stream: at least one byte at a time while there are any, then the
  end of file.\<close>

definition delivers :: "'k syscalls \<Rightarrow> (bytes \<Rightarrow> 'k \<Rightarrow> 'k) \<Rightarrow> ('k \<Rightarrow> bytes) \<Rightarrow> ('k \<Rightarrow> bytes) \<Rightarrow> bool" where
  "delivers sys print incoming printed \<longleftrightarrow>
     (\<forall>n len k. 0 < len \<longrightarrow> (\<exists>m k'. sys_read sys n len k = ((int m, take m (incoming k)), k')
        \<and> m \<le> len \<and> m \<le> length (incoming k) \<and> (m = 0 \<longrightarrow> incoming k = [])
        \<and> incoming k' = drop m (incoming k) \<and> printed k' = printed k))
     \<and> (\<forall>bs k. printed (print bs k) = printed k @ bs \<and> incoming (print bs k) = incoming k)"

lemma read_delivers:
  assumes "delivers sys print incoming printed"
  shows "\<exists>m w'. read sys (Some a) buf w = (Inr (take m (incoming (w_kernel w))), w') \<and> m \<le> length (incoming (w_kernel w))
    \<and> (m = 0 \<longrightarrow> incoming (w_kernel w) = [] \<and> fw_eof (w_fds w' a))
    \<and> incoming (w_kernel w') = drop m (incoming (w_kernel w)) \<and> printed (w_kernel w') = printed (w_kernel w)
    \<and> (m \<noteq> 0 \<longrightarrow> fw_eof (w_fds w' a) = fw_eof (w_fds w a))"
proof -
  let ?buf = "if buf = [] then resize kReadBufferSize buf else buf"
  have ne: "0 < length ?buf" by (simp add: resize_def kReadBufferSize_def)
  then obtain m k where m: "sys_read sys (fw_fd (w_fds w a)) (length ?buf) (w_kernel w) = ((int m, take m (incoming (w_kernel w))), k)"
    "m \<le> length ?buf" "m \<le> length (incoming (w_kernel w))" "m = 0 \<longrightarrow> incoming (w_kernel w) = []"
    "incoming k = drop m (incoming (w_kernel w))" "printed k = printed (w_kernel w)"
    using assms unfolding delivers_def by meson
  have "resize m (filled ?buf (take m (incoming (w_kernel w)))) = take m (incoming (w_kernel w))"
    using m(2,3) by (simp add: resize_def filled_def)
  then show ?thesis
    using m by (intro exI [of _ m])
      (auto simp: read_def Let_def io_bind_def call_def check_read_def fdw_check_read_def fdw_check_system_call_def)
qed

text \<open>C19: fetching prints the whole response and nothing else, in whatever pieces it arrives, and
  ends with its end of file: one round for each byte, one for the end of file and one that sees it
  are enough.\<close>

theorem fetch_prints_response:
  assumes "delivers sys print incoming printed" and "\<not> fw_eof (w_fds w a)"
    and "length (incoming (w_kernel w)) + 2 \<le> rounds"
  shows "\<exists>w'. fetch_loop sys print (Some a) rounds buf w = (Inr True, w')
    \<and> printed (w_kernel w') = printed (w_kernel w) @ incoming (w_kernel w) \<and> incoming (w_kernel w') = []"
  using assms(2,3)
proof (induction rounds arbitrary: buf w)
  case (Suc rounds)
  let ?data = "incoming (w_kernel w)"
  obtain m w1 where m: "read sys (Some a) buf w = (Inr (take m ?data), w1)" "m \<le> length ?data"
    "m = 0 \<longrightarrow> ?data = [] \<and> fw_eof (w_fds w1 a)" "incoming (w_kernel w1) = drop m ?data"
    "printed (w_kernel w1) = printed (w_kernel w)" "m \<noteq> 0 \<longrightarrow> \<not> fw_eof (w_fds w1 a)"
    using read_delivers [OF assms(1), of a buf w] Suc(2) by auto
  let ?w2 = "w1\<lparr>w_kernel := print (take m ?data) (w_kernel w1)\<rparr>"
  have w2: "printed (w_kernel ?w2) = printed (w_kernel w) @ take m ?data" "incoming (w_kernel ?w2) = drop m ?data"
    using assms(1) m(4,5) by (simp_all add: delivers_def)
  have loop: "fetch_loop sys print (Some a) (Suc rounds) buf w = fetch_loop sys print (Some a) rounds (take m ?data) ?w2"
    using Suc(2) m(1) by (simp add: io_bind_def call_def)
  show ?case
  proof (cases m)
    case 0
    then obtain r where "rounds = Suc r" using Suc(3) by (cases rounds) auto
    then have "fetch_loop sys print (Some a) rounds (take m ?data) ?w2 = (Inr True, ?w2)"
      using m(3) 0 by (simp add: io_bind_def)
    moreover have "?data = []" using m(3) 0 by simp
    ultimately show ?thesis using loop w2 by (metis append_Nil2 drop_Nil take_Nil)
  next
    case (Suc j)
    have "length (incoming (w_kernel ?w2)) + 2 \<le> rounds" using w2(2) m(2) Suc \<open>length ?data + 2 \<le> Suc rounds\<close> by simp
    moreover have "\<not> fw_eof (w_fds ?w2 a)" using m(6) Suc by simp
    ultimately obtain w' where "fetch_loop sys print (Some a) rounds (take m ?data) ?w2 = (Inr True, w')"
      "printed (w_kernel w') = printed (w_kernel ?w2) @ incoming (w_kernel ?w2)" "incoming (w_kernel w') = []"
      using Suc.IH by blast
    with loop w2 show ?thesis by simp
  qed
qed simp

text \<open>A response of three bytes that comes in pieces of two.\<close>

definition trickle_sys :: "(bytes \<times> bytes) syscalls" where
  "trickle_sys = \<lparr>sys_errno = (\<lambda>_. 0),
     sys_read = (\<lambda>_ len (data, out). let m = min len (min 2 (length data)) in ((int m, take m data), drop m data, out)),
     sys_readv = (\<lambda>_ _ k. ((0, []), k)), sys_write = (\<lambda>_ _ k. (0, k)), sys_writev = (\<lambda>_ _ k. (0, k)),
     sys_getfl = (\<lambda>_ k. (0, k)), sys_setfl = (\<lambda>_ _ k. (0, k)), sys_close = (\<lambda>_ k. (0, k))\<rparr>"

theorem fetch_prints_response_witness:
  "\<exists>w'. fetch_loop trickle_sys (\<lambda>bs (data, out). (data, out @ bs)) (Some 0) 5 []
      \<lparr>w_fds = (\<lambda>_. \<lparr>fw_fd = 3, fw_eof = False, fw_closed = False, fw_non_blocking = False,
         fw_read_count = 0, fw_write_count = 0\<rparr>), w_allocated = 1, w_kernel = ([1, 2, 3], [])\<rparr> = (Inr True, w')
    \<and> snd (w_kernel w') = [1, 2, 3]"
proof -
  have "delivers trickle_sys (\<lambda>bs (data, out). (data, out @ bs)) fst snd"
    by (auto simp: delivers_def trickle_sys_def Let_def intro!: exI [of _ "min len (min 2 (length data))" for len data] simp: min_def split: if_splits)
  from fetch_prints_response [OF this, of "\<lparr>w_fds = (\<lambda>_. \<lparr>fw_fd = 3, fw_eof = False, fw_closed = False, fw_non_blocking = False,
      fw_read_count = 0, fw_write_count = 0\<rparr>), w_allocated = 1, w_kernel = ([1, 2, 3], [])\<rparr>" 0 5 "[]"]
  show ?thesis by auto
qed

end
