(* ===== verification/Peer_Transfer.thy ===== *)
theory Peer_Transfer
  imports Tcp_Peer
begin

text \<open>
  What a TCP peer does to the bytes of both directions, where \<open>Tcp_Link\<close> looks at one of them: its
  sender's half, for a byte string that grows as the owner writes, with the messages it has sent;
  its receiver's half, with the bytes that were read; and the steps of the peer that
  keep both, when what it receives comes from a network that makes nothing up.
\<close>

subsection \<open>The sender's half\<close>

text \<open>Filling, emptying and flagging a stream.\<close>

lemma read_loop_totals:
  "read_loop r n out = Inr (r', out') \<Longrightarrow>
     bs_total_pushed r' = bs_total_pushed r \<and> bs_stream_closed r' = bs_stream_closed r"
proof (induction r n out rule: read_loop.induct)
  case (1 r n out)
  show ?case
  proof (cases "bytes_buffered r \<noteq> 0 \<and> len64 out < n \<and> reader_peek r \<noteq> []")
    case True
    let ?view = "take (unat (n - len64 out)) (reader_peek r)"
    from True 1(2) have "read_loop (reader_pop r (len64 ?view)) n (out @ ?view) = Inr (r', out')"
      by (simp add: read_loop.simps [of r n out] Let_def)
    then have "bs_total_pushed r' = bs_total_pushed (reader_pop r (len64 ?view))
        \<and> bs_stream_closed r' = bs_stream_closed (reader_pop r (len64 ?view))"
      using "1.IH" True by blast
    then show ?thesis by (simp add: reader_pop_def)
  next
    case False
    with 1(2) show ?thesis by (auto simp: read_loop.simps [of r n out] Let_def split: if_splits)
  qed
qed

lemma push_turn_totals:
  "push_turn s = Inr (s', turn) \<Longrightarrow> bs_total_pushed (snd_input s') = bs_total_pushed (snd_input s)
     \<and> bs_stream_closed (snd_input s') = bs_stream_closed (snd_input s)"
  by (auto simp: push_turn_def Let_def read_stream_def split: if_splits dest: read_loop_totals)

lemma sender_push_totals:
  "sender_push s = Inr (s', ms) \<Longrightarrow> bs_total_pushed (snd_input s') = bs_total_pushed (snd_input s)
     \<and> bs_stream_closed (snd_input s') = bs_stream_closed (snd_input s)"
proof (induction s arbitrary: s' ms rule: sender_push.induct)
  case (1 s)
  from 1(2) obtain t turn where t: "push_turn s = Inr (t, turn)"
    by (subst (asm) sender_push.simps) auto
  note same = push_turn_totals [OF t]
  consider "turn = None" | msg where "turn = Some (msg, True)" | msg where "turn = Some (msg, False)"
    by (metis (full_types) option.exhaust prod.exhaust)
  then show ?case
  proof cases
    case 1
    with t "1.prems" have "s' = t" by (subst (asm) sender_push.simps) simp
    with same show ?thesis by simp
  next
    case 2
    with t "1.prems" have "s' = record_sent t msg" by (subst (asm) sender_push.simps) (simp add: Let_def)
    with same show ?thesis by (simp add: record_sent_def Let_def)
  next
    case 3
    with t "1.prems" obtain ms' where "sender_push (record_sent t msg) = Inr (s', ms')"
      by (subst (asm) sender_push.simps) (auto simp: Let_def)
    from "1.IH" [OF t refl 3 refl refl _ this] same show ?thesis by (simp add: record_sent_def Let_def)
  qed
qed

lemma chain_no_FIN:
  "chain S isn a ms \<Longrightarrow> \<forall>m\<in>set ms. \<not> sm_FIN m \<Longrightarrow> chain (S @ d) isn a ms"
  by (induction ms arbitrary: a) (auto simp: seg_at_def)

text \<open>A sender whose stream is still open is a sender of every longer byte string as well.\<close>

lemma snd_ok_extend:
  assumes ok: "snd_ok S s" and opened: "\<not> bs_stream_closed (snd_input s)" and len: "length (S @ d) < 2 ^ 63"
  shows "snd_ok (S @ d) s"
proof -
  have stream: "stream_ok S (snd_input s)" and no_fin: "\<not> snd_FINsent s"
    using ok opened unfolding snd_ok_def by blast+
  have "\<forall>m\<in>set (snd_outstanding s). \<not> sm_FIN m"
    using outstanding_sent [OF ok] no_fin by (auto simp: sent_segment_def)
  with ok have "chain (S @ d) (snd_isn s) (snd_una s) (snd_outstanding s)"
    by (intro chain_no_FIN) (simp_all add: snd_ok_def)
  moreover have "stream_ok (S @ d) (snd_input s)"
  proof -
    let ?p = "popped s" let ?b = "bs_buffer (snd_input s)"
    have "?p + length ?b \<le> length S" using stream unfolding stream_ok_def by linarith
    then have "take (length ?b) (drop ?p (S @ d)) = take (length ?b) (drop ?p S)" by simp
    then show ?thesis using stream opened len unfolding stream_ok_def by simp
  qed
  ultimately show ?thesis using ok no_fin unfolding snd_ok_def by simp
qed

text \<open>A message that was sent: a segment of the stream, or an empty one that only carries
  an acknowledgment.\<close>

definition logged :: "bytes \<Rightarrow> tcp_sender \<Rightarrow> tcp_sender_message \<Rightarrow> bool" where
  "logged S s m \<longleftrightarrow> sent_segment S s m
     \<or> seq_len m = 0 \<and> (\<exists>a\<le>unat (snd_abs_seqno s). sm_seqno m = wrap (of_nat a) (snd_isn s))"

definition sends_from :: "bytes \<Rightarrow> wrap32 \<Rightarrow> tcp_sender_message set \<Rightarrow> tcp_sender \<Rightarrow> bool" where
  "sends_from S isn log s \<longleftrightarrow> length S + 2 < 2 ^ 31 \<and> snd_ok S s \<and> snd_isn s = isn
     \<and> unat (bs_total_pushed (snd_input s)) = length S \<and> (\<forall>m\<in>log. logged S s m)"

lemma sends_from_subset: "sends_from S isn log s \<Longrightarrow> log' \<subseteq> log \<Longrightarrow> sends_from S isn log' s"
  unfolding sends_from_def by blast

lemma logged_seqno:
  "logged S s m \<Longrightarrow> \<exists>a. sm_seqno m = wrap (of_nat a) (snd_isn s) \<and> a + seq_len m \<le> unat (snd_abs_seqno s)"
  unfolding logged_def sent_segment_def seg_at_def by (elim disjE exE conjE; force)

lemma logged_mono:
  assumes "logged S s m" and "snd_isn s' = snd_isn s" and "unat (snd_abs_seqno s) \<le> unat (snd_abs_seqno s')"
    and "snd_FINsent s \<longrightarrow> snd_FINsent s'"
  shows "logged S s' m"
  using assms(1) unfolding logged_def
proof
  assume "sent_segment S s m"
  from sent_segment_mono [OF this assms(2-4)] show "sent_segment S s' m
      \<or> seq_len m = 0 \<and> (\<exists>a\<le>unat (snd_abs_seqno s'). sm_seqno m = wrap (of_nat a) (snd_isn s'))" ..
qed (use assms(2,3) in \<open>auto intro: le_trans\<close>)

lemma sends_step:
  assumes "sends_from S isn log s" and step: "snd_step S s ms s'"
    and "bs_total_pushed (snd_input s') = bs_total_pushed (snd_input s)"
  shows "sends_from S isn (log \<union> set ms) s'"
proof -
  have "snd_ok S s" using assms(1) by (simp add: sends_from_def)
  note s' = snd_step_ok [OF step this]
  have "logged S s m \<Longrightarrow> logged S s' m" for m
    using s' by (intro logged_mono [of S s m s']) simp_all
  moreover have "\<forall>m\<in>set ms. logged S s' m" using s' by (simp add: logged_def)
  ultimately have "\<forall>m\<in>log \<union> set ms. logged S s' m" using assms(1) unfolding sends_from_def by blast
  with assms s' show ?thesis by (simp add: sends_from_def)
qed

lemma sends_push:
  assumes "sends_from S isn log s" and "sender_push s = Inr (s', ms)"
  shows "sends_from S isn (log \<union> set ms) s'"
  using sends_step [OF assms(1) snd_step.push [OF assms(2)]] sender_push_totals [OF assms(2)] by simp

lemma sends_tick:
  assumes "sends_from S isn log s" and "sender_tick s ms = Inr (s', xs)"
  shows "sends_from S isn (log \<union> set xs) s'"
proof -
  have "snd_input s' = snd_input s"
    using sender_tick_total [of S s ms] assms by (auto simp: sends_from_def)
  with sends_step [OF assms(1) snd_step.tick [OF assms(2)]] show ?thesis by simp
qed

text \<open>An acknowledgment for at most the end of a message that was sent.\<close>

definition acks_sent :: "tcp_sender_message set \<Rightarrow> tcp_receiver_message \<Rightarrow> bool" where
  "acks_sent log rm \<longleftrightarrow>
     (\<forall>w. rm_ackno rm = Some w \<longrightarrow> (\<exists>m\<in>log. \<exists>j \<le> seq_len m. w = wrap32_plus (sm_seqno m) (of_nat j)))"

lemma wrap_plus_of_nat: "wrap32_plus (wrap (of_nat a) z) (of_nat j) = wrap (of_nat (a + j)) z"
proof -
  have cut: "ucast (of_nat n :: u64) = (of_nat n :: u32)" for n
    by (rule word_unat_eq_iff [THEN iffD2]) (simp add: unat_ucast_mod unat_of_nat mod_mod_cancel)
  have "raw_value (wrap32_plus (wrap (of_nat a) z) (of_nat j)) = raw_value (wrap (of_nat (a + j)) z)"
    unfolding raw_wrap cut by (simp add: wrap32_plus_def raw_wrap cut del: of_nat_add) simp
  then show ?thesis by (rule wrap32.expand)
qed

lemma sends_receive:
  assumes sends: "sends_from S isn log s" and run: "sender_receive s rm = Inr s'" and acks: "acks_sent log rm"
  shows "sends_from S isn log s'" and "bs_stream_closed (snd_input s') = bs_stream_closed (snd_input s)"
proof -
  have ok: "snd_ok S s" and isn: "snd_isn s = isn" and len: "length S + 2 < 2 ^ 31" and log: "\<forall>m\<in>log. logged S s m"
    using sends by (simp_all add: sends_from_def)
  obtain w where w: "rm_ackno rm = Some w" using run by (auto simp: sender_receive_def Let_def split: option.splits)
  with acks obtain m j where m: "m \<in> log" "j \<le> seq_len m" "w = wrap32_plus (sm_seqno m) (of_nat j)"
    unfolding acks_sent_def by blast
  with log obtain a where "sm_seqno m = wrap (of_nat a) isn" "a + seq_len m \<le> unat (snd_abs_seqno s)"
    using logged_seqno isn by blast
  with m w have n: "rm_ackno rm = Some (wrap (of_nat (a + j)) (snd_isn s))" "a + j \<le> unat (snd_abs_seqno s)"
    using wrap_plus_of_nat isn by auto
  moreover from this(2) have near: "nat_dist (a + j) (popped s) < 2 ^ 31"
    using snd_ok_bounds(2,3) [OF ok] len by (auto simp: nat_dist_def)
  ultimately have step: "snd_step S s [] s'" by (rule snd_step.ack [OF _ _ _ run])
  have s': "s' = ack_state s rm (a + j)"
    using sender_receive_ack [OF ok n(1) ackno_covers [OF ok n(2)] near] run by simp
  then have "bs_total_pushed (snd_input s') = bs_total_pushed (snd_input s)" by (simp add: set_error_def)
  from sends_step [OF sends step this] show "sends_from S isn log s'" by simp
  show "bs_stream_closed (snd_input s') = bs_stream_closed (snd_input s)" using s' by (simp add: set_error_def)
qed

lemma logged_extend:
  assumes "logged S s m" and "\<not> snd_FINsent s" and that: "snd_isn s' = snd_isn s" "snd_abs_seqno s' = snd_abs_seqno s"
  shows "logged (S @ d) s' m"
proof -
  have "sent_segment S s m \<Longrightarrow> sent_segment (S @ d) s' m"
    using assms(2) that unfolding sent_segment_def seg_at_def by fastforce
  with assms(1) that show ?thesis by (auto simp: logged_def)
qed

lemma sends_write:
  assumes sends: "sends_from S isn log s" and opened: "\<not> bs_stream_closed (snd_input s)"
    and fits: "length data \<le> unat (available_capacity (snd_input s))" and len: "length (S @ data) + 2 < 2 ^ 31"
  shows "sends_from (S @ data) isn log (sender_write s data)"
proof -
  have ok: "snd_ok S s" and pushed: "unat (bs_total_pushed (snd_input s)) = length S"
    using sends by (simp_all add: sends_from_def)
  have bs: "bs_ok (snd_input s)" using snd_ok_input [OF ok] .
  have room: "length data \<le> room (snd_input s)" using fits unat_available_capacity [OF bs] by simp
  have "snd_ok (S @ data) s" using len by (intro snd_ok_extend [OF ok opened]) simp
  moreover have "drop (unat (bs_total_pushed (snd_input s))) (S @ data) = take (room (snd_input s)) data @ []"
    using room pushed by simp
  ultimately have "snd_ok (S @ data) (sender_write s data)" by (rule snd_ok_write)
  moreover have "unat (bs_total_pushed (snd_input (sender_write s data))) = length (S @ data)"
  proof -
    have "unat (len64 data) = length data" using len by (intro unat_len64) simp
    then show ?thesis
      using writer_push_total [OF bs, of data] room pushed len by (simp add: sender_write_def unat_plus_no_overflow)
  qed
  moreover have "\<not> snd_FINsent s" using ok opened by (simp add: snd_ok_def)
  ultimately show ?thesis
    using sends len by (auto simp: sends_from_def sender_write_def intro: logged_extend)
qed

lemma sends_close: "sends_from S isn log s \<Longrightarrow> sends_from S isn log (sender_close s)"
  using snd_ok_close [of S s]
  by (auto simp: sends_from_def sender_close_def logged_def sent_segment_def writer_close_def)

lemma sends_error: "sends_from S isn log s \<Longrightarrow> sends_from S isn log (s\<lparr>snd_input := set_error (snd_input s)\<rparr>)"
proof -
  have "snd_ok S (s\<lparr>snd_input := set_error (snd_input s)\<rparr>) = snd_ok S s"
    by (simp add: snd_ok_def) (simp add: set_error_def)
  moreover have "bs_total_pushed (set_error bs) = bs_total_pushed bs" for bs by (simp add: set_error_def)
  ultimately show "sends_from S isn log s \<Longrightarrow> ?thesis"
    by (auto simp: sends_from_def logged_def sent_segment_def)
qed

subsection \<open>The receiver's half\<close>

definition receives_from :: "bytes \<Rightarrow> wrap32 \<Rightarrow> bytes \<Rightarrow> tcp_receiver \<Rightarrow> bool" where
  "receives_from S isn given rc \<longleftrightarrow> length S + 2 < 2 ^ 31 \<and> rc_ok S isn rc
     \<and> given = take (unat (bs_total_popped (re_output (rc_reassembler rc)))) S"

lemma popped_set_error [simp]:
  "bs_total_popped (re_output (reassembler_set_error r)) = bs_total_popped (re_output r)"
  by (simp add: reassembler_set_error_def set_error_def)

text \<open>A message of the network: a segment of the remote stream.\<close>

lemma receives_receive:
  assumes "receives_from S isn given rc" and "segment_of S isn i m"
  shows "receives_from S isn given (receiver_receive rc m)"
proof -
  have rc: "rc_ok S isn rc" and len: "length S + 2 < 2 ^ 31" using assms(1) by (simp_all add: receives_from_def)
  have re: "re_ok S (rc_reassembler rc)" using rc by (simp add: rc_ok_def)
  have i: "unat (of_nat i :: u64) = i" using assms(2) by (intro unat_of_nat_64) (simp add: segment_of_def)
  have sub: "substring_of S (of_nat i) (sm_payload m) (sm_FIN m)" using assms(2) by (simp add: segment_of_def)
  then have "i \<le> length S" by (simp add: substring_of_def i)
  then have near: "sm_SYN m \<or> nat_dist (i + 1) (re_written (rc_reassembler rc)) < 2 ^ 31"
    using re_ok_written_le [OF re] len by (auto simp: nat_dist_def)
  let ?re = "if sm_RST m then reassembler_set_error (rc_reassembler rc) else rc_reassembler rc"
  have re': "re_ok S ?re" "bs_total_popped (re_output ?re) = bs_total_popped (re_output (rc_reassembler rc))"
    using re by simp_all
  have "bs_total_popped (re_output (rc_reassembler (receiver_receive rc m))) = bs_total_popped (re_output (rc_reassembler rc))"
  proof (cases "sm_SYN m \<or> rc_ISN rc \<noteq> None")
    case True
    from receive_segment [OF rc assms(2) near True] reassembler_insert_spec(4) [OF re'(1) sub] re'(2)
    show ?thesis by simp
  next
    case False
    with re'(2) show ?thesis by (simp add: receive_before_SYN split: if_splits)
  qed
  with rc_ok_receive [OF rc assms(2) near] assms(1) show ?thesis by (simp add: receives_from_def)
qed

lemma receives_pop:
  assumes "receives_from S isn given rc" and "n \<le> length (reader_peek (re_output (rc_reassembler rc)))"
  shows "receives_from S isn (given @ take n (reader_peek (re_output (rc_reassembler rc)))) (receiver_pop rc (of_nat n))"
proof -
  let ?out = "re_output (rc_reassembler rc)" let ?p = "unat (bs_total_popped ?out)"
  have rc: "rc_ok S isn rc" and len: "length S + 2 < 2 ^ 31" using assms(1) by (simp_all add: receives_from_def)
  have re: "re_ok S (rc_reassembler rc)" using rc by (simp add: rc_ok_def)
  then have core: "unat (bs_total_pushed ?out) = ?p + length (bs_buffer ?out)"
    "unat (bs_total_pushed ?out) \<le> length S" "bs_buffer ?out = take (length (bs_buffer ?out)) (drop ?p S)"
    unfolding re_ok_def re_core_def by blast+
  have n: "unat (of_nat n :: u64) = n" using assms(2) core len by (intro unat_of_nat_64) (simp add: reader_peek_def)
  then have sum: "unat (bs_total_popped ?out + of_nat n) = ?p + n"
    using assms(2) core len by (subst unat_plus_no_overflow) (simp_all add: reader_peek_def)
  have "re_ok S (reassembler_pop (rc_reassembler rc) (of_nat n))"
    by (rule re_ok_pop [OF re]) (use n assms(2) in \<open>simp add: reader_peek_def\<close>)
  moreover have "re_known (rc_reassembler (receiver_pop rc (of_nat n))) = re_known (rc_reassembler rc)"
    by (simp add: receiver_pop_def reassembler_pop_def reader_pop_def known_def)
  ultimately have "rc_ok S isn (receiver_pop rc (of_nat n))" using rc by (simp add: rc_ok_def receiver_pop_def)
  moreover have "take n (bs_buffer ?out) = take n (drop ?p S)"
    by (subst core(3)) (use assms(2) in \<open>simp add: reader_peek_def min_def\<close>)
  ultimately show ?thesis
    using assms(1) sum by (simp add: take_add receives_from_def receiver_pop_def reassembler_pop_def reader_pop_def reader_peek_def)
qed

lemma receives_error:
  assumes "receives_from S isn given rc"
  shows "receives_from S isn given (rc\<lparr>rc_reassembler := reassembler_set_error (rc_reassembler rc)\<rparr>)"
  using assms by (simp add: receives_from_def rc_ok_def)

subsection \<open>The peer\<close>

text \<open>The sender halves of messages.\<close>

definition halves :: "tcp_message list \<Rightarrow> tcp_sender_message set" where
  "halves xs = (ref_get \<circ> tm_sender) ` set xs"

lemma halves_map [simp]: "halves (map (\<lambda>m. \<lparr>tm_sender = Borrowed m, tm_receiver = r\<rparr>) ms) = set ms"
  by (auto simp: halves_def image_image)

lemma halves_simps [simp]: "halves [] = {}" "halves (x # xs) = insert (ref_get (tm_sender x)) (halves xs)"
  by (simp_all add: halves_def)

text \<open>What a step of the peer keeps of the sender's half: what it transmits is logged.\<close>

definition peer_step :: "bytes \<Rightarrow> wrap32 \<Rightarrow> tcp_sender_message set \<Rightarrow> tcp_peer \<Rightarrow> tcp_peer \<Rightarrow> tcp_message list \<Rightarrow> bool" where
  "peer_step S isn log p p' xs \<longleftrightarrow> (sends_from S isn log (pe_sender p) \<longrightarrow>
     sends_from S isn (log \<union> halves xs) (pe_sender p')
     \<and> bs_stream_closed (outbound p') = bs_stream_closed (outbound p))"

lemma push_step:
  assumes "peer_push p = Inr (p', xs)"
  shows "peer_step S isn log p p' xs" and "pe_receiver p' = pe_receiver p"
proof -
  obtain s ms where run: "sender_push (pe_sender p) = Inr (s, ms)"
    and p': "p' = (if ms = [] then p\<lparr>pe_sender := s\<rparr> else p\<lparr>pe_sender := s, pe_need_send := False\<rparr>)"
    and xs: "xs = map (\<lambda>m. \<lparr>tm_sender = Borrowed m, tm_receiver = Owned (receiver_send (pe_receiver p))\<rparr>) ms"
    using peer_push_Inr [OF assms] by blast
  show "pe_receiver p' = pe_receiver p" by (simp add: p')
  have "pe_sender p' = s" by (simp add: p')
  then show "peer_step S isn log p p' xs"
    using sends_push [OF _ run, of S isn log] sender_push_totals [OF run] by (simp add: peer_step_def xs outbound_def)
qed

lemma tick_step:
  assumes "peer_tick p t = Inr (p', xs)"
  shows "peer_step S isn log p p' xs" and "pe_receiver p' = pe_receiver p"
proof -
  let ?p = "p\<lparr>pe_cumulative_time := pe_cumulative_time p + t\<rparr>"
  obtain s ms where run: "sender_tick (pe_sender p) t = Inr (s, ms)" and p': "(p', xs) = make_send (?p\<lparr>pe_sender := s\<rparr>) ms"
    using assms by (auto simp: peer_tick_def Let_def)
  from p' have fields: "pe_sender p' = s" "pe_receiver p' = pe_receiver p" "halves xs = set ms"
    by (auto simp: make_send_eq split: if_splits)
  show "pe_receiver p' = pe_receiver p" by (rule fields)
  have "snd_input s = snd_input (pe_sender p)" if "sends_from S isn log (pe_sender p)"
    using that sender_tick_total [of S "pe_sender p" t] run by (auto simp: sends_from_def)
  then show "peer_step S isn log p p' xs"
    using sends_tick [OF _ run, of S isn log] by (simp add: peer_step_def fields outbound_def)
qed

text \<open>A message that the network may deliver.\<close>

definition genuine :: "bytes \<Rightarrow> wrap32 \<Rightarrow> tcp_sender_message set \<Rightarrow> tcp_message \<Rightarrow> bool" where
  "genuine S isn log msg \<longleftrightarrow> (\<exists>i. segment_of S isn i (ref_get (tm_sender msg))) \<and> acks_sent log (ref_get (tm_receiver msg))"

lemma receive_step:
  assumes "peer_receive p msg = Inr (p', xs)" and "genuine R isn' log msg"
  shows "peer_step S isn log p p' xs"
    and "receives_from R isn' given (pe_receiver p) \<Longrightarrow> receives_from R isn' given (pe_receiver p')"
proof -
  have "peer_step S isn log p p' xs
      \<and> (receives_from R isn' given (pe_receiver p) \<longrightarrow> receives_from R isn' given (pe_receiver p'))"
  proof (cases "active p")
    case False
    with assms(1) show ?thesis by (simp add: peer_receive_def peer_step_def)
  next
    case True
    from peer_receive_Inr [OF assms(1) True] obtain sm rm s s' ms where
      halves: "get_mut (tm_sender msg) = Inr sm" "get_mut (tm_receiver msg) = Inr rm"
      and run: "sender_receive (pe_sender p) rm = Inr s" and push: "sender_push s = Inr (s', ms)"
      and p': "pe_sender p' = s'" "pe_receiver p' = receiver_receive (pe_receiver p) sm"
      and xs: "xs = map (\<lambda>m. \<lparr>tm_sender = Borrowed m, tm_receiver = Owned (receiver_send (pe_receiver p'))\<rparr>)
        (ms @ (if (pe_need_send p \<or> wants_reply p sm) \<and> ms = [] then [make_empty_message s'] else []))"
      by blast
    have eq: "sm = ref_get (tm_sender msg)" "rm = ref_get (tm_receiver msg)"
      using halves by (cases "tm_sender msg"; cases "tm_receiver msg"; simp)+
    have out: "halves xs \<subseteq> insert (make_empty_message s') (set ms)"
      unfolding xs halves_map by auto
    have "sends_from S isn (log \<union> halves xs) s' \<and> bs_stream_closed (snd_input s') = bs_stream_closed (snd_input (pe_sender p))"
      if sends: "sends_from S isn log (pe_sender p)"
    proof
      have "acks_sent log rm" using assms(2) eq by (simp add: genuine_def)
      note s = sends_receive [OF sends run this]
      have s': "sends_from S isn (log \<union> set ms) s'" by (rule sends_push [OF s(1) push])
      moreover have "logged S s' (make_empty_message s')"
        unfolding logged_def make_empty_message_def
        by (intro disjI2 conjI exI [of _ "unat (snd_abs_seqno s')"]) (simp_all add: seq_len_def)
      ultimately have "sends_from S isn (log \<union> insert (make_empty_message s') (set ms)) s'"
        by (simp add: sends_from_def)
      then show "sends_from S isn (log \<union> halves xs) s'" by (rule sends_from_subset) (use out in blast)
      show "bs_stream_closed (snd_input s') = bs_stream_closed (snd_input (pe_sender p))"
        using s(2) sender_push_totals [OF push] by simp
    qed
    moreover obtain i where "segment_of R isn' i sm" using assms(2) eq by (auto simp: genuine_def)
    ultimately show ?thesis
      using p' receives_receive [of R isn' given "pe_receiver p" i sm] by (simp add: peer_step_def outbound_def)
  qed
  then show "peer_step S isn log p p' xs"
    and "receives_from R isn' given (pe_receiver p) \<Longrightarrow> receives_from R isn' given (pe_receiver p')" by blast+
qed

end
