(* ===== verification/Minnow_Transfer.thy ===== *)
theory Minnow_Transfer
  imports Minnow_Socket Peer_Transfer Stream_Copy
begin

text \<open>
  What the thread of a \<open>TCPMinnowSocket\<close> does to the bytes: the owner's bytes go out in genuine
  segments, and the owner gets the remote stream's bytes, each in its order. The network may lose,
  repeat, delay and reorder, but makes up neither segments nor acknowledgments; this is the
  contract of an adapter. The invariant of the event loop's rules has a half for each direction.
\<close>

subsection \<open>The contract of an adapter, and the invariant\<close>

text \<open>An adapter leaves alone the local socket of the thread, and keeps a log of the messages it was
  handed, or of those that it did not drop. What it reads is from the network.\<close>

definition adapter_ok ::
  "('a \<Rightarrow> tcp_message list) \<Rightarrow> ('k \<Rightarrow> int \<Rightarrow> bytes) \<Rightarrow> ('k \<Rightarrow> int \<Rightarrow> bytes) \<Rightarrow> int \<Rightarrow> bytes \<Rightarrow> wrap32
    \<Rightarrow> ('a, 'm \<times> 'k) adapter_ops \<Rightarrow> bool" where
  "adapter_ok sent taken written n S isn ops \<longleftrightarrow>
     (\<forall>a x t. still (\<lambda>k _. taken k n) (\<lambda>k _. written k n) (ao_read ops a)
        \<and> still (\<lambda>k _. taken k n) (\<lambda>k _. written k n) (ao_write ops a x)
        \<and> still (\<lambda>k _. taken k n) (\<lambda>k _. written k n) (ao_tick ops a t))
   \<and> (\<forall>a w a' msg w'. ao_read ops a w = (Inr (a', msg), w') \<longrightarrow>
        sent a' = sent a \<and> (\<forall>m. msg = Some m \<longrightarrow> genuine S isn (halves (sent a)) m))
   \<and> (\<forall>a x w a' w'. ao_write ops a x w = (Inr a', w') \<longrightarrow> set (sent a') \<subseteq> insert x (set (sent a)))
   \<and> (\<forall>a t w a' w'. ao_tick ops a t w = (Inr a', w') \<longrightarrow> sent a' = sent a)
   \<and> (\<forall>a f b. sent (ao_config_mut ops f a) = sent a \<and> sent (ao_set_listening ops b a) = sent a)"

text \<open>What stays the same while the thread runs: the calls and observations, the adapter's
  operations and log, the thread's end of the pair of sockets (its cell and number), the remote
  stream, both initial sequence numbers, and the bytes taken and written before.\<close>

record ('a, 'k) setting =
  st_sys :: "'k syscalls"
  st_so :: "'k socket_calls"
  st_pc :: "'k poll_calls"
  st_taken :: "'k \<Rightarrow> int \<Rightarrow> bytes"
  st_written :: "'k \<Rightarrow> int \<Rightarrow> bytes"
  st_ops :: "('a, 'k) mn_ops"
  st_sent :: "'a \<Rightarrow> tcp_message list"
  st_cell :: nat
  st_fd :: int
  st_remote :: bytes
  st_remote_isn :: wrap32
  st_isn :: wrap32
  st_taken0 :: bytes
  st_written0 :: bytes

definition gives :: "('a, 'k) setting \<Rightarrow> 'k \<Rightarrow> tcp_peer \<Rightarrow> bool" where
  "gives c k p \<longleftrightarrow> (\<exists>given. st_written c k (st_fd c) = st_written0 c @ given
     \<and> receives_from (st_remote c) (st_remote_isn c) given (pe_receiver p))"

text \<open>A bound on what the owner writes is part of the sender's half.\<close>

definition takes :: "('a, 'k) setting \<Rightarrow> tcp_sender_message set \<Rightarrow> 'a minnow \<Rightarrow> 'k \<Rightarrow> tcp_peer \<Rightarrow> bool" where
  "takes c extra m k p \<longleftrightarrow> (\<exists>y. st_taken c k (st_fd c) = st_taken0 c @ y
     \<and> (length y + 2 < 2 ^ 31 \<longrightarrow>
          sends_from y (st_isn c) (halves (st_sent c (mn_adapter m)) \<union> extra) (pe_sender p)
          \<and> (\<not> mn_outbound_shutdown m \<longrightarrow> \<not> bs_stream_closed (outbound p))))"

definition setting_ok :: "('a, 'k) setting \<Rightarrow> bool" where
  "setting_ok c \<longleftrightarrow> conveys (st_taken c) (st_written c) (st_sys c) (st_so c) (st_pc c)
     \<and> adapter_ok (st_sent c) (st_taken c) (st_written c) (st_fd c) (st_remote c) (st_remote_isn c) (st_ops c)"

definition minnow_inv :: "('a, 'k) setting \<Rightarrow> tcp_sender_message set \<Rightarrow> ('a minnow \<times> 'k) world \<Rightarrow> bool" where
  "minnow_inv c extra w \<longleftrightarrow> setting_ok c \<and> fw_fd (w_fds w (st_cell c)) = st_fd c
     \<and> (\<exists>p. mn_tcp (fst (w_kernel w)) = Some p \<and> gives c (snd (w_kernel w)) p
          \<and> takes c extra (fst (w_kernel w)) (snd (w_kernel w)) p)"

abbreviation still_at :: "('a, 'k) setting \<Rightarrow> ('m \<times> 'k, 'b) sys \<Rightarrow> bool" where
  "still_at c \<equiv> still (\<lambda>k _. st_taken c k (st_fd c)) (\<lambda>k _. st_written c k (st_fd c))"

abbreviation unmoved_at :: "('a, 'k) setting \<Rightarrow> ('m \<times> 'k) world \<Rightarrow> ('m \<times> 'k) world \<Rightarrow> bool" where
  "unmoved_at c \<equiv> unmoved (\<lambda>k _. st_taken c k (st_fd c)) (\<lambda>k _. st_written c k (st_fd c))"

lemma still_at_all: "still (st_taken c) (st_written c) m \<Longrightarrow> still_at c m"
  by (simp add: still_def unmoved_def)

lemma unmoved_at_iff: "unmoved_at c w w' \<longleftrightarrow> kept w w'
    \<and> st_taken c (snd (w_kernel w')) (st_fd c) = st_taken c (snd (w_kernel w)) (st_fd c)
    \<and> st_written c (snd (w_kernel w')) (st_fd c) = st_written c (snd (w_kernel w)) (st_fd c)"
  by (auto simp: unmoved_def fun_eq_iff)

lemma minnow_inv_unmoved: "unmoved_at c w w' \<Longrightarrow> minnow_inv c extra w \<Longrightarrow> minnow_inv c extra w'"
  unfolding unmoved_at_iff kept_def minnow_inv_def gives_def takes_def by simp

lemma stillD: "still taken written m \<Longrightarrow> m w = (x, w') \<Longrightarrow> unmoved taken written w w'"
  unfolding still_def by (metis snd_conv)

definition keeps :: "('a, 'k) setting \<Rightarrow> tcp_sender_message set \<Rightarrow> (('a, 'k) mn_state, 'b) io \<Rightarrow> bool" where
  "keeps c extra m \<longleftrightarrow> (\<forall>s x s'. m s = (x, s') \<longrightarrow> minnow_inv c extra (snd s) \<longrightarrow> minnow_inv c extra (snd s'))"

lemma keepsD: "keeps c extra m \<Longrightarrow> m s = (x, s') \<Longrightarrow> minnow_inv c extra (snd s) \<Longrightarrow> minnow_inv c extra (snd s')"
  unfolding keeps_def by blast

lemma keeps_basic:
  "keeps c extra (io_return x)" "keeps c extra (io_throw e)" "keeps c extra (io_lift r)" "keeps c extra (io_ask g)"
  by (simp_all add: keeps_def)

lemma keeps_bind:
  assumes "keeps c extra m" and "\<And>x. keeps c extra (f x)"
  shows "keeps c extra (io_bind m f)"
  unfolding keeps_def
proof (intro allI impI)
  fix s x s' assume run: "io_bind m f s = (x, s')" and inv: "minnow_inv c extra (snd s)"
  obtain y s1 where y: "m s = (y, s1)" by (rule prod.exhaust)
  note s1 = keepsD [OF assms(1) y inv]
  show "minnow_inv c extra (snd s')"
  proof (cases y)
    case (Inl e) with run y s1 show ?thesis by (simp add: io_bind_eq)
  next
    case (Inr z)
    with run y have "f z s1 = (x, s')" by (simp add: io_bind_eq)
    from keepsD [OF assms(2) this s1] show ?thesis .
  qed
qed

lemma bind_ends:
  assumes "m s = (y, s1)" and "minnow_inv c extra (snd s1)" and "\<And>v. keeps c extra (f v)" and "io_bind m f s = (x, s')"
  shows "minnow_inv c extra (snd s')"
proof (cases y)
  case (Inl e) with assms show ?thesis by (simp add: io_bind_eq)
next
  case (Inr v)
  with assms(1,4) have "f v s1 = (x, s')" by (simp add: io_bind_eq)
  from keepsD [OF assms(3) this assms(2)] show ?thesis .
qed

lemma keeps_if: "keeps c extra m \<Longrightarrow> keeps c extra m' \<Longrightarrow> keeps c extra (if b then m else m')"
  by simp

lemma keeps_option: "keeps c extra m \<Longrightarrow> (\<And>x. keeps c extra (f x)) \<Longrightarrow>
    keeps c extra (case v of None \<Rightarrow> m | Some x \<Rightarrow> f x)"
  by (cases v) simp_all

lemma keeps_fds:
  assumes "still_at c m"
  shows "keeps c extra (on_fds m)"
  unfolding keeps_def
proof (intro allI impI)
  fix s x s' assume run: "on_fds m s = (x, s')" and inv: "minnow_inv c extra (snd s)"
  obtain y w1 where y: "m (snd s) = (y, w1)" by (rule prod.exhaust)
  from minnow_inv_unmoved [OF stillD [OF assms y] inv] run y show "minnow_inv c extra (snd s')"
    by (auto simp: on_fds_eq)
qed

lemma keeps_with_peer: "(\<And>p. keeps c extra (f p)) \<Longrightarrow> keeps c extra (with_peer f)"
  "(\<And>p. keeps c extra (f p)) \<Longrightarrow> keeps c extra (peer_value f)"
  unfolding with_peer_def peer_value_def by (intro keeps_bind keeps_basic keeps_option; simp)+

lemma keeps_print: "keeps c extra (print_destination gni ops)" "keeps c extra (print_address gni a)"
  unfolding print_destination_def print_address_def by (intro keeps_bind keeps_basic)+

lemma still_eof: "still_at c (fd_eof fd)"
  unfolding fd_eof_def by (intro still_intros)

text \<open>Flags that the invariant does not speak of.\<close>

lemma keeps_flags:
  "keeps c extra (set_locals (\<lambda>m. m\<lparr>mn_fully_acked := b\<rparr>))"
  "keeps c extra (set_locals (\<lambda>m. m\<lparr>mn_inbound_shutdown := b\<rparr>))"
  "keeps c extra (set_locals (\<lambda>m. m\<lparr>mn_thread := b\<rparr>))"
  by (simp_all add: keeps_def set_locals_eq minnow_inv_def gives_def takes_def locals_def)

lemmas keeps_intros = keeps_basic keeps_bind keeps_if keeps_option keeps_with_peer keeps_print keeps_flags
  keeps_fds [OF still_eof]

text \<open>Setting the peer.\<close>

lemma set_peer_eq: "set_peer p s = (Inr (), (fst s, (snd s)\<lparr>w_kernel := ((locals s)\<lparr>mn_tcp := Some p\<rparr>, snd (w_kernel (snd s)))\<rparr>))"
  by (simp add: set_peer_def set_locals_eq)

lemma inv_set_peer:
  assumes "minnow_inv c extra w" and "mn_tcp (fst (w_kernel w)) = Some p"
    and "gives c (snd (w_kernel w)) p \<Longrightarrow> gives c (snd (w_kernel w)) p'"
    and "takes c extra (fst (w_kernel w)) (snd (w_kernel w)) p \<Longrightarrow> takes c extra' (fst (w_kernel w)) (snd (w_kernel w)) p'"
  shows "minnow_inv c extra' (w\<lparr>w_kernel := ((fst (w_kernel w))\<lparr>mn_tcp := Some p'\<rparr>, snd (w_kernel w))\<rparr>)"
  using assms by (auto simp: minnow_inv_def) (simp add: takes_def)

text \<open>The current peer is in the state.\<close>

lemma with_peer_eq: "mn_tcp (locals s) = Some p \<Longrightarrow> with_peer f s = f p s"
  by (simp add: with_peer_def)

lemma inv_peer: "minnow_inv c extra (snd s) \<Longrightarrow> \<exists>p. mn_tcp (locals s) = Some p"
  by (auto simp: minnow_inv_def locals_def)

subsection \<open>Calls of the adapter\<close>

lemma takes_subset:
  assumes "takes c extra m k p"
    and "halves (st_sent c (mn_adapter m')) \<union> extra' \<subseteq> halves (st_sent c (mn_adapter m)) \<union> extra"
    and "mn_outbound_shutdown m' = mn_outbound_shutdown m"
  shows "takes c extra' m' k p"
proof -
  obtain y where "st_taken c k (st_fd c) = st_taken0 c @ y"
    and "length y + 2 < 2 ^ 31 \<Longrightarrow>
        sends_from y (st_isn c) (halves (st_sent c (mn_adapter m)) \<union> extra) (pe_sender p)
      \<and> (\<not> mn_outbound_shutdown m \<longrightarrow> \<not> bs_stream_closed (outbound p))"
    using assms(1) unfolding takes_def by blast
  then show ?thesis
    unfolding takes_def assms(3) using sends_from_subset [OF _ assms(2)] by blast
qed

lemma minnow_inv_subset:
  assumes "minnow_inv c extra w" and "extra' \<subseteq> extra"
  shows "minnow_inv c extra' w"
proof -
  have "takes c extra m k p \<Longrightarrow> takes c extra' m k p" for m k p
    by (erule takes_subset) (use assms(2) in auto)
  with assms(1) show ?thesis unfolding minnow_inv_def by blast
qed

lemma with_adapter_step:
  assumes run: "with_adapter g s = (x, s')" and inv: "minnow_inv c extra (snd s)"
    and g: "\<And>a. still_at c (g a)"
    and log: "\<And>a w a' y w'. g a w = (Inr (a', y), w') \<Longrightarrow> halves (st_sent c a') \<union> extra' \<subseteq> halves (st_sent c a) \<union> extra"
    and sub: "extra' \<subseteq> extra"
  shows "minnow_inv c extra' (snd s') \<and> (\<forall>y. x = Inr y \<longrightarrow> (\<exists>a w w'. g a w = (Inr (mn_adapter (locals s'), y), w')))"
proof -
  let ?a = "mn_adapter (locals s)"
  obtain y w1 where y: "g ?a (snd s) = (y, w1)" by (rule prod.exhaust)
  have moved: "unmoved_at c (snd s) w1" using stillD [OF g y] .
  note inv1 = minnow_inv_unmoved [OF moved inv]
  have same: "locals (fst s, w1) = locals s" using moved by (simp add: unmoved_at_iff kept_def locals_def)
  show ?thesis
  proof (cases y)
    case (Inl e)
    with run y have "s' = (fst s, w1)" "x = Inl e" by (auto simp: with_adapter_def on_fds_eq io_bind_eq)
    with minnow_inv_subset [OF inv1 sub] show ?thesis by simp
  next
    case (Inr z)
    obtain a' v where z: "z = (a', v)" by (rule prod.exhaust)
    from run y Inr z same have s': "s' = (fst s, w1\<lparr>w_kernel := ((locals s)\<lparr>mn_adapter := a'\<rparr>, snd (w_kernel w1))\<rparr>)" "x = Inr v"
      by (auto simp: with_adapter_def on_fds_eq io_bind_eq set_locals_eq)
    have sub': "halves (st_sent c a') \<union> extra' \<subseteq> halves (st_sent c ?a) \<union> extra" using log y Inr z by blast
    have "fst (w_kernel w1) = locals s" using same by (simp add: locals_def)
    with inv1 obtain p where "setting_ok c" "fw_fd (w_fds w1 (st_cell c)) = st_fd c" and p: "mn_tcp (locals s) = Some p"
      "gives c (snd (w_kernel w1)) p" "takes c extra (locals s) (snd (w_kernel w1)) p"
      unfolding minnow_inv_def by auto
    moreover from p(3) have "takes c extra' ((locals s)\<lparr>mn_adapter := a'\<rparr>) (snd (w_kernel w1)) p"
      by (rule takes_subset) (use sub' in simp_all)
    ultimately have "minnow_inv c extra' (snd s')" by (simp add: minnow_inv_def s'(1))
    moreover have "g ?a (snd s) = (Inr (mn_adapter (locals s'), v), w1)"
      using y Inr z s'(1) by (simp add: locals_updated)
    ultimately show ?thesis using s'(2) by blast
  qed
qed

lemma adapter_laws:
  assumes "setting_ok c"
  shows "still_at c (ao_read (st_ops c) a)" and "still_at c (ao_write (st_ops c) a x)" and "still_at c (ao_tick (st_ops c) a t)"
    and "ao_read (st_ops c) a w = (Inr (a', msg), w') \<Longrightarrow> st_sent c a' = st_sent c a"
    and "ao_read (st_ops c) a w = (Inr (a', Some m), w') \<Longrightarrow> genuine (st_remote c) (st_remote_isn c) (halves (st_sent c a)) m"
    and "ao_write (st_ops c) a x w = (Inr a', w') \<Longrightarrow> set (st_sent c a') \<subseteq> insert x (set (st_sent c a))"
    and "ao_tick (st_ops c) a t w = (Inr a', w') \<Longrightarrow> st_sent c a' = st_sent c a"
    and "st_sent c (ao_config_mut (st_ops c) f a) = st_sent c a"
    and "st_sent c (ao_set_listening (st_ops c) b a) = st_sent c a"
  using assms unfolding setting_ok_def adapter_ok_def by (elim conjE, (metis | simp))+

lemma inv_setting: "minnow_inv c extra w \<Longrightarrow> setting_ok c"
  by (simp add: minnow_inv_def)

text \<open>Waiting messages go into the adapter's log.\<close>

lemma transmit_keeps:
  assumes "transmit (st_ops c) xs s = (x, s')" and "minnow_inv c (halves xs) (snd s)"
  shows "minnow_inv c {} (snd s')"
  using assms
proof (induction xs arbitrary: s)
  case (Cons m xs)
  let ?hand = "\<lambda>a. io_bind (ao_write (st_ops c) a m) (\<lambda>a. io_return (a, ()))"
  obtain y s1 where y: "with_adapter ?hand s = (y, s1)" by (rule prod.exhaust)
  note laws = adapter_laws [OF inv_setting [OF Cons.prems(2)]]
  have wr: "ao_write (st_ops c) a m w = (Inr a', w')" if "?hand a w = (Inr (a', u), w')" for a w a' u w'
    using that by (auto simp: io_bind_Inr)
  have quiet: "still_at c (?hand a)" for a by (intro still_bind laws(2) still_basic)
  have log: "halves (st_sent c a') \<union> halves xs \<subseteq> halves (st_sent c a) \<union> halves (m # xs)"
    if "?hand a w = (Inr (a', u), w')" for a w a' u w'
    using laws(6) [OF wr [OF that]] by (auto simp: halves_def)
  have s1: "minnow_inv c (halves xs) (snd s1)"
    by (rule conjunct1 [OF with_adapter_step [OF y Cons.prems(2) quiet]]) (erule log, auto)
  show ?case
  proof (cases y)
    case (Inl e)
    with Cons.prems(1) y have "s' = s1" by (simp add: io_bind_eq)
    moreover have "minnow_inv c {} (snd s1)" by (rule minnow_inv_subset [OF s1]) simp
    ultimately show ?thesis by simp
  next
    case (Inr u)
    with Cons.prems(1) y have "transmit (st_ops c) xs s1 = (x, s')" by (simp add: io_bind_eq)
    from Cons.IH [OF this s1] show ?thesis .
  qed
qed simp

text \<open>An operation of the peer that transmits.\<close>

lemma peer_call_keeps:
  assumes run: "peer_call (st_ops c) f s = (x, s')" and inv: "minnow_inv c {} (snd s)"
    and step: "\<And>p p' xs. f p = Inr (p', xs) \<Longrightarrow>
        (\<forall>y. peer_step y (st_isn c) (halves (st_sent c (mn_adapter (locals s)))) p p' xs)
      \<and> (\<forall>given. receives_from (st_remote c) (st_remote_isn c) given (pe_receiver p)
          \<longrightarrow> receives_from (st_remote c) (st_remote_isn c) given (pe_receiver p'))"
  shows "minnow_inv c {} (snd s')"
proof -
  obtain p where p: "mn_tcp (locals s) = Some p" using inv_peer [OF inv] by blast
  show ?thesis
  proof (cases "f p")
    case (Inl e)
    with run p inv show ?thesis by (auto simp: peer_call_def with_peer_eq)
  next
    case (Inr z)
    obtain p' xs where z: "z = (p', xs)" by (rule prod.exhaust)
    let ?w = "(snd s)\<lparr>w_kernel := ((locals s)\<lparr>mn_tcp := Some p'\<rparr>, snd (w_kernel (snd s)))\<rparr>"
    from run p Inr z have rest: "transmit (st_ops c) xs (fst s, ?w) = (x, s')"
      by (simp add: peer_call_def with_peer_eq set_peer_eq io_bind_eq)
    note p' = step [of p p' xs, unfolded Inr z, OF refl]
    have "minnow_inv c (halves xs) ?w"
      unfolding locals_def
    proof (rule inv_set_peer [OF inv])
      show "mn_tcp (fst (w_kernel (snd s))) = Some p" using p by (simp add: locals_def)
      show "gives c (snd (w_kernel (snd s))) p \<Longrightarrow> gives c (snd (w_kernel (snd s))) p'"
        using p' by (auto simp: gives_def)
      show "takes c {} (fst (w_kernel (snd s))) (snd (w_kernel (snd s))) p
          \<Longrightarrow> takes c (halves xs) (fst (w_kernel (snd s))) (snd (w_kernel (snd s))) p'"
        using p' unfolding takes_def peer_step_def locals_def by auto
    qed
    then show ?thesis by (intro transmit_keeps [OF rest]) simp
  qed
qed

lemma keeps_push: "keeps c {} (peer_call (st_ops c) peer_push)"
  unfolding keeps_def by (intro allI impI, erule (1) peer_call_keeps) (simp add: push_step)

lemma keeps_tick: "keeps c {} (peer_call (st_ops c) (\<lambda>p. peer_tick p t))"
  unfolding keeps_def by (intro allI impI, erule (1) peer_call_keeps) (simp add: tick_step)

subsection \<open>The three rules\<close>

lemma segment_callback_keeps: "keeps c {} (segment_callback gni (st_ops c) fd)"
  unfolding keeps_def
proof (intro allI impI)
  fix s x s' assume run: "segment_callback gni (st_ops c) fd s = (x, s')" and inv: "minnow_inv c {} (snd s)"
  note laws = adapter_laws [OF inv_setting [OF inv]]
  obtain y s1 where y: "with_adapter (ao_read (st_ops c)) s = (y, s1)" by (rule prod.exhaust)
  have reading: "minnow_inv c {} (snd s1)
      \<and> (\<forall>seg. y = Inr seg \<longrightarrow> (\<exists>a w w'. ao_read (st_ops c) a w = (Inr (mn_adapter (locals s1), seg), w')))"
    by (rule with_adapter_step [OF y inv laws(1)]) (simp_all add: laws(4))
  let ?tail = "io_bind (on_fds (fd_eof fd)) (\<lambda>eof.
       if \<not> eof then io_return ()
       else peer_value (\<lambda>p. io_bind (io_ask (\<lambda>s. mn_fully_acked (locals s))) (\<lambda>fully_acked.
         if sequence_numbers_in_flight (pe_sender p) = 0 \<and> \<not> fully_acked
         then io_bind (print_destination gni (st_ops c)) (\<lambda>_. set_locals (\<lambda>m. m\<lparr>mn_fully_acked := True\<rparr>))
         else io_return ())))"
  have tail: "keeps c {} ?tail" by (intro keeps_intros)
  show "minnow_inv c {} (snd s')"
  proof (cases y)
    case (Inl e)
    with run y reading show ?thesis by (simp add: segment_callback_def io_bind_eq)
  next
    case (Inr seg)
    let ?deal = "case seg of None \<Rightarrow> io_return () | Some msg \<Rightarrow> peer_call (st_ops c) (\<lambda>p. peer_receive p msg)"
    obtain z s2 where z: "?deal s1 = (z, s2)" by (rule prod.exhaust)
    have s2: "minnow_inv c {} (snd s2)"
    proof (cases seg)
      case None with z reading show ?thesis by simp
    next
      case (Some msg)
      from reading Inr Some obtain a w w' where read: "ao_read (st_ops c) a w = (Inr (mn_adapter (locals s1), Some msg), w')"
        by blast
      have "genuine (st_remote c) (st_remote_isn c) (halves (st_sent c (mn_adapter (locals s1)))) msg"
        using laws(5) [OF read] unfolding laws(4) [OF read] .
      note received = receive_step [OF _ this]
      have "peer_call (st_ops c) (\<lambda>p. peer_receive p msg) s1 = (z, s2)" using z Some by simp
      from peer_call_keeps [OF this conjunct1 [OF reading]] received show ?thesis by blast
    qed
    from run y Inr have "io_bind ?deal (\<lambda>_. ?tail) s1 = (x, s')"
      by (simp add: segment_callback_def io_bind_eq)
    from bind_ends [OF z s2 _ this] tail show ?thesis by blast
  qed
qed

lemma keeps_close: "keeps c extra close_outbound"
  unfolding keeps_def
proof (intro allI impI)
  fix s x s' assume run: "close_outbound s = (x, s')" and inv: "minnow_inv c extra (snd s)"
  obtain p where p: "mn_tcp (locals s) = Some p" using inv_peer [OF inv] by blast
  have "gives c k (peer_close p) = gives c k p" for k by (simp add: gives_def peer_close_def)
  moreover have "takes c extra m k p \<Longrightarrow> takes c extra (m\<lparr>mn_tcp := Some (peer_close p), mn_outbound_shutdown := True\<rparr>) k (peer_close p)" for m k
    using sends_close by (auto simp: takes_def peer_close_def)
  ultimately show "minnow_inv c extra (snd s')"
    using run inv p by (auto simp: close_outbound_def with_peer_eq set_peer_eq set_locals_eq io_bind_eq minnow_inv_def locals_def)
qed

lemma keeps_error: "keeps c extra (with_peer (\<lambda>p. set_peer (minnow_error code p)))"
  unfolding keeps_def
proof (intro allI impI)
  fix s x s' assume run: "with_peer (\<lambda>p. set_peer (minnow_error code p)) s = (x, s')" and inv: "minnow_inv c extra (snd s)"
  obtain p where p: "mn_tcp (locals s) = Some p" using inv_peer [OF inv] by blast
  have gives: "gives c k p \<Longrightarrow> gives c k (minnow_error code p)" for k
    using receives_error by (auto simp: gives_def minnow_error_def)
  have "bs_stream_closed (outbound (minnow_error code p)) = bs_stream_closed (outbound p)"
    by (simp add: minnow_error_def outbound_def set_error_def)
  moreover have "sends_from y isn log (pe_sender p) \<Longrightarrow> sends_from y isn log (pe_sender (minnow_error code p))" for y isn log
    by (simp add: minnow_error_def outbound_def sends_error)
  ultimately have "takes c extra m k p \<Longrightarrow> takes c extra m k (minnow_error code p)" for m k
    unfolding takes_def by auto
  with gives show "minnow_inv c extra (snd s')"
    using run p inv_set_peer [OF inv, of p "minnow_error code p" extra] by (auto simp: with_peer_eq set_peer_eq locals_def)
qed

text \<open>Rule 2 runs only while the stream is open and has room.\<close>

definition minnow_may_run :: "nat \<Rightarrow> ('a minnow \<times> 'k) world \<Rightarrow> bool" where
  "minnow_may_run code w \<longleftrightarrow> (code = 1 \<longrightarrow> \<not> mn_outbound_shutdown (fst (w_kernel w))
     \<and> (\<forall>p. mn_tcp (fst (w_kernel w)) = Some p \<longrightarrow> 0 < available_capacity (outbound p)))"

lemma outbound_callback_keeps:
  assumes run: "outbound_callback (st_sys c) gni (st_ops c) (Some (st_cell c)) s = (x, s')"
    and inv: "minnow_inv c {} (snd s)" and may: "minnow_may_run 1 (snd s)"
  shows "minnow_inv c {} (snd s')"
proof -
  let ?k = "snd (w_kernel (snd s))" let ?n = "st_fd c" let ?m = "locals s"
  obtain p where p: "mn_tcp ?m = Some p" "gives c ?k p" "takes c {} ?m ?k p"
    and law: "conveys (st_taken c) (st_written c) (st_sys c) (st_so c) (st_pc c)"
    and fd: "fw_fd (w_fds (snd s) (st_cell c)) = ?n" and ok: "setting_ok c"
    using inv by (auto simp: minnow_inv_def setting_ok_def locals_def)
  have opened: "\<not> mn_outbound_shutdown ?m" and room: "0 < available_capacity (outbound p)"
    using may p(1) by (auto simp: minnow_may_run_def locals_def)
  let ?buf = "replicate (unat (available_capacity (outbound p))) (0 :: u8)"
  have buf: "?buf \<noteq> []" using room by (simp add: word_less_nat_alt)
  obtain d w1 where d: "read (sys_beside (st_sys c)) (Some (st_cell c)) ?buf (snd s) = (d, w1)" by (rule prod.exhaust)
  note reading = conveys_read [OF law d buf]
  have same: "locals (fst s, w1) = ?m" "fst (w_kernel w1) = ?m"
    using reading by (simp_all add: kept_def locals_def)
  let ?tail = "io_bind (on_fds (fd_eof (Some (st_cell c)))) (\<lambda>eof.
     io_bind (if eof then io_bind close_outbound (\<lambda>_. io_bind (print_destination gni (st_ops c)) (\<lambda>_. peer_value (\<lambda>_. io_return ())))
              else io_return ()) (\<lambda>_.
     peer_call (st_ops c) peer_push))"
  have tail: "keeps c {} ?tail" by (intro keeps_intros keeps_close keeps_push)
  show ?thesis
  proof (cases d)
    case (Inl e)
    with run d p(1) have "s' = (fst s, w1)" by (simp add: outbound_callback_def with_peer_eq on_fds_eq io_bind_eq)
    moreover have "unmoved_at c (snd s) w1" using reading Inl by (simp add: unmoved_at_iff)
    ultimately show ?thesis using minnow_inv_unmoved inv by simp
  next
    case (Inr data)
    let ?p = "peer_write p data"
    let ?w = "w1\<lparr>w_kernel := (?m\<lparr>mn_tcp := Some ?p\<rparr>, snd (w_kernel w1))\<rparr>"
    have k1: "st_taken c (snd (w_kernel w1)) ?n = st_taken c ?k ?n @ data" "st_written c (snd (w_kernel w1)) = st_written c ?k"
      "length data \<le> unat (available_capacity (outbound p))" "fw_fd (w_fds w1 (st_cell c)) = ?n"
      using reading Inr fd by (simp_all add: kept_def)
    have "takes c {} (?m\<lparr>mn_tcp := Some ?p\<rparr>) (snd (w_kernel w1)) ?p"
    proof -
      obtain y where y: "st_taken c ?k ?n = st_taken0 c @ y" and sends: "length y + 2 < 2 ^ 31 \<Longrightarrow>
          sends_from y (st_isn c) (halves (st_sent c (mn_adapter ?m))) (pe_sender p) \<and> \<not> bs_stream_closed (snd_input (pe_sender p))"
        using p(3) opened by (auto simp: takes_def outbound_def)
      have "sends_from (y @ data) (st_isn c) (halves (st_sent c (mn_adapter ?m))) (pe_sender ?p)
          \<and> \<not> bs_stream_closed (outbound ?p)" if len: "length (y @ data) + 2 < 2 ^ 31"
      proof -
        have "length y + 2 < 2 ^ 31" using len by simp
        note s = sends [OF this]
        show ?thesis
          using sends_write [OF conjunct1 [OF s] conjunct2 [OF s] k1(3) [unfolded outbound_def] len] conjunct2 [OF s]
          by (simp add: peer_write_def outbound_def sender_write_def)
      qed
      with y k1(1) show ?thesis unfolding takes_def by (intro exI [of _ "y @ data"]) simp
    qed
    moreover have "gives c (snd (w_kernel w1)) ?p" using p(2) k1(2) by (simp add: gives_def peer_write_def)
    ultimately have inv1: "minnow_inv c {} (snd (fst s, ?w))"
      using ok k1(4) by (simp add: minnow_inv_def)
    from run d p(1) Inr same have "?tail (fst s, ?w) = (x, s')"
      by (simp add: outbound_callback_def with_peer_eq on_fds_eq io_bind_eq set_peer_eq)
    from keepsD [OF tail this inv1] show ?thesis .
  qed
qed

lemma inbound_callback_keeps: "keeps c {} (inbound_callback (st_sys c) (st_so c) gni (st_ops c) (Some (st_cell c)))"
  unfolding keeps_def
proof (intro allI impI)
  fix s x s'
  assume run: "inbound_callback (st_sys c) (st_so c) gni (st_ops c) (Some (st_cell c)) s = (x, s')"
    and inv: "minnow_inv c {} (snd s)"
  let ?k = "snd (w_kernel (snd s))" let ?n = "st_fd c" let ?m = "locals s"
  obtain p where p: "mn_tcp ?m = Some p" "gives c ?k p" "takes c {} ?m ?k p"
    and law: "conveys (st_taken c) (st_written c) (st_sys c) (st_so c) (st_pc c)"
    and fd: "fw_fd (w_fds (snd s) (st_cell c)) = ?n" and ok: "setting_ok c"
    using inv by (auto simp: minnow_inv_def setting_ok_def locals_def)
  let ?first = "with_peer (\<lambda>p.
       if bytes_buffered (inbound p) \<noteq> 0
       then io_bind (on_fds (write_once (sys_beside (st_sys c)) (Some (st_cell c)) (reader_peek (inbound p)))) (\<lambda>n.
            with_peer (\<lambda>p. set_peer (peer_read p (of_nat n))))
       else io_return ())"
  obtain y s1 where y: "?first s = (y, s1)" by (rule prod.exhaust)
  have s1: "minnow_inv c {} (snd s1)"
  proof (cases "bytes_buffered (inbound p) = 0")
    case True with y p(1) inv show ?thesis by (simp add: with_peer_eq)
  next
    case False
    obtain d w1 where d: "write_once (sys_beside (st_sys c)) (Some (st_cell c)) (reader_peek (inbound p)) (snd s) = (d, w1)"
      by (rule prod.exhaust)
    note writing = conveys_write [OF law d]
    have same: "locals (fst s, w1) = ?m" using writing by (simp add: kept_def locals_def)
    show ?thesis
    proof (cases d)
      case (Inl e)
      with y d p(1) False have "s1 = (fst s, w1)" by (simp add: with_peer_eq on_fds_eq io_bind_eq)
      moreover have "unmoved_at c (snd s) w1" using writing Inl by (simp add: unmoved_at_iff)
      ultimately show ?thesis using minnow_inv_unmoved inv by simp
    next
      case (Inr n)
      let ?p = "peer_read p (of_nat n)"
      have s1: "s1 = (fst s, w1\<lparr>w_kernel := (?m\<lparr>mn_tcp := Some ?p\<rparr>, snd (w_kernel w1))\<rparr>)"
        using y d p(1) False Inr same by (simp add: with_peer_eq on_fds_eq io_bind_eq set_peer_eq)
      have k1: "st_written c (snd (w_kernel w1)) ?n = st_written c ?k ?n @ take n (reader_peek (inbound p))"
        "st_taken c (snd (w_kernel w1)) = st_taken c ?k" "n \<le> length (reader_peek (inbound p))"
        "fw_fd (w_fds w1 (st_cell c)) = ?n"
        using writing Inr fd by (simp_all add: kept_def)
      obtain given where "st_written c ?k ?n = st_written0 c @ given"
        "receives_from (st_remote c) (st_remote_isn c) given (pe_receiver p)"
        using p(2) unfolding gives_def by blast
      with receives_pop [OF this(2) k1(3) [unfolded inbound_def]] k1(1)
      have "gives c (snd (w_kernel w1)) ?p" by (auto simp: gives_def peer_read_def inbound_def)
      moreover have "takes c {} (?m\<lparr>mn_tcp := Some ?p\<rparr>) (snd (w_kernel w1)) ?p"
        using p(3) k1(2) by (simp add: takes_def peer_read_def outbound_def)
      ultimately show ?thesis using ok k1(4) by (simp add: minnow_inv_def s1)
    qed
  qed
  let ?tail = "with_peer (\<lambda>p.
       if is_finished (inbound p) \<or> has_error (inbound p)
       then io_bind (on_fds (shutdown (sys_beside (st_sys c)) (socket_beside (st_so c)) (Some (st_cell c)) SHUT_WR)) (\<lambda>_.
            io_bind (set_locals (\<lambda>m. m\<lparr>mn_inbound_shutdown := True\<rparr>)) (\<lambda>_. print_destination gni (st_ops c)))
       else io_return ())"
  have tail: "keeps c {} ?tail" by (intro keeps_intros keeps_fds still_at_all still_fd_ops(2) [OF law])
  from run have "io_bind ?first (\<lambda>_. ?tail) s = (x, s')" by (simp add: inbound_callback_def)
  from bind_ends [OF y s1 _ this] tail show "minnow_inv c {} (snd s')" by blast
qed

text \<open>The closures leave the loop's rules alone.\<close>

lemma leaves_rules_option:
  "leaves_rules m \<Longrightarrow> (\<And>x. leaves_rules (f x)) \<Longrightarrow> leaves_rules (case v of None \<Rightarrow> m | Some x \<Rightarrow> f x)"
  by (cases v) simp_all

lemma leaves_rules_pair: "(\<And>x y. leaves_rules (f x y)) \<Longrightarrow> leaves_rules (case v of (x, y) \<Rightarrow> f x y)"
  by (cases v) simp

lemmas peer_rules_intros = rules_intros leaves_rules_option leaves_rules_pair

lemma leaves_rules_peer: "(\<And>p. leaves_rules (f p)) \<Longrightarrow> leaves_rules (with_peer f)"
  "(\<And>p. leaves_rules (f p)) \<Longrightarrow> leaves_rules (peer_value f)" "leaves_rules (set_peer p)"
  unfolding with_peer_def peer_value_def set_peer_def by (intro peer_rules_intros; simp)+

lemma leaves_rules_adapter: "leaves_rules (with_adapter g)"
  unfolding with_adapter_def by (intro peer_rules_intros)

lemma leaves_rules_transmit: "leaves_rules (transmit ops xs)"
  by (induction xs) (simp_all add: rules_intros leaves_rules_adapter del: io_simps)

lemma leaves_rules_print: "leaves_rules (print_destination gni ops)" "leaves_rules (print_address gni a)"
  unfolding print_destination_def print_address_def by (intro peer_rules_intros)+

lemma leaves_rules_peer_call: "leaves_rules (peer_call ops f)"
  unfolding peer_call_def by (intro peer_rules_intros leaves_rules_peer leaves_rules_transmit)

lemma leaves_rules_close: "leaves_rules close_outbound"
  unfolding close_outbound_def by (intro peer_rules_intros leaves_rules_peer)

lemma callbacks_rules:
  "leaves_rules (segment_callback gni ops fd)" "leaves_rules (outbound_callback sys gni ops fd)"
  "leaves_rules (inbound_callback sys so gni ops fd)"
  unfolding segment_callback_def outbound_callback_def inbound_callback_def
  by (intro peer_rules_intros leaves_rules_peer leaves_rules_adapter leaves_rules_print leaves_rules_peer_call
      leaves_rules_close)+

lemma poll_unmoved:
  assumes "minnow_inv c extra w" and "sys_poll (poll_beside (st_pc c)) ps t (w_kernel w) = (a, k)
      \<or> sys_so_error (poll_beside (st_pc c)) n (w_kernel w) = (b, k)"
  shows "unmoved_at c w (w\<lparr>w_kernel := k\<rparr>)"
proof -
  have "quiet (\<lambda>k. (st_taken c k, st_written c k)) (sys_poll (st_pc c) ps t)"
    "quiet (\<lambda>k. (st_taken c k, st_written c k)) (sys_so_error (st_pc c) n)"
    using assms(1) unfolding minnow_inv_def setting_ok_def conveys_def by blast+
  with assms(2) show ?thesis
    unfolding quiet_def unmoved_at_iff kept_def
    by (auto simp: poll_beside_def beside_def split: prod.splits) (metis prod.inject snd_conv)+
qed

interpretation minnow: loop_client "poll_beside (st_pc c)"
    "minnow_closures (st_sys c) (st_so c) gni (st_ops c) (Some (st_cell c))" "minnow_inv c {}" minnow_may_run
  for c :: "('a, 'k) setting" and gni
proof
  fix d and s s' :: "('a, 'k) mn_state" and r
  let ?cl = "minnow_closures (st_sys c) (st_so c) gni (st_ops c) (Some (st_cell c))"
  assume inv: "minnow_inv c {} (snd s)"
  {
    assume run: "cl_interest ?cl d s = (r, s')"
    obtain p where p: "mn_tcp (locals s) = Some p" using inv_peer [OF inv] by blast
    with run have "s' = s" "r = Inr (minnow_interest d (locals s) p)"
      by (auto simp: minnow_closures_def with_peer_eq)
    with p inv show "minnow_inv c {} (snd s') \<and> fst s' = fst s
        \<and> (\<forall>d. minnow_may_run d (snd s) \<longrightarrow> minnow_may_run d (snd s')) \<and> (r = Inr True \<longrightarrow> minnow_may_run d (snd s'))"
      by (auto simp: minnow_may_run_def minnow_interest_def locals_def)
  }
next
  fix d and s s' :: "('a, 'k) mn_state" and q
  let ?cl = "minnow_closures (st_sys c) (st_so c) gni (st_ops c) (Some (st_cell c))"
  assume inv: "minnow_inv c {} (snd s)" and run: "cl_cancel ?cl d s = (q, s')"
  have "keeps c {} (cl_cancel ?cl d)" "leaves_rules (cl_cancel ?cl d)"
    by (auto simp: minnow_closures_def keeps_close keeps_basic leaves_rules_close leaves_rules_basic)
  with run inv have "minnow_inv c {} (snd s')" "fst s' = fst s" by (auto dest: keepsD leaves_rulesD)
  moreover have "\<forall>e. e \<noteq> d \<longrightarrow> minnow_may_run e (snd s) \<longrightarrow> minnow_may_run e (snd s')"
    using run by (auto simp: minnow_closures_def minnow_may_run_def split: if_splits)
  ultimately show "minnow_inv c {} (snd s') \<and> fst s' = fst s
      \<and> (\<forall>e. e \<noteq> d \<longrightarrow> minnow_may_run e (snd s) \<longrightarrow> minnow_may_run e (snd s'))" by blast
next
  fix d and s s' :: "('a, 'k) mn_state" and q
  let ?cl = "minnow_closures (st_sys c) (st_so c) gni (st_ops c) (Some (st_cell c))"
  assume inv: "minnow_inv c {} (snd s)" and run: "cl_error ?cl d s = (q, s')"
  obtain p where p: "mn_tcp (locals s) = Some p" using inv_peer [OF inv] by blast
  have "keeps c {} (cl_error ?cl d)" "leaves_rules (cl_error ?cl d)"
    by (auto simp: minnow_closures_def keeps_error keeps_basic intro!: leaves_rules_basic leaves_rules_peer)
  with run inv have "minnow_inv c {} (snd s')" "fst s' = fst s" by (auto dest: keepsD leaves_rulesD)
  moreover have "\<forall>e. e \<noteq> d \<longrightarrow> minnow_may_run e (snd s) \<longrightarrow> minnow_may_run e (snd s')"
    using run p by (auto simp: minnow_closures_def minnow_may_run_def minnow_error_def with_peer_eq set_peer_eq
        locals_def outbound_def split: if_splits)
  ultimately show "minnow_inv c {} (snd s') \<and> fst s' = fst s
      \<and> (\<forall>e. e \<noteq> d \<longrightarrow> minnow_may_run e (snd s) \<longrightarrow> minnow_may_run e (snd s'))" by blast
next
  fix d and s s' :: "('a, 'k) mn_state" and q
  let ?cl = "minnow_closures (st_sys c) (st_so c) gni (st_ops c) (Some (st_cell c))"
  assume inv: "minnow_inv c {} (snd s)" and run: "cl_callback ?cl d s = (q, s')" and may: "minnow_may_run d (snd s)"
  have "leaves_rules (cl_callback ?cl d)" by (simp add: minnow_closures_def callbacks_rules)
  moreover have "minnow_inv c {} (snd s')"
    using run inv may keepsD [OF segment_callback_keeps] keepsD [OF inbound_callback_keeps] outbound_callback_keeps
    by (simp add: minnow_closures_def split: if_splits) blast+
  ultimately show "minnow_inv c {} (snd s') \<and> fst s' = fst s" using run by (auto dest: leaves_rulesD)
next
  fix ps t and w :: "('a minnow \<times> 'k) world" and a k
  assume "sys_poll (poll_beside (st_pc c)) ps t (w_kernel w) = (a, k)" and inv: "minnow_inv c {} w"
  from poll_unmoved [OF inv disjI1 [OF this(1)]]
  show "minnow_inv c {} (w\<lparr>w_kernel := k\<rparr>) \<and> (\<forall>d. minnow_may_run d w \<longrightarrow> minnow_may_run d (w\<lparr>w_kernel := k\<rparr>))"
    using minnow_inv_unmoved [OF _ inv] by (auto simp: minnow_may_run_def unmoved_def kept_def)
next
  fix n and w :: "('a minnow \<times> 'k) world" and b k
  assume "sys_so_error (poll_beside (st_pc c)) n (w_kernel w) = (b, k)" and inv: "minnow_inv c {} w"
  from poll_unmoved [OF inv disjI2 [OF this(1)]]
  show "minnow_inv c {} (w\<lparr>w_kernel := k\<rparr>) \<and> (\<forall>d. minnow_may_run d w \<longrightarrow> minnow_may_run d (w\<lparr>w_kernel := k\<rparr>))"
    using minnow_inv_unmoved [OF _ inv] by (auto simp: minnow_may_run_def unmoved_def kept_def)
qed

subsection \<open>The loop\<close>

lemma minnow_round_returns:
  fixes ops :: "('a, 'k) mn_ops"
  shows "\<exists>r s'. wait_next_event sys' pc' (minnow_closures sys so gni ops fd) t s = Some (r, s')"
proof (rule round_returns)
  show "adds_no_rules (cl_interest (minnow_closures sys so gni ops fd))"
    by (auto simp: adds_no_rules_def minnow_closures_def with_peer_def split: option.splits)
  show "adds_no_rules (cl_cancel (minnow_closures sys so gni ops fd))"
    using leaves_rules_close [unfolded leaves_rules_def, rule_format, where 'a = 'a and 'b = 'k]
    by (simp add: adds_no_rules_def minnow_closures_def)
qed

definition loop_ok :: "('a, 'k) setting \<Rightarrow> ('a, 'k) mn_state \<Rightarrow> bool" where
  "loop_ok c s \<longleftrightarrow> minnow_inv c {} (snd s) \<and> distinct_codes UNIV (fst s)"

lemma loop_okD: "loop_ok c s \<Longrightarrow> keeps c {} m \<Longrightarrow> leaves_rules m \<Longrightarrow> m s = (x, s') \<Longrightarrow> loop_ok c s'"
  unfolding loop_ok_def by (metis keepsD leaves_rulesD)

definition clock_ok :: "('a, 'k) setting \<Rightarrow> 'k minnow_env \<Rightarrow> bool" where
  "clock_ok c env \<longleftrightarrow> quiet (\<lambda>k. (st_taken c k, st_written c k)) (me_clock env)"

lemma keeps_timestamp: "clock_ok c env \<Longrightarrow> keeps c extra (timestamp_ms env)"
  unfolding timestamp_ms_def clock_ok_def by (intro keeps_fds still_at_all still_call)

lemma keeps_adapter_tick:
  assumes "setting_ok c"
  shows "keeps c {} (with_adapter (\<lambda>a. io_bind (ao_tick (st_ops c) a t) (\<lambda>a. io_return (a, ()))))"
  unfolding keeps_def
proof (intro allI impI)
  let ?tick = "\<lambda>a. io_bind (ao_tick (st_ops c) a t) (\<lambda>a. io_return (a, ()))"
  fix s x s' assume run: "with_adapter ?tick s = (x, s')" and inv: "minnow_inv c {} (snd s)"
  note laws = adapter_laws [OF assms]
  have quiet: "still_at c (?tick a)" for a by (intro still_bind laws(3) still_basic)
  have log: "halves (st_sent c a') \<union> {} \<subseteq> halves (st_sent c a) \<union> {}" if "?tick a w = (Inr (a', u), w')" for a w a' u w'
    using that laws(7) by (fastforce simp: io_bind_Inr)
  show "minnow_inv c {} (snd s')"
    by (rule conjunct1 [OF with_adapter_step [OF run inv quiet]]) (erule log, simp)
qed

lemma timestamp_rules: "leaves_rules (timestamp_ms env)"
  unfolding timestamp_ms_def by (rule leaves_rules_basic)

lemma tick_peer_ok:
  assumes "setting_ok c" and "clock_ok c env"
  shows "keeps c {} (tick_peer env (st_ops c) t)" and "leaves_rules (tick_peer env (st_ops c) t)"
  unfolding tick_peer_def
  by (intro keeps_intros keeps_timestamp keeps_tick keeps_adapter_tick assms)
    (intro peer_rules_intros timestamp_rules leaves_rules_peer_call leaves_rules_adapter)

abbreviation closures_of :: "('a, 'k) setting \<Rightarrow> name_info \<Rightarrow> ('a minnow \<times> 'k) closures" where
  "closures_of c gni \<equiv> minnow_closures (st_sys c) (st_so c) gni (st_ops c) (Some (st_cell c))"

lemma iterations_ok:
  assumes "setting_ok c" and "clock_ok c env" and cond: "keeps c {} condition" "leaves_rules condition" and "loop_ok c s"
  shows "\<exists>r s'. tcp_iterations (st_sys c) (st_pc c) env (st_ops c) (closures_of c gni) condition rounds base_time s = Some (r, s')
    \<and> loop_ok c s'"
  using assms(5)
proof (induction rounds arbitrary: base_time s)
  case (Suc rounds)
  obtain x s1 where x: "condition s = (x, s1)" by (rule prod.exhaust)
  have s1: "loop_ok c s1" by (rule loop_okD [OF Suc.prems cond x])
  obtain y s2 where y: "wait_next_event (sys_beside (st_sys c)) (poll_beside (st_pc c)) (closures_of c gni) TCP_TICK_MS s1 = Some (y, s2)"
    using minnow_round_returns by blast
  have s2: "loop_ok c s2" using minnow.round_keeps [OF y, where C = UNIV] s1 by (simp add: loop_ok_def)
  obtain z s3 where z: "tick_peer env (st_ops c) base_time s2 = (z, s3)" by (rule prod.exhaust)
  have s3: "loop_ok c s3" by (rule loop_okD [OF s2 tick_peer_ok [OF assms(1,2)] z])
  show ?case
    using x y z s1 s2 s3 Suc.IH [of s3] by (cases x; cases y; cases z; cases s1; cases s2; cases s3) auto
qed simp

lemma tcp_loop_ok:
  assumes "setting_ok c" and "clock_ok c env" and "keeps c {} condition" "leaves_rules condition" and "loop_ok c s"
  shows "\<exists>r s'. tcp_loop (st_sys c) (st_pc c) env (st_ops c) (closures_of c gni) condition rounds s = Some (r, s') \<and> loop_ok c s'"
proof -
  obtain x s1 where x: "timestamp_ms env s = (x, s1)" by (rule prod.exhaust)
  have s1: "loop_ok c s1" by (rule loop_okD [OF assms(5) keeps_timestamp [OF assms(2)] timestamp_rules x])
  show ?thesis
  proof (cases x)
    case (Inl e) with x s1 show ?thesis by (cases s1) (simp add: tcp_loop_def)
  next
    case (Inr t)
    with x iterations_ok [OF assms(1-4) s1] show ?thesis by (simp add: tcp_loop_def)
  qed
qed

subsection \<open>Opening a connection\<close>

lemma keeps_add_rule: "keeps c extra (add_named_rule name fd dir code)"
  unfolding keeps_def
proof (intro allI impI)
  fix s x s' assume run: "add_named_rule name fd dir code s = (x, s')" and inv: "minnow_inv c extra (snd s)"
  have "loop_keeps (unmoved_at c) (add_named_rule name fd dir code :: (('a minnow \<times> 'b) state, nat) io)"
    by (rule loop_keeps_rule)
  with run have "unmoved_at c (snd s) (snd s')" unfolding loop_keeps_def by (metis snd_conv)
  from minnow_inv_unmoved [OF this inv] show "minnow_inv c extra (snd s')" .
qed

text \<open>A fresh object: no peer, no rules, and an adapter that was handed nothing.\<close>

definition fresh :: "('a, 'k) setting \<Rightarrow> ('a, 'k) mn_state \<Rightarrow> bool" where
  "fresh c s \<longleftrightarrow> mn_tcp (locals s) = None \<and> \<not> mn_outbound_shutdown (locals s)
     \<and> st_sent c (mn_adapter (locals s)) = [] \<and> el_fd_rules (fst s) = []
     \<and> fw_fd (w_fds (snd s) (st_cell c)) = st_fd c
     \<and> st_taken c (snd (w_kernel (snd s))) (st_fd c) = st_taken0 c
     \<and> st_written c (snd (w_kernel (snd s))) (st_fd c) = st_written0 c"

lemma set_peer_new:
  assumes "fresh c s" and "setting_ok c" and "st_isn c = cfg_isn cfg"
    and "length (st_remote c) + 2 < 2 ^ 31" and "length (st_remote c) + unat (cfg_recv_capacity cfg) < 2 ^ 64 - 1"
    and run: "set_peer (tcp_peer_new cfg 0) s = (x, s')"
  shows "minnow_inv c {} (snd s')"
proof -
  let ?p = "tcp_peer_new cfg 0" let ?k = "snd (w_kernel (snd s))"
  have "bs_total_popped (re_output (rc_reassembler (pe_receiver ?p))) = 0"
    by (simp add: tcp_peer_new_def tcp_receiver_new_def reassembler_new_def) (simp add: byte_stream_new_def)
  then have "receives_from (st_remote c) (st_remote_isn c) [] (pe_receiver ?p)"
    using rc_ok_new [OF assms(5)] assms(4) by (simp add: receives_from_def tcp_peer_new_def)
  then have "gives c ?k ?p" using assms(1) by (auto simp: gives_def fresh_def)
  moreover have "takes c {} (locals s\<lparr>mn_tcp := Some ?p\<rparr>) ?k ?p"
  proof -
    have "snd_ok [] (pe_sender ?p)" "snd_isn (pe_sender ?p) = cfg_isn cfg"
      using snd_ok_new [of "[]"] by (simp_all add: tcp_peer_new_def) (simp add: tcp_sender_new_def)
    moreover have "bs_total_pushed (outbound ?p) = 0" "\<not> bs_stream_closed (outbound ?p)"
      by (simp_all add: outbound_def tcp_peer_new_def tcp_sender_new_def) (simp_all add: byte_stream_new_def)
    ultimately show ?thesis
      using assms(1,3) by (auto simp: takes_def fresh_def sends_from_def outbound_def)
  qed
  ultimately show ?thesis
    using assms(1,2) run by (auto simp: set_peer_eq minnow_inv_def fresh_def)
qed

lemma initialize_ok:
  assumes "fresh c s" and "setting_ok c" and "st_isn c = cfg_isn cfg"
    and "length (st_remote c) + 2 < 2 ^ 31" and "length (st_remote c) + unat (cfg_recv_capacity cfg) < 2 ^ 64 - 1"
    and run: "initialize_TCP ops fd cfg 0 s = (x, s')"
  shows "loop_ok c s'"
proof -
  obtain s1 where y: "set_peer (tcp_peer_new cfg 0) s = (Inr (), s1)" by (simp add: set_peer_eq)
  have rules: "fst s1 = fst s" using y by (auto simp: set_peer_eq)
  let ?rest = "io_bind (io_ask (\<lambda>s. ao_fd ops (mn_adapter (locals s)))) (\<lambda>fd'.
     io_bind (add_named_rule ''receive TCP segment from the network'' fd' In 0) (\<lambda>_.
     io_bind (add_named_rule ''push bytes to TCPPeer'' fd In 1) (\<lambda>_.
     io_bind (add_named_rule ''read bytes from inbound stream'' fd Out 2) (\<lambda>_.
     io_return ()))))"
  have "?rest s1 = (x, s')" using run y by (simp add: initialize_TCP_def io_bind_eq)
  moreover have "keeps c {} ?rest" by (intro keeps_intros keeps_add_rule)
  ultimately have "minnow_inv c {} (snd s')" using keepsD set_peer_new [OF assms(1-5) y] by blast
  moreover have "codes (fst s1) = []" using assms(1) rules by (simp add: fresh_def codes_def)
  then have "distinct (codes (fst s'))"
    using run y by (auto simp: initialize_TCP_def io_bind_def dest!: add_named_rule_codes split: prod.splits sum.splits)
  ultimately show ?thesis by (simp add: loop_ok_def distinct_codes_codes)
qed

lemma keeps_config:
  "(\<And>a. st_sent c (F a) = st_sent c a) \<Longrightarrow> keeps c extra (set_locals (\<lambda>m. m\<lparr>mn_adapter := F (mn_adapter m)\<rparr>))"
  by (simp add: keeps_def set_locals_eq minnow_inv_def gives_def takes_def locals_def)

text \<open>Both ways to open a connection begin with a check and \<open>_initialize_TCP\<close>.\<close>

lemma start_ok:
  assumes "fresh c s" and "setting_ok c" and "st_isn c = cfg_isn cfg"
    and "length (st_remote c) + 2 < 2 ^ 31" and "length (st_remote c) + unat (cfg_recv_capacity cfg) < 2 ^ 64 - 1"
    and rest: "keeps c {} rest" "leaves_rules rest"
    and run: "io_bind (io_ask (\<lambda>s. mn_tcp (locals s))) (\<lambda>tcp. if tcp \<noteq> None then io_throw e
       else io_bind (initialize_TCP ops fd cfg 0) (\<lambda>_. rest)) s = (x, s')"
  shows "loop_ok c s'"
proof -
  obtain y s1 where y: "initialize_TCP ops fd cfg 0 s = (y, s1)" by (rule prod.exhaust)
  have s1: "loop_ok c s1" by (rule initialize_ok [OF assms(1-5) y])
  have go: "io_bind (initialize_TCP ops fd cfg 0) (\<lambda>_. rest) s = (x, s')"
    using run assms(1) by (simp add: fresh_def)
  show ?thesis
  proof (cases y)
    case (Inl e) with go y s1 show ?thesis by (simp add: io_bind_eq)
  next
    case (Inr u)
    with go y have "rest s1 = (x, s')" by (simp add: io_bind_eq)
    from loop_okD [OF s1 rest this] show ?thesis .
  qed
qed

lemma opening_ok:
  assumes "fresh c s" and ok: "setting_ok c" and "st_isn c = cfg_isn cfg"
    and "length (st_remote c) + 2 < 2 ^ 31" and "length (st_remote c) + unat (cfg_recv_capacity cfg) < 2 ^ 64 - 1"
  shows "connect_start gni (st_ops c) fd cfg ad 0 s = (x, s') \<Longrightarrow> loop_ok c s'"
    and "listen_start (st_ops c) fd cfg ad 0 s = (x, s') \<Longrightarrow> loop_ok c s'"
proof -
  note laws = adapter_laws [OF ok]
  show "connect_start gni (st_ops c) fd cfg ad 0 s = (x, s') \<Longrightarrow> loop_ok c s'"
    unfolding connect_start_def
    by (erule start_ok [OF assms, rotated 2])
      (intro keeps_intros keeps_config laws(8) keeps_push,
       intro peer_rules_intros leaves_rules_peer leaves_rules_print leaves_rules_peer_call)
  show "listen_start (st_ops c) fd cfg ad 0 s = (x, s') \<Longrightarrow> loop_ok c s'"
    unfolding listen_start_def
    by (erule start_ok [OF assms, rotated 2])
      (intro keeps_config, simp add: laws(8,9), intro peer_rules_intros)
qed

lemma run_and_start_ok:
  assumes "setting_ok c" and "clock_ok c env" and start: "\<And>x s'. start s = (x, s') \<Longrightarrow> loop_ok c s'"
    and cond: "keeps c {} condition" "leaves_rules condition" and finish: "keeps c {} finish" "leaves_rules finish"
  shows "\<exists>r s'. run_and_start (st_sys c) (st_so c) gni (st_pc c) env (st_ops c) (Some (st_cell c)) start condition finish rounds s
      = Some (r, s') \<and> loop_ok c s'"
proof -
  obtain x s1 where x: "start s = (x, s1)" by (rule prod.exhaust)
  have s1: "loop_ok c s1" by (rule start [OF x])
  show ?thesis
  proof (cases x)
    case (Inl e) with x s1 show ?thesis by (cases s1) (simp add: run_and_start_def)
  next
    case (Inr u)
    obtain r s2 where r: "tcp_loop (st_sys c) (st_pc c) env (st_ops c) (closures_of c gni) condition rounds s1 = Some (r, s2)"
      and s2: "loop_ok c s2"
      using tcp_loop_ok [OF assms(1,2) cond s1] by blast
    show ?thesis
    proof (cases "r = Inr True")
      case False
      with x Inr r s2 show ?thesis by (cases s2) (auto simp: run_and_start_def split: sum.split bool.split)
    next
      case True
      let ?fin = "io_bind finish (\<lambda>_. io_bind (set_locals (\<lambda>m. m\<lparr>mn_thread := True\<rparr>)) (\<lambda>_. io_return True))"
      obtain z s3 where z: "?fin s2 = (z, s3)" by (rule prod.exhaust)
      have "keeps c {} ?fin" by (intro keeps_intros finish)
      moreover have "leaves_rules ?fin" by (intro rules_intros finish)
      ultimately have "loop_ok c s3" using loop_okD [OF s2, where m = ?fin] z by blast
      with x Inr r True z show ?thesis by (cases s3) (simp add: run_and_start_def)
    qed
  qed
qed

subsection \<open>What the owner and the network see\<close>

text \<open>The bytes given to the owner since \<open>written0\<close> are a prefix of the remote stream, and what the
  adapter was handed are segments of the bytes taken from the owner since \<open>taken0\<close>, or messages
  that only acknowledge.\<close>

definition conveyed ::
  "('a \<Rightarrow> tcp_message list) \<Rightarrow> bytes \<Rightarrow> bytes \<Rightarrow> bytes \<Rightarrow> wrap32 \<Rightarrow> bytes \<Rightarrow> bytes \<Rightarrow> 'a \<Rightarrow> bool" where
  "conveyed sent taken0 written0 S isn taken written a \<longleftrightarrow>
     (\<exists>given y. written = written0 @ given \<and> given = take (length given) S \<and> taken = taken0 @ y
        \<and> (length y + 2 < 2 ^ 31 \<longrightarrow> (\<forall>x\<in>set (sent a). seq_len (ref_get (tm_sender x)) = 0
              \<or> (\<exists>i. seg_at y isn i (ref_get (tm_sender x))))))"

definition told :: "('a, 'k) setting \<Rightarrow> 'a minnow \<times> 'k \<Rightarrow> bool" where
  "told c mk \<longleftrightarrow> conveyed (st_sent c) (st_taken0 c) (st_written0 c) (st_remote c) (st_isn c)
     (st_taken c (snd mk) (st_fd c)) (st_written c (snd mk) (st_fd c)) (mn_adapter (fst mk))"

lemma told_inv:
  assumes "minnow_inv c {} w"
  shows "told c (w_kernel w)"
proof -
  let ?m = "fst (w_kernel w)" let ?k = "snd (w_kernel w)"
  obtain p where "gives c ?k p" and takes: "takes c {} ?m ?k p" using assms by (auto simp: minnow_inv_def)
  then obtain given where "st_written c ?k (st_fd c) = st_written0 c @ given"
    and given: "receives_from (st_remote c) (st_remote_isn c) given (pe_receiver p)"
    by (auto simp: gives_def)
  moreover from given have "given = take (length given) (st_remote c)" by (auto simp: receives_from_def min_def)
  moreover obtain y where "st_taken c ?k (st_fd c) = st_taken0 c @ y"
    and sends: "length y + 2 < 2 ^ 31 \<Longrightarrow> sends_from y (st_isn c) (halves (st_sent c (mn_adapter ?m))) (pe_sender p)"
    using takes by (auto simp: takes_def)
  moreover have "seq_len (ref_get (tm_sender x)) = 0 \<or> (\<exists>i. seg_at y (st_isn c) i (ref_get (tm_sender x)))"
    if "length y + 2 < 2 ^ 31" and "x \<in> set (st_sent c (mn_adapter ?m))" for x
  proof -
    have "ref_get (tm_sender x) \<in> halves (st_sent c (mn_adapter ?m))" using that(2) by (simp add: halves_def)
    with sends [OF that(1)] show ?thesis by (auto simp: sends_from_def logged_def sent_segment_def)
  qed
  ultimately show ?thesis unfolding told_def conveyed_def by blast
qed

lemma told_unmoved: "unmoved_at c w w' \<Longrightarrow> told c (w_kernel w) \<Longrightarrow> told c (w_kernel w')"
  unfolding unmoved_at_iff kept_def told_def by simp

lemma tcp_main_ok:
  assumes ok: "setting_ok c" and "clock_ok c env" and "loop_ok c s"
  shows "\<exists>r s'. tcp_main (st_sys c) (st_so c) gni (st_pc c) env (st_ops c) this_socket (Some (st_cell c)) rounds s = Some (r, s')
    \<and> told c (w_kernel (snd s'))"
proof -
  have law: "conveys (st_taken c) (st_written c) (st_sys c) (st_so c) (st_pc c)" using ok by (simp add: setting_ok_def)
  have peer: "mn_tcp (locals s) \<noteq> None" using assms(3) inv_peer unfolding loop_ok_def by blast
  obtain r s1 where r: "tcp_loop (st_sys c) (st_pc c) env (st_ops c) (closures_of c gni) (io_return True) rounds s = Some (r, s1)"
    and s1: "loop_ok c s1"
    using tcp_loop_ok [OF assms(1,2) keeps_basic(1) leaves_rules_basic(1) assms(3)] by blast
  have told1: "told c (w_kernel (snd s1))" using s1 told_inv [of c "snd s1"] by (simp add: loop_ok_def)
  show ?thesis
  proof (cases "r = Inr True")
    case False
    with r told1 peer show ?thesis by (cases s1) (auto simp: tcp_main_def split: sum.split bool.split)
  next
    case True
    let ?stop = "shutdown (sys_beside (st_sys c)) (socket_beside (st_so c)) this_socket SHUT_RDWR"
    obtain x w2 where x: "?stop (snd s1) = (x, w2)" by (rule prod.exhaust)
    have "unmoved_at c (snd s1) w2" by (rule stillD [OF still_at_all [OF still_fd_ops(2) [OF law]] x])
    from told_unmoved [OF this told1] have told2: "told c (w_kernel w2)" .
    let ?fin = "io_bind (on_fds ?stop) (\<lambda>_. io_bind (io_ask (\<lambda>s. mn_tcp (locals s))) (\<lambda>tcp.
      if tcp = None then io_throw (Runtime_error ''TCP implementation destroyed unexpectedly'')
      else io_bind (set_locals (\<lambda>m. m\<lparr>mn_tcp := None\<rparr>)) (\<lambda>_. io_return True)))"
    obtain z s3 where z: "?fin s1 = (z, s3)" by (rule prod.exhaust)
    have "told c (w_kernel (snd s3))"
      using z x told2 by (cases x) (auto simp: on_fds_eq io_bind_eq set_locals_eq told_def locals_def split: if_splits)
    with r True z peer show ?thesis by (cases s3) (auto simp: tcp_main_def)
  qed
qed

lemma opened_ok:
  assumes "fresh c s" and ok: "setting_ok c" and "clock_ok c env" and "st_isn c = cfg_isn cfg"
    and "length (st_remote c) + 2 < 2 ^ 31" and "length (st_remote c) + unat (cfg_recv_capacity cfg) < 2 ^ 64 - 1"
  shows "\<exists>r s'. minnow_connect (st_sys c) (st_so c) gni (st_pc c) env (st_ops c) (Some (st_cell c)) cfg ad 0 rounds s = Some (r, s')
      \<and> loop_ok c s'"
    and "\<exists>r s'. listen_and_accept (st_sys c) (st_so c) gni (st_pc c) env (st_ops c) (Some (st_cell c)) cfg ad 0 rounds s = Some (r, s')
      \<and> loop_ok c s'"
proof -
  note start = opening_ok [OF assms(1,2,4-6)]
  show "\<exists>r s'. minnow_connect (st_sys c) (st_so c) gni (st_pc c) env (st_ops c) (Some (st_cell c)) cfg ad 0 rounds s = Some (r, s')
      \<and> loop_ok c s'"
    unfolding minnow_connect_def
    by (rule run_and_start_ok [OF assms(2,3)], erule start(1))
      (intro keeps_intros | intro peer_rules_intros leaves_rules_peer leaves_rules_print)+
  show "\<exists>r s'. listen_and_accept (st_sys c) (st_so c) gni (st_pc c) env (st_ops c) (Some (st_cell c)) cfg ad 0 rounds s = Some (r, s')
      \<and> loop_ok c s'"
    unfolding listen_and_accept_def
    by (rule run_and_start_ok [OF assms(2,3)], erule start(2))
      (intro keeps_intros | intro peer_rules_intros leaves_rules_peer leaves_rules_print)+
qed

lemma session_ok:
  assumes "fresh c s" and ok: "setting_ok c" and "clock_ok c env" and "st_isn c = cfg_isn cfg"
    and "length (st_remote c) + 2 < 2 ^ 31" and "length (st_remote c) + unat (cfg_recv_capacity cfg) < 2 ^ 64 - 1"
    and opened: "opened = minnow_connect (st_sys c) (st_so c) gni (st_pc c) env (st_ops c) (Some (st_cell c)) cfg ad 0 rounds s
      \<or> opened = listen_and_accept (st_sys c) (st_so c) gni (st_pc c) env (st_ops c) (Some (st_cell c)) cfg ad 0 rounds s"
  shows "\<exists>r s1 r' s2. opened = Some (r, s1)
    \<and> tcp_main (st_sys c) (st_so c) gni (st_pc c) env (st_ops c) this_socket (Some (st_cell c)) rounds' s1 = Some (r', s2)
    \<and> told c (w_kernel (snd s1)) \<and> told c (w_kernel (snd s2))"
proof -
  obtain r s1 where r: "opened = Some (r, s1)" and s1: "loop_ok c s1"
    using opened opened_ok [OF assms(1-6)] by metis
  then have "told c (w_kernel (snd s1))" using told_inv [of c "snd s1"] by (simp add: loop_ok_def)
  with r tcp_main_ok [OF ok assms(3) s1] show ?thesis by blast
qed

subsection \<open>Properties\<close>

text \<open>A network that answers each message with the remote end's only segment, two bytes with the SYN
  flag, and an acknowledgment of all it was handed. The owner has written three bytes. The poll
  finds the owner's socket ready while it has bytes waiting or there are bytes for it, and otherwise
  the adapter's.\<close>

definition demo_syn_data :: tcp_sender_message where
  "demo_syn_data = \<lparr>sm_seqno = Wrap32 5000, sm_SYN = True, sm_payload = [7, 8], sm_FIN = False, sm_RST = False\<rparr>"

definition demo_ack :: "tcp_message list \<Rightarrow> tcp_receiver_message" where
  "demo_ack log = (let m = ref_get (tm_sender (last log)) in
     \<lparr>rm_ackno = Some (wrap32_plus (sm_seqno m) (of_nat (seq_len m))), rm_window_size = 1000, rm_RST = False\<rparr>)"

definition demo_adapter_config :: fd_adapter_config where
  "demo_adapter_config = \<lparr>ac_source = \<lparr>ad_size = 0, ad_storage = []\<rparr>, ac_destination = \<lparr>ad_size = 0, ad_storage = []\<rparr>,
     ac_loss_rate_dn = 0, ac_loss_rate_up = 0\<rparr>"

definition echo_ops :: "(tcp_message list, 'k) adapter_ops" where
  "echo_ops = \<lparr>ao_fd = (\<lambda>_. Some 1),
     ao_read = (\<lambda>log. io_bind (register_read (Some 1)) (\<lambda>_. io_return
       (log, if log = [] then None else Some \<lparr>tm_sender = Owned demo_syn_data, tm_receiver = Owned (demo_ack log)\<rparr>))),
     ao_write = (\<lambda>log x. io_return (log @ [x])), ao_tick = (\<lambda>log t. io_return log),
     ao_config = (\<lambda>_. demo_adapter_config), ao_config_mut = (\<lambda>f log. log), ao_set_listening = (\<lambda>b log. log)\<rparr>"

definition owner_first :: "demo_kernel poll_calls" where
  "owner_first = \<lparr>sys_poll = (\<lambda>ps t (waiting, k).
     let ready = (\<lambda>(fd, ev). ev = POLLOUT \<or> fd = 3 \<and> ev = POLLIN \<and> waiting 3 \<noteq> [])
     in ((1, map (\<lambda>(fd, ev). if ready (fd, ev) \<or> fd \<noteq> 3 \<and> \<not> list_ex ready ps then ev else 0) ps), (waiting, k))),
     sys_so_error = (\<lambda>fd k. ((0, 0, 4), k))\<rparr>"

definition demo_minnow_env :: "demo_kernel minnow_env" where
  "demo_minnow_env = \<lparr>me_clock = (\<lambda>k. (0, k)), me_abort = (\<lambda>_. False)\<rparr>"

definition demo_minnow_world :: "(tcp_message list minnow \<times> demo_kernel) world" where
  "demo_minnow_world = \<lparr>w_fds = (\<lambda>a. \<lparr>fw_fd = 3 + int a, fw_eof = False, fw_closed = False, fw_non_blocking = False,
     fw_read_count = 0, fw_write_count = 0\<rparr>), w_allocated = 3,
     w_kernel = (minnow_new [], (\<lambda>_. [1, 2, 3]), (\<lambda>_. []), (\<lambda>_. []))\<rparr>"

definition small_config :: tcp_config where
  "small_config = \<lparr>cfg_rt_timeout = 1000, cfg_recv_capacity = 8, cfg_send_capacity = 8, cfg_isn = Wrap32 137\<rparr>"

definition demo_gni :: name_info where
  "demo_gni = (\<lambda>_. Inr (''10.0.0.1'', ''80''))"

abbreviation demo_opened :: "(bool result \<times> (tcp_message list, demo_kernel) mn_state) option" where
  "demo_opened \<equiv> minnow_connect pipe_sys pipe_socket_calls demo_gni owner_first demo_minnow_env echo_ops (Some 0)
     small_config demo_adapter_config 0 3 (event_loop_new, demo_minnow_world)"

abbreviation demo_main ::
  "(tcp_message list, demo_kernel) mn_state \<Rightarrow> (bool result \<times> (tcp_message list, demo_kernel) mn_state) option" where
  "demo_main \<equiv> tcp_main pipe_sys pipe_socket_calls demo_gni owner_first demo_minnow_env echo_ops (Some 2) (Some 0) 1"

lemma demo_conveys: "conveys (\<lambda>(p, t, w). t) (\<lambda>(p, t, w). w) pipe_sys pipe_socket_calls owner_first"
  by (auto simp: conveys_def quiet_def pipe_sys_def pipe_socket_calls_def owner_first_def Let_def)

lemma demo_segment: "segment_of [7, 8] (Wrap32 5000) 0 demo_syn_data"
  by (simp add: segment_of_def demo_syn_data_def substring_of_def)

lemma echo_adapter_ok: "adapter_ok (\<lambda>log. log) taken written n [7, 8] (Wrap32 5000) (echo_ops :: (tcp_message list, 'm \<times> 'k) adapter_ops)"
proof -
  have "genuine [7, 8] (Wrap32 5000) (halves log) \<lparr>tm_sender = Owned demo_syn_data, tm_receiver = Owned (demo_ack log)\<rparr>"
    if "log \<noteq> []" for log
    using that demo_segment unfolding genuine_def acks_sent_def demo_ack_def Let_def halves_def by auto
  moreover have "still taken' written' (register_read (Some a))" for taken' written' :: "'k \<Rightarrow> int \<Rightarrow> bytes" and a
    unfolding register_read_def by (intro still_intros) simp
  ultimately show ?thesis
    unfolding adapter_ok_def echo_ops_def
    by (auto simp: still_basic simp del: io_simps intro!: still_bind) (auto simp: io_bind_Inr register_read_def)
qed

text \<open>A \<open>LossyFdAdapter\<close> over an adapter that keeps the contract keeps it too, whatever the random engine draws
  and the rates of loss are: it reads only what the adapter below has read, the log is that of the messages that
  were handed down, and the local socket is left alone. So what holds of a socket over every adapter with the contract holds of lossy sockets.\<close>

theorem lossy_keeps_contract:
  assumes "adapter_ok sent taken written n S isn ops"
  shows "adapter_ok (\<lambda>la. sent (la_adapter la)) taken written n S isn (lossy_ops draw ops)"
proof -
  have law: "still (\<lambda>k _. taken k n) (\<lambda>k _. written k n) (ao_read ops a)"
      "still (\<lambda>k _. taken k n) (\<lambda>k _. written k n) (ao_write ops a x)"
      "still (\<lambda>k _. taken k n) (\<lambda>k _. written k n) (ao_tick ops a t)"
      "ao_read ops a w = (Inr (a', msg), w') \<Longrightarrow> sent a' = sent a"
      "ao_read ops a w = (Inr (a', Some m), w') \<Longrightarrow> genuine S isn (halves (sent a)) m"
      "ao_write ops a x w = (Inr a', w') \<Longrightarrow> set (sent a') \<subseteq> insert x (set (sent a))"
      "ao_tick ops a t w = (Inr a', w') \<Longrightarrow> sent a' = sent a"
      "sent (ao_config_mut ops f a) = sent a" "sent (ao_set_listening ops b a) = sent a" for a x t w a' msg w' m f b
    using assms unfolding adapter_ok_def by (elim conjE, (metis | simp))+
  have drop: "la_adapter (snd (should_drop draw (ao_config ops) la up)) = la_adapter la" for la up
    by (simp add: should_drop_def Let_def split: prod.splits)
  have reads: "sent (la_adapter la') = sent (la_adapter la) \<and> (\<forall>m. msg = Some m \<longrightarrow> genuine S isn (halves (sent (la_adapter la))) m)"
    if read: "ao_read (lossy_ops draw ops) la w = (Inr (la', msg), w')" for la w la' msg w'
  proof -
    from read obtain a ret where a: "ao_read ops (la_adapter la) w = (Inr (a, ret), w')"
      "la' = snd (should_drop draw (ao_config ops) (la\<lparr>la_adapter := a\<rparr>) False)" "msg = None \<or> msg = ret"
      by (force simp: lossy_ops_def io_bind_Inr Let_def case_prod_beta)
    then show ?thesis using law(4) [OF a(1)] law(5) [of "la_adapter la" w a _ w'] drop by auto
  qed
  have writes: "set (sent (la_adapter la')) \<subseteq> insert x (set (sent (la_adapter la)))"
    if wr: "ao_write (lossy_ops draw ops) la x w = (Inr la', w')" for la x w la' w'
  proof -
    let ?la = "snd (should_drop draw (ao_config ops) la True)"
    from wr have "la' = ?la \<or> (\<exists>a. ao_write ops (la_adapter ?la) x w = (Inr a, w') \<and> la' = ?la\<lparr>la_adapter := a\<rparr>)"
      by (auto simp: lossy_ops_def io_bind_Inr Let_def split: prod.splits if_splits)
    then show ?thesis using law(6) [of "la_adapter la" x w] drop by auto
  qed
  show ?thesis
    unfolding adapter_ok_def
  proof (intro conjI allI impI)
    show "still (\<lambda>k _. taken k n) (\<lambda>k _. written k n) (ao_read (lossy_ops draw ops) la)"
      "still (\<lambda>k _. taken k n) (\<lambda>k _. written k n) (ao_write (lossy_ops draw ops) la x)"
      "still (\<lambda>k _. taken k n) (\<lambda>k _. written k n) (ao_tick (lossy_ops draw ops) la t)" for la x t
      by (auto simp: lossy_ops_def Let_def still_basic simp del: io_simps split: prod.splits intro!: still_bind law)
  next
    fix la w la' msg w' assume "ao_read (lossy_ops draw ops) la w = (Inr (la', msg), w')"
    from reads [OF this] show "sent (la_adapter la') = sent (la_adapter la)"
      "\<And>m. msg = Some m \<Longrightarrow> genuine S isn (halves (sent (la_adapter la))) m" by blast+
  next
    fix la x w la' w' assume "ao_write (lossy_ops draw ops) la x w = (Inr la', w')"
    then show "set (sent (la_adapter la')) \<subseteq> insert x (set (sent (la_adapter la)))" by (rule writes)
  qed (use law(7-9) in \<open>auto simp: lossy_ops_def io_bind_Inr\<close>)
qed

theorem lossy_keeps_contract_witness:
  "adapter_ok (\<lambda>la. la_adapter la) (\<lambda>_ _. []) (\<lambda>_ _. []) 3 [7, 8] (Wrap32 5000)
     (lossy_ops (\<lambda>g. (g, g + 1)) echo_ops :: ((nat, tcp_message list) lossy_adapter, unit \<times> unit) adapter_ops)"
  by (rule lossy_keeps_contract [OF echo_adapter_ok])

text \<open>C12: a socket over TCP conveys: the thread of a \<open>TCPMinnowSocket\<close> gives the owner a prefix of the
  bytes that the remote end sent, and what it sends are genuine segments of the bytes that the
  owner wrote, or mere acknowledgments. This holds after \<open>connect\<close> or \<open>listen_and_accept\<close> and
  after the thread has run, however many rounds they take and however they end, with an
  exception or without, as long as the network makes up neither segments nor acknowledgments
  for what was not sent; it may lose, repeat, delay and reorder. Each number of rounds comes to
  an end.\<close>

theorem minnow_conveys:
  assumes "conveys taken written sys so pc" and "quiet (\<lambda>k. (taken k, written k)) (me_clock env)"
    and "adapter_ok sent taken written n S remote_isn ops"
    and "length S + 2 < 2 ^ 31" and "length S + unat (cfg_recv_capacity cfg) < 2 ^ 64 - 1"
    and "mn_tcp m = None" and "\<not> mn_outbound_shutdown m" and "sent (mn_adapter m) = []"
    and "w_kernel w = (m, k)" and "fw_fd (w_fds w cell) = n"
    and "opened = minnow_connect sys so gni pc env ops (Some cell) cfg ad 0 rounds (event_loop_new, w)
      \<or> opened = listen_and_accept sys so gni pc env ops (Some cell) cfg ad 0 rounds (event_loop_new, w)"
  shows "\<exists>r e1 w1 m1 k1 r' e2 w2 m2 k2. opened = Some (r, e1, w1) \<and> w_kernel w1 = (m1, k1)
    \<and> tcp_main sys so gni pc env ops this_socket (Some cell) rounds' (e1, w1) = Some (r', e2, w2) \<and> w_kernel w2 = (m2, k2)
    \<and> conveyed sent (taken k n) (written k n) S (cfg_isn cfg) (taken k1 n) (written k1 n) (mn_adapter m1)
    \<and> conveyed sent (taken k n) (written k n) S (cfg_isn cfg) (taken k2 n) (written k2 n) (mn_adapter m2)"
proof -
  let ?c = "\<lparr>st_sys = sys, st_so = so, st_pc = pc, st_taken = taken, st_written = written, st_ops = ops, st_sent = sent,
    st_cell = cell, st_fd = n, st_remote = S, st_remote_isn = remote_isn, st_isn = cfg_isn cfg,
    st_taken0 = taken k n, st_written0 = written k n\<rparr>"
  have fresh: "fresh ?c (event_loop_new, w)"
    using assms(6-10) by (simp add: fresh_def locals_def event_loop_new_def)
  have "setting_ok ?c" "clock_ok ?c env" using assms(1-3) by (simp_all add: setting_ok_def clock_ok_def)
  from session_ok [OF fresh this, of cfg opened gni ad rounds this_socket rounds'] assms(4,5,11)
  have "\<exists>r s1 r' s2. opened = Some (r, s1)
      \<and> tcp_main sys so gni pc env ops this_socket (Some cell) rounds' s1 = Some (r', s2)
      \<and> told ?c (w_kernel (snd s1)) \<and> told ?c (w_kernel (snd s2))"
    by simp
  then obtain r s1 r' s2 where run: "opened = Some (r, s1)"
    "tcp_main sys so gni pc env ops this_socket (Some cell) rounds' s1 = Some (r', s2)"
    and told: "told ?c (w_kernel (snd s1))" "told ?c (w_kernel (snd s2))"
    by blast
  obtain m1 k1 where k1: "w_kernel (snd s1) = (m1, k1)" by (rule prod.exhaust)
  obtain m2 k2 where k2: "w_kernel (snd s2) = (m2, k2)" by (rule prod.exhaust)
  from run told k1 k2 show ?thesis
    by (cases s1; cases s2) (simp add: told_def)
qed

theorem minnow_conveys_witness:
  "case demo_opened of Some (Inr b, s1) \<Rightarrow> b \<and> (case demo_main s1 of Some (r, e, w) \<Rightarrow>
       snd (snd (snd (w_kernel w))) 3 = [7, 8] \<and> (\<exists>x\<in>set (mn_adapter (fst (w_kernel w))). sm_payload (ref_get (tm_sender x)) = [1, 2, 3])
       \<and> conveyed (\<lambda>log. log) [] [] [7, 8] (Wrap32 137) (fst (snd (snd (w_kernel w))) 3) [7, 8] (mn_adapter (fst (w_kernel w)))
     | None \<Rightarrow> False) | _ \<Rightarrow> False"
proof -
  have ends: "case demo_opened of Some (Inr b, s1) \<Rightarrow> b \<and> (case demo_main s1 of Some (r, e, w) \<Rightarrow>
       snd (snd (snd (w_kernel w))) 3 = [7, 8] \<and> (\<exists>x\<in>set (mn_adapter (fst (w_kernel w))). sm_payload (ref_get (tm_sender x)) = [1, 2, 3])
     | None \<Rightarrow> False) | _ \<Rightarrow> False"
    by code_simp
  have "quiet (\<lambda>k. ((\<lambda>(p, t, w). t) k, (\<lambda>(p, t, w). w) k)) (me_clock demo_minnow_env)"
    by (simp add: quiet_def demo_minnow_env_def)
  note start = this echo_adapter_ok [of "\<lambda>(p, t, w). t" "\<lambda>(p, t, w). w" 3]
  have fresh: "mn_tcp (minnow_new ([] :: tcp_message list)) = None" "\<not> mn_outbound_shutdown (minnow_new ([] :: tcp_message list))"
    "mn_adapter (minnow_new ([] :: tcp_message list)) = []"
    "w_kernel demo_minnow_world = (minnow_new [], (\<lambda>_. [1, 2, 3]), (\<lambda>_. []), (\<lambda>_. []))" "fw_fd (w_fds demo_minnow_world 0) = 3"
    by (simp_all add: minnow_new_def demo_minnow_world_def)
  from minnow_conveys [OF demo_conveys start _ _ fresh disjI1 [OF refl], of small_config demo_gni demo_adapter_config 3 "Some 2" 1]
  obtain r e1 w1 m1 k1 r' e2 w2 m2 k2 where "demo_opened = Some (r, e1, w1)" "demo_main (e1, w1) = Some (r', e2, w2)"
    "w_kernel w2 = (m2, k2)" "conveyed (\<lambda>log. log) [] [] [7, 8] (Wrap32 137) ((case k2 of (p, t, w) \<Rightarrow> t) 3) ((case k2 of (p, t, w) \<Rightarrow> w) 3) (mn_adapter m2)"
    by (auto simp: small_config_def)
  with ends show ?thesis by (cases k2) (auto split: sum.splits)
qed

end
