(* ===== verification/Lossy_Adapter.thy ===== *)
theory Lossy_Adapter
  imports Minnow_Socket
begin

text \<open>
  What the adapter of \<open>util/lossy_fd_adapter.hh\<close> does to the messages, over any adapter whose loss
  rates do not change while it is used: the fate of every message is decided by the random engine
  alone, and a run of the lossy adapter is a run of the underlying one without the messages dropped.
\<close>

subsection \<open>Runs of an adapter\<close>

datatype adapter_call = Reads | Writes tcp_message | Ticks u64

text \<open>The calls one after the other, with what the reads return.\<close>

fun adapter_run :: "('a, 'k) adapter_ops \<Rightarrow> adapter_call list \<Rightarrow> 'a \<Rightarrow> ('k, 'a \<times> tcp_message option list) sys" where
  "adapter_run ops [] a = io_return (a, [])"
| "adapter_run ops (Reads # cs) a =
     io_bind (ao_read ops a) (\<lambda>(a, msg). io_bind (adapter_run ops cs a) (\<lambda>(a, msgs). io_return (a, msg # msgs)))"
| "adapter_run ops (Writes x # cs) a = io_bind (ao_write ops a x) (adapter_run ops cs)"
| "adapter_run ops (Ticks ms # cs) a = io_bind (ao_tick ops a ms) (adapter_run ops cs)"

subsection \<open>The fate of the messages\<close>

text \<open>A message is lost with probability \<open>rate / 2 ^ 16\<close>: when the number drawn for it, modulo \<open>2 ^ 16\<close>, is
  less than the rate. No number is drawn where nothing can be lost.\<close>

definition fate :: "('g \<Rightarrow> nat \<times> 'g) \<Rightarrow> nat \<Rightarrow> 'g \<Rightarrow> bool \<times> 'g" where
  "fate draw rate g = (if rate = 0 then (False, g) else (fst (draw g) mod 65536 < rate, snd (draw g)))"

text \<open>Which calls of a run lose their message: a read at the downlink's rate, a write at the uplink's.\<close>

fun fates :: "('g \<Rightarrow> nat \<times> 'g) \<Rightarrow> nat \<Rightarrow> nat \<Rightarrow> adapter_call list \<Rightarrow> 'g \<Rightarrow> bool list \<times> 'g" where
  "fates draw up dn [] g = ([], g)"
| "fates draw up dn (c # cs) g =
     (let (lost, g) = (case c of Reads \<Rightarrow> fate draw dn g | Writes _ \<Rightarrow> fate draw up g | Ticks _ \<Rightarrow> (False, g));
          (rest, g) = fates draw up dn cs g
      in (lost # rest, g))"

text \<open>The calls that reach the underlying adapter, and what is left of the results of its reads.\<close>

fun passed_on :: "adapter_call list \<Rightarrow> bool list \<Rightarrow> adapter_call list" where
  "passed_on (Writes x # cs) (lost # ls) = (if lost then passed_on cs ls else Writes x # passed_on cs ls)"
| "passed_on (c # cs) (lost # ls) = c # passed_on cs ls"
| "passed_on _ _ = []"

fun read_results :: "adapter_call list \<Rightarrow> bool list \<Rightarrow> tcp_message option list \<Rightarrow> tcp_message option list" where
  "read_results (Reads # cs) (lost # ls) (msg # msgs) = (if lost then None else msg) # read_results cs ls msgs"
| "read_results (_ # cs) (_ # ls) msgs = read_results cs ls msgs"
| "read_results _ _ _ = []"

definition rates :: "('a, 'k) adapter_ops \<Rightarrow> 'a \<Rightarrow> nat \<times> nat" where
  "rates ops a = (unat (ac_loss_rate_up (ao_config ops a)), unat (ac_loss_rate_dn (ao_config ops a)))"

definition keeps_rates :: "('a, 'k) adapter_ops \<Rightarrow> bool" where
  "keeps_rates ops \<longleftrightarrow>
     (\<forall>a w a' msg w'. ao_read ops a w = (Inr (a', msg), w') \<longrightarrow> rates ops a' = rates ops a)
   \<and> (\<forall>a x w a' w'. ao_write ops a x w = (Inr a', w') \<longrightarrow> rates ops a' = rates ops a)
   \<and> (\<forall>a ms w a' w'. ao_tick ops a ms w = (Inr a', w') \<longrightarrow> rates ops a' = rates ops a)"

text \<open>The TUN adapter keeps its rates: taking over a peer's address changes only the two addresses.\<close>

lemma tun_keeps_rates: "keeps_rates (tun_ops sys gni gai)"
proof -
  have accept: "ac_loss_rate_up (ad_cfg ad') = ac_loss_rate_up (ad_cfg ad) \<and> ac_loss_rate_dn (ad_cfg ad') = ac_loss_rate_dn (ad_cfg ad)"
    if "unwrap_tcp_in_ip gni gai ad d = Inr (ad', msg)" for ad d ad' msg
    using that by (auto simp: unwrap_tcp_in_ip_def accept_segment_def adopt_peer_def set_listening_def Let_def
        split: if_splits prod.splits)
  show ?thesis
    unfolding keeps_rates_def
    by (auto simp: tun_ops_def rates_def tun_read_def io_bind_Inr dest!: accept split: if_splits prod.splits)
qed

subsection \<open>The lossy adapter\<close>

lemma read_results_skip [simp]:
  "read_results (Writes x # cs) (l # ls) = read_results cs ls"
  "read_results (Ticks ms # cs) (l # ls) = read_results cs ls"
  by (rule ext, simp)+

lemma should_drop_fate:
  "should_drop draw (ao_config ops) la up =
     (let (lost, g) = fate draw ((if up then fst else snd) (rates ops (la_adapter la))) (la_rand la)
      in (lost, la\<lparr>la_rand := g\<rparr>))"
proof -
  have "(of_nat r :: u16) < loss \<longleftrightarrow> r mod 65536 < unat loss" for r and loss :: u16
    by (simp add: word_less_nat_alt unat_of_nat)
  moreover have "loss = 0 \<longleftrightarrow> unat loss = 0" for loss :: u16 by (simp add: unat_eq_zero)
  ultimately show ?thesis
    by (cases la) (simp add: should_drop_def fate_def rates_def Let_def split_beta)
qed

lemma lossy_ops_simps:
  "ao_read (lossy_ops draw ops) la = io_bind (ao_read ops (la_adapter la)) (\<lambda>(a, ret).
     let (lost, g) = fate draw (snd (rates ops a)) (la_rand la)
     in io_return (\<lparr>la_rand = g, la_adapter = a\<rparr>, if lost then None else ret))"
  "ao_write (lossy_ops draw ops) la x =
     (let (lost, g) = fate draw (fst (rates ops (la_adapter la))) (la_rand la)
      in if lost then io_return \<lparr>la_rand = g, la_adapter = la_adapter la\<rparr>
         else io_bind (ao_write ops (la_adapter la) x) (\<lambda>a. io_return \<lparr>la_rand = g, la_adapter = a\<rparr>))"
  "ao_tick (lossy_ops draw ops) la ms =
     io_bind (ao_tick ops (la_adapter la) ms) (\<lambda>a. io_return (la\<lparr>la_adapter := a\<rparr>))"
  by (cases la; simp add: lossy_ops_def should_drop_fate Let_def split_beta cong: if_cong)+

text \<open>A run's outcome in terms of the underlying run's.\<close>

definition filtered :: "'g \<Rightarrow> (tcp_message option list \<Rightarrow> tcp_message option list) \<Rightarrow> ('a \<times> tcp_message option list) result \<times> 's
    \<Rightarrow> (('g, 'a) lossy_adapter \<times> tcp_message option list) result \<times> 's" where
  "filtered g results = apfst (map_sum id (\<lambda>(a, msgs). (\<lparr>la_rand = g, la_adapter = a\<rparr>, results msgs)))"

lemma filtered_simps [simp]:
  "filtered g results (Inl e, w) = (Inl e, w)"
  "filtered g results (Inr (a, msgs), w) = (Inr (\<lparr>la_rand = g, la_adapter = a\<rparr>, results msgs), w)"
  by (simp_all add: filtered_def)

lemma lossy_run:
  assumes "keeps_rates ops" and "rates ops (la_adapter la) = (up, dn)"
  shows "adapter_run (lossy_ops draw ops) cs la w =
    (case fates draw up dn cs (la_rand la) of (lost, g) \<Rightarrow>
       filtered g (read_results cs lost) (adapter_run ops (passed_on cs lost) (la_adapter la) w))"
  using assms(2)
proof (induction cs arbitrary: la w)
  case Nil
  then show ?case by (cases la) simp
next
  case (Cons c cs)
  show ?case
  proof (cases c)
    case Reads
    obtain lost g where f: "fate draw dn (la_rand la) = (lost, g)" by (rule prod.exhaust)
    obtain r w1 where r: "ao_read ops (la_adapter la) w = (r, w1)" by (rule prod.exhaust)
    show ?thesis
    proof (cases r)
      case (Inl e)
      with Reads f r show ?thesis by (simp add: lossy_ops_simps io_bind_def split: prod.split)
    next
      case (Inr x)
      obtain a msg where x: "x = (a, msg)" by (rule prod.exhaust)
      have a: "rates ops a = (up, dn)"
        using assms(1) r Inr x Cons.prems unfolding keeps_rates_def by metis
      obtain ls g' where fs: "fates draw up dn cs g = (ls, g')" by (rule prod.exhaust)
      have "adapter_run (lossy_ops draw ops) cs \<lparr>la_rand = g, la_adapter = a\<rparr> w1
          = filtered g' (read_results cs ls) (adapter_run ops (passed_on cs ls) a w1)"
        using Cons.IH [of "\<lparr>la_rand = g, la_adapter = a\<rparr>" w1] a fs by simp
      moreover obtain y w2 where "adapter_run ops (passed_on cs ls) a w1 = (y, w2)" by (rule prod.exhaust)
      ultimately show ?thesis
        using Reads f r Inr x a fs by (cases y) (auto simp: lossy_ops_simps io_bind_def)
    qed
  next
    case (Writes m)
    obtain lost g where f: "fate draw up (la_rand la) = (lost, g)" by (rule prod.exhaust)
    obtain ls g' where fs: "fates draw up dn cs g = (ls, g')" by (rule prod.exhaust)
    have ih: "adapter_run (lossy_ops draw ops) cs \<lparr>la_rand = g, la_adapter = a\<rparr> w1
        = filtered g' (read_results cs ls) (adapter_run ops (passed_on cs ls) a w1)" if "rates ops a = (up, dn)" for a w1
      using Cons.IH [of "\<lparr>la_rand = g, la_adapter = a\<rparr>" w1] that fs by simp
    show ?thesis
    proof (cases lost)
      case True
      with Writes f fs ih [OF Cons.prems] Cons.prems show ?thesis by (simp add: lossy_ops_simps io_bind_def)
    next
      case False
      obtain r w1 where r: "ao_write ops (la_adapter la) m w = (r, w1)" by (rule prod.exhaust)
      show ?thesis
      proof (cases r)
        case (Inl e)
        with False Writes f fs r Cons.prems show ?thesis by (simp add: lossy_ops_simps io_bind_def)
      next
        case (Inr a)
        have "rates ops a = (up, dn)"
          using assms(1) r Inr Cons.prems unfolding keeps_rates_def by metis
        with False Writes f fs r Inr Cons.prems ih show ?thesis by (simp add: lossy_ops_simps io_bind_def)
      qed
    qed
  next
    case (Ticks ms)
    obtain ls g' where fs: "fates draw up dn cs (la_rand la) = (ls, g')" by (rule prod.exhaust)
    obtain r w1 where r: "ao_tick ops (la_adapter la) ms w = (r, w1)" by (rule prod.exhaust)
    show ?thesis
    proof (cases r)
      case (Inl e)
      with Ticks fs r show ?thesis by (simp add: lossy_ops_simps io_bind_def)
    next
      case (Inr a)
      have "rates ops a = (up, dn)"
        using assms(1) r Inr Cons.prems unfolding keeps_rates_def by metis
      with Ticks fs r Inr Cons.IH [of "la\<lparr>la_adapter := a\<rparr>" w1] show ?thesis
        by (simp add: lossy_ops_simps io_bind_def)
    qed
  qed
qed

subsection \<open>Properties\<close>

text \<open>C13: a lossy adapter loses exactly the messages that the random engine says: any sequence of reads,
  writes and ticks does what the underlying adapter does when it is given only the writes that are
  not lost, and of what it reads the lost messages are left out. A write is lost when its number,
  modulo \<open>2 ^ 16\<close>, is less than the uplink's rate, a read when it is less than the downlink's; the
  engine is asked once for each, in their order, and not at all where the rate is zero. Exceptions
  are those of the underlying adapter.\<close>

theorem lossy_loses_exactly:
  assumes "keeps_rates ops" and "rates ops (la_adapter la) = (up, dn)"
    and "fates draw up dn cs (la_rand la) = (lost, g)"
  shows "adapter_run (lossy_ops draw ops) cs la w
    = (case adapter_run ops (passed_on cs lost) (la_adapter la) w of
         (Inl e, w') \<Rightarrow> (Inl e, w')
       | (Inr (a, msgs), w') \<Rightarrow> (Inr (\<lparr>la_rand = g, la_adapter = a\<rparr>, read_results cs lost msgs), w'))"
  using lossy_run [OF assms(1,2), of draw cs w] assms(3)
  by (auto simp: filtered_def split: prod.splits sum.splits)

text \<open>An adapter that keeps what is written to it and gives it back, at an uplink that loses half of the
  messages and a downlink that loses none, with an engine that counts in steps of 0x6000.\<close>

definition lossy_config :: "u16 \<Rightarrow> u16 \<Rightarrow> fd_adapter_config" where
  "lossy_config up dn = \<lparr>ac_source = ipv4_address 0, ac_destination = ipv4_address 0, ac_loss_rate_dn = dn, ac_loss_rate_up = up\<rparr>"

definition mailbox_ops :: "(fd_adapter_config \<times> tcp_message list, unit) adapter_ops" where
  "mailbox_ops =
     \<lparr>ao_fd = (\<lambda>a. None),
      ao_read = (\<lambda>(cfg, box). io_return (case box of [] \<Rightarrow> ((cfg, []), None) | x # xs \<Rightarrow> ((cfg, xs), Some x))),
      ao_write = (\<lambda>(cfg, box) x. io_return (cfg, box @ [x])), ao_tick = (\<lambda>a ms. io_return a),
      ao_config = fst, ao_config_mut = (\<lambda>f (cfg, box). (f cfg, box)), ao_set_listening = (\<lambda>l a. a)\<rparr>"

definition numbered :: "u32 \<Rightarrow> tcp_message" where
  "numbered n = \<lparr>tm_sender = Owned (default_sender_message\<lparr>sm_seqno := Wrap32 n\<rparr>), tm_receiver = Owned default_receiver_message\<rparr>"

theorem lossy_loses_exactly_witness:
  "adapter_run (lossy_ops (\<lambda>g. (g, g + 0x6000)) mailbox_ops)
     [Writes (numbered 1), Writes (numbered 2), Ticks 5, Writes (numbered 3), Writes (numbered 4), Reads, Reads, Reads]
     \<lparr>la_rand = 0, la_adapter = (lossy_config 0x8000 0, [])\<rparr>
   = io_return (\<lparr>la_rand = 0x18000, la_adapter = (lossy_config 0x8000 0, [])\<rparr>, [Some (numbered 3), None, None])"
proof -
  let ?cs = "[Writes (numbered 1), Writes (numbered 2), Ticks 5, Writes (numbered 3), Writes (numbered 4), Reads, Reads, Reads]"
  have keeps: "keeps_rates mailbox_ops"
    by (auto simp: keeps_rates_def mailbox_ops_def rates_def split: list.splits)
  have rates: "rates mailbox_ops (la_adapter \<lparr>la_rand = 0 :: nat, la_adapter = (lossy_config 0x8000 0, [])\<rparr>) = (0x8000, 0)"
    by (simp add: rates_def mailbox_ops_def lossy_config_def)
  have fates: "fates (\<lambda>g. (g, g + 0x6000)) 0x8000 0 ?cs (la_rand \<lparr>la_rand = 0, la_adapter = (lossy_config 0x8000 0, [])\<rparr>)
      = ([True, True, False, False, True, False, False, False], 0x18000 :: nat)"
    by (simp add: fate_def)
  show ?thesis
    by (rule ext, subst lossy_loses_exactly [OF keeps rates fates]) (simp add: mailbox_ops_def io_bind_def io_return_def)
qed

end
