(* ===== verification/Spec2Isabelle.thy ===== *)
theory Spec2Isabelle
  imports Fun_Router Eth_Transfer Clients Minnow_Transfer Lossy_Adapter
begin

text \<open>
  A verification development for the TCP/IP stack in \<open>src/\<close>, \<open>util/\<close> and \<open>apps/\<close>.

  The program. A TCP connection is a \<open>TCPPeer\<close> (\<open>util/tcp_peer.hh\<close>), which joins a
  \<open>TCPSender\<close> and a \<open>TCPReceiver\<close> (\<open>src/\<close>). The sender cuts an outbound \<open>ByteStream\<close>
  into segments, retransmits and obeys the window; the receiver turns 32-bit sequence numbers
  into stream indices (\<open>Wrap32\<close>) and feeds a \<open>Reassembler\<close>, which writes an inbound
  \<open>ByteStream\<close>. Messages become TCP segments in IPv4 datagrams (\<open>util/tcp_segment\<close>,
  \<open>util/ipv4_header\<close>, \<open>util/tcp_over_ip\<close>), written through one \<open>Serializer\<close> and read
  through one \<open>Parser\<close> (\<open>util/parser\<close>) with the Internet checksum. A \<open>NetworkInterface\<close>
  carries datagrams in Ethernet frames and finds the next hop's Ethernet address by ARP; a
  \<open>Router\<close> forwards between interfaces by the longest matching prefix. An \<open>EventLoop\<close> over
  \<open>FileDescriptor\<close>s and \<open>Socket\<close>s drives the whole: a \<open>TCPMinnowSocket\<close> runs a peer over an adapter, a
  TUN device or Ethernet frames in user datagrams, in a loop of its own, and hands the owner a local
  socket. The programs in \<open>apps/\<close> put these parts together.

  The theories, and what each group of lemmas shows.
  \<^item> \<open>Prelude\<close>: the widths of the integers, results (exceptions and undefined behaviour are
    values), runs of a state machine and the locale \<open>step_invariant\<close>. \<open>Text\<close>: numbers and
    addresses as text, and \<open>strncmp\<close>. \<open>Io\<close>: operations with effects that may throw.
  \<^item> \<open>Wrapping_Integers\<close> (\<open>src/wrapping_integers\<close>): \<open>unwrap\<close> is the closest candidate and
    inverts \<open>wrap\<close>; the locale \<open>seqno_codec\<close> is what sender and receiver use of it.
  \<^item> \<open>Byte_Stream\<close> (\<open>src/byte_stream\<close>): bytes come out in order and the capacity is kept; the
    locale \<open>bounded_fifo\<close>.
  \<^item> \<open>Reassembler\<close> (\<open>src/reassembler\<close>): the output is the longest known prefix of the source,
    whatever the order of the substrings, and closes at its end.
  \<^item> \<open>Tcp_Messages\<close>, \<open>Tcp_Receiver\<close>, \<open>Tcp_Sender\<close> (\<open>util/tcp_*_message.hh\<close>,
    \<open>src/tcp_receiver\<close>, \<open>src/tcp_sender\<close>): each operation on every branch, the window, the
    backoff of the timer, and the invariant of the outstanding segments.
  \<^item> \<open>Tcp_Link\<close>: a sender and a receiver over a network that loses, repeats, delays and
    reorders: the receiver's stream is always a prefix of what was written.
  \<^item> \<open>Tcp_Peer\<close> (\<open>util/tcp_peer.hh\<close>): which messages are answered, how long a peer lingers, and
    that the first SYN of a handshake is undefined behaviour.
  \<^item> \<open>Wire_Parser\<close>, \<open>Checksum\<close> (\<open>util/ref.hh\<close>, \<open>util/parser\<close>, \<open>util/checksum.hh\<close>): parsing
    does not depend on how the bytes are cut into chunks; data with its checksum in it verifies.
    The locale for a format that round trips is instantiated by every header below.
  \<^item> \<open>Ethernet\<close>, \<open>Ipv4\<close>, \<open>Arp\<close>, \<open>Tcp_Segment\<close> (the files of those names in \<open>util/\<close>): round
    trips and which inputs are accepted. \<open>Summary\<close> (\<open>util/helpers.cc\<close>, the \<open>to_string\<close>
    functions): what is printed, and how long it can be.
  \<^item> \<open>Address\<close> (\<open>util/address\<close>): socket addresses as bytes; the resolver is an argument.
  \<^item> \<open>Network_Interface\<close>, \<open>Lan\<close> (\<open>src/network_interface\<close>): sending, learning and ticking refine
    the steps of an abstract table with one entry per neighbour; requests are rate-limited; a
    datagram arrives on the other side of one ARP exchange. What an ARP message does is given to the
    letter also when it ends with an exception (\<open>recv_arp_effects\<close>).
  \<^item> \<open>Router\<close> (\<open>src/router\<close>): the loop finds the first of the longest matching prefixes, a
    datagram is dropped or forwarded with a lower time to live and a good checksum, and \<open>route\<close>
    ends with every queue empty. The interfaces are cells of a heap; the locale \<open>link_layer\<close> is
    what the router uses of them.
  \<^item> \<open>Tcp_Over_Ip\<close> (\<open>util/tcp_over_ip\<close>, \<open>util/fd_adapter.hh\<close>, \<open>util/lossy_fd_adapter.hh\<close>):
    what one adapter wraps its peer unwraps, and only the peer's segments are accepted.
  \<^item> \<open>Lossy_Adapter\<close> (\<open>util/lossy_fd_adapter.hh\<close>): a run of the lossy adapter is a run of the adapter
    below without exactly the messages that the random engine says are lost.
  \<^item> \<open>File_Descriptor\<close>, \<open>Socket\<close> (\<open>util/file_descriptor\<close>, \<open>util/socket\<close>, \<open>util/exception.hh\<close>):
    \<open>write_all\<close> writes all or throws, scattered reads hand out exactly what the kernel gave.
  \<^item> \<open>Tun_Adapter\<close> (\<open>util/tun\<close>, \<open>util/tuntap_adapter\<close>): a message crosses a TUN device unchanged.
  \<^item> \<open>Event_Loop\<close> (\<open>util/eventloop\<close>): a round serves at most one rule, the first interested one,
    detects a busy wait, and ends.
  \<^item> \<open>Captured\<close>, \<open>Loop_Client\<close>: the local variables that closures capture, kept beside the kernel, and the
    locale of a client of the event loop, whose invariant survives a round when its callbacks keep it.
  \<^item> \<open>Stream_Copy\<close> (\<open>apps/bidirectional_stream_copy\<close>): copying loses, repeats and reorders nothing.
  \<^item> \<open>Minnow_Socket\<close>, \<open>Peer_Transfer\<close>, \<open>Minnow_Transfer\<close> (\<open>util/tcp_minnow_socket*.hh\<close>): the socket's
    rules, loop, opening, closing and destruction; what a peer keeps of the stream in each of its operations; and
    that the owner reads a prefix of what the remote end wrote while only genuine segments are sent.
  \<^item> \<open>Program\<close>, \<open>Owner\<close>: what the programs share: how \<open>main\<close> ends, the system they run on, the debug
    handler, the random engine; and the scope of a \<open>TCPMinnowSocket\<close> in its owner's thread.
  \<^item> \<open>Fun_Router\<close> (\<open>apps/fun_router.cc\<close>): whatever its arguments, the router program keeps as many rules,
    ports and interfaces as belong together, and every route leads to an interface that exists.
  \<^item> \<open>Eth_Udp\<close>, \<open>Eth_Transfer\<close> (\<open>apps/tcp_eth_udp.cc\<close>): the internal errors of its adapter cannot happen, and a
    message crosses Ethernet in user datagrams unchanged.
  \<^item> \<open>Tcp_Ipv4\<close> (\<open>apps/tcp_ipv4.cc\<close>): its options are read from the left, and never beyond the arguments.
  \<^item> \<open>Clients\<close> (\<open>apps/webget.cc\<close>, \<open>apps/tcp_native.cc\<close>, \<open>apps/ip_raw.cc\<close>): a page is printed whole.

  Representation. A class is a record, a method a function from the old state to a result with
  the new one, a callback that only emits (\<open>transmit\<close>, an output port) a list of what it was
  given; the messages of one operation of a peer are handed to the adapter after it. An operation that
  throws gives the exception; the partial changes it may have made to its object are given where a caller comes
  back to the object, and for the network interface by \<open>recv_arp_effects\<close>. Wrapping integers are words; sizes of strings in memory are natural numbers. Queues are
  lists, hash maps finite mappings. The kernel, the resolver, the random engine and the closures
  of the event loop are arguments; the hypotheses about them state their documented behaviour.

  Bounds. Loops are recursive functions proved to terminate by a measure (the buffer that
  shrinks, the queue that empties, the 128 iterations of a busy rule). The two traversals of the
  event loop's lists can be extended by the closures they call and need not end, so they give an
  option, and a theorem says when they return. The loops that wait for events, those of
  \<open>bidirectional_stream_copy\<close>, of the TCP thread and of the router program, and the fetching of
  a page get a number of rounds, since they may run for ever; a run that is cut off gives \<open>Inr False\<close>. What is shown of
  them holds for every number of rounds, and for fetching it is shown how many are enough.
  The theorems about a whole connection are for streams shorter than \<open>2 ^ 31 - 2\<close> bytes: the network there
  keeps every message for ever, and a message of an earlier round of the 32-bit sequence numbers
  could not be told from a new one.

  Not modelled: that the two threads of a \<open>TCPMinnowSocket\<close> run at the same time. The thread's loop and
  the owner's steps are both modelled, each with the kernel that the other may change between calls as an
  argument; the members that they share are taken to be used by one of them at a time. Further the text that the programs print for people, except where making
  it may throw; floating point, which only \<open>apps/tcp_ipv4.cc\<close> uses, for its rates of loss; and the tests.
\<close>

end
